(* ===== verification/Gw_Prelude.thy ===== *)
theory Gw_Prelude
  imports Complex_Main "HOL-Library.AList" "HOL-Library.Word"
begin

section \<open>Shared vocabulary of the gateway model\<close>

text \<open>
  What every component of the model uses: the exceptions a handler can raise, Python's
  \<open>dict\<close> and \<open>OrderedDict\<close> as association lists in insertion order, the string methods
  the parsers call, floating point numbers with an infinity, and the running-minimum loop
  that the cost-based routers share.  The generic lemmas on them are collected here and
  declared for the simplifier, so that the component theories only reason about what is
  particular to them.
\<close>

named_theorems dict_simps \<open>rewrite rules for dictionaries\<close>
named_theorems gw_defs \<open>definitions to unfold when evaluating a concrete run\<close>


subsection \<open>Exceptions\<close>

datatype py_error =
    ZeroDivisionError
  | IndexError
  | KeyError
  | ValueError
  | TypeError
  | OverflowError
  | AttributeError
  | TokenizerUnavailable
  | DagError string
  | NotModelled
  | OutOfFuel

text \<open>
  \<open>NotModelled\<close> is not an exception of the program: a definition returns it for a value its
  types do not cover (an infinite float, a code point above 255, a JSON value of another type
  than the field is declared with), so that nothing is claimed of it.  \<open>OutOfFuel\<close> is what a
  parser with a recursion budget returns when the budget is used up.
\<close>

type_synonym 'a result = "py_error + 'a"

fun res_bind :: "'a result \<Rightarrow> ('a \<Rightarrow> 'b result) \<Rightarrow> 'b result" where
  "res_bind (Inl e) f = Inl e"
| "res_bind (Inr x) f = f x"

lemma res_bind_Inr_iff [simp]:
  "res_bind r f = Inr y \<longleftrightarrow> (\<exists>x. r = Inr x \<and> f x = Inr y)"
  by (cases r) auto


lemma res_bind_Inl_iff [simp]:
  "res_bind r f = Inl e \<longleftrightarrow> r = Inl e \<or> (\<exists>x. r = Inr x \<and> f x = Inl e)"
  by (cases r) auto


subsection \<open>Floats\<close>

text \<open>
  A Python \<open>float\<close> is modelled by an exact rational, so rounding is not modelled; where
  the code uses \<open>float("inf")\<close> the type \<open>xfloat\<close> adds it.
\<close>

type_synonym pyfloat = rat

datatype xfloat = Fin pyfloat | PInf

fun xle :: "xfloat \<Rightarrow> xfloat \<Rightarrow> bool" where
  "xle _ PInf = True"
| "xle PInf (Fin _) = False"
| "xle (Fin x) (Fin y) = (x \<le> y)"

fun xless :: "xfloat \<Rightarrow> xfloat \<Rightarrow> bool" where
  "xless PInf _ = False"
| "xless (Fin _) PInf = True"
| "xless (Fin x) (Fin y) = (x < y)"

lemma xless_le: "xless x y \<longleftrightarrow> \<not> xle y x"
  by (cases x; cases y) auto

lemma xle_refl [simp]: "xle x x"
  by (cases x) auto

lemma xle_trans [trans]: "xle x y \<Longrightarrow> xle y z \<Longrightarrow> xle x z"
  by (cases x; cases y; cases z) auto

lemma xle_linear: "xle x y \<or> xle y x"
  by (cases x; cases y) auto


subsection \<open>Dictionaries\<close>

text \<open>
  A \<open>dict\<close> is an association list in insertion order: \<open>AList.update\<close> overwrites in
  place or appends, which is what \<open>d[k] = v\<close> does, and \<open>AList.delete\<close> is \<open>d.pop(k, None)\<close>.
\<close>

type_synonym ('k, 'v) dict = "('k \<times> 'v) list"

definition dkeys :: "('k, 'v) dict \<Rightarrow> 'k list" where
  "dkeys d = map fst d"

definition dget :: "('k, 'v) dict \<Rightarrow> 'k \<Rightarrow> 'v \<Rightarrow> 'v" where
  "dget d k v = (case map_of d k of None \<Rightarrow> v | Some w \<Rightarrow> w)"

definition dict_ok :: "('k, 'v) dict \<Rightarrow> bool" where
  "dict_ok d \<longleftrightarrow> distinct (map fst d)"

text \<open>\<open>OrderedDict.move_to_end\<close> of a present key, and \<open>popitem(last=False)\<close>.\<close>

definition move_to_end :: "'k \<Rightarrow> ('k, 'v) dict \<Rightarrow> ('k, 'v) dict" where
  "move_to_end k d =
     (case map_of d k of None \<Rightarrow> d | Some v \<Rightarrow> AList.delete k d @ [(k, v)])"

lemma map_of_update [simp]: "map_of (AList.update k v d) = (map_of d)(k \<mapsto> v)"
  by (rule update_conv')

lemma map_of_delete [simp]: "map_of (AList.delete k d) = (map_of d)(k := None)"
  by (rule delete_conv')

lemma dget_update [simp]: "dget (AList.update k v d) k' w = (if k' = k then v else dget d k' w)"
  by (simp add: dget_def)

lemma dget_delete [simp]: "dget (AList.delete k d) k' w = (if k' = k then w else dget d k' w)"
  by (simp add: dget_def)

lemma dget_Nil [simp]: "dget [] k w = w"
  by (simp add: dget_def)

lemma dict_ok_Nil [simp]: "dict_ok []"
  by (simp add: dict_ok_def)

lemma dict_ok_update [simp]: "dict_ok d \<Longrightarrow> dict_ok (AList.update k v d)"
  by (simp add: dict_ok_def distinct_update)

lemma dict_ok_delete [simp]: "dict_ok d \<Longrightarrow> dict_ok (AList.delete k d)"
  by (simp add: dict_ok_def distinct_delete)

lemma set_dkeys_update [simp]: "set (dkeys (AList.update k v d)) = insert k (set (dkeys d))"
  by (simp add: dkeys_def dom_update)

lemma set_dkeys_delete [simp]: "set (dkeys (AList.delete k d)) = set (dkeys d) - {k}"
  by (auto simp: dkeys_def delete_keys)

lemma map_of_Some_dkeys: "map_of d k = Some v \<Longrightarrow> k \<in> set (dkeys d)"
  by (force simp: dkeys_def dest: map_of_SomeD)

lemma map_of_None_dkeys: "map_of d k = None \<longleftrightarrow> k \<notin> set (dkeys d)"
  by (simp add: dkeys_def map_of_eq_None_iff)

lemma map_of_move_to_end [simp]:
  "dict_ok d \<Longrightarrow> map_of (move_to_end k d) = map_of d"
  by (rule ext) (auto simp: move_to_end_def map_of_append map_add_def split: option.split)

lemma dict_ok_move_to_end [simp]: "dict_ok d \<Longrightarrow> dict_ok (move_to_end k d)"
  by (auto simp: move_to_end_def dict_ok_def distinct_delete delete_keys distinct_removeAll split: option.split)

lemma length_delete_present:
  "dict_ok d \<Longrightarrow> k \<in> set (dkeys d) \<Longrightarrow> Suc (length (AList.delete k d)) = length d"
  by (induction d) (auto simp: dict_ok_def dkeys_def delete_idem)

lemma length_move_to_end [simp]:
  "dict_ok d \<Longrightarrow> length (move_to_end k d) = length d"
  by (auto simp: move_to_end_def length_delete_present dest: map_of_Some_dkeys split: option.split)

lemma length_delete_le_dict: "length (AList.delete k d) \<le> length d"
  by (simp add: AList.delete_eq)


subsection \<open>Strings\<close>

text \<open>
  A \<open>str\<close> is modelled on the code points below 256, so that \<open>char\<close> is its element type:
  \<open>strip\<close>, \<open>lower\<close>, \<open>split\<close> and \<open>partition\<close> below are exact there.
\<close>

definition py_isspace :: "char \<Rightarrow> bool" where
  "py_isspace c \<longleftrightarrow> (let n = (of_char c :: nat) in
     9 \<le> n \<and> n \<le> 13 \<or> 28 \<le> n \<and> n \<le> 32 \<or> n = 133 \<or> n = 160)"

definition py_strip :: "string \<Rightarrow> string" where
  "py_strip s = rev (dropWhile py_isspace (rev (dropWhile py_isspace s)))"

definition py_lower_char :: "char \<Rightarrow> char" where
  "py_lower_char c = (let n = (of_char c :: nat) in
     if 65 \<le> n \<and> n \<le> 90 \<or> 192 \<le> n \<and> n \<le> 222 \<and> n \<noteq> 215 then char_of (n + 32) else c)"

definition py_lower :: "string \<Rightarrow> string" where
  "py_lower s = map py_lower_char s"

definition py_isdigit :: "char \<Rightarrow> bool" where
  "py_isdigit c \<longleftrightarrow> (let n = (of_char c :: nat) in 48 \<le> n \<and> n \<le> 57)"

definition digit_val :: "char \<Rightarrow> nat" where
  "digit_val c = of_char c - 48"

text \<open>\<open>s.split(c)\<close> with a one-character separator: never empty, keeps empty fields.\<close>

fun py_split :: "char \<Rightarrow> string \<Rightarrow> string list" where
  "py_split c [] = [[]]"
| "py_split c (x # xs) =
     (if x = c then [] # py_split c xs
      else (case py_split c xs of [] \<Rightarrow> [[x]] | f # fs \<Rightarrow> (x # f) # fs))"

text \<open>\<open>s.partition(c)\<close>: what is before the first separator, whether it was found, what is after.\<close>

fun py_partition :: "char \<Rightarrow> string \<Rightarrow> string \<times> bool \<times> string" where
  "py_partition c [] = ([], False, [])"
| "py_partition c (x # xs) =
     (if x = c then ([], True, xs)
      else (let (a, found, b) = py_partition c xs in (x # a, found, b)))"

fun py_join :: "char \<Rightarrow> string list \<Rightarrow> string" where
  "py_join c [] = []"
| "py_join c [f] = f"
| "py_join c (f # fs) = f @ c # py_join c fs"

lemma py_split_ne [simp]: "py_split c s \<noteq> []"
  by (induction s) (auto split: list.split)

lemma py_split_plain [simp]: "c \<notin> set s \<Longrightarrow> py_split c s = [s]"
  by (induction s) auto

lemma py_split_append:
  "c \<notin> set f \<Longrightarrow> py_split c (f @ c # s) = f # py_split c s"
  by (induction f) auto

lemma py_split_join:
  "fs \<noteq> [] \<Longrightarrow> \<forall>f \<in> set fs. c \<notin> set f \<Longrightarrow> py_split c (py_join c fs) = fs"
  by (induction c fs rule: py_join.induct) (auto simp: py_split_append)

lemma py_partition_plain: "c \<notin> set s \<Longrightarrow> py_partition c s = (s, False, [])"
  by (induction s) auto

lemma py_partition_found:
  "c \<notin> set a \<Longrightarrow> py_partition c (a @ c # b) = (a, True, b)"
  by (induction a) auto

lemma dropWhile_none: "\<forall>x \<in> set xs. \<not> P x \<Longrightarrow> dropWhile P xs = xs"
  by (cases xs) auto

lemma py_strip_id: "\<forall>c \<in> set s. \<not> py_isspace c \<Longrightarrow> py_strip s = s"
  by (simp add: py_strip_def dropWhile_none)


subsection \<open>The running-minimum loop\<close>

text \<open>
  \<open>best = None; best_cost = inf; for b in cands: if cost(b) < best_cost: best, best_cost = b, cost(b)\<close>:
  the loop of the cost-based routers.  The comparison is strict, so the first of several
  cheapest candidates wins.
\<close>

fun argmin_loop :: "('a \<Rightarrow> pyfloat) \<Rightarrow> 'a list \<Rightarrow> ('a \<times> pyfloat) option \<Rightarrow> ('a \<times> pyfloat) option" where
  "argmin_loop cost [] best = best"
| "argmin_loop cost (b # bs) best =
     argmin_loop cost bs
       (case best of
          None \<Rightarrow> Some (b, cost b)
        | Some (_, c) \<Rightarrow> if cost b < c then Some (b, cost b) else best)"

lemma argmin_loop_Some:
  "argmin_loop cost bs (Some (a, cost a)) = Some (r, c) \<Longrightarrow>
     c = cost r \<and> r \<in> set (a # bs) \<and> (\<forall>b \<in> set (a # bs). cost r \<le> cost b)"
proof (induction bs arbitrary: a)
  case (Cons b bs)
  show ?case
  proof (cases "cost b < cost a")
    case True
    with Cons.prems have "argmin_loop cost bs (Some (b, cost b)) = Some (r, c)" by simp
    from Cons.IH [OF this] True show ?thesis by fastforce
  next
    case False
    with Cons.prems have "argmin_loop cost bs (Some (a, cost a)) = Some (r, c)" by simp
    from Cons.IH [OF this] False show ?thesis by fastforce
  qed
qed simp

lemma argmin_loop_total: "argmin_loop cost bs (Some p) \<noteq> None"
  by (induction bs arbitrary: p) (auto split: prod.split)

lemma argmin_loop_None_iff [simp]: "argmin_loop cost bs None = None \<longleftrightarrow> bs = []"
  by (cases bs) (auto simp: argmin_loop_total)

lemma argmin_loop_ex: "bs \<noteq> [] \<Longrightarrow> \<exists>b c. argmin_loop cost bs None = Some (b, c)"
  using argmin_loop_None_iff [of cost bs] by (cases "argmin_loop cost bs None") auto

lemma argmin_loop_min:
  assumes "argmin_loop cost bs None = Some (r, c)"
  shows "c = cost r" and "r \<in> set bs" and "b \<in> set bs \<Longrightarrow> cost r \<le> cost b"
  using assms argmin_loop_Some [of cost "tl bs" "hd bs" r c] by (cases bs; auto)+


subsection \<open>Sorting\<close>

lemma insort_key_map: "insort_key f (g x) (map g ys) = map g (insort_key (\<lambda>y. f (g y)) x ys)"
  by (induction ys) auto

lemma sort_key_map: "sort_key f (map g xs) = map g (sort_key (\<lambda>x. f (g x)) xs)"
  by (induction xs) (auto simp: insort_key_map)

lemma sorted_take_drop:
  assumes "sorted (map f xs)" and "x \<in> set (take n xs)" and "y \<in> set (drop n xs)"
  shows "f x \<le> f y"
proof -
  have "sorted (map f (take n xs) @ map f (drop n xs))"
    using assms(1) by (simp flip: map_append)
  then show ?thesis using assms(2,3) by (simp add: sorted_append)
qed

end
