(* ===== verification/Hashing.thy ===== *)
theory Hashing
  imports Gw_Prelude "HOL-Library.Sublist"
begin

unbundle bit_operations_syntax

section \<open>Block hashing\<close>

text \<open>
  \<^verbatim>\<open>gateway/hashing.py\<close> and \<^verbatim>\<open>gateway/extensions/bpe_hashing.py\<close>: the FNV-1a hash on 64-bit
  words, the chained hashes of the full blocks of a prompt, over its UTF-8 bytes or over
  token ids, and the token counts used for quotas.  The tokenizer is a third-party package:
  its loader is the parameter \<open>load\<close>, a tokenizer is a function from a prompt to its
  unsigned 32-bit token ids.
\<close>

type_synonym byte = "8 word"
type_synonym block_hash = "64 word"
type_synonym token_id = "32 word"
type_synonym tokenizer = "string \<Rightarrow> token_id list"

definition FNV_OFFSET :: block_hash where
  "FNV_OFFSET = 0xCBF29CE484222325"

definition FNV_PRIME :: block_hash where
  "FNV_PRIME = 0x100000001B3"

text \<open>One turn of the hash loop; the product of two 64-bit words is taken modulo \<open>2 ^ 64\<close>, the mask.\<close>

definition fnv_step :: "block_hash \<Rightarrow> byte \<Rightarrow> block_hash" where
  "fnv_step h b = (h XOR ucast b) * FNV_PRIME"

definition fnv1a :: "byte list \<Rightarrow> block_hash" where
  "fnv1a data = foldl fnv_step FNV_OFFSET data"

text \<open>\<open>s.encode("utf-8", "ignore")\<close> on code points below 256: one byte or two.\<close>

definition utf8_char :: "char \<Rightarrow> byte list" where
  "utf8_char c = (let n = (of_char c :: nat) in
     if n < 128 then [of_nat n] else [of_nat (192 + n div 64), of_nat (128 + n mod 64)])"

definition utf8_encode :: "string \<Rightarrow> byte list" where
  "utf8_encode s = concat (map utf8_char s)"

definition stable_seed :: "string \<Rightarrow> block_hash" where
  "stable_seed s = fnv1a (utf8_encode s)"

text \<open>\<open>x.to_bytes(8, "little")\<close> and \<open>x.to_bytes(4, "little")\<close>.\<close>

definition to_bytes8 :: "block_hash \<Rightarrow> byte list" where
  "to_bytes8 w = map (\<lambda>i. ucast (drop_bit (8 * i) w)) [0..<8]"

definition to_bytes4 :: "token_id \<Rightarrow> byte list" where
  "to_bytes4 w = map (\<lambda>i. ucast (drop_bit (8 * i) w)) [0..<4]"

definition py_slice :: "'a list \<Rightarrow> nat \<Rightarrow> nat \<Rightarrow> 'a list" where
  "py_slice xs i j = take (j - i) (drop i xs)"

text \<open>
  The loop over the block indices that both hashers run: block \<open>i\<close> is hashed together
  with the hash of block \<open>i - 1\<close>.
\<close>

fun chain_loop ::
  "(block_hash \<Rightarrow> 'u list \<Rightarrow> block_hash) \<Rightarrow> 'u list \<Rightarrow> nat \<Rightarrow> nat list \<Rightarrow> block_hash \<Rightarrow> block_hash list"
where
  "chain_loop hb raw bc [] prev = []"
| "chain_loop hb raw bc (i # is) prev =
     (let h = hb prev (py_slice raw (i * bc) ((i + 1) * bc)) in h # chain_loop hb raw bc is h)"

definition char_hash_block :: "block_hash \<Rightarrow> byte list \<Rightarrow> block_hash" where
  "char_hash_block prev chunk = fnv1a (to_bytes8 prev @ chunk)"

definition chain_blocks ::
  "(block_hash \<Rightarrow> 'u list \<Rightarrow> block_hash) \<Rightarrow> 'u list \<Rightarrow> int \<Rightarrow> int \<Rightarrow> int \<Rightarrow> block_hash list result"
where
  "chain_blocks hb raw bc cutoff seed =
     (if bc = 0 then Inl ZeroDivisionError
      else let n_full = int (length raw) div bc; n = min n_full cutoff
           in Inr (chain_loop hb raw (nat bc) [0..<nat n] (word_of_int seed)))"

definition block_hashes :: "string \<Rightarrow> int \<Rightarrow> int \<Rightarrow> int \<Rightarrow> block_hash list result" where
  "block_hashes prompt block_chars cutoff_blocks seed =
     chain_blocks char_hash_block (utf8_encode prompt) block_chars cutoff_blocks seed"


subsection \<open>Token-id hashing\<close>

text \<open>
  The module keeps the last tokenizer it loaded, by name; \<open>load\<close> is what importing the
  package and fetching the model gives, \<open>None\<close> when either fails.
\<close>

type_synonym tok_cache = "(string \<times> tokenizer) option"

definition load_tokenizer ::
  "(string \<Rightarrow> tokenizer option) \<Rightarrow> tok_cache \<Rightarrow> string \<Rightarrow> tokenizer result \<times> tok_cache"
where
  "load_tokenizer load cache name =
     (let fetched = (case load name of
                       None \<Rightarrow> (Inl TokenizerUnavailable, cache)
                     | Some tok \<Rightarrow> (Inr tok, Some (name, tok)))
      in case cache of
           None \<Rightarrow> fetched
         | Some (cached_name, tok) \<Rightarrow> if cached_name = name then (Inr tok, cache) else fetched)"

definition tokenize_ids ::
  "(string \<Rightarrow> tokenizer option) \<Rightarrow> tok_cache \<Rightarrow> string \<Rightarrow> string \<Rightarrow> token_id list result \<times> tok_cache"
where
  "tokenize_ids load cache prompt name =
     (let (r, cache') = load_tokenizer load cache name
      in (res_bind r (\<lambda>tok. Inr (tok prompt)), cache'))"

definition count_tokens ::
  "(string \<Rightarrow> tokenizer option) \<Rightarrow> tok_cache \<Rightarrow> string \<Rightarrow> string \<Rightarrow> nat result \<times> tok_cache"
where
  "count_tokens load cache prompt name =
     (let (r, cache') = tokenize_ids load cache prompt name
      in (res_bind r (\<lambda>ids. Inr (length ids)), cache'))"

datatype hash_mode = CharMode | BpeMode

definition count_tokens_with_fallback ::
  "(string \<Rightarrow> tokenizer option) \<Rightarrow> tok_cache \<Rightarrow> string \<Rightarrow> int \<Rightarrow> string \<Rightarrow> bool \<Rightarrow>
   (nat \<times> hash_mode) \<times> tok_cache"
where
  "count_tokens_with_fallback load cache prompt chars_per_token name use_tokenizer =
     (let heuristic = (max 1 (length prompt div nat (max 1 chars_per_token)), CharMode)
      in if use_tokenizer
         then (case count_tokens load cache prompt name of
                 (Inr n, cache') \<Rightarrow> ((max 1 n, BpeMode), cache')
               | (Inl e, cache') \<Rightarrow> (heuristic, cache'))
         else (heuristic, cache))"

text \<open>\<open>_hash_block\<close>: two nested loops, over the bytes of the previous hash and over the bytes of every id.\<close>

definition hash_block :: "block_hash \<Rightarrow> token_id list \<Rightarrow> block_hash" where
  "hash_block prev ids =
     foldl (\<lambda>h tid. foldl fnv_step h (to_bytes4 tid)) (foldl fnv_step FNV_OFFSET (to_bytes8 prev)) ids"

definition bpe_block_hashes ::
  "(string \<Rightarrow> tokenizer option) \<Rightarrow> tok_cache \<Rightarrow> string \<Rightarrow> int \<Rightarrow> int \<Rightarrow> string \<Rightarrow> int \<Rightarrow>
   block_hash list result \<times> tok_cache"
where
  "bpe_block_hashes load cache prompt block_tokens cutoff_blocks name seed =
     (let (r, cache') = tokenize_ids load cache prompt name
      in (res_bind r (\<lambda>ids. chain_blocks hash_block ids block_tokens cutoff_blocks seed), cache'))"

definition block_hashes_with_fallback ::
  "(string \<Rightarrow> tokenizer option) \<Rightarrow> tok_cache \<Rightarrow> string \<Rightarrow> int \<Rightarrow> int \<Rightarrow> int \<Rightarrow> string \<Rightarrow> bool \<Rightarrow> int \<Rightarrow>
   (block_hash list \<times> hash_mode) result \<times> tok_cache"
where
  "block_hashes_with_fallback load cache prompt block_chars block_tokens cutoff_blocks name use_bpe seed =
     (let char_based = res_bind (block_hashes prompt block_chars cutoff_blocks seed) (\<lambda>hs. Inr (hs, CharMode))
      in if use_bpe
         then (case bpe_block_hashes load cache prompt block_tokens cutoff_blocks name seed of
                 (Inr hs, cache') \<Rightarrow> (Inr (hs, BpeMode), cache')
               | (Inl TokenizerUnavailable, cache') \<Rightarrow> (char_based, cache')
               | (Inl e, cache') \<Rightarrow> (Inl e, cache'))
         else (char_based, cache))"


subsection \<open>The hash function\<close>

definition FNV_PRIME_INV :: block_hash where
  "FNV_PRIME_INV = 0xCE965057AFF6957B"

lemma FNV_PRIME_inverse: "FNV_PRIME * FNV_PRIME_INV = 1"
  by (simp add: FNV_PRIME_def FNV_PRIME_INV_def)

lemma FNV_PRIME_cancel: "a * FNV_PRIME = b * FNV_PRIME \<longleftrightarrow> a = b"
proof
  assume "a * FNV_PRIME = b * FNV_PRIME"
  then have "a * (FNV_PRIME * FNV_PRIME_INV) = b * (FNV_PRIME * FNV_PRIME_INV)"
    by (simp only: mult.assoc [symmetric])
  then show "a = b" by (simp add: FNV_PRIME_inverse)
qed simp

lemma xor_cancel_right: "(h XOR u) XOR u = (h :: 'a::len word)"
  by (simp add: xor.assoc)

lemma xor_right_inj: "h XOR u = h' XOR u \<longleftrightarrow> h = (h' :: 'a::len word)"
  by (metis xor_cancel_right)

lemma ucast_byte_inj: "(ucast (b :: byte) :: block_hash) = ucast b' \<longleftrightarrow> b = b'"
proof
  assume "(ucast b :: block_hash) = ucast b'"
  then have "uint (ucast b :: block_hash) = uint (ucast b' :: block_hash)" by simp
  then show "b = b'" by (simp add: uint_up_ucast is_up word_uint_eq_iff)
qed simp

lemma fnv_step_inj_state: "fnv_step h b = fnv_step h' b \<longleftrightarrow> h = h'"
  by (simp add: fnv_step_def FNV_PRIME_cancel xor_right_inj)

lemma fnv_step_inj_byte: "fnv_step h b = fnv_step h b' \<longleftrightarrow> b = b'"
  by (metis FNV_PRIME_cancel fnv_step_def ucast_byte_inj xor.commute xor_right_inj)

lemma foldl_fnv_inj: "foldl fnv_step h bs = foldl fnv_step h' bs \<longleftrightarrow> h = h'"
  by (induction bs arbitrary: h h') (auto simp: fnv_step_inj_state)

text \<open>
  Two byte strings that differ in exactly one byte never have the same FNV-1a hash:
  each round of the loop is a bijection of the 64-bit state and injective in its byte.
\<close>

theorem fnv1a_one_byte:
  "fnv1a (xs @ b # ys) = fnv1a (xs @ b' # ys) \<longleftrightarrow> b = b'"
  by (simp add: fnv1a_def foldl_fnv_inj fnv_step_inj_byte)


subsection \<open>The block chain\<close>

lemma length_chain_loop [simp]: "length (chain_loop hb raw bc is prev) = length is"
  by (induction "is" arbitrary: prev) (auto simp: Let_def)

lemma chain_loop_append:
  "\<exists>p. chain_loop hb raw bc (is @ js) prev = chain_loop hb raw bc is prev @ chain_loop hb raw bc js p"
  by (induction "is" arbitrary: prev) (auto simp: Let_def)

lemma chain_loop_take:
  "take k (chain_loop hb raw bc is prev) = chain_loop hb raw bc (take k is) prev"
  by (induction "is" arbitrary: prev k) (auto simp: Let_def take_Cons split: nat.split)

lemma py_slice_append:
  "j \<le> length xs \<Longrightarrow> py_slice (xs @ ys) i j = py_slice xs i j"
  by (cases "i \<le> j") (auto simp: py_slice_def)

lemma chain_loop_raw_append:
  "\<forall>i \<in> set is. (i + 1) * bc \<le> length xs \<Longrightarrow>
     chain_loop hb (xs @ ys) bc is prev = chain_loop hb xs bc is prev"
  by (induction "is" arbitrary: prev) (auto simp: Let_def py_slice_append)

lemma block_fits:
  assumes "0 < bc" and "i < n div bc"
  shows "(i + 1) * bc \<le> (n::nat)"
proof -
  have "(i + 1) * bc \<le> (n div bc) * bc" using assms by (intro mult_le_mono1) simp
  also have "\<dots> \<le> n" by (simp add: div_times_less_eq_dividend)
  finally show ?thesis .
qed

lemma chain_blocks_pos:
  assumes "0 < bc"
  shows "chain_blocks hb raw bc cutoff seed =
    Inr (chain_loop hb raw (nat bc) [0..<min (length raw div nat bc) (nat cutoff)] (word_of_int seed))"
proof -
  have "nat (int (length raw) div bc) = length raw div nat bc"
    using assms by (metis int_nat_eq nat_int order_less_le zdiv_int)
  then have "nat (min (int (length raw) div bc) cutoff) = min (length raw div nat bc) (nat cutoff)"
    by (simp add: min_def nat_le_eq_zle split: if_splits) linarith
  then show ?thesis using assms by (simp add: chain_blocks_def Let_def)
qed

lemma chain_blocks_prefix:
  assumes "0 < bc"
    and "chain_blocks hb xs bc cutoff seed = Inr hs"
    and "chain_blocks hb (xs @ ys) bc cutoff seed = Inr hs'"
  shows "prefix hs hs'"
proof -
  let ?n = "min (length xs div nat bc) (nat cutoff)"
  let ?n' = "min (length (xs @ ys) div nat bc) (nat cutoff)"
  have fits: "\<forall>i \<in> set [0..<?n]. (i + 1) * nat bc \<le> length xs"
    using block_fits [of "nat bc" _ "length xs"] assms(1) by auto
  have "?n \<le> ?n'" by (simp add: div_le_mono min.coboundedI1)
  then have "take ?n hs' = chain_loop hb (xs @ ys) (nat bc) [0..<?n] (word_of_int seed)"
    using assms by (auto simp: chain_blocks_pos chain_loop_take take_upt)
  also have "\<dots> = hs"
    using assms(1,2) chain_loop_raw_append [OF fits] by (simp add: chain_blocks_pos)
  finally show ?thesis by (metis take_is_prefix)
qed

lemma utf8_encode_append: "utf8_encode (p @ q) = utf8_encode p @ utf8_encode q"
  by (simp add: utf8_encode_def)

text \<open>
  Appending to a prompt keeps the hashes of the blocks it already had: the chain of a
  conversation's next turn extends the chain of the previous one, for any seed and cutoff.
\<close>

theorem block_hashes_extend:
  assumes "0 < block_chars"
    and "block_hashes p block_chars cutoff seed = Inr hs"
    and "block_hashes (p @ q) block_chars cutoff seed = Inr hs'"
  shows "prefix hs hs'"
  using assms by (auto simp: block_hashes_def utf8_encode_append intro: chain_blocks_prefix)

theorem block_hashes_extend_witness:
  "\<exists>hs hs'. block_hashes ''abcd'' 2 8 0 = Inr hs \<and> block_hashes (''abcd'' @ ''ef'') 2 8 0 = Inr hs' \<and>
     prefix hs hs'"
proof -
  obtain hs where 1: "block_hashes ''abcd'' 2 8 0 = Inr hs"
    by (simp add: block_hashes_def chain_blocks_def Let_def)
  obtain hs' where 2: "block_hashes (''abcd'' @ ''ef'') 2 8 0 = Inr hs'"
    by (simp add: block_hashes_def chain_blocks_def Let_def)
  show ?thesis using block_hashes_extend [OF _ 1 2] 1 2 by simp
qed

text \<open>
  One hash per full block, never more than the cutoff, and the partial trailing block
  is dropped.
\<close>

theorem block_hashes_length:
  assumes "0 < block_chars"
  shows "\<exists>hs. block_hashes p block_chars cutoff seed = Inr hs \<and>
    length hs = min (length (utf8_encode p) div nat block_chars) (nat cutoff)"
  using assms by (simp add: block_hashes_def chain_blocks_pos)

theorem block_hashes_length_witness:
  "\<exists>hs. block_hashes ''abcde'' 2 8 0 = Inr hs \<and> length hs = 2"
  using block_hashes_length [of 2 "''abcde''" 8 0] by (simp add: utf8_encode_def utf8_char_def) (simp add: numeral_2_eq_2)

text \<open>The token hasher is the byte hasher run on the serialised block.\<close>

lemma foldl_fnv_concat:
  "foldl (\<lambda>h tid. foldl fnv_step h (f tid)) h ids = foldl fnv_step h (concat (map f ids))"
  by (induction ids arbitrary: h) auto

lemma hash_block_fnv1a: "hash_block prev ids = fnv1a (to_bytes8 prev @ concat (map to_bytes4 ids))"
  by (simp add: hash_block_def fnv1a_def foldl_fnv_concat)


subsection \<open>The tokenizer cache\<close>

definition tok_cache_ok :: "(string \<Rightarrow> tokenizer option) \<Rightarrow> tok_cache \<Rightarrow> bool" where
  "tok_cache_ok load cache \<longleftrightarrow> (\<forall>name tok. cache = Some (name, tok) \<longrightarrow> load name = Some tok)"

lemma load_tokenizer_transparent:
  "tok_cache_ok load cache \<Longrightarrow>
     fst (load_tokenizer load cache name) = (case load name of None \<Rightarrow> Inl TokenizerUnavailable | Some t \<Rightarrow> Inr t)
     \<and> tok_cache_ok load (snd (load_tokenizer load cache name))"
  by (auto simp: load_tokenizer_def tok_cache_ok_def Let_def split: option.splits)

end
