(* ===== verification/Radix_Tree.thy ===== *)
theory Radix_Tree
  imports Hashing "HOL-Library.Multiset"
begin

section \<open>The prefix tree\<close>

text \<open>
  \<^verbatim>\<open>gateway/radix_tree.py\<close>: the path-compressed tree that maps prefixes of block hashes to the
  backends holding them, with a per-backend LRU.  A node carries its object identity
  (\<open>nid\<close>, what \<open>id(node)\<close> is in the code; nodes are never freed, so identities are
  allocated from a counter), because the LRU refers to nodes by identity: where the code
  mutates a node reached through the LRU, the model updates the node with that identity.
\<close>

type_synonym bid = string

datatype rnode =
  RNode (nid: nat) (edge: "block_hash list") (children: "(block_hash, rnode) dict")
        (holders: "(bid, nat) dict")

type_synonym lru_map = "(bid, nat list) dict"

record RadixTree =
  root :: rnode
  cap :: int
  clock :: nat
  lru :: lru_map
  next_id :: nat

definition RadixTree_init :: "int \<Rightarrow> RadixTree" where
  "RadixTree_init backend_cache_blocks =
     \<lparr>root = RNode 0 [] [] [], cap = backend_cache_blocks, clock = 0, lru = [], next_id = 1\<rparr>"

text \<open>The inner loop of \<open>match\<close> and \<open>insert\<close>: how far an edge agrees with the remaining hashes.\<close>

fun lcp_len :: "'a list \<Rightarrow> 'a list \<Rightarrow> nat" where
  "lcp_len (x # xs) (y # ys) = (if x = y then Suc (lcp_len xs ys) else 0)"
| "lcp_len _ _ = 0"

lemma size_child:
  assumes "(h, c) \<in> set cs"
  shows "size c < Suc (size_list (size_prod (\<lambda>x. 0) size) cs)"
proof -
  have "size c \<le> size_list (size_prod (\<lambda>x. 0) size) cs"
    using assms by (rule size_list_estimation') simp
  then show ?thesis by simp
qed

subsection \<open>Matching\<close>

text \<open>
  One call is one turn of the loop of \<open>match\<close>: \<open>alive\<close> is \<open>None\<close> before the first edge.
\<close>

function match_walk ::
  "rnode \<Rightarrow> block_hash list \<Rightarrow> bid list option \<Rightarrow> nat \<Rightarrow> (bid \<rightharpoonup> nat) \<Rightarrow> (bid \<rightharpoonup> nat)"
where
  "match_walk (RNode i e cs ho) hs alive depth best =
     (case hs of
        [] \<Rightarrow> best
      | h # _ \<Rightarrow>
        (case map_of cs h of
           None \<Rightarrow> best
         | Some child \<Rightarrow>
             let j = lcp_len (edge child) hs;
                 hk = dkeys (holders child);
                 alive' = (case alive of None \<Rightarrow> hk | Some a \<Rightarrow> filter (\<lambda>b. b \<in> set hk) a);
                 depth' = depth + j;
                 best' = (\<lambda>b. if b \<in> set alive' then Some depth' else best b)
             in if alive' = [] then best
                else if j < length (edge child) then best'
                else match_walk child (drop j hs) (Some alive') depth' best'))"
  by pat_completeness auto
termination
  by (relation "measure (\<lambda>(n, _). size n)") (auto simp: size_child dest: map_of_SomeD)

definition radix_match :: "RadixTree \<Rightarrow> block_hash list \<Rightarrow> (bid \<rightharpoonup> nat)" where
  "radix_match t hashes = match_walk (root t) hashes None 0 Map.empty"


subsection \<open>Insertion\<close>

text \<open>\<open>_track\<close>: the node becomes the most recently used one of the backend.\<close>

definition radix_track :: "bid \<Rightarrow> nat \<Rightarrow> lru_map \<Rightarrow> lru_map" where
  "radix_track b i l =
     (let q = dget l b [] in
      AList.update b (if i \<in> set q then removeAll i q @ [i] else q @ [i]) l)"

definition set_holder :: "bid \<Rightarrow> nat \<Rightarrow> rnode \<Rightarrow> rnode" where
  "set_holder b clk n = RNode (nid n) (edge n) (children n) (AList.update b clk (holders n))"

text \<open>
  One call is one turn of the loop of \<open>insert\<close>.  The three branches are a missing child, a
  child whose whole edge matches, and a divergence inside the edge, where the child is split:
  the new upper node takes a copy of the holders, and every holder's LRU learns about it.
\<close>

function insert_walk ::
  "nat \<Rightarrow> bid \<Rightarrow> rnode \<Rightarrow> block_hash list \<Rightarrow> lru_map \<Rightarrow> nat \<Rightarrow> rnode \<times> lru_map \<times> nat"
where
  "insert_walk clk b (RNode i e cs ho) hs l nx =
     (case hs of
        [] \<Rightarrow> (RNode i e cs ho, l, nx)
      | first # _ \<Rightarrow>
        (case map_of cs first of
           None \<Rightarrow>
             let leaf = RNode nx hs [] [(b, clk)]
             in (RNode i e (AList.update first leaf cs) ho, radix_track b nx l, nx + 1)
         | Some child \<Rightarrow>
             let ce = edge child; j = lcp_len ce hs in
             if j = length ce then
               (let l1 = radix_track b (nid child) l;
                    (child', l2, nx') = insert_walk clk b child (drop j hs) l1 nx
                in (RNode i e (AList.update first (set_holder b clk child') cs) ho, l2, nx'))
             else
               (let lower = RNode (nid child) (drop j ce) (children child) (holders child);
                    l1 = fold (\<lambda>b'. radix_track b' nx) (dkeys (holders child)) l;
                    l2 = radix_track b nx l1;
                    kids = [(hd (drop j ce), lower)];
                    sh = AList.update b clk (holders child)
                in if j < length hs then
                     (let leaf = RNode (nx + 1) (drop j hs) [] [(b, clk)];
                          split = RNode nx (take j ce) (AList.update (hd (drop j hs)) leaf kids) sh
                      in (RNode i e (AList.update first split cs) ho, radix_track b (nx + 1) l2, nx + 2))
                   else
                     (RNode i e (AList.update first (RNode nx (take j ce) kids sh) cs) ho, l2, nx + 1))))"
  by pat_completeness auto
termination
  by (relation "measure (\<lambda>(_, _, n, _). size n)") (auto simp: size_child dest: map_of_SomeD)


subsection \<open>Eviction, removal, introspection\<close>

text \<open>All the nodes below and including a node, and the edge length of the node with an identity.\<close>

function nodes :: "rnode \<Rightarrow> rnode list" where
  "nodes (RNode i e cs ho) = RNode i e cs ho # concat (map (\<lambda>p. nodes (snd p)) cs)"
  by pat_completeness auto
termination
  by (relation "measure size") (auto intro: size_child)

definition edge_len :: "rnode \<Rightarrow> nat \<Rightarrow> nat" where
  "edge_len t i = (case find (\<lambda>n. nid n = i) (nodes t) of None \<Rightarrow> 0 | Some n \<Rightarrow> length (edge n))"

text \<open>\<open>node.holders.pop(backend_id, None)\<close> on the node with identity \<open>i\<close>.\<close>

function drop_holder :: "bid \<Rightarrow> nat \<Rightarrow> rnode \<Rightarrow> rnode" where
  "drop_holder b i (RNode k e cs ho) =
     RNode k e (map (\<lambda>p. (fst p, drop_holder b i (snd p))) cs) (if k = i then AList.delete b ho else ho)"
  by pat_completeness auto
termination
  by (relation "measure (\<lambda>(_, _, n). size n)") (auto intro: size_child)

text \<open>The loop of \<open>_evict\<close>: the least recently used node is the head of the queue.\<close>

fun evict_loop :: "bid \<Rightarrow> int \<Rightarrow> rnode \<Rightarrow> nat list \<Rightarrow> int \<Rightarrow> rnode \<times> nat list" where
  "evict_loop b c t [] tot = (t, [])"
| "evict_loop b c t (i # q) tot =
     (if tot > c then evict_loop b c (drop_holder b i t) q (tot - int (edge_len t i))
      else (t, i # q))"

definition lru_total :: "rnode \<Rightarrow> nat list \<Rightarrow> int" where
  "lru_total t q = (\<Sum>i\<leftarrow>q. int (edge_len t i))"

definition radix_evict :: "RadixTree \<Rightarrow> bid \<Rightarrow> RadixTree" where
  "radix_evict t b =
     (let q = dget (lru t) b [];
          (r, q') = evict_loop b (cap t) (root t) q (lru_total (root t) q)
      in t\<lparr>root := r, lru := AList.update b q' (lru t)\<rparr>)"

definition radix_insert :: "RadixTree \<Rightarrow> block_hash list \<Rightarrow> bid \<Rightarrow> RadixTree" where
  "radix_insert t hashes b =
     (if hashes = [] then t
      else let clk = clock t + 1;
               (r, l, nx) = insert_walk clk b (root t) hashes (lru t) (next_id t)
           in radix_evict (t\<lparr>root := r, clock := clk, lru := l, next_id := nx\<rparr>) b)"

definition remove_backend :: "RadixTree \<Rightarrow> bid \<Rightarrow> RadixTree" where
  "remove_backend t b =
     (case map_of (lru t) b of
        None \<Rightarrow> t
      | Some q \<Rightarrow> t\<lparr>root := fold (drop_holder b) q (root t), lru := AList.delete b (lru t)\<rparr>)"

definition held_blocks :: "RadixTree \<Rightarrow> bid \<Rightarrow> int" where
  "held_blocks t b = lru_total (root t) (dget (lru t) b [])"


subsection \<open>What a backend holds\<close>

text \<open>
  The abstraction: the prefixes a backend is recorded for.  A prefix ends inside or at the
  end of some edge, and the backend holds it when it is among the holders of the node below
  that edge.
\<close>

function covers :: "rnode \<Rightarrow> bid \<Rightarrow> block_hash list \<Rightarrow> bool" where
  "covers (RNode i e cs ho) b p =
     (case p of
        [] \<Rightarrow> False
      | h # _ \<Rightarrow>
        (case map_of cs h of
           None \<Rightarrow> False
         | Some c \<Rightarrow>
             let j = lcp_len (edge c) p in
             if j = length p then b \<in> set (dkeys (holders c))
             else if j < length (edge c) then False
             else covers c b (drop j p)))"
  by pat_completeness auto
termination
  by (relation "measure (\<lambda>(n, _, _). size n)") (auto simp: size_child dest: map_of_SomeD)

definition held_prefixes :: "RadixTree \<Rightarrow> bid \<Rightarrow> block_hash list set" where
  "held_prefixes t b = {p. covers (root t) b p}"

function wf_node :: "rnode \<Rightarrow> bool" where
  "wf_node (RNode i e cs ho) \<longleftrightarrow>
     dict_ok cs \<and> dict_ok ho \<and>
     (\<forall>p \<in> set cs. edge (snd p) \<noteq> [] \<and> hd (edge (snd p)) = fst p \<and> wf_node (snd p))"
  by pat_completeness auto
termination
  by (relation "measure size") (auto intro: size_child)

declare match_walk.simps [simp del] insert_walk.simps [simp del] covers.simps [simp del]

lemma lcp_len_le: "lcp_len xs ys \<le> length xs" "lcp_len xs ys \<le> length ys"
  by (induction xs ys rule: lcp_len.induct) auto

lemma lcp_len_take: "lcp_len xs (take i ys) = min (lcp_len xs ys) i"
  by (induction xs ys arbitrary: i rule: lcp_len.induct) (auto simp: take_Cons split: nat.split)

lemma lcp_len_prefix: "take (lcp_len xs ys) xs = take (lcp_len xs ys) ys"
  by (induction xs ys rule: lcp_len.induct) auto

lemma lcp_len_full_left: "lcp_len xs ys = length xs \<longleftrightarrow> prefix xs ys"
  by (induction xs ys rule: lcp_len.induct) (auto simp: neq_Nil_conv)

lemma lcp_len_full_right: "lcp_len xs ys = length ys \<longleftrightarrow> prefix ys xs"
  by (induction xs ys rule: lcp_len.induct) (auto simp: neq_Nil_conv)

lemma lcp_len_pos: "xs \<noteq> [] \<Longrightarrow> hd xs = y \<Longrightarrow> 0 < lcp_len xs (y # ys)"
  by (cases xs) auto

lemma wf_child:
  assumes "wf_node (RNode i e cs ho)" and "map_of cs h = Some c"
  shows "edge c \<noteq> []" and "hd (edge c) = h" and "wf_node c"
  using assms map_of_SomeD by fastforce+


subsection \<open>Matching is longest contiguous prefix\<close>

text \<open>The number of leading indices \<open>1, 2, \<dots>\<close> up to \<open>n\<close> that satisfy a predicate.\<close>

definition contig :: "(nat \<Rightarrow> bool) \<Rightarrow> nat \<Rightarrow> nat" where
  "contig P n = length (takeWhile P [1..<Suc n])"

lemma contig_props:
  shows "contig P n \<le> n"
    and "1 \<le> i \<Longrightarrow> i \<le> contig P n \<Longrightarrow> P i"
    and "contig P n = n \<or> \<not> P (Suc (contig P n))"
proof -
  let ?w = "takeWhile P [1..<Suc n]"
  have len: "length ?w \<le> n" using length_takeWhile_le [of P "[1..<Suc n]"] by (simp del: upt_Suc)
  then show "contig P n \<le> n" by (simp add: contig_def)
  have nth: "?w ! k = Suc k" if "k < length ?w" for k
    using that len takeWhile_nth [OF that] by (simp del: upt_Suc)
  show "P i" if "1 \<le> i" "i \<le> contig P n"
  proof -
    have "i - 1 < length ?w" using that by (simp add: contig_def)
    with nth [of "i - 1"] that(1) have "i \<in> set ?w" by (metis One_nat_def Suc_diff_le diff_Suc_1 nth_mem)
    then show ?thesis by (auto dest: set_takeWhileD)
  qed
  show "contig P n = n \<or> \<not> P (Suc (contig P n))"
  proof (cases "contig P n = n")
    case False
    with len have "length ?w < length [1..<Suc n]" by (simp add: contig_def del: upt_Suc)
    from nth_length_takeWhile [OF this] this show ?thesis by (simp add: contig_def del: upt_Suc)
  qed simp
qed

lemma contig_eqI:
  assumes "k \<le> n" and "\<And>i. 1 \<le> i \<Longrightarrow> i \<le> k \<Longrightarrow> P i" and "k = n \<or> \<not> P (Suc k)"
  shows "contig P n = k"
proof (rule antisym)
  show "contig P n \<le> k"
  proof (rule ccontr)
    assume "\<not> contig P n \<le> k"
    then have "P (Suc k)" and "k < n"
      using contig_props(2) [of "Suc k" P n] contig_props(1) [of P n] by auto
    with assms(3) show False by simp
  qed
  show "k \<le> contig P n"
  proof (rule ccontr)
    assume "\<not> k \<le> contig P n"
    with assms(1,2) contig_props(3) [of P n] show False by auto
  qed
qed

lemma covers_Nil [simp]: "\<not> covers n b []"
  by (cases n) (simp add: covers.simps)

lemma covers_no_child: "map_of cs h = None \<Longrightarrow> \<not> covers (RNode m e cs ho) b (h # p)"
  by (simp add: covers.simps)

lemma covers_child:
  "map_of cs h = Some c \<Longrightarrow>
   covers (RNode m e cs ho) b (h # p) \<longleftrightarrow>
     (let j = lcp_len (edge c) (h # p) in
      if j = length (h # p) then b \<in> set (dkeys (holders c))
      else if j < length (edge c) then False
      else covers c b (drop j (h # p)))"
  by (simp add: covers.simps)

lemma covers_take:
  assumes "map_of cs h = Some c" and "1 \<le> i" and "i \<le> length (h # hs)"
  shows "covers (RNode m e cs ho) b (take i (h # hs)) \<longleftrightarrow>
    (let j = lcp_len (edge c) (h # hs) in
     if i \<le> j then b \<in> set (dkeys (holders c))
     else if j < length (edge c) then False
     else covers c b (take (i - j) (drop j (h # hs))))"
proof -
  obtain q where q: "take i (h # hs) = h # q" using assms(2) by (cases i) auto
  then have len: "length (h # q) = i" using assms(3) by (metis length_take min.absorb2)
  have "lcp_len (edge c) (h # q) = min (lcp_len (edge c) (h # hs)) i"
    by (metis q lcp_len_take)
  then show ?thesis
    unfolding q covers_child [OF assms(1)] len Let_def
    by (simp add: min_def drop_take flip: q)
qed

lemma contig_child:
  assumes "wf_node (RNode m e cs ho)" and "map_of cs h = Some c"
  shows "contig (\<lambda>i. covers (RNode m e cs ho) b (take i (h # hs))) (length (h # hs)) =
    (let j = lcp_len (edge c) (h # hs) in
     if b \<notin> set (dkeys (holders c)) then 0
     else if j < length (edge c) then j
     else j + contig (\<lambda>i. covers c b (take i (drop j (h # hs)))) (length (h # hs) - j))"
proof -
  define j where "j = lcp_len (edge c) (h # hs)"
  define n where "n = length (h # hs)"
  define P where "P = (\<lambda>i. covers (RNode m e cs ho) b (take i (h # hs)))"
  define Q where "Q = (\<lambda>i. covers c b (take i (drop j (h # hs))))"
  define k where "k = contig Q (n - j)"
  define B where "B \<longleftrightarrow> b \<in> set (dkeys (holders c))"
  have step: "P i \<longleftrightarrow> (if i \<le> j then B else if j < length (edge c) then False else Q (i - j))"
    if "1 \<le> i" "i \<le> n" for i
    using covers_take [OF assms(2), of i hs m e ho b] that
    by (simp add: P_def Q_def B_def j_def n_def Let_def)
  have j: "1 \<le> j" "j \<le> n"
    using lcp_len_pos [OF wf_child(1,2) [OF assms], of hs] lcp_len_le(2) [of "edge c" "h # hs"]
    by (simp_all add: j_def n_def)
  have k: "k \<le> n - j" "\<And>i. 1 \<le> i \<Longrightarrow> i \<le> k \<Longrightarrow> Q i" "k = n - j \<or> \<not> Q (Suc k)"
    unfolding k_def by (fact contig_props)+
  have jk: "j + k = n \<or> Suc (j + k) \<le> n" using j(2) k(1) by linarith
  have "contig P n = (if \<not> B then 0 else if j < length (edge c) then j else j + k)"
  proof (rule contig_eqI)
    fix i assume "1 \<le> i" "i \<le> (if \<not> B then 0 else if j < length (edge c) then j else j + k)"
    then show "P i" using step [of i] j k(1) k(2) [of "i - j"] by (auto split: if_splits)
  qed (use step [of 1] step [of "Suc j"] step [of "Suc (j + k)"] j k jk in \<open>auto simp: Suc_diff_le\<close>)
  then show ?thesis by (simp add: P_def Q_def B_def j_def n_def k_def Let_def)
qed

lemma contig_no_child:
  "map_of cs h = None \<Longrightarrow>
     contig (\<lambda>i. covers (RNode m e cs ho) b (take i (h # hs))) (length (h # hs)) = 0"
  by (rule contig_eqI) (simp_all add: covers_no_child)

lemma match_walk_spec:
  assumes "wf_node n"
  shows "match_walk n hs alive depth best b =
    (let k = contig (\<lambda>i. covers n b (take i hs)) (length hs) in
     if (case alive of None \<Rightarrow> True | Some a \<Rightarrow> b \<in> set a) \<and> 0 < k then Some (depth + k) else best b)"
  using assms
proof (induction n hs alive depth best rule: match_walk.induct)
  case (1 m e cs ho hs alive depth best)
  show ?case
  proof (cases hs)
    case Nil
    then show ?thesis by (simp add: match_walk.simps contig_def)
  next
    case (Cons h hs')
    show ?thesis
    proof (cases "map_of cs h")
      case None
      then show ?thesis using Cons contig_no_child [OF None, of m e ho b hs']
        by (simp add: match_walk.simps)
    next
      case (Some c)
      define j where "j = lcp_len (edge c) hs"
      define al where "al = (case alive of None \<Rightarrow> dkeys (holders c)
        | Some a \<Rightarrow> filter (\<lambda>b. b \<in> set (dkeys (holders c))) a)"
      have al: "b \<in> set al \<longleftrightarrow>
          b \<in> set (dkeys (holders c)) \<and> (case alive of None \<Rightarrow> True | Some a \<Rightarrow> b \<in> set a)"
        by (auto simp: al_def split: option.split)
      note wf = wf_child [OF "1.prems" Some]
      have j0: "0 < j" using lcp_len_pos [OF wf(1,2)] Cons by (simp add: j_def)
      have step: "match_walk (RNode m e cs ho) hs alive depth best =
          (let best' = (\<lambda>b. if b \<in> set al then Some (depth + j) else best b) in
           if al = [] then best else if j < length (edge c) then best'
           else match_walk c (drop j hs) (Some al) (depth + j) best')"
        unfolding j_def al_def Cons by (simp add: match_walk.simps Let_def Some)
      note ch = contig_child [OF "1.prems" Some, of b hs', folded Cons, folded j_def, unfolded Let_def]
      show ?thesis
      proof (cases "al = [] \<or> j < length (edge c)")
        case True
        then show ?thesis
          unfolding step ch using al j0 by (auto simp: Let_def)
      next
        case False
        then have IH: "match_walk c (drop j hs) (Some al) (depth + j)
            (\<lambda>b. if b \<in> set al then Some (depth + j) else best b) b =
          (let k = contig (\<lambda>i. covers c b (take i (drop j hs))) (length (drop j hs)) in
           if b \<in> set al \<and> 0 < k then Some (depth + j + k)
           else if b \<in> set al then Some (depth + j) else best b)"
          using "1.IH" [OF Cons Some j_def refl al_def refl refl _ _ wf(3)] by simp
        show ?thesis
          unfolding step ch using False IH al j0 by (auto simp: Let_def)
      qed
    qed
  qed
qed


subsection \<open>Insertion adds exactly the prefixes of the inserted chain\<close>

text \<open>Entering the child \<open>c\<close> with the rest \<open>p\<close> of a prefix, said with \<open>prefix\<close> instead of lengths.\<close>

definition covers_at :: "rnode \<Rightarrow> bid \<Rightarrow> block_hash list \<Rightarrow> bool" where
  "covers_at c b p \<longleftrightarrow>
     (if prefix p (edge c) then b \<in> set (dkeys (holders c))
      else prefix (edge c) p \<and> covers c b (drop (length (edge c)) p))"

lemma covers_Cons:
  "covers (RNode i e cs ho) b (h # p) \<longleftrightarrow>
     (case map_of cs h of None \<Rightarrow> False | Some c \<Rightarrow> covers_at c b (h # p))"
proof (cases "map_of cs h")
  case None
  then show ?thesis by (simp add: covers_no_child)
next
  case (Some c)
  let ?j = "lcp_len (edge c) (h # p)"
  have "?j < length (edge c) \<longleftrightarrow> \<not> prefix (edge c) (h # p)"
    using lcp_len_full_left [of "edge c" "h # p"] lcp_len_le(1) [of "edge c" "h # p"] by auto
  moreover have "?j = length (edge c)" if "prefix (edge c) (h # p)"
    using that by (simp only: lcp_len_full_left)
  ultimately show ?thesis
    using lcp_len_full_right [of "edge c" "h # p"]
    by (auto simp: covers_child [OF Some] covers_at_def Some Let_def)
qed

lemma covers_children_cong:
  "covers (RNode i e cs ho) b p \<longleftrightarrow> covers (RNode i' e' cs ho') b p"
  by (cases p) (simp_all add: covers_Cons)

lemma covers_same_children: "covers (RNode i e (children c) ho) b p \<longleftrightarrow> covers c b p"
  by (metis covers_children_cong rnode.exhaust_sel)

lemma prefix_hd: "prefix p hs \<Longrightarrow> p \<noteq> [] \<Longrightarrow> hd p = hd hs"
  by (cases p; cases hs) auto

lemma covers_update:
  "p \<noteq> [] \<Longrightarrow> covers (RNode i e (AList.update h c cs) ho) b p \<longleftrightarrow>
     (if hd p = h then covers_at c b p else covers (RNode i e cs ho) b p)"
  by (cases p) (auto simp: covers_Cons)

lemma covers_child_at:
  "map_of cs h = Some c \<Longrightarrow> p \<noteq> [] \<Longrightarrow> hd p = h \<Longrightarrow> covers (RNode i e cs ho) b p \<longleftrightarrow> covers_at c b p"
  by (cases p) (auto simp: covers_Cons)

lemma covers_at_leaf:
  "p \<noteq> [] \<Longrightarrow> covers_at (RNode i hs [] [(b, clk)]) b' p \<longleftrightarrow> b' = b \<and> prefix p hs"
  by (cases "drop (length hs) p") (auto simp: covers_at_def dkeys_def covers_Cons)

lemma covers_at_append:
  "q \<noteq> [] \<Longrightarrow> covers_at c b (edge c @ q) \<longleftrightarrow> covers c b q"
  by (auto simp: covers_at_def)

lemma covers_at_prefix: "prefix p (edge c) \<Longrightarrow> covers_at c b p \<longleftrightarrow> b \<in> set (dkeys (holders c))"
  by (simp add: covers_at_def)

lemma covers_at_neither:
  "\<not> prefix p (edge c) \<Longrightarrow> \<not> prefix (edge c) p \<Longrightarrow> \<not> covers_at c b p"
  by (simp add: covers_at_def)

lemma prefix_trichotomy:
  obtains (below) "prefix p u" | (above) q where "p = u @ q" "q \<noteq> []"
    | (neither) "\<not> prefix p u" "\<not> prefix u p"
  by (metis append_Nil2 prefix_def)

lemma set_holder_simps [simp]:
  "nid (set_holder b clk n) = nid n" "edge (set_holder b clk n) = edge n"
  "children (set_holder b clk n) = children n"
  "set (dkeys (holders (set_holder b clk n))) = insert b (set (dkeys (holders n)))"
  by (simp_all add: set_holder_def)

lemma covers_set_holder [simp]: "covers (set_holder b clk n) b' p \<longleftrightarrow> covers n b' p"
  by (cases n) (simp add: set_holder_def covers_children_cong)

lemma covers_at_full:
  assumes "prefix (edge c) hs" and "edge c' = edge c" and "holders c' = holders c" and "p \<noteq> []"
    and "\<And>q. covers c' b' q \<longleftrightarrow> covers c b' q \<or> (b' = b \<and> q \<noteq> [] \<and> prefix q (drop (length (edge c)) hs))"
  shows "covers_at (set_holder b clk c') b' p \<longleftrightarrow> covers_at c b' p \<or> (b' = b \<and> prefix p hs)"
proof -
  obtain r where r: "hs = edge c @ r" using assms(1) by (rule prefixE)
  show ?thesis
  proof (cases p "edge c" rule: prefix_trichotomy)
    case below
    then show ?thesis using assms(2,3) r by (auto simp: covers_at_prefix prefix_prefix)
  next
    case (above q)
    then show ?thesis
      using assms(2,5) r covers_at_append [of q "set_holder b clk c'"] covers_at_append [of q c] by simp
  next
    case neither
    then have "\<not> prefix p hs" using r by (auto simp: prefix_append)
    with neither show ?thesis using assms(2) by (simp add: covers_at_neither)
  qed
qed

text \<open>The split node: \<open>u\<close> is the shared part of the edge, \<open>v\<close> its rest, \<open>w\<close> the rest of the inserted chain.\<close>

definition split_node ::
  "nat \<Rightarrow> nat \<Rightarrow> bid \<Rightarrow> rnode \<Rightarrow> block_hash list \<Rightarrow> block_hash list \<Rightarrow> block_hash list \<Rightarrow> rnode"
where
  "split_node nx clk b c u v w =
     (let kids = [(hd v, RNode (nid c) v (children c) (holders c))];
          kids' = (if w = [] then kids else AList.update (hd w) (RNode (nx + 1) w [] [(b, clk)]) kids)
      in RNode nx u kids' (AList.update b clk (holders c)))"

lemma covers_at_split:
  assumes c: "edge c = u @ v" and v: "v \<noteq> []" and w: "w = [] \<or> hd w \<noteq> hd v" and p: "p \<noteq> []"
  shows "covers_at (split_node nx clk b c u v w) b' p \<longleftrightarrow>
     covers_at c b' p \<or> (b' = b \<and> prefix p (u @ w))"
proof (cases p u rule: prefix_trichotomy)
  case below
  then show ?thesis using c
    by (auto simp: covers_at_def split_node_def Let_def prefix_append)
next
  case neither
  then have "\<not> prefix p (edge c)" "\<not> prefix (edge c) p" "\<not> prefix p (u @ w)"
    using c by (auto simp: prefix_append dest: append_prefixD)
  with neither show ?thesis by (simp add: covers_at_neither split_node_def Let_def)
next
  case (above q)
  let ?lower = "RNode (nid c) v (children c) (holders c)"
  let ?s = "split_node nx clk b c u v w"
  have s: "covers_at ?s b' p \<longleftrightarrow> covers ?s b' q"
    using covers_at_append [of q ?s b'] above by (simp add: split_node_def Let_def)
  have lower: "covers_at ?lower b' q \<longleftrightarrow> covers_at c b' p"
    using above c by (simp add: covers_at_def covers_same_children)
  obtain x q' where q: "q = x # q'" using above by (cases q) auto
  consider "x = hd v" | "w \<noteq> []" "x = hd w" | "x \<noteq> hd v" "w = [] \<or> x \<noteq> hd w" by blast
  then show ?thesis
  proof cases
    case 1
    then have "covers ?s b' q \<longleftrightarrow> covers_at ?lower b' q"
      using w q by (auto simp: split_node_def Let_def covers_Cons)
    moreover have "\<not> prefix q w" using 1 w q by (cases w) auto
    ultimately show ?thesis using s lower above by simp
  next
    case 2
    then have "covers ?s b' q \<longleftrightarrow> b' = b \<and> prefix q w"
      using w q covers_at_leaf [of q "nx + 1" w b clk b'] by (auto simp: split_node_def Let_def covers_Cons)
    moreover have "\<not> covers_at ?lower b' q" using 2 v w q by (cases v) (auto simp: covers_at_def)
    ultimately show ?thesis using s lower above by simp
  next
    case 3
    then have "\<not> covers ?s b' q" using q by (auto simp: split_node_def Let_def covers_Cons)
    moreover have "\<not> prefix q w" using 3 q by (cases w) auto
    moreover have "\<not> covers_at ?lower b' q" using 3 v q by (cases v) (auto simp: covers_at_def)
    ultimately show ?thesis using s lower above by simp
  qed
qed


text \<open>
  The loop of \<open>insert\<close> as a relation, one rule per way an iteration ends: rule induction over
  it replaces the case analysis over the code in every lemma about insertion.
\<close>

definition split_lru :: "nat \<Rightarrow> bid \<Rightarrow> rnode \<Rightarrow> block_hash list \<Rightarrow> lru_map \<Rightarrow> lru_map" where
  "split_lru nx b c w l =
     (let l2 = radix_track b nx (fold (\<lambda>b'. radix_track b' nx) (dkeys (holders c)) l)
      in if w = [] then l2 else radix_track b (nx + 1) l2)"

inductive inserts ::
  "nat \<Rightarrow> bid \<Rightarrow> rnode \<Rightarrow> block_hash list \<Rightarrow> lru_map \<Rightarrow> nat \<Rightarrow> rnode \<Rightarrow> lru_map \<Rightarrow> nat \<Rightarrow> bool"
  for clk b
where
  ins_done: "inserts clk b n [] l nx n l nx"
| ins_leaf: "hs \<noteq> [] \<Longrightarrow> map_of cs (hd hs) = None \<Longrightarrow>
    inserts clk b (RNode i e cs ho) hs l nx
      (RNode i e (AList.update (hd hs) (RNode nx hs [] [(b, clk)]) cs) ho) (radix_track b nx l) (nx + 1)"
| ins_full: "hs \<noteq> [] \<Longrightarrow> map_of cs (hd hs) = Some c \<Longrightarrow> hs = edge c @ r \<Longrightarrow>
    inserts clk b c r (radix_track b (nid c) l) nx c' l' nx' \<Longrightarrow>
    inserts clk b (RNode i e cs ho) hs l nx
      (RNode i e (AList.update (hd hs) (set_holder b clk c') cs) ho) l' nx'"
| ins_split: "map_of cs (hd hs) = Some c \<Longrightarrow> edge c = u @ v \<Longrightarrow> hs = u @ w \<Longrightarrow>
    u \<noteq> [] \<Longrightarrow> v \<noteq> [] \<Longrightarrow> w = [] \<or> hd w \<noteq> hd v \<Longrightarrow>
    inserts clk b (RNode i e cs ho) hs l nx
      (RNode i e (AList.update (hd hs) (split_node nx clk b c u v w) cs) ho)
      (split_lru nx b c w l) (if w = [] then nx + 1 else nx + 2)"

lemma lcp_len_split:
  obtains u v w where "xs = u @ v" "ys = u @ w" "length u = lcp_len xs ys"
    "v = [] \<or> w = [] \<or> hd w \<noteq> hd v"
proof (induction xs ys arbitrary: thesis rule: lcp_len.induct)
  case (1 x xs y ys)
  show ?case
  proof (cases "x = y")
    case True
    then show ?thesis
      by (metis "1.IH" "1.prems" append_Cons length_Cons lcp_len.simps(1))
  next
    case False
    then show ?thesis using "1.prems" [of "[]" "x # xs" "y # ys"] by simp
  qed
qed (metis append_Nil lcp_len.simps(2,3) list.size(3))+

lemma insert_walk_inserts:
  assumes "wf_node n"
  shows "case insert_walk clk b n hs l nx of (n', l', nx') \<Rightarrow> inserts clk b n hs l nx n' l' nx'"
  using assms
proof (induction clk b n hs l nx rule: insert_walk.induct)
  case (1 clk b i e cs ho hs l nx)
  show ?case
  proof (cases hs)
    case Nil
    then show ?thesis by (simp add: insert_walk.simps ins_done)
  next
    case (Cons h t)
    show ?thesis
    proof (cases "map_of cs h")
      case None
      then show ?thesis
        using ins_leaf [of "h # t" cs clk b i e ho l nx] Cons by (simp add: insert_walk.simps Let_def)
    next
      case (Some c)
      note wf = wf_child [OF "1.prems" Some]
      obtain u v w where uvw: "edge c = u @ v" "hs = u @ w" "length u = lcp_len (edge c) hs"
        "v = [] \<or> w = [] \<or> hd w \<noteq> hd v"
        by (rule lcp_len_split)
      have u: "u \<noteq> []" using uvw(3) lcp_len_pos [OF wf(1,2), of t] Cons by auto
      show ?thesis
      proof (cases "v = []")
        case True
        obtain c' l' nx' where r: "insert_walk clk b c w (radix_track b (nid c) l) nx = (c', l', nx')"
          by (metis prod_cases3)
        have j: "lcp_len (edge c) hs = length (edge c)" using uvw True by simp
        have d: "drop (length (edge c)) hs = w" using uvw True by simp
        have "inserts clk b c w (radix_track b (nid c) l) nx c' l' nx'"
          using "1.IH" [OF Cons Some refl refl j refl wf(3)] r uvw True by simp
        moreover have "insert_walk clk b (RNode i e cs ho) hs l nx =
            (RNode i e (AList.update (hd hs) (set_holder b clk c') cs) ho, l', nx')"
          using Cons Some r j d by (simp add: insert_walk.simps Let_def)
        ultimately show ?thesis
          using ins_full [of hs cs c w clk b l nx c' l' nx' i e ho] Cons Some uvw True by simp
      next
        case False
        have j: "lcp_len (edge c) hs = length u" using uvw(3) by simp
        have d: "take (length u) (edge c) = u" "drop (length u) (edge c) = v" "drop (length u) hs = w"
          "length u \<noteq> length (edge c)"
          using uvw False by simp_all
        have "length u + length w = Suc (length t)" using uvw(2) arg_cong [OF Cons, of length] by simp
        then have fits: "length u < Suc (length t) \<longleftrightarrow> w \<noteq> []" by (cases w) auto
        have "insert_walk clk b (RNode i e cs ho) hs l nx =
            (RNode i e (AList.update (hd hs) (split_node nx clk b c u v w) cs) ho,
             split_lru nx b c w l, if w = [] then nx + 1 else nx + 2)"
          by (simp add: insert_walk.simps Let_def split_node_def split_lru_def Cons Some
              d [unfolded Cons] j [unfolded Cons] fits)
        moreover have "map_of cs (hd hs) = Some c" and "w = [] \<or> hd w \<noteq> hd v"
          using Some Cons uvw(4) False by auto
        ultimately show ?thesis
          using ins_split [OF _ uvw(1,2) u False, of cs clk b i e ho l nx] by (simp only: prod.case)
      qed
    qed
  qed
qed

lemma inserts_fields:
  "inserts clk b n hs l nx n' l' nx' \<Longrightarrow>
     nid n' = nid n \<and> edge n' = edge n \<and> holders n' = holders n \<and> nx \<le> nx'"
  by (induction rule: inserts.induct) auto

lemma inserts_covers:
  assumes "inserts clk b n hs l nx n' l' nx'"
  shows "covers n' b' p \<longleftrightarrow> covers n b' p \<or> (b' = b \<and> p \<noteq> [] \<and> prefix p hs)"
  using assms
proof (induction arbitrary: p rule: inserts.induct)
  case (ins_done n l nx)
  then show ?case by auto
next
  case (ins_leaf hs cs i e ho l nx)
  then show ?case
    by (cases p; cases hs) (auto simp: covers_update covers_at_leaf covers_no_child)
next
  case (ins_full hs cs c r l nx c' l' nx' i e ho)
  have at: "covers_at (set_holder b clk c') b' p \<longleftrightarrow> covers_at c b' p \<or> (b' = b \<and> prefix p hs)"
    if "p \<noteq> []"
    using ins_full.hyps(3) inserts_fields [OF ins_full.hyps(4)] that ins_full.IH
    by (intro covers_at_full) auto
  show ?case using at ins_full.hyps(1,2)
    by (cases "p = []") (auto simp: covers_update covers_child_at dest: prefix_hd)
next
  case (ins_split cs hs c u v w i e ho l nx)
  have at: "covers_at (split_node nx clk b c u v w) b' p \<longleftrightarrow> covers_at c b' p \<or> (b' = b \<and> prefix p hs)"
    if "p \<noteq> []"
    using ins_split.hyps that by (simp add: covers_at_split)
  show ?case using at ins_split.hyps
    by (cases "p = []") (auto simp: covers_update covers_child_at dest: prefix_hd)
qed


subsection \<open>The tree invariant\<close>

definition node_ids :: "rnode \<Rightarrow> nat list" where
  "node_ids n = map nid (nodes n)"

definition held_ids :: "rnode \<Rightarrow> bid \<Rightarrow> nat set" where
  "held_ids n b = nid ` {m \<in> set (nodes n). b \<in> set (dkeys (holders m))}"

text \<open>
  What \<open>insert\<close>, \<open>remove_backend\<close> and the eviction keep: the edges of the children start with
  the key they are filed under, identities are distinct and allocated below the counter, the
  root is held by nobody, and a backend's LRU lists exactly the nodes that name it as a holder.
\<close>

definition tree_ok :: "RadixTree \<Rightarrow> bool" where
  "tree_ok t \<longleftrightarrow>
     wf_node (root t) \<and> edge (root t) = [] \<and>
     distinct (node_ids (root t)) \<and> (\<forall>i \<in> set (node_ids (root t)). i < next_id t) \<and>
     (\<forall>b. distinct (dget (lru t) b []) \<and> set (dget (lru t) b []) = held_ids (root t) b)"

lemma set_update_dict:
  "dict_ok d \<Longrightarrow> set (AList.update k v d) = insert (k, v) {p \<in> set d. fst p \<noteq> k}"
  by (induction d) (force simp: dict_ok_def)+

lemma mset_concat_update:
  "dict_ok d \<Longrightarrow> mset (concat (map (\<lambda>p. f (snd p)) (AList.update k v d))) =
     mset (concat (map (\<lambda>p. f (snd p)) d)) + mset (f v)
     - (case map_of d k of None \<Rightarrow> {#} | Some w \<Rightarrow> mset (f w))"
proof (induction d)
  case (Cons p d)
  show ?case
  proof (cases "fst p = k")
    case False
    have sub: "(case map_of d k of None \<Rightarrow> {#} | Some w \<Rightarrow> mset (f w)) \<subseteq>#
        mset (concat (map (\<lambda>p. f (snd p)) d)) + mset (f v)"
    proof (cases "map_of d k")
      case (Some w)
      then have "f w \<in> set (map (\<lambda>p. f (snd p)) d)" by (force dest: map_of_SomeD)
      then obtain xs ys where "map (\<lambda>p. f (snd p)) d = xs @ f w # ys" by (meson split_list)
      then show ?thesis using Some by (simp add: subset_mset.add_increasing2)
    qed simp
    show ?thesis using Cons False sub
      by (cases p) (auto simp: dict_ok_def subset_mset.add_diff_assoc2 subset_mset.add_diff_assoc add.assoc)
  qed (cases p; simp)
qed simp

lemma nodes_self: "n \<in> set (nodes n)"
  by (cases n) simp

lemma node_ids_RNode: "node_ids (RNode i e cs ho) = i # concat (map (\<lambda>p. node_ids (snd p)) cs)"
  by (simp add: node_ids_def map_concat comp_def)

lemma node_ids_set_holder [simp]: "node_ids (set_holder b clk n) = node_ids n"
  by (cases n) (simp add: set_holder_def node_ids_RNode)

lemma held_ids_RNode:
  "held_ids (RNode i e cs ho) b =
     (if b \<in> set (dkeys ho) then {i} else {}) \<union> (\<Union>p \<in> set cs. held_ids (snd p) b)"
proof -
  have "{m \<in> set (nodes (RNode i e cs ho)). b \<in> set (dkeys (holders m))} =
      (if b \<in> set (dkeys ho) then {RNode i e cs ho} else {}) \<union>
      (\<Union>p \<in> set cs. {m \<in> set (nodes (snd p)). b \<in> set (dkeys (holders m))})"
    by auto
  then show ?thesis by (simp add: held_ids_def image_Un image_UN)
qed

lemma held_ids_set_holder [simp]:
  "held_ids (set_holder b clk n) b' = held_ids n b' \<union> (if b' = b then {nid n} else {})"
  by (cases n) (auto simp: set_holder_def held_ids_RNode)

text \<open>Replacing or adding one child leaves a common rest \<open>R\<close>.\<close>

lemma dict_key_unique: "dict_ok d \<Longrightarrow> map_of d k = Some v \<Longrightarrow> p \<in> set d \<Longrightarrow> fst p = k \<Longrightarrow> p = (k, v)"
  by (metis dict_ok_def map_of_is_SomeI option.inject prod.collapse)

lemma held_ids_swap:
  assumes "dict_ok cs" and "map_of cs h = Some c"
  shows "\<exists>R. held_ids (RNode i e cs ho) b = R \<union> held_ids c b \<and>
    (\<forall>c'. held_ids (RNode i e (AList.update h c' cs) ho) b = R \<union> held_ids c' b)"
proof (intro exI conjI allI)
  let ?R = "(if b \<in> set (dkeys ho) then {i} else {}) \<union>
    (\<Union>p \<in> {p \<in> set cs. fst p \<noteq> h}. held_ids (snd p) b)"
  have "p \<in> set cs \<longleftrightarrow> p = (h, c) \<or> (p \<in> set cs \<and> fst p \<noteq> h)" for p
    using dict_key_unique [OF assms, of p] map_of_SomeD [OF assms(2)] by (cases "fst p = h") auto
  then have eq: "set cs = insert (h, c) {p \<in> set cs. fst p \<noteq> h}" by blast
  have "(\<Union>p \<in> set cs. held_ids (snd p) b) =
      held_ids c b \<union> (\<Union>p \<in> {p \<in> set cs. fst p \<noteq> h}. held_ids (snd p) b)"
    using arg_cong [OF eq, of "\<lambda>A. \<Union>p \<in> A. held_ids (snd p) b"] by simp
  then show "held_ids (RNode i e cs ho) b = ?R \<union> held_ids c b"
    by (simp add: held_ids_RNode Un_ac)
  show "held_ids (RNode i e (AList.update h c' cs) ho) b = ?R \<union> held_ids c' b" for c'
    by (simp add: held_ids_RNode set_update_dict [OF assms(1)] Un_ac)
qed

lemma held_ids_add:
  assumes "dict_ok cs" and "map_of cs h = None"
  shows "held_ids (RNode i e (AList.update h c cs) ho) b = held_ids (RNode i e cs ho) b \<union> held_ids c b"
proof -
  have "{p \<in> set cs. fst p \<noteq> h} = set cs" using assms(2) by (force simp: map_of_eq_None_iff)
  then show ?thesis by (simp add: held_ids_RNode set_update_dict [OF assms(1)] Un_ac)
qed

lemma set_radix_track [simp]:
  "set (dget (radix_track b i l) b' []) = set (dget l b' []) \<union> (if b' = b then {i} else {})"
  by (auto simp: radix_track_def Let_def)

lemma distinct_radix_track:
  "distinct (dget l b' []) \<Longrightarrow> distinct (dget (radix_track b i l) b' [])"
  by (auto simp: radix_track_def Let_def distinct_removeAll)

lemma set_fold_track:
  "set (dget (fold (\<lambda>b'. radix_track b' i) bs l) b []) =
     set (dget l b []) \<union> (if b \<in> set bs then {i} else {})"
  by (induction bs arbitrary: l) auto

lemma distinct_fold_track:
  "distinct (dget l b []) \<Longrightarrow> distinct (dget (fold (\<lambda>b'. radix_track b' i) bs l) b [])"
  by (induction bs arbitrary: l) (auto simp: distinct_radix_track)

lemma wf_update:
  "wf_node (RNode i e cs ho) \<Longrightarrow> wf_node c \<Longrightarrow> edge c \<noteq> [] \<Longrightarrow> hd (edge c) = h \<Longrightarrow>
     wf_node (RNode i e (AList.update h c cs) ho)"
  by (auto simp: set_update_dict)

lemma wf_set_holder: "wf_node n \<Longrightarrow> wf_node (set_holder b clk n)"
  by (cases n) (simp add: set_holder_def)

lemma wf_split_node:
  assumes "wf_node c" and "v \<noteq> []" and "w = [] \<or> hd w \<noteq> hd v"
  shows "wf_node (split_node nx clk b c u v w)"
proof -
  obtain k e cs ho where c: "c = RNode k e cs ho" by (cases c)
  show ?thesis
  proof (cases "w = []")
    case True
    show ?thesis unfolding split_node_def c using assms(1,2) True c by (simp add: dict_ok_def distinct_update)
  next
    case False
    then have "hd v \<noteq> hd w" using assms(3) by auto
    then show ?thesis
      unfolding split_node_def c using assms(1,2) False c by (simp add: dict_ok_def distinct_update)
  qed
qed

lemma split_node_simps [simp]:
  "edge (split_node nx clk b c u v w) = u"
  by (simp add: split_node_def Let_def)

lemma inserts_wf:
  assumes "inserts clk b n hs l nx n' l' nx'" and "wf_node n"
  shows "wf_node n'"
  using assms
proof (induction rule: inserts.induct)
  case (ins_leaf hs cs i e ho l nx)
  then show ?case by (intro wf_update) (simp_all add: dict_ok_def)
next
  case (ins_full hs cs c r l nx c' l' nx' i e ho)
  note wf = wf_child [OF ins_full.prems ins_full.hyps(2)]
  have "edge c' = edge c" using inserts_fields [OF ins_full.hyps(4)] by simp
  with wf ins_full.IH show ?case by (intro wf_update [OF ins_full.prems] wf_set_holder) simp_all
next
  case (ins_split cs hs c u v w i e ho l nx)
  note wf = wf_child [OF ins_split.prems ins_split.hyps(1)]
  show ?case using ins_split wf by (intro wf_update wf_split_node) auto
qed simp

lemma inserts_lru:
  assumes "inserts clk b n hs l nx n' l' nx'" and "wf_node n"
  shows "held_ids n' b' \<union> set (dget l b' []) = held_ids n b' \<union> set (dget l' b' [])
    \<and> held_ids n b' \<subseteq> held_ids n' b' \<and> set (dget l b' []) \<subseteq> set (dget l' b' [])
    \<and> (distinct (dget l b' []) \<longrightarrow> distinct (dget l' b' []))"
  using assms
proof (induction rule: inserts.induct)
  case (ins_leaf hs cs i e ho l nx)
  then have ok: "dict_ok cs" by simp
  have "held_ids (RNode nx hs [] [(b, clk)]) b' = (if b' = b then {nx} else {})"
    by (simp add: held_ids_RNode dkeys_def)
  then show ?case
    by (simp add: held_ids_add [OF ok ins_leaf(2)] distinct_radix_track Un_ac)
next
  case (ins_full hs cs c r l nx c' l' nx' i e ho)
  then have ok: "dict_ok cs" by simp
  note IH = ins_full.IH [OF wf_child(3) [OF ins_full.prems ins_full.hyps(2)]]
  obtain R where R: "held_ids (RNode i e cs ho) b' = R \<union> held_ids c b'"
    "held_ids (RNode i e (AList.update (hd hs) (set_holder b clk c') cs) ho) b' =
       R \<union> held_ids (set_holder b clk c') b'"
    using held_ids_swap [OF ok ins_full.hyps(2), of i e ho b'] by blast
  have "nid c' = nid c" using inserts_fields [OF ins_full.hyps(4)] by simp
  then show ?case unfolding R using IH
    by (cases "b' = b") (auto simp: distinct_radix_track)
next
  case (ins_split cs hs c u v w i e ho l nx)
  then have ok: "dict_ok cs" by simp
  let ?N = "(if b' = b \<or> b' \<in> set (dkeys (holders c)) then {nx} else {}) \<union>
      (if b' = b \<and> w \<noteq> [] then {nx + 1} else {})"
  obtain R where R: "held_ids (RNode i e cs ho) b' = R \<union> held_ids c b'"
    "held_ids (RNode i e (AList.update (hd hs) (split_node nx clk b c u v w) cs) ho) b' =
       R \<union> held_ids (split_node nx clk b c u v w) b'"
    using held_ids_swap [OF ok ins_split.hyps(1), of i e ho b'] by blast
  have "held_ids (split_node nx clk b c u v w) b' = held_ids c b' \<union> ?N"
    using ins_split.hyps(6)
    by (cases c; cases "w = []") (auto simp: split_node_def Let_def held_ids_RNode dkeys_def dom_update)
  moreover have "set (dget (split_lru nx b c w l) b' []) = set (dget l b' []) \<union> ?N"
    by (auto simp: split_lru_def Let_def set_fold_track)
  moreover have "distinct (dget l b' []) \<longrightarrow> distinct (dget (split_lru nx b c w l) b' [])"
    by (auto simp: split_lru_def Let_def distinct_radix_track distinct_fold_track)
  ultimately show ?case unfolding R by blast
qed simp


lemma inserts_ids:
  assumes "inserts clk b n hs l nx n' l' nx'" and "wf_node n"
  shows "mset (node_ids n') = mset (node_ids n) + mset [nx..<nx']"
  using assms
proof (induction rule: inserts.induct)
  case (ins_leaf hs cs i e ho l nx)
  then show ?case
    by (simp add: node_ids_RNode mset_concat_update)
next
  case (ins_full hs cs c r l nx c' l' nx' i e ho)
  then have ok: "dict_ok cs" by simp
  have "mset (node_ids c) \<subseteq># mset (concat (map (\<lambda>p. node_ids (snd p)) cs))"
    using map_of_SomeD [OF ins_full.hyps(2)] by (auto dest!: split_list)
  then show ?case
    using ins_full.IH [OF wf_child(3) [OF ins_full.prems ins_full.hyps(2)]] ins_full.hyps(2)
    by (simp add: node_ids_RNode mset_concat_update [OF ok] subset_mset.add_diff_assoc2 flip: mset_append)
next
  case (ins_split cs hs c u v w i e ho l nx)
  then have ok: "dict_ok cs" by simp
  have new: "mset (node_ids (split_node nx clk b c u v w)) =
      mset (node_ids c) + mset [nx..<(if w = [] then nx + 1 else nx + 2)]"
    using ins_split.hyps(6)
    by (cases c; cases "w = []") (auto simp: split_node_def Let_def node_ids_RNode upt_rec)
  have "mset (node_ids c) \<subseteq># mset (concat (map (\<lambda>p. node_ids (snd p)) cs))"
    using map_of_SomeD [OF ins_split.hyps(1)] by (auto dest!: split_list)
  then show ?case using new ins_split.hyps(1)
    by (simp add: node_ids_RNode mset_concat_update [OF ok] subset_mset.add_diff_assoc2
        del: mset_upt upt_Suc)
qed simp


subsection \<open>Eviction and removal\<close>

lemma map_of_map_snd: "map_of (map (\<lambda>p. (fst p, f (snd p))) cs) k = map_option f (map_of cs k)"
  by (induction cs) auto

lemma drop_holder_simps [simp]:
  "nid (drop_holder b i n) = nid n" "edge (drop_holder b i n) = edge n"
  "set (dkeys (holders (drop_holder b i n))) = set (dkeys (holders n)) - (if nid n = i then {b} else {})"
  by (cases n; simp)+

lemma nodes_drop_holder: "nodes (drop_holder b i n) = map (drop_holder b i) (nodes n)"
proof (induction b i n rule: drop_holder.induct)
  case (1 b i k e cs ho)
  then show ?case by (simp add: map_concat comp_def cong: map_cong)
qed

lemma node_ids_drop_holder [simp]: "node_ids (drop_holder b i n) = node_ids n"
  by (simp add: node_ids_def nodes_drop_holder comp_def)

lemma find_map_drop: "find P (map f xs) = map_option f (find (\<lambda>x. P (f x)) xs)"
  by (induction xs) auto

lemma edge_len_drop_holder [simp]: "edge_len (drop_holder b i n) k = edge_len n k"
  by (simp add: edge_len_def nodes_drop_holder find_map_drop split: option.split)

lemma held_ids_drop_holder:
  "held_ids (drop_holder b i n) b' = held_ids n b' - (if b' = b then {i} else {})"
proof -
  have "{m \<in> set (nodes (drop_holder b i n)). b' \<in> set (dkeys (holders m))} =
      drop_holder b i ` {m \<in> set (nodes n). b' \<in> set (dkeys (holders (drop_holder b i m)))}"
    by (auto simp: nodes_drop_holder)
  then show ?thesis by (auto simp: held_ids_def image_image)
qed

lemma wf_drop_holder: "wf_node n \<Longrightarrow> wf_node (drop_holder b i n)"
proof (induction b i n rule: drop_holder.induct)
  case (1 b i k e cs ho)
  then show ?case by (auto simp: dict_ok_def comp_def distinct_delete)
qed

lemma covers_drop_holder:
  "covers (drop_holder b i n) b' p \<Longrightarrow> covers n b' p"
proof (induction b i n arbitrary: p rule: drop_holder.induct)
  case (1 b i k e cs ho)
  show ?case
  proof (cases p)
    case (Cons h q)
    with "1.prems" obtain c where c: "map_of cs h = Some c" "covers_at (drop_holder b i c) b' p"
      by (auto simp: covers_Cons map_of_map_snd split: option.splits)
    note IH = "1.IH" [OF map_of_SomeD [OF c(1)], unfolded snd_conv]
    from c(2) IH have "covers_at c b' p" by (auto simp: covers_at_def split: if_splits)
    with c Cons show ?thesis by (simp add: covers_Cons)
  qed (use "1.prems" in simp)
qed

lemma covers_drop_holder_other:
  "b' \<noteq> b \<Longrightarrow> covers (drop_holder b i n) b' p \<longleftrightarrow> covers n b' p"
proof (induction b i n arbitrary: p rule: drop_holder.induct)
  case (1 b i k e cs ho)
  show ?case
  proof (cases p)
    case (Cons h q)
    have "covers_at (drop_holder b i c) b' p \<longleftrightarrow> covers_at c b' p" if "map_of cs h = Some c" for c
      using "1.IH" [OF map_of_SomeD [OF that], unfolded snd_conv] "1.prems"
      by (simp add: covers_at_def)
    with Cons show ?thesis by (simp add: covers_Cons map_of_map_snd split: option.split)
  qed simp
qed

text \<open>Dropping a backend from a list of nodes, as the eviction loop and \<open>remove_backend\<close> do.\<close>

lemma fold_drop_holder:
  "node_ids (fold (drop_holder b) is n) = node_ids n"
  "edge (fold (drop_holder b) is n) = edge n"
  "edge_len (fold (drop_holder b) is n) k = edge_len n k"
  "held_ids (fold (drop_holder b) is n) b' = held_ids n b' - (if b' = b then set is else {})"
  "wf_node n \<Longrightarrow> wf_node (fold (drop_holder b) is n)"
  "covers (fold (drop_holder b) is n) b' p \<Longrightarrow> covers n b' p"
  "b' \<noteq> b \<Longrightarrow> covers (fold (drop_holder b) is n) b' p \<longleftrightarrow> covers n b' p"
proof (induction "is" arbitrary: n)
  case (Cons i "is")
  {
    case 4
    then show ?case by (auto simp: Cons.IH(4) held_ids_drop_holder)
  next
    case 6
    then have "covers (drop_holder b i n) b' p" using Cons.IH(6) [of "drop_holder b i n"] by simp
    then show ?case by (rule covers_drop_holder)
  }
qed (simp_all add: wf_drop_holder covers_drop_holder_other)

lemma lru_total_drop_holder [simp]: "lru_total (drop_holder b i t) q = lru_total t q"
  by (simp add: lru_total_def)

lemma evict_loop_spec:
  assumes "evict_loop b c t q tot = (t', q')" and "tot = lru_total t q"
  obtains k where "k \<le> length q" and "q' = drop k q" and "t' = fold (drop_holder b) (take k q) t"
    and "lru_total t q' \<le> c \<or> q' = []"
    and "\<And>i. i < k \<Longrightarrow> c < lru_total t (drop i q)"
  using assms
proof (induction b c t q tot arbitrary: thesis rule: evict_loop.induct)
  case (1 b c t tot)
  then show ?case by (intro "1.prems"(1) [of 0]) auto
next
  case (2 b c t i q tot)
  show ?case
  proof (cases "tot > c")
    case True
    have e: "evict_loop b c (drop_holder b i t) q (tot - int (edge_len t i)) = (t', q')"
      using "2.prems"(2) True by simp
    have tot: "tot - int (edge_len t i) = lru_total (drop_holder b i t) q"
      using "2.prems"(3) by (simp add: lru_total_def)
    from "2.IH" [OF True _ e tot] obtain k where k: "k \<le> length q" "q' = drop k q"
      "t' = fold (drop_holder b) (take k q) (drop_holder b i t)"
      "lru_total t q' \<le> c \<or> q' = []" "\<And>i. i < k \<Longrightarrow> c < lru_total t (drop i q)"
      by auto
    show ?thesis
    proof (rule "2.prems"(1) [of "Suc k"])
      fix i' assume "i' < Suc k"
      then show "c < lru_total t (drop i' (i # q))"
        using k(5) True "2.prems"(3) by (cases i') auto
    qed (use k in auto)
  next
    case False
    then show ?thesis using "2.prems"
      by (intro "2.prems"(1) [of 0]) auto
  qed
qed


subsection \<open>Counting held blocks\<close>

definition node_weight :: "bid \<Rightarrow> rnode \<Rightarrow> nat" where
  "node_weight b m = (if b \<in> set (dkeys (holders m)) then length (edge m) else 0)"

definition tree_weight :: "bid \<Rightarrow> rnode \<Rightarrow> nat" where
  "tree_weight b n = (\<Sum>m\<leftarrow>nodes n. node_weight b m)"

lemma sum_list_map_concat:
  "(\<Sum>m\<leftarrow>concat (map g xs). (f m :: nat)) = (\<Sum>x\<leftarrow>xs. \<Sum>m\<leftarrow>g x. f m)"
  by (induction xs) auto

lemma tree_weight_RNode:
  "tree_weight b (RNode i e cs ho) =
     (if b \<in> set (dkeys ho) then length e else 0) + (\<Sum>p\<leftarrow>cs. tree_weight b (snd p))"
  by (simp add: tree_weight_def sum_list_map_concat del: map_concat) (simp add: node_weight_def)

lemma card_nonempty_prefixes: "card {p. p \<noteq> [] \<and> prefix p e} = length e"
proof -
  have "{p. p \<noteq> [] \<and> prefix p e} = set (prefixes e) - {[]}" by auto
  then show ?thesis by (simp add: distinct_card)
qed

lemma finite_nonempty_prefixes: "finite {p. p \<noteq> [] \<and> prefix p e}"
  by (rule finite_subset [of _ "set (prefixes e)"]) auto

lemma covers_at_set:
  "{p. p \<noteq> [] \<and> covers_at c b p} =
     (if b \<in> set (dkeys (holders c)) then {p. p \<noteq> [] \<and> prefix p (edge c)} else {}) \<union>
     (\<lambda>q. edge c @ q) ` {q. covers c b q}" (is "?L = ?A \<union> ?B")
proof (intro set_eqI iffI)
  fix p assume "p \<in> ?L"
  then show "p \<in> ?A \<union> ?B"
    by (cases p "edge c" rule: prefix_trichotomy) (auto simp: covers_at_def)
next
  fix p assume "p \<in> ?A \<union> ?B"
  then show "p \<in> ?L"
  proof
    assume "p \<in> ?B"
    then obtain q where "p = edge c @ q" "covers c b q" by auto
    then show ?thesis by (cases "q = []") (auto simp: covers_at_def)
  qed (auto simp: covers_at_def split: if_splits)
qed

lemma card_covers_at:
  assumes "finite {q. covers c b q}" and "card {q. covers c b q} + node_weight b c = w"
  shows "finite {p. p \<noteq> [] \<and> covers_at c b p}" and "card {p. p \<noteq> [] \<and> covers_at c b p} = w"
proof -
  let ?A = "if b \<in> set (dkeys (holders c)) then {p. p \<noteq> [] \<and> prefix p (edge c)} else {}"
  let ?B = "(\<lambda>q. edge c @ q) ` {q. covers c b q}"
  have "?A \<inter> ?B = {}" by (auto split: if_splits)
  moreover have "finite ?A" by (simp add: finite_nonempty_prefixes)
  moreover have "card ?A = node_weight b c" by (simp add: node_weight_def card_nonempty_prefixes)
  moreover have "card ?B = card {q. covers c b q}" by (rule card_image) (simp add: inj_on_def)
  ultimately show "finite {p. p \<noteq> [] \<and> covers_at c b p}" and "card {p. p \<noteq> [] \<and> covers_at c b p} = w"
    using assms by (simp_all add: covers_at_set card_Un_disjoint)
qed

lemma covers_at_hd:
  "p \<noteq> [] \<Longrightarrow> covers_at c b p \<Longrightarrow> edge c \<noteq> [] \<Longrightarrow> hd p = hd (edge c)"
  by (auto simp: covers_at_def split: if_splits dest: prefix_hd)

lemma covers_UN:
  assumes "wf_node (RNode i e cs ho)"
  shows "{p. covers (RNode i e cs ho) b p} = (\<Union>x \<in> set cs. {p. p \<noteq> [] \<and> covers_at (snd x) b p})"
proof (intro set_eqI iffI)
  fix p assume "p \<in> {p. covers (RNode i e cs ho) b p}"
  then obtain h q c where "p = h # q" "map_of cs h = Some c" "covers_at c b p"
    by (cases p) (auto simp: covers_Cons split: option.splits)
  then show "p \<in> (\<Union>x \<in> set cs. {p. p \<noteq> [] \<and> covers_at (snd x) b p})"
    by (force dest: map_of_SomeD)
next
  fix p assume "p \<in> (\<Union>x \<in> set cs. {p. p \<noteq> [] \<and> covers_at (snd x) b p})"
  then obtain h c where c: "(h, c) \<in> set cs" "p \<noteq> []" "covers_at c b p" by auto
  with assms have "map_of cs h = Some c" and "edge c \<noteq> []" and "hd (edge c) = h"
    by (auto simp: dict_ok_def)
  with c covers_at_hd [OF c(2,3)] show "p \<in> {p. covers (RNode i e cs ho) b p}"
    by (simp add: covers_child_at)
qed

lemma card_covers:
  "wf_node n \<Longrightarrow> finite {p. covers n b p} \<and> card {p. covers n b p} + node_weight b n = tree_weight b n"
proof (induction n rule: nodes.induct)
  case (1 i e cs ho)
  let ?S = "\<lambda>x. {p. p \<noteq> [] \<and> covers_at (snd x) b p}"
  have child: "finite (?S x)" "card (?S x) = tree_weight b (snd x)" if "x \<in> set cs" for x
    using card_covers_at [of "snd x" b] "1.IH" [OF that] "1.prems" that by auto
  have disj: "?S x \<inter> ?S y = {}" if "x \<in> set cs" "y \<in> set cs" "x \<noteq> y" for x y
  proof -
    from "1.prems" that have ne: "fst x \<noteq> fst y"
      by (auto simp: dict_ok_def) (metis eq_key_imp_eq_value prod.collapse)
    have hd: "hd p = fst z" if "z \<in> set cs" "p \<in> ?S z" for z p
      using that "1.prems" covers_at_hd [of p "snd z" b] by auto
    have False if "p \<in> ?S x" "p \<in> ?S y" for p
      using hd [OF \<open>x \<in> set cs\<close> that(1)] hd [OF \<open>y \<in> set cs\<close> that(2)] ne by simp
    then show ?thesis by auto
  qed
  have "distinct cs" using "1.prems" by (simp add: dict_ok_def distinct_map)
  have "card {p. covers (RNode i e cs ho) b p} = (\<Sum>x \<in> set cs. card (?S x))"
    unfolding covers_UN [OF "1.prems"] using child(1) disj by (intro card_UN_disjoint) auto
  also have "\<dots> = (\<Sum>x\<leftarrow>cs. tree_weight b (snd x))"
    using child(2) \<open>distinct cs\<close> by (simp add: sum_list_distinct_conv_sum_set)
  finally show ?case
    using child(1) "1.prems" by (simp add: covers_UN tree_weight_RNode node_weight_def del: wf_node.simps)
qed


lemma edge_len_node:
  assumes "distinct (node_ids n)" and "m \<in> set (nodes n)"
  shows "edge_len n (nid m) = length (edge m)"
proof -
  have "find (\<lambda>x. nid x = nid m) xs = Some m" if "distinct (map nid xs)" "m \<in> set xs" for xs
    using that by (induction xs) auto
  with assms show ?thesis by (simp add: edge_len_def node_ids_def)
qed

lemma sum_list_filter_int:
  "(\<Sum>m\<leftarrow>filter P xs. int (f m)) = int (\<Sum>m\<leftarrow>xs. if P m then f m else 0)"
  by (induction xs) auto

lemma tree_weight_lru:
  assumes "distinct (node_ids n)" and "distinct q" and "set q = held_ids n b"
  shows "lru_total n q = int (tree_weight b n)"
proof -
  let ?F = "filter (\<lambda>m. b \<in> set (dkeys (holders m))) (nodes n)"
  have "distinct (map nid ?F)" using assms(1) by (simp add: node_ids_def distinct_map_filter)
  moreover have "set (map nid ?F) = set q" using assms(3) by (simp add: held_ids_def)
  ultimately have "mset q = mset (map nid ?F)" using assms(2) by (metis set_eq_iff_mset_eq_distinct)
  then have "mset (map (\<lambda>i. int (edge_len n i)) q) = mset (map (\<lambda>i. int (edge_len n i)) (map nid ?F))"
    by (simp only: mset_map)
  then have "lru_total n q = (\<Sum>m\<leftarrow>?F. int (edge_len n (nid m)))"
    unfolding lru_total_def by (metis (no_types, lifting) comp_apply list.map_comp map_eq_conv sum_mset_sum_list)
  also have "\<dots> = (\<Sum>m\<leftarrow>?F. int (length (edge m)))"
    using edge_len_node [OF assms(1)] by (intro arg_cong [where f = sum_list] map_cong) auto
  also have "\<dots> = int (tree_weight b n)"
    unfolding tree_weight_def node_weight_def by (rule sum_list_filter_int)
  finally show ?thesis .
qed


subsection \<open>The operations keep the invariant\<close>

lemma tree_ok_init: "tree_ok (RadixTree_init c)"
  by (simp add: tree_ok_def RadixTree_init_def node_ids_RNode held_ids_RNode dkeys_def dict_ok_def)

lemma tree_ok_evict_spec:
  assumes "tree_ok t"
  obtains "tree_ok (radix_evict t b)"
    and "\<And>b'. b' \<noteq> b \<Longrightarrow> held_prefixes (radix_evict t b) b' = held_prefixes t b'"
    and "held_prefixes (radix_evict t b) b \<subseteq> held_prefixes t b"
    and "0 \<le> cap t \<Longrightarrow> held_blocks (radix_evict t b) b \<le> cap t"
    and "held_blocks t b \<le> cap t \<Longrightarrow> held_prefixes (radix_evict t b) b = held_prefixes t b"
proof -
  let ?q = "dget (lru t) b []"
  obtain r q' where e: "evict_loop b (cap t) (root t) ?q (lru_total (root t) ?q) = (r, q')"
    by (metis surj_pair)
  from evict_loop_spec [OF e refl] obtain k where k: "q' = drop k ?q" "k \<le> length ?q"
    "r = fold (drop_holder b) (take k ?q) (root t)"
    "lru_total (root t) q' \<le> cap t \<or> q' = []" "\<And>i. i < k \<Longrightarrow> cap t < lru_total (root t) (drop i ?q)"
    by blast
  have t': "radix_evict t b = t\<lparr>root := r, lru := AList.update b q' (lru t)\<rparr>"
    by (simp add: radix_evict_def e)
  have "distinct ?q" and q: "set ?q = held_ids (root t) b" using assms by (auto simp: tree_ok_def)
  then have "distinct (take k ?q @ drop k ?q)" by simp
  then have disj: "set (take k ?q) \<inter> set (drop k ?q) = {}" by (simp only: distinct_append)
  have "set ?q = set (take k ?q) \<union> set (drop k ?q)" by (metis append_take_drop_id set_append)
  with disj q have rest: "held_ids (root t) b - set (take k ?q) = set (drop k ?q)" by auto
  show thesis
  proof
    show "tree_ok (radix_evict t b)"
      using assms rest unfolding t' by (auto simp: tree_ok_def fold_drop_holder k(1,3) distinct_drop)
    show "held_prefixes (radix_evict t b) b' = held_prefixes t b'" if "b' \<noteq> b" for b'
      using that by (simp add: t' k(3) held_prefixes_def fold_drop_holder(7))
    show "held_prefixes (radix_evict t b) b \<subseteq> held_prefixes t b"
      by (auto simp: t' k(3) held_prefixes_def dest: fold_drop_holder(6))
    show "held_blocks (radix_evict t b) b \<le> cap t" if "0 \<le> cap t"
    proof -
      have "held_blocks (radix_evict t b) b = lru_total (root t) q'"
        by (simp add: t' k(3) held_blocks_def lru_total_def fold_drop_holder(3))
      then show ?thesis using k(4) that by (auto simp: lru_total_def)
    qed
    show "held_prefixes (radix_evict t b) b = held_prefixes t b" if "held_blocks t b \<le> cap t"
    proof -
      have "k = 0" using k(5) [of 0] that by (cases k) (auto simp: held_blocks_def)
      then show ?thesis by (simp add: t' k(3) held_prefixes_def)
    qed
  qed
qed

lemma held_blocks_card:
  assumes "tree_ok t"
  shows "held_blocks t b = int (card (held_prefixes t b))" and "finite (held_prefixes t b)"
proof -
  have "node_weight b (root t) = 0" using assms by (simp add: tree_ok_def node_weight_def)
  moreover have "held_blocks t b = int (tree_weight b (root t))"
    using assms unfolding held_blocks_def by (intro tree_weight_lru) (auto simp: tree_ok_def)
  ultimately show "held_blocks t b = int (card (held_prefixes t b))" and "finite (held_prefixes t b)"
    using card_covers [of "root t" b] assms by (auto simp: held_prefixes_def tree_ok_def)
qed

text \<open>The tree between the end of the loop of \<open>insert\<close> and the call of \<open>_evict\<close>.\<close>

definition insert_no_evict :: "RadixTree \<Rightarrow> block_hash list \<Rightarrow> bid \<Rightarrow> RadixTree" where
  "insert_no_evict t hashes b =
     (let (r, l, nx) = insert_walk (clock t + 1) b (root t) hashes (lru t) (next_id t)
      in t\<lparr>root := r, clock := clock t + 1, lru := l, next_id := nx\<rparr>)"

lemma radix_insert_evict:
  "radix_insert t hs b = (if hs = [] then t else radix_evict (insert_no_evict t hs b) b)"
  by (simp add: radix_insert_def insert_no_evict_def Let_def split: prod.split)

lemma insert_no_evict_spec:
  assumes "tree_ok t"
  shows "tree_ok (insert_no_evict t hs b)" and "cap (insert_no_evict t hs b) = cap t"
    and "held_prefixes (insert_no_evict t hs b) b' =
      held_prefixes t b' \<union> (if b' = b then {p. p \<noteq> [] \<and> prefix p hs} else {})"
proof -
  have wf: "wf_node (root t)" using assms by (simp add: tree_ok_def)
  obtain r l nx where w: "insert_walk (clock t + 1) b (root t) hs (lru t) (next_id t) = (r, l, nx)"
    by (metis prod_cases3)
  then have ins: "inserts (clock t + 1) b (root t) hs (lru t) (next_id t) r l nx"
    using insert_walk_inserts [OF wf, of "clock t + 1" b hs "lru t" "next_id t"] by simp
  note t' = insert_no_evict_def [of t hs b, unfolded w, simplified]
  show "cap (insert_no_evict t hs b) = cap t" by (simp add: t')
  show "held_prefixes (insert_no_evict t hs b) b' =
      held_prefixes t b' \<union> (if b' = b then {p. p \<noteq> [] \<and> prefix p hs} else {})"
    using inserts_covers [OF ins] by (auto simp: t' held_prefixes_def)
  have ids: "mset (node_ids r) = mset (node_ids (root t) @ [next_id t..<nx])"
    using inserts_ids [OF ins wf] by simp
  then have "set (node_ids r) = set (node_ids (root t)) \<union> {next_id t..<nx}"
    using mset_eq_setD [OF ids] by simp
  moreover have "distinct (node_ids (root t) @ [next_id t..<nx])"
    using assms by (auto simp: tree_ok_def)
  then have "distinct (node_ids r)" using ids mset_eq_imp_distinct_iff by blast
  moreover have "distinct (dget l b []) \<and> set (dget l b []) = held_ids r b" for b
    using inserts_lru [OF ins wf, of b] assms by (auto simp: tree_ok_def)
  ultimately show "tree_ok (insert_no_evict t hs b)"
    using assms inserts_wf [OF ins wf] inserts_fields [OF ins] by (auto simp: tree_ok_def t')
qed


subsection \<open>The interface of a prefix index\<close>

text \<open>
  What the router, the DAG scheduler and the cluster coordinator rely on: every backend has a
  set of held prefixes; a match is the longest run of held prefixes from the front; an insert
  adds the prefixes of the inserted chain to one backend, minus what the capacity evicts there.
\<close>

locale prefix_index =
  fixes lookup :: "'t \<Rightarrow> 'h list \<Rightarrow> (bid \<rightharpoonup> nat)"
    and ins :: "'t \<Rightarrow> 'h list \<Rightarrow> bid \<Rightarrow> 't"
    and rem :: "'t \<Rightarrow> bid \<Rightarrow> 't"
    and held :: "'t \<Rightarrow> bid \<Rightarrow> 'h list set"
    and capacity :: "'t \<Rightarrow> int"
    and ok :: "'t \<Rightarrow> bool"
  assumes ok_ins: "ok t \<Longrightarrow> ok (ins t hs b)"
    and ok_rem: "ok t \<Longrightarrow> ok (rem t b)"
    and lookup_held: "ok t \<Longrightarrow> lookup t hs b =
      (let k = contig (\<lambda>i. take i hs \<in> held t b) (length hs) in if 0 < k then Some k else None)"
    and held_ins_other: "ok t \<Longrightarrow> b' \<noteq> b \<Longrightarrow> held (ins t hs b) b' = held t b'"
    and held_ins_upper: "ok t \<Longrightarrow> held (ins t hs b) b \<subseteq> held t b \<union> {p. p \<noteq> [] \<and> prefix p hs}"
    and held_ins_fits: "ok t \<Longrightarrow> int (card (held t b \<union> {p. p \<noteq> [] \<and> prefix p hs})) \<le> capacity t \<Longrightarrow>
      held (ins t hs b) b = held t b \<union> {p. p \<noteq> [] \<and> prefix p hs}"
    and held_rem: "ok t \<Longrightarrow> held (rem t b) b' = (if b' = b then {} else held t b')"
begin

lemma lookup_le: "ok t \<Longrightarrow> lookup t hs b = Some k \<Longrightarrow> k \<le> length hs"
  using contig_props(1) by (auto simp: lookup_held Let_def split: if_splits)

lemma lookup_prefix_held:
  "ok t \<Longrightarrow> lookup t hs b = Some k \<Longrightarrow> 1 \<le> i \<Longrightarrow> i \<le> k \<Longrightarrow> take i hs \<in> held t b"
  using contig_props(2) by (auto simp: lookup_held Let_def split: if_splits)

lemma lookup_ge:
  assumes "ok t" and "0 < k" and "k \<le> length hs" and "\<And>i. 1 \<le> i \<Longrightarrow> i \<le> k \<Longrightarrow> take i hs \<in> held t b"
  shows "\<exists>m. lookup t hs b = Some m \<and> k \<le> m"
proof -
  let ?k = "contig (\<lambda>i. take i hs \<in> held t b) (length hs)"
  have "k \<le> ?k"
  proof (rule ccontr)
    assume "\<not> k \<le> ?k"
    with contig_props(3) [where P = "\<lambda>i. take i hs \<in> held t b" and n = "length hs"] assms(3) assms(4) [of "Suc ?k"]
    show False by auto
  qed
  with assms(1,2) show ?thesis by (simp add: lookup_held Let_def)
qed

lemma lookup_after_ins:
  assumes "ok t" and "hs \<noteq> []" and "prefix p hs" and "p \<noteq> []"
    and "int (card (held t b \<union> {p. p \<noteq> [] \<and> prefix p hs})) \<le> capacity t"
  shows "\<exists>m. lookup (ins t hs b) (p @ q) b = Some m \<and> length p \<le> m"
proof (rule lookup_ge)
  fix i assume "1 \<le> i" "i \<le> length p"
  then have "take i (p @ q) \<noteq> []" "prefix (take i (p @ q)) hs"
    using assms(3,4) by (auto intro: prefix_order.trans [OF take_is_prefix])
  then show "take i (p @ q) \<in> held (ins t hs b) b" using assms by (simp add: held_ins_fits)
qed (use assms in \<open>auto intro: ok_ins\<close>)

lemma lookup_rem: "ok t \<Longrightarrow> lookup (rem t b) hs b = None"
proof -
  assume "ok t"
  then have "lookup (rem t b) hs b = Some k \<Longrightarrow> False" for k
    using lookup_prefix_held [of "rem t b" hs b k 1]
    by (auto simp: ok_rem held_rem lookup_held Let_def split: if_splits)
  then show ?thesis by (cases "lookup (rem t b) hs b") auto
qed

end

lemma tree_ok_remove:
  assumes "tree_ok t"
  shows "tree_ok (remove_backend t b)"
    and "held_prefixes (remove_backend t b) b' = (if b' = b then {} else held_prefixes t b')"
proof -
  let ?q = "dget (lru t) b []"
  have r: "root (remove_backend t b) = fold (drop_holder b) ?q (root t)"
    "\<And>b'. dget (lru (remove_backend t b)) b' [] = (if b' = b then [] else dget (lru t) b' [])"
    "next_id (remove_backend t b) = next_id t"
    by (auto simp: remove_backend_def dget_def split: option.split)
  have q: "set ?q = held_ids (root t) b" using assms by (simp add: tree_ok_def)
  show ok: "tree_ok (remove_backend t b)"
    using assms q by (auto simp: tree_ok_def r fold_drop_holder)
  show "held_prefixes (remove_backend t b) b' = (if b' = b then {} else held_prefixes t b')"
  proof (cases "b' = b")
    case True
    have "held_blocks (remove_backend t b) b = 0" by (simp add: held_blocks_def r lru_total_def)
    then show ?thesis using held_blocks_card [OF ok, of b] True by simp
  next
    case False
    then show ?thesis by (simp add: held_prefixes_def r fold_drop_holder(7))
  qed
qed

lemma radix_insert_spec:
  assumes "tree_ok t"
  shows "tree_ok (radix_insert t hs b)"
    and "b' \<noteq> b \<Longrightarrow> held_prefixes (radix_insert t hs b) b' = held_prefixes t b'"
    and "held_prefixes (radix_insert t hs b) b \<subseteq> held_prefixes t b \<union> {p. p \<noteq> [] \<and> prefix p hs}"
    and "int (card (held_prefixes t b \<union> {p. p \<noteq> [] \<and> prefix p hs})) \<le> cap t \<Longrightarrow>
      held_prefixes (radix_insert t hs b) b = held_prefixes t b \<union> {p. p \<noteq> [] \<and> prefix p hs}"
    and "hs \<noteq> [] \<Longrightarrow> 0 \<le> cap t \<Longrightarrow> held_blocks (radix_insert t hs b) b \<le> cap t"
proof -
  note I = insert_no_evict_spec [OF assms, of hs b]
  note E = tree_ok_evict_spec [OF I(1), of b]
  show "tree_ok (radix_insert t hs b)"
    using assms by (auto simp: radix_insert_evict intro: E)
  show "held_prefixes (radix_insert t hs b) b' = held_prefixes t b'" if "b' \<noteq> b"
    using that I(3) by (cases "hs = []") (auto simp: radix_insert_evict intro: E)
  show "held_prefixes (radix_insert t hs b) b \<subseteq> held_prefixes t b \<union> {p. p \<noteq> [] \<and> prefix p hs}"
    using I(3) [of b] by (cases "hs = []") (auto simp: radix_insert_evict intro: E)
  show "held_prefixes (radix_insert t hs b) b = held_prefixes t b \<union> {p. p \<noteq> [] \<and> prefix p hs}"
    if "int (card (held_prefixes t b \<union> {p. p \<noteq> [] \<and> prefix p hs})) \<le> cap t"
    using that I(2) I(3) [of b] held_blocks_card(1) [OF I(1), of b]
    by (cases "hs = []") (auto simp: radix_insert_evict intro: E)
  show "held_blocks (radix_insert t hs b) b \<le> cap t" if "hs \<noteq> []" "0 \<le> cap t"
    using that I(2) by (auto simp: radix_insert_evict intro: E)
qed

lemma radix_match_held:
  assumes "tree_ok t"
  shows "radix_match t hs b =
    (let k = contig (\<lambda>i. take i hs \<in> held_prefixes t b) (length hs) in if 0 < k then Some k else None)"
  using match_walk_spec [of "root t" hs None 0 Map.empty b] assms
  by (simp add: radix_match_def tree_ok_def held_prefixes_def Let_def)

interpretation rt: prefix_index radix_match radix_insert remove_backend held_prefixes cap tree_ok
  by unfold_locales (auto simp: radix_insert_spec tree_ok_remove radix_match_held dest: radix_insert_spec(3) [THEN subsetD])


subsection \<open>Reachable trees\<close>

datatype tree_op = OpInsert "block_hash list" bid | OpRemove bid

fun tree_step :: "RadixTree \<Rightarrow> tree_op \<Rightarrow> RadixTree" where
  "tree_step t (OpInsert hs b) = radix_insert t hs b"
| "tree_step t (OpRemove b) = remove_backend t b"

definition tree_run :: "int \<Rightarrow> tree_op list \<Rightarrow> RadixTree" where
  "tree_run c ops = foldl tree_step (RadixTree_init c) ops"

lemma tree_step_ok: "tree_ok t \<Longrightarrow> tree_ok (tree_step t x)"
  by (cases x) (simp_all add: rt.ok_ins rt.ok_rem)

lemma cap_tree_step: "cap (tree_step t x) = cap t"
  by (cases x) (auto simp: radix_insert_def remove_backend_def radix_evict_def Let_def
      split: prod.split option.split)

lemma foldl_tree_ok: "tree_ok t \<Longrightarrow> tree_ok (foldl tree_step t ops)"
  by (induction ops arbitrary: t) (auto simp: tree_step_ok)

lemma cap_foldl: "cap (foldl tree_step t ops) = cap t"
  by (induction ops arbitrary: t) (auto simp: cap_tree_step)

lemma tree_run_ok_cap: "tree_ok (tree_run c ops)" "cap (tree_run c ops) = c"
  by (simp_all add: tree_run_def foldl_tree_ok tree_ok_init cap_foldl) (simp add: RadixTree_init_def)

text \<open>
  C2. In every tree the operations can build, \<open>match\<close> returns for each backend the length of
  the longest run of prefixes, from the front of the request's chain, that the backend holds,
  and no entry for a backend that does not even hold the first block.
\<close>

theorem radix_match_longest:
  "radix_match (tree_run c ops) hs b =
     (let k = contig (\<lambda>i. take i hs \<in> held_prefixes (tree_run c ops) b) (length hs)
      in if 0 < k then Some k else None)"
  by (rule rt.lookup_held) (rule tree_run_ok_cap)

text \<open>
  C3. Inserting a chain for a backend refines adding all its non-empty prefixes to what that
  backend holds: other backends hold exactly what they held, nothing else is added, and when the
  result fits the capacity nothing is lost.
\<close>

theorem radix_insert_refines:
  "(b' \<noteq> b \<longrightarrow> held_prefixes (radix_insert (tree_run c ops) hs b) b' = held_prefixes (tree_run c ops) b') \<and>
   held_prefixes (radix_insert (tree_run c ops) hs b) b \<subseteq>
     held_prefixes (tree_run c ops) b \<union> {p. p \<noteq> [] \<and> prefix p hs} \<and>
   (int (card (held_prefixes (tree_run c ops) b \<union> {p. p \<noteq> [] \<and> prefix p hs})) \<le> c \<longrightarrow>
    held_prefixes (radix_insert (tree_run c ops) hs b) b =
      held_prefixes (tree_run c ops) b \<union> {p. p \<noteq> [] \<and> prefix p hs})"
  using rt.held_ins_other rt.held_ins_upper rt.held_ins_fits tree_run_ok_cap by simp

lemma held_prefixes_init: "held_prefixes (tree_run c []) b = {}"
  using held_blocks_card [OF tree_run_ok_cap(1), of c "[]" b]
  by (simp add: tree_run_def held_blocks_def RadixTree_init_def lru_total_def)

theorem radix_insert_refines_witness:
  "held_prefixes (radix_insert (tree_run 5 []) [1, 2] ''b0'') ''b1'' = {} \<and>
   held_prefixes (radix_insert (tree_run 5 []) [1, 2] ''b0'') ''b0'' = {p. p \<noteq> [] \<and> prefix p [1, 2]}"
  using radix_insert_refines [of "''b1''" "''b0''" 5 "[]" "[1, 2]"]
  by (simp add: held_prefixes_init card_nonempty_prefixes)

text \<open>
  C18. The per-backend cache model never exceeds its capacity, whatever the sequence of inserts
  and removals, and \<open>held_blocks\<close> is the number of prefixes the backend holds.
\<close>

theorem held_blocks_bounded:
  assumes "0 \<le> c"
  shows "held_blocks (tree_run c ops) b \<le> c \<and>
    held_blocks (tree_run c ops) b = int (card (held_prefixes (tree_run c ops) b))"
proof (intro conjI)
  show "held_blocks (tree_run c ops) b \<le> c"
  proof (induction ops rule: rev_induct)
    case Nil
    show ?case using assms held_blocks_card(1) [OF tree_run_ok_cap(1), of c "[]" b]
      by (simp add: held_prefixes_init)
  next
    case (snoc x ops)
    note ok = tree_run_ok_cap [of c ops]
    have run: "tree_run c (ops @ [x]) = tree_step (tree_run c ops) x" by (simp add: tree_run_def)
    note card = held_blocks_card(1) [OF ok(1), of b]
      held_blocks_card(1) [OF tree_step_ok [OF ok(1)], of x b]
    show ?case
    proof (cases x)
      case (OpInsert hs b0)
      show ?thesis
      proof (cases "b = b0 \<and> hs \<noteq> []")
        case True
        then show ?thesis using radix_insert_spec(5) [OF ok(1), of hs b] OpInsert run ok(2) assms by simp
      next
        case False
        then have "held_prefixes (tree_step (tree_run c ops) x) b = held_prefixes (tree_run c ops) b"
          using OpInsert rt.held_ins_other [OF ok(1), of b b0 hs]
          by (cases "hs = []") (simp_all add: radix_insert_evict)
        then show ?thesis using snoc card run by simp
      qed
    next
      case (OpRemove b0)
      then show ?thesis using snoc card run assms rt.held_rem [OF ok(1), of b0 b] by (auto split: if_splits)
    qed
  qed
qed (rule held_blocks_card(1) [OF tree_run_ok_cap(1)])

theorem held_blocks_bounded_witness:
  "held_blocks (tree_run 2 [OpInsert [1, 2, 3] ''b0'', OpInsert [1] ''b0'']) ''b0'' \<le> 2"
  using held_blocks_bounded [of 2 "[OpInsert [1, 2, 3] ''b0'', OpInsert [1] ''b0'']" "''b0''"] by simp

text \<open>
  Removing a backend leaves it holding nothing, so no request matches it any more, and
  leaves every other backend's prefixes alone.
\<close>

theorem remove_backend_forgets:
  "held_prefixes (remove_backend (tree_run c ops) b) b = {} \<and>
   radix_match (remove_backend (tree_run c ops) b) hs b = None \<and>
   (\<forall>b'. b' \<noteq> b \<longrightarrow> held_prefixes (remove_backend (tree_run c ops) b) b' = held_prefixes (tree_run c ops) b')"
  using rt.held_rem [OF tree_run_ok_cap(1)] rt.lookup_rem [OF tree_run_ok_cap(1)] by simp

theorem remove_backend_forgets_witness:
  "radix_match (remove_backend (tree_run 9 [OpInsert [1, 2] ''b0'', OpInsert [1, 3] ''b1'']) ''b0'') [1, 2] ''b0'' = None"
  using remove_backend_forgets [of 9 "[OpInsert [1, 2] ''b0'', OpInsert [1, 3] ''b1'']" "''b0''" "[1, 2]"] by simp

text \<open>
  Insert, then match: while the backend has room for the chain, the next request for the
  same chain is a full match on it.
\<close>

theorem insert_then_match:
  assumes "hs \<noteq> []" and "held_blocks (tree_run c ops) b + int (length hs) \<le> c"
  shows "radix_match (radix_insert (tree_run c ops) hs b) hs b = Some (length hs)"
proof -
  let ?t = "tree_run c ops"
  note ok = tree_run_ok_cap [of c ops]
  have "card (held_prefixes ?t b \<union> {p. p \<noteq> [] \<and> prefix p hs}) \<le> card (held_prefixes ?t b) + length hs"
    using card_Un_le [of "held_prefixes ?t b" "{p. p \<noteq> [] \<and> prefix p hs}"] by (simp add: card_nonempty_prefixes)
  then have "int (card (held_prefixes ?t b \<union> {p. p \<noteq> [] \<and> prefix p hs})) \<le> cap ?t"
    using assms(2) held_blocks_card(1) [OF ok(1), of b] ok(2) by linarith
  then obtain m where m: "radix_match (radix_insert ?t hs b) hs b = Some m" "length hs \<le> m"
    using rt.lookup_after_ins [OF ok(1) assms(1) _ assms(1), of b "[]"] by (auto simp del: Un_iff)
  moreover have "m \<le> length hs" using rt.lookup_le [OF rt.ok_ins [OF ok(1)] m(1)] .
  ultimately show ?thesis by simp
qed

theorem insert_then_match_witness:
  "radix_match (radix_insert (tree_run 5 []) [1, 2] ''b0'') [1, 2] ''b0'' = Some 2"
proof -
  have "held_blocks (tree_run 5 []) ''b0'' = 0"
    using held_blocks_card(1) [OF tree_run_ok_cap(1), of 5 "[]" "''b0''"] by (simp add: held_prefixes_init)
  then show ?thesis using insert_then_match [of "[1, 2]" 5 "[]" "''b0''"] by simp
qed

text \<open>
  Eviction takes the least recently used node first, and a chain's nodes are touched from the
  root down: the front of a chain goes before its tail.  What stays is held by a backend that no
  longer holds the prefix in front of it, counts against its capacity and can never match.
\<close>

theorem eviction_keeps_unreachable_tail:
  "let t = tree_run 1 [OpInsert [1] ''b0'', OpInsert [1, 2] ''b0''] in
   covers (root t) ''b0'' [1, 2] \<and> \<not> covers (root t) ''b0'' [1] \<and>
   held_blocks t ''b0'' = 1 \<and> radix_match t [1, 2] ''b0'' = None"
  by (simp add: tree_run_def RadixTree_init_def radix_insert_def radix_evict_def insert_walk.simps
      radix_track_def dget_def set_holder_def lru_total_def edge_len_def held_blocks_def
      radix_match_def match_walk.simps covers.simps dkeys_def Let_def)

end
