(* ===== verification/Circuit.thy ===== *)
theory Circuit
  imports Gw_Prelude
begin

section \<open>The circuit breaker\<close>

text \<open>
  \<^verbatim>\<open>gateway/circuit.py\<close>: per backend a count of consecutive failures and the time the circuit
  was opened.  The three states are computed from them and the clock; the clock is an argument
  of every operation, as the code's \<open>now\<close>.
\<close>

type_synonym backend = string

datatype cb_state = CLOSED | HALF_OPEN | OPEN

record CircuitBreaker =
  fail_threshold :: int
  cooldown_s :: pyfloat
  fails :: "(backend, int) dict"
  opened_at :: "(backend, pyfloat) dict"

definition CircuitBreaker_init :: "int \<Rightarrow> pyfloat \<Rightarrow> CircuitBreaker" where
  "CircuitBreaker_init thr cd = \<lparr>fail_threshold = thr, cooldown_s = cd, fails = [], opened_at = []\<rparr>"

definition circuit_state :: "CircuitBreaker \<Rightarrow> backend \<Rightarrow> pyfloat \<Rightarrow> cb_state" where
  "circuit_state cb b now =
     (case map_of (opened_at cb) b of
        None \<Rightarrow> CLOSED
      | Some opened \<Rightarrow> if now - opened \<ge> cooldown_s cb then HALF_OPEN else OPEN)"

fun state_code_of :: "cb_state \<Rightarrow> nat" where
  "state_code_of CLOSED = 0"
| "state_code_of HALF_OPEN = 1"
| "state_code_of OPEN = 2"

definition state_code :: "CircuitBreaker \<Rightarrow> backend \<Rightarrow> pyfloat \<Rightarrow> nat" where
  "state_code cb b now = state_code_of (circuit_state cb b now)"

definition allow :: "CircuitBreaker \<Rightarrow> backend \<Rightarrow> pyfloat \<Rightarrow> bool" where
  "allow cb b now \<longleftrightarrow> circuit_state cb b now \<noteq> OPEN"

definition record_success :: "CircuitBreaker \<Rightarrow> backend \<Rightarrow> CircuitBreaker" where
  "record_success cb b =
     cb\<lparr>fails := AList.update b 0 (fails cb), opened_at := AList.delete b (opened_at cb)\<rparr>"

definition record_failure :: "CircuitBreaker \<Rightarrow> backend \<Rightarrow> pyfloat \<Rightarrow> CircuitBreaker" where
  "record_failure cb b now =
     (if circuit_state cb b now = HALF_OPEN
      then cb\<lparr>opened_at := AList.update b now (opened_at cb),
               fails := AList.update b (fail_threshold cb) (fails cb)\<rparr>
      else let n = dget (fails cb) b 0 + 1;
               cb' = cb\<lparr>fails := AList.update b n (fails cb)\<rparr>
           in if n \<ge> fail_threshold cb
              then cb'\<lparr>opened_at := AList.update b now (opened_at cb)\<rparr>
              else cb')"

text \<open>What happens to a breaker over time: reports with their time stamps.\<close>

datatype report = Success backend pyfloat | Failure backend pyfloat

fun report_time :: "report \<Rightarrow> pyfloat" where
  "report_time (Success b now) = now"
| "report_time (Failure b now) = now"

fun report_backend :: "report \<Rightarrow> backend" where
  "report_backend (Success b now) = b"
| "report_backend (Failure b now) = b"

fun circuit_step :: "CircuitBreaker \<Rightarrow> report \<Rightarrow> CircuitBreaker" where
  "circuit_step cb (Success b now) = record_success cb b"
| "circuit_step cb (Failure b now) = record_failure cb b now"

definition circuit_run :: "CircuitBreaker \<Rightarrow> report list \<Rightarrow> CircuitBreaker" where
  "circuit_run cb rs = foldl circuit_step cb rs"


lemma CircuitBreaker_init_simps [simp]:
  "fail_threshold (CircuitBreaker_init thr cd) = thr" "cooldown_s (CircuitBreaker_init thr cd) = cd"
  by (simp_all add: CircuitBreaker_init_def)


subsection \<open>One backend at a time\<close>

lemma circuit_step_frame [simp]:
  "fail_threshold (circuit_step cb r) = fail_threshold cb"
  "cooldown_s (circuit_step cb r) = cooldown_s cb"
  by (cases r; simp add: record_success_def record_failure_def Let_def)+

lemma circuit_run_frame [simp]:
  "fail_threshold (circuit_run cb rs) = fail_threshold cb"
  "cooldown_s (circuit_run cb rs) = cooldown_s cb"
  by (induction rs arbitrary: cb) (simp_all add: circuit_run_def)

lemma circuit_step_other:
  "report_backend r \<noteq> b \<Longrightarrow>
     map_of (opened_at (circuit_step cb r)) b = map_of (opened_at cb) b \<and>
     dget (fails (circuit_step cb r)) b 0 = dget (fails cb) b 0"
  by (cases r) (auto simp: record_success_def record_failure_def Let_def)

lemma circuit_run_append: "circuit_run cb (rs @ [r]) = circuit_step (circuit_run cb rs) r"
  by (simp add: circuit_run_def)

text \<open>The reports of one backend since its last success, newest last.\<close>

definition fail_streak :: "backend \<Rightarrow> report list \<Rightarrow> report list" where
  "fail_streak b rs = rev (takeWhile (\<lambda>r. \<exists>t. r = Failure b t) (rev (filter (\<lambda>r. report_backend r = b) rs)))"

lemma fail_streak_snoc:
  "fail_streak b (rs @ [r]) =
     (if report_backend r \<noteq> b then fail_streak b rs
      else case r of Success _ _ \<Rightarrow> [] | Failure _ _ \<Rightarrow> fail_streak b rs @ [r])"
  by (cases r) (auto simp: fail_streak_def)

text \<open>
  The invariant: a circuit is open or half-open exactly when the backend's failure streak has
  reached the threshold, and then it was opened no earlier than some failure of the streak.
\<close>

definition circuit_inv :: "CircuitBreaker \<Rightarrow> report list \<Rightarrow> backend \<Rightarrow> bool" where
  "circuit_inv cb rs b \<longleftrightarrow>
     (case map_of (opened_at cb) b of
        None \<Rightarrow> dget (fails cb) b 0 = int (length (fail_streak b rs)) \<and>
                int (length (fail_streak b rs)) < fail_threshold cb
      | Some t \<Rightarrow> fail_streak b rs \<noteq> [] \<and> last (fail_streak b rs) = Failure b t \<and>
                  fail_threshold cb \<le> int (length (fail_streak b rs)) \<and>
                  fail_threshold cb \<le> dget (fails cb) b 0)"

lemma circuit_inv_init: "0 < thr \<Longrightarrow> circuit_inv (CircuitBreaker_init thr cd) [] b"
  by (simp add: circuit_inv_def CircuitBreaker_init_def fail_streak_def)

lemma circuit_inv_step:
  assumes "circuit_inv cb rs b" and "0 < fail_threshold cb"
  shows "circuit_inv (circuit_step cb r) (rs @ [r]) b"
proof (cases "report_backend r = b")
  case False
  then show ?thesis
    using assms circuit_step_other [OF False, of cb] by (auto simp: circuit_inv_def fail_streak_snoc split: option.splits)
next
  case True
  show ?thesis
  proof (cases r)
    case (Success b' now)
    then show ?thesis using True assms
      by (simp add: circuit_inv_def fail_streak_snoc record_success_def)
  next
    case (Failure b' now)
    then show ?thesis using True assms
      by (auto simp: circuit_inv_def fail_streak_snoc record_failure_def circuit_state_def Let_def
          split: option.splits if_splits)
  qed
qed

lemma circuit_inv_run:
  "0 < thr \<Longrightarrow> circuit_inv (circuit_run (CircuitBreaker_init thr cd) rs) rs b"
proof (induction rs rule: rev_induct)
  case Nil
  then show ?case by (simp add: circuit_run_def circuit_inv_init)
next
  case (snoc r rs)
  have "fail_threshold (circuit_run (CircuitBreaker_init thr cd) rs) = thr"
    by simp
  with snoc show ?case unfolding circuit_run_append by (intro circuit_inv_step) simp_all
qed

text \<open>
  C33. A backend's circuit is exactly what its history says, over any interleaving with the
  reports of other backends: closed while fewer than the threshold failures have followed its
  last success; otherwise open until the cooldown has passed since its latest failure, and
  half-open after that.
\<close>

theorem circuit_state_history:
  assumes "0 < thr"
  shows "circuit_state (circuit_run (CircuitBreaker_init thr cd) rs) b now =
    (if int (length (fail_streak b rs)) < thr then CLOSED
     else if now - report_time (last (fail_streak b rs)) \<ge> cd then HALF_OPEN else OPEN)"
proof -
  have thr: "fail_threshold (circuit_run (CircuitBreaker_init thr cd) rs) = thr"
    "cooldown_s (circuit_run (CircuitBreaker_init thr cd) rs) = cd"
    by simp_all
  show ?thesis
    using circuit_inv_run [OF assms, of cd rs b]
    by (auto simp: circuit_inv_def circuit_state_def thr split: option.splits)
qed

theorem circuit_state_history_witness:
  "circuit_state (circuit_run (CircuitBreaker_init 2 5)
     [Failure ''b0'' 1, Success ''b1'' 2, Failure ''b0'' 3]) ''b0'' 4 = OPEN"
  using circuit_state_history [of 2 5 "[Failure ''b0'' 1, Success ''b1'' 2, Failure ''b0'' 3]" "''b0''" 4]
  by (simp add: fail_streak_def)

end
