(* ===== verification/Load_Tracker.thy ===== *)
theory Load_Tracker
  imports Circuit "HOL-Library.Multiset"
begin

section \<open>Load accounting\<close>

text \<open>
  \<^verbatim>\<open>gateway/load_tracker.py\<close>: the in-flight counters the router reads, updated at dispatch and at
  completion, and the KV usage folded in from scrapes.  Reading a missing key of the code's
  \<open>defaultdict\<close>s gives zero, which is \<open>dget\<close> with default 0.
\<close>

record LoadTracker =
  inflight :: "(backend, int) dict"
  inflight_tokens :: "(backend, int) dict"
  kv_usage :: "(backend, pyfloat) dict"

definition LoadTracker_init :: LoadTracker where
  "LoadTracker_init = \<lparr>inflight = [], inflight_tokens = [], kv_usage = []\<rparr>"

definition on_dispatch :: "LoadTracker \<Rightarrow> backend \<Rightarrow> int \<Rightarrow> LoadTracker" where
  "on_dispatch l b tokens =
     l\<lparr>inflight := AList.update b (dget (inflight l) b 0 + 1) (inflight l),
       inflight_tokens := AList.update b (dget (inflight_tokens l) b 0 + tokens) (inflight_tokens l)\<rparr>"

definition on_complete :: "LoadTracker \<Rightarrow> backend \<Rightarrow> int \<Rightarrow> LoadTracker" where
  "on_complete l b tokens =
     l\<lparr>inflight := AList.update b (max 0 (dget (inflight l) b 0 - 1)) (inflight l),
       inflight_tokens := AList.update b (max 0 (dget (inflight_tokens l) b 0 - tokens)) (inflight_tokens l)\<rparr>"

definition update_scraped :: "LoadTracker \<Rightarrow> backend \<Rightarrow> pyfloat \<Rightarrow> pyfloat \<Rightarrow> LoadTracker" where
  "update_scraped l b kv alpha =
     l\<lparr>kv_usage := AList.update b (alpha * kv + (1 - alpha) * dget (kv_usage l) b 0) (kv_usage l)\<rparr>"


subsection \<open>The counters are the outstanding requests\<close>

datatype load_event =
    Dispatch backend int
  | Complete backend int
  | Scrape backend pyfloat pyfloat

fun load_step :: "LoadTracker \<Rightarrow> load_event \<Rightarrow> LoadTracker" where
  "load_step l (Dispatch b n) = on_dispatch l b n"
| "load_step l (Complete b n) = on_complete l b n"
| "load_step l (Scrape b kv a) = update_scraped l b kv a"

text \<open>
  The requests that are dispatched and not completed.  A completion of a request that is not
  outstanding has no place in a trace of the gateway, which completes every dispatch once.
\<close>

fun outstanding :: "load_event list \<Rightarrow> (backend \<times> int) multiset option" where
  "outstanding [] = Some {#}"
| "outstanding (e # es) =
     (case outstanding es of
        None \<Rightarrow> None
      | Some m \<Rightarrow>
          (case e of
             Dispatch b n \<Rightarrow> if 0 \<le> n then Some (add_mset (b, n) m) else None
           | Complete b n \<Rightarrow> if (b, n) \<in># m then Some (m - {#(b, n)#}) else None
           | Scrape b kv a \<Rightarrow> Some m))"

text \<open>The trace is written newest event first.\<close>

definition load_run :: "load_event list \<Rightarrow> LoadTracker" where
  "load_run es = foldr (\<lambda>e l. load_step l e) es LoadTracker_init"

definition load_matches :: "LoadTracker \<Rightarrow> (backend \<times> int) multiset \<Rightarrow> bool" where
  "load_matches l m \<longleftrightarrow> (\<forall>b.
     dget (inflight l) b 0 = int (size {#p \<in># m. fst p = b#}) \<and>
     dget (inflight_tokens l) b 0 = (\<Sum>p \<in># {#p \<in># m. fst p = b#}. snd p) \<and>
     (\<forall>p \<in># m. 0 \<le> snd p))"

lemma load_matches_dispatch:
  "load_matches l m \<Longrightarrow> 0 \<le> n \<Longrightarrow> load_matches (on_dispatch l b n) (add_mset (b, n) m)"
  by (auto simp: load_matches_def on_dispatch_def)

lemma sum_mset_nonneg_int: "(\<And>p. p \<in># M \<Longrightarrow> 0 \<le> (f p :: int)) \<Longrightarrow> 0 \<le> (\<Sum>p \<in># M. f p)"
  by (induction M) auto

lemma load_matches_complete:
  assumes "load_matches l m" and "(b, n) \<in># m"
  shows "load_matches (on_complete l b n) (m - {#(b, n)#})"
proof -
  obtain m' where m: "m = add_mset (b, n) m'" using assms(2) by (metis insert_DiffM)
  have "0 \<le> (\<Sum>p \<in># {#p \<in># m'. fst p = b#}. snd p)"
    using assms(1) by (intro sum_mset_nonneg_int) (auto simp: load_matches_def m)
  then show ?thesis using assms(1) by (auto simp: load_matches_def on_complete_def m)
qed

lemma load_matches_run: "outstanding es = Some m \<Longrightarrow> load_matches (load_run es) m"
proof (induction es arbitrary: m)
  case Nil
  then show ?case by (simp add: load_run_def load_matches_def LoadTracker_init_def)
next
  case (Cons e es)
  have run: "load_run (e # es) = load_step (load_run es) e" by (simp add: load_run_def)
  show ?case
    using Cons unfolding run
    by (auto simp: load_matches_dispatch load_matches_complete split: option.splits load_event.splits if_splits)
       (auto simp: load_matches_def update_scraped_def)
qed

text \<open>
  Over any trace that completes only dispatched requests, a backend's in-flight counter is
  the number of its outstanding requests and its token counter the sum of their tokens: the
  clamping at zero never hides a request.
\<close>

theorem load_accounting:
  assumes "outstanding es = Some m"
  shows "dget (inflight (load_run es)) b 0 = int (size {#p \<in># m. fst p = b#}) \<and>
    dget (inflight_tokens (load_run es)) b 0 = (\<Sum>p \<in># {#p \<in># m. fst p = b#}. snd p)"
  using load_matches_run [OF assms] by (simp add: load_matches_def)

theorem load_accounting_witness:
  "dget (inflight (load_run [Complete ''b0'' 16, Dispatch ''b0'' 32, Dispatch ''b0'' 16])) ''b0'' 0 = 1"
  using load_accounting [of "[Complete ''b0'' 16, Dispatch ''b0'' 32, Dispatch ''b0'' 16]"
      "{#(''b0'', 32)#}" "''b0''"] by simp

lemma update_scraped_bounds:
  assumes "0 \<le> alpha" "alpha \<le> 1" "0 \<le> kv" "kv \<le> 1"
    and "0 \<le> dget (kv_usage l) b' 0" "dget (kv_usage l) b' 0 \<le> 1"
  shows "0 \<le> dget (kv_usage (update_scraped l b kv alpha)) b' 0 \<and>
    dget (kv_usage (update_scraped l b kv alpha)) b' 0 \<le> 1"
proof (cases "b' = b")
  case True
  have "alpha * kv + (1 - alpha) * dget (kv_usage l) b' 0 \<le> alpha * 1 + (1 - alpha) * 1"
    using assms by (intro add_mono mult_left_mono) auto
  with True assms show ?thesis by (simp add: update_scraped_def)
qed (use assms in \<open>simp add: update_scraped_def\<close>)

end
