(* ===== verification/Backends.thy ===== *)
theory Backends
  imports Circuit
begin

section \<open>The backend registry\<close>

text \<open>
  \<^verbatim>\<open>gateway/backends.py\<close> and the adapter-aware selection of \<^verbatim>\<open>gateway/extensions/lora.py\<close>: the
  fleet, its parsing from the configuration, its changes at run time, and the filter that gives
  a request its candidates.
\<close>

record Backend =
  backend_id :: string
  url :: string
  model :: string
  healthy :: bool
  draining :: bool
  adapters :: "string set"

definition new_Backend :: "string \<Rightarrow> string \<Rightarrow> string \<Rightarrow> Backend" where
  "new_Backend i u m =
     \<lparr>backend_id = i, url = u, model = m, healthy = True, draining = False, adapters = {}\<rparr>"

record BackendRegistry =
  by_id :: "(string, Backend) dict"
  default_model :: string

fun load_pairs :: "string \<Rightarrow> string list \<Rightarrow> (string, Backend) dict \<Rightarrow> (string, Backend) dict" where
  "load_pairs m [] d = d"
| "load_pairs m (pair # pairs) d =
     (let p = py_strip pair in
      if p = [] then load_pairs m pairs d
      else let (bid, _, u) = py_partition (CHR ''='') p
           in load_pairs m pairs
                (AList.update (py_strip bid) (new_Backend (py_strip bid) (py_strip u) m) d))"

definition BackendRegistry_init :: "string \<Rightarrow> string \<Rightarrow> BackendRegistry" where
  "BackendRegistry_init backends dm =
     \<lparr>by_id = load_pairs dm (py_split (CHR '','') backends) [], default_model = dm\<rparr>"

definition all_backends :: "BackendRegistry \<Rightarrow> Backend list" where
  "all_backends r = map snd (by_id r)"

definition add_backend :: "BackendRegistry \<Rightarrow> string \<Rightarrow> string \<Rightarrow> string option \<Rightarrow> bool \<times> BackendRegistry" where
  "add_backend r b u m =
     (case map_of (by_id r) b of
        None \<Rightarrow>
          let m' = (case m of None \<Rightarrow> default_model r | Some s \<Rightarrow> if s = [] then default_model r else s)
          in (True, r\<lparr>by_id := AList.update b (new_Backend b u m'\<lparr>healthy := False\<rparr>) (by_id r)\<rparr>)
      | Some be \<Rightarrow> (False, r\<lparr>by_id := AList.update b (be\<lparr>url := u\<rparr>) (by_id r)\<rparr>))"

definition remove_from :: "BackendRegistry \<Rightarrow> string \<Rightarrow> bool \<times> BackendRegistry" where
  "remove_from r b = (map_of (by_id r) b \<noteq> None, r\<lparr>by_id := AList.delete b (by_id r)\<rparr>)"

definition url_of :: "BackendRegistry \<Rightarrow> string \<Rightarrow> string result" where
  "url_of r b = (case map_of (by_id r) b of None \<Rightarrow> Inl KeyError | Some be \<Rightarrow> Inr (url be))"

definition set_health :: "BackendRegistry \<Rightarrow> string \<Rightarrow> bool \<Rightarrow> BackendRegistry" where
  "set_health r b h =
     (case map_of (by_id r) b of
        None \<Rightarrow> r
      | Some be \<Rightarrow> r\<lparr>by_id := AList.update b (be\<lparr>healthy := h\<rparr>) (by_id r)\<rparr>)"

definition get_backend :: "BackendRegistry \<Rightarrow> string \<Rightarrow> Backend option" where
  "get_backend r b = map_of (by_id r) b"

definition set_draining :: "BackendRegistry \<Rightarrow> string \<Rightarrow> bool \<Rightarrow> bool \<times> BackendRegistry" where
  "set_draining r b d =
     (case map_of (by_id r) b of
        None \<Rightarrow> (False, r)
      | Some be \<Rightarrow> (True, r\<lparr>by_id := AList.update b (be\<lparr>draining := d\<rparr>) (by_id r)\<rparr>))"

definition ids_for :: "BackendRegistry \<Rightarrow> string option \<Rightarrow> string list" where
  "ids_for r m =
     map backend_id (filter (\<lambda>b. healthy b \<and> \<not> draining b \<and> (m = None \<or> m = Some (model b))) (all_backends r))"


subsection \<open>Adapters\<close>

definition none_if_empty :: "string \<Rightarrow> string option" where
  "none_if_empty s = (if s = [] then None else Some s)"

definition parse_model_spec :: "string option \<Rightarrow> string option \<times> string option" where
  "parse_model_spec m =
     (case m of
        None \<Rightarrow> (None, None)
      | Some s \<Rightarrow>
          if s = [] then (None, None)
          else let (base, found, adapter) = py_partition (CHR '':'') s in
               if \<not> found then (Some s, None)
               else (none_if_empty (py_strip base), none_if_empty (py_strip adapter)))"

fun load_segments :: "string list \<Rightarrow> (string, string set) dict \<Rightarrow> (string, string set) dict" where
  "load_segments [] d = d"
| "load_segments (seg # segs) d =
     (let s = py_strip seg; (bid, found, rest) = py_partition (CHR '':'') s; b = py_strip bid;
          as = {a \<in> py_strip ` set (py_split (CHR '','') rest). a \<noteq> []}
      in if s = [] \<or> \<not> found \<or> b = [] \<or> as = {} then load_segments segs d
         else load_segments segs (AList.update b as d))"

definition parse_adapter_config :: "string \<Rightarrow> (string, string set) dict" where
  "parse_adapter_config spec = (if spec = [] then [] else load_segments (py_split (CHR '';'') spec) [])"

definition apply_adapter_config :: "BackendRegistry \<Rightarrow> string \<Rightarrow> BackendRegistry" where
  "apply_adapter_config r spec =
     (let parsed = parse_adapter_config spec in
      r\<lparr>by_id := map (\<lambda>(k, b). (k, case map_of parsed (backend_id b) of
                                     None \<Rightarrow> b | Some as \<Rightarrow> b\<lparr>adapters := as\<rparr>)) (by_id r)\<rparr>)"

text \<open>\<open>registry._by_id[bid].adapters\<close>; the ids come from the registry itself, see \<open>registry_ok\<close>.\<close>

definition has_adapter :: "BackendRegistry \<Rightarrow> string \<Rightarrow> string \<Rightarrow> bool" where
  "has_adapter r a b = (case map_of (by_id r) b of None \<Rightarrow> False | Some be \<Rightarrow> a \<in> adapters be)"

definition lora_filter :: "BackendRegistry \<Rightarrow> string option \<Rightarrow> string option \<Rightarrow> bool \<Rightarrow> string list" where
  "lora_filter r base adapter fallback_to_base =
     (let base_pool = ids_for r base in
      case adapter of
        None \<Rightarrow> base_pool
      | Some a \<Rightarrow>
          if a = [] then base_pool
          else let capable = filter (has_adapter r a) base_pool in
               if capable \<noteq> [] then capable
               else if fallback_to_base then base_pool else [])"


subsection \<open>The registry invariant\<close>

definition registry_ok :: "BackendRegistry \<Rightarrow> bool" where
  "registry_ok r \<longleftrightarrow> dict_ok (by_id r) \<and> (\<forall>(k, b) \<in> set (by_id r). backend_id b = k)"

lemma registry_ok_get: "registry_ok r \<Longrightarrow> map_of (by_id r) k = Some b \<Longrightarrow> backend_id b = k"
  by (auto simp: registry_ok_def dest: map_of_SomeD)

lemma set_update_subset: "set (AList.update k v d) \<subseteq> insert (k, v) (set d)"
  by (induction d) auto

lemma ball_update: "Q k v \<Longrightarrow> \<forall>(k, b) \<in> set d. Q k b \<Longrightarrow> \<forall>(k, b) \<in> set (AList.update k v d). Q k b"
  by (auto dest!: set_update_subset [THEN subsetD])

lemma registry_ok_update:
  "registry_ok r \<Longrightarrow> backend_id b = k \<Longrightarrow> registry_ok (r\<lparr>by_id := AList.update k b (by_id r)\<rparr>)"
  using ball_update [of "\<lambda>k b. backend_id b = k" k b "by_id r"] by (simp add: registry_ok_def)

definition entries_ok :: "(string, Backend) dict \<Rightarrow> bool" where
  "entries_ok d \<longleftrightarrow> dict_ok d \<and> (\<forall>(k, b) \<in> set d. backend_id b = k)"

lemma entries_ok_update: "entries_ok d \<Longrightarrow> backend_id b = k \<Longrightarrow> entries_ok (AList.update k b d)"
  using ball_update [of "\<lambda>k b. backend_id b = k" k b d] by (simp add: entries_ok_def)

lemma load_pairs_ok: "entries_ok d \<Longrightarrow> entries_ok (load_pairs m ps d)"
proof (induction ps arbitrary: d)
  case (Cons pair pairs)
  obtain bid f u where part: "py_partition (CHR ''='') (py_strip pair) = (bid, f, u)" by (metis prod_cases3)
  have "entries_ok (AList.update (py_strip bid) (new_Backend (py_strip bid) (py_strip u) m) d)"
    using Cons.prems by (rule entries_ok_update) (simp add: new_Backend_def)
  with Cons show ?case by (simp add: part Let_def)
qed simp

lemma registry_ok_init: "registry_ok (BackendRegistry_init s m)"
  using load_pairs_ok [of "[]" m] by (simp add: registry_ok_def BackendRegistry_init_def entries_ok_def)

lemma registry_ok_add: "registry_ok r \<Longrightarrow> registry_ok (snd (add_backend r b u m))"
  by (auto simp: add_backend_def new_Backend_def Let_def intro!: registry_ok_update
      dest: registry_ok_get split: option.split)

lemma registry_ok_remove: "registry_ok r \<Longrightarrow> registry_ok (snd (remove_from r b))"
  by (auto simp: remove_from_def registry_ok_def AList.delete_eq dict_ok_def distinct_map_filter)

lemma registry_ok_set_health: "registry_ok r \<Longrightarrow> registry_ok (set_health r b h)"
  by (auto simp: set_health_def intro!: registry_ok_update dest: registry_ok_get split: option.split)

lemma registry_ok_set_draining: "registry_ok r \<Longrightarrow> registry_ok (snd (set_draining r b d))"
  by (auto simp: set_draining_def intro!: registry_ok_update dest: registry_ok_get split: option.split)

lemmas registry_ok_ops = registry_ok_init registry_ok_add registry_ok_remove
  registry_ok_set_health registry_ok_set_draining

definition routable :: "string option \<Rightarrow> Backend \<Rightarrow> bool" where
  "routable m be \<longleftrightarrow> healthy be \<and> \<not> draining be \<and> (m = None \<or> m = Some (model be))"

lemma registry_ok_mem:
  "registry_ok r \<Longrightarrow> p \<in> set (by_id r) \<longleftrightarrow> map_of (by_id r) (backend_id (snd p)) = Some (snd p) \<and> fst p = backend_id (snd p)"
  by (cases p) (auto simp: registry_ok_def dict_ok_def dest: map_of_SomeD)

lemma set_ids_for:
  assumes "registry_ok r"
  shows "b \<in> set (ids_for r m) \<longleftrightarrow> (\<exists>be. map_of (by_id r) b = Some be \<and> routable m be)"
proof -
  have "b \<in> set (ids_for r m) \<longleftrightarrow> (\<exists>p \<in> set (by_id r). backend_id (snd p) = b \<and> routable m (snd p))"
    unfolding ids_for_def all_backends_def routable_def [symmetric] by auto
  also have "\<dots> \<longleftrightarrow> (\<exists>be. map_of (by_id r) b = Some be \<and> routable m be)"
    using registry_ok_mem [OF assms] registry_ok_get [OF assms] by (metis map_of_SomeD snd_conv)
  finally show ?thesis .
qed


subsection \<open>Candidates\<close>

text \<open>
  The changes of the fleet that handlers and the control loops make.
\<close>

datatype registry_op =
    OpAdd string string "string option"
  | OpRemove string
  | OpHealth string bool
  | OpDrain string bool

fun registry_step :: "BackendRegistry \<Rightarrow> registry_op \<Rightarrow> BackendRegistry" where
  "registry_step r (OpAdd b u m) = snd (add_backend r b u m)"
| "registry_step r (OpRemove b) = snd (remove_from r b)"
| "registry_step r (OpHealth b h) = set_health r b h"
| "registry_step r (OpDrain b d) = snd (set_draining r b d)"

lemma registry_ok_step: "registry_ok r \<Longrightarrow> registry_ok (registry_step r x)"
  by (cases x) (simp_all add: registry_ok_ops)

lemma registry_ok_run: "registry_ok r \<Longrightarrow> registry_ok (foldl registry_step r ops)"
  by (induction ops arbitrary: r) (simp_all add: registry_ok_step)

text \<open>An operation that may end the maintenance of backend \<open>b\<close>: undraining it, or removing it.\<close>

definition ends_drain :: "string \<Rightarrow> registry_op \<Rightarrow> bool" where
  "ends_drain b x \<longleftrightarrow> x = OpDrain b False \<or> x = OpRemove b"

definition is_draining :: "BackendRegistry \<Rightarrow> string \<Rightarrow> bool" where
  "is_draining r b \<longleftrightarrow> (\<exists>be. map_of (by_id r) b = Some be \<and> draining be)"

lemma is_draining_step: "is_draining r b \<Longrightarrow> \<not> ends_drain b x \<Longrightarrow> is_draining (registry_step r x) b"
  by (cases x) (auto simp: is_draining_def ends_drain_def add_backend_def remove_from_def
      set_health_def set_draining_def Let_def split: option.splits)

lemma is_draining_run:
  "is_draining r b \<Longrightarrow> \<forall>x \<in> set ops. \<not> ends_drain b x \<Longrightarrow> is_draining (foldl registry_step r ops) b"
  by (induction ops arbitrary: r) (auto intro: is_draining_step)

lemma lora_filter_subset: "set (lora_filter r base adapter fb) \<subseteq> set (ids_for r base)"
  by (auto simp: lora_filter_def Let_def split: option.splits if_splits)

text \<open>
  C34. Once a backend is drained, no request of any model or adapter gets it as a candidate,
  whatever health reports, additions, removals and drains of other backends happen, until it is
  undrained or removed.
\<close>

theorem drained_never_candidate:
  assumes "registry_ok r" and "fst (set_draining r b True)"
    and "\<forall>x \<in> set ops. \<not> ends_drain b x"
  shows "b \<notin> set (lora_filter (foldl registry_step (snd (set_draining r b True)) ops) base adapter fb)"
proof -
  let ?r = "foldl registry_step (snd (set_draining r b True)) ops"
  have "is_draining (snd (set_draining r b True)) b"
    using assms(2) by (auto simp: is_draining_def set_draining_def split: option.splits)
  then have "is_draining ?r b" using assms(3) by (rule is_draining_run)
  moreover have "registry_ok ?r"
    by (intro registry_ok_run registry_ok_set_draining assms(1))
  ultimately have "b \<notin> set (ids_for ?r base)"
    by (auto simp: set_ids_for is_draining_def routable_def)
  then show ?thesis using lora_filter_subset by blast
qed

definition demo_registry :: BackendRegistry where
  "demo_registry = BackendRegistry_init ''b0=http://h0,b1=http://h1'' ''m''"

lemma demo_registry_ok: "registry_ok demo_registry"
  by (simp add: demo_registry_def registry_ok_init)

lemma demo_registry_by_id:
  "by_id demo_registry =
     [(''b0'', new_Backend ''b0'' ''http://h0'' ''m''), (''b1'', new_Backend ''b1'' ''http://h1'' ''m'')]"
  by code_simp

theorem drained_never_candidate_witness:
  "''b0'' \<notin> set (lora_filter (foldl registry_step (snd (set_draining demo_registry ''b0'' True))
     [OpHealth ''b0'' True, OpDrain ''b1'' False]) None None True)"
  by (rule drained_never_candidate [OF demo_registry_ok])
     (simp_all add: ends_drain_def set_draining_def demo_registry_by_id)

text \<open>
  With the fallback switched off, every candidate for an adapter request is a registered,
  healthy, undrained backend of the base model that has the adapter loaded; with it on, the base
  pool is used only when no such backend exists.
\<close>

theorem lora_candidates:
  assumes "registry_ok r" and "a \<noteq> []"
  shows "b \<in> set (lora_filter r base (Some a) fb) \<longleftrightarrow>
    (\<exists>be. map_of (by_id r) b = Some be \<and> routable base be \<and>
       (a \<in> adapters be \<or>
        fb \<and> \<not> (\<exists>b' be'. map_of (by_id r) b' = Some be' \<and> routable base be' \<and> a \<in> adapters be')))"
proof -
  let ?C = "filter (has_adapter r a) (ids_for r base)"
  have C: "x \<in> set ?C \<longleftrightarrow> (\<exists>be. map_of (by_id r) x = Some be \<and> routable base be \<and> a \<in> adapters be)" for x
    by (auto simp: set_ids_for [OF assms(1)] has_adapter_def)
  show ?thesis
  proof (cases "?C = []")
    case True
    then have none: "\<not> (\<exists>b' be'. map_of (by_id r) b' = Some be' \<and> routable base be' \<and> a \<in> adapters be')"
      using C by (metis list.set(1) empty_iff)
    with True assms(2) show ?thesis
      by (auto simp: lora_filter_def Let_def set_ids_for [OF assms(1)])
  next
    case False
    then obtain x where "x \<in> set ?C" by (cases ?C) auto
    with C have "\<exists>b' be'. map_of (by_id r) b' = Some be' \<and> routable base be' \<and> a \<in> adapters be'" by blast
    moreover have "lora_filter r base (Some a) fb = ?C"
      using False assms(2) by (simp add: lora_filter_def Let_def)
    ultimately show ?thesis using C by simp
  qed
qed

theorem lora_candidates_witness:
  "''b0'' \<notin> set (lora_filter demo_registry None (Some ''sql'') False)"
  using lora_candidates [OF demo_registry_ok, of "''sql''" "''b0''" None False]
  by (simp add: demo_registry_by_id new_Backend_def)

end
