(* ===== verification/Json.thy ===== *)
theory Json
  imports Gw_Prelude
begin

section \<open>JSON\<close>

text \<open>
  Python's \<open>json\<close> module as the gateway uses it: \<open>json.dumps(v, separators=(",", ":"))\<close> and
  \<open>json.loads(s)\<close>, on texts of code points below 256.  The parser is recursive descent with a
  budget that \<open>json_loads\<close> sets from the length of the text; it is shown never to run out, and
  parsing a printed value gives the value back.
\<close>

datatype json =
    JNull
  | JBool bool
  | JInt int
  | JFloat pyfloat
  | JStr string
  | JArr "json list"
  | JObj "(string \<times> json) list"


subsection \<open>Printing\<close>

definition digit_char :: "nat \<Rightarrow> char" where
  "digit_char d = char_of (48 + d)"

fun show_nat :: "nat \<Rightarrow> string" where
  "show_nat n = (if n < 10 then [digit_char n] else show_nat (n div 10) @ [digit_char (n mod 10)])"

declare show_nat.simps [simp del]

definition show_int :: "int \<Rightarrow> string" where
  "show_int i = (if i < 0 then CHR ''-'' # show_nat (nat (- i)) else show_nat (nat i))"

text \<open>\<open>str(v)\<close> of a parsed value; the \<open>repr\<close> of containers and floats is not modelled.\<close>

fun py_str :: "json \<Rightarrow> string result" where
  "py_str JNull = Inr ''None''"
| "py_str (JBool b) = Inr (if b then ''True'' else ''False'')"
| "py_str (JInt i) = Inr (show_int i)"
| "py_str (JStr s) = Inr s"
| "py_str _ = Inl NotModelled"

text \<open>Whether a decoded value counts as true in a condition.\<close>

fun json_truthy :: "json \<Rightarrow> bool" where
  "json_truthy JNull = False"
| "json_truthy (JBool b) = b"
| "json_truthy (JInt i) = (i \<noteq> 0)"
| "json_truthy (JFloat x) = (x \<noteq> 0)"
| "json_truthy (JStr s) = (s \<noteq> [])"
| "json_truthy (JArr vs) = (vs \<noteq> [])"
| "json_truthy (JObj kvs) = (kvs \<noteq> [])"

definition hex_digit :: "nat \<Rightarrow> char" where
  "hex_digit d = (if d < 10 then char_of (48 + d) else char_of (87 + d))"

text \<open>\<open>ensure_ascii\<close>: everything but the printable ASCII characters is escaped.\<close>

text \<open>\<open>repr\<close> of a string, as the format \<open>!r\<close> prints it.\<close>

definition repr_char :: "char \<Rightarrow> char \<Rightarrow> string" where
  "repr_char q c = (let n = (of_char c :: nat) in
     if c = q \<or> c = CHR 0x5C then [CHR 0x5C, c]
     else if n = 10 then [CHR 0x5C, CHR ''n''] else if n = 13 then [CHR 0x5C, CHR ''r'']
     else if n = 9 then [CHR 0x5C, CHR ''t'']
     else if n < 32 \<or> 127 \<le> n \<and> n \<le> 160 \<or> n = 173
     then [CHR 0x5C, CHR ''x'', hex_digit (n div 16), hex_digit (n mod 16)] else [c])"

definition py_repr :: "string \<Rightarrow> string" where
  "py_repr s =
     (let q = (if CHR 0x27 \<in> set s \<and> CHR 0x22 \<notin> set s then CHR 0x22 else CHR 0x27)
      in q # concat (map (repr_char q) s) @ [q])"

definition esc_char :: "char \<Rightarrow> string" where
  "esc_char c = (let n = (of_char c :: nat) in
     if n = 34 then [CHR 0x5C, CHR 0x22]
     else if n = 92 then [CHR 0x5C, CHR 0x5C]
     else if n = 10 then [CHR 0x5C, CHR ''n'']
     else if n = 13 then [CHR 0x5C, CHR ''r'']
     else if n = 9 then [CHR 0x5C, CHR ''t'']
     else if n = 12 then [CHR 0x5C, CHR ''f'']
     else if n = 8 then [CHR 0x5C, CHR ''b'']
     else if 32 \<le> n \<and> n \<le> 126 then [c]
     else [CHR 0x5C, CHR ''u'', CHR ''0'', CHR ''0'', hex_digit (n div 16), hex_digit (n mod 16)])"

definition json_string :: "string \<Rightarrow> string" where
  "json_string s = CHR 0x22 # concat (map esc_char s) @ [CHR 0x22]"

fun dumps_text :: "json \<Rightarrow> string" where
  "dumps_text JNull = ''null''"
| "dumps_text (JBool True) = ''true''"
| "dumps_text (JBool False) = ''false''"
| "dumps_text (JInt i) = show_int i"
| "dumps_text (JFloat x) = []"
| "dumps_text (JStr s) = json_string s"
| "dumps_text (JArr vs) = CHR ''['' # py_join (CHR '','') (map dumps_text vs) @ [CHR '']'']"
| "dumps_text (JObj kvs) =
     CHR ''{'' # py_join (CHR '','') (map (\<lambda>kv. json_string (fst kv) @ CHR '':'' # dumps_text (snd kv)) kvs) @
       [CHR ''}'']"

fun has_float :: "json \<Rightarrow> bool" where
  "has_float (JFloat _) = True"
| "has_float (JArr vs) = (\<exists>v \<in> set vs. has_float v)"
| "has_float (JObj kvs) = (\<exists>kv \<in> set kvs. has_float (snd kv))"
| "has_float _ = False"

text \<open>The shortest decimal that reads back as a given float is not modelled; no event has a float.\<close>

definition json_dumps :: "json \<Rightarrow> string result" where
  "json_dumps v = (if has_float v then Inl NotModelled else Inr (dumps_text v))"


subsection \<open>Parsing\<close>

definition json_ws :: "char \<Rightarrow> bool" where
  "json_ws c \<longleftrightarrow> (let n = (of_char c :: nat) in n = 32 \<or> n = 9 \<or> n = 10 \<or> n = 13)"

definition skip_ws :: "string \<Rightarrow> string" where
  "skip_ws s = dropWhile json_ws s"

definition hex_val :: "char \<Rightarrow> nat option" where
  "hex_val c = (let n = (of_char c :: nat) in
     if 48 \<le> n \<and> n \<le> 57 then Some (n - 48)
     else if 97 \<le> n \<and> n \<le> 102 then Some (n - 87)
     else if 65 \<le> n \<and> n \<le> 70 then Some (n - 55)
     else None)"

fun hex4 :: "string \<Rightarrow> nat option" where
  "hex4 [a, b, c, d] =
     (case (hex_val a, hex_val b, hex_val c, hex_val d) of
        (Some w, Some x, Some y, Some z) \<Rightarrow> Some (((w * 16 + x) * 16 + y) * 16 + z)
      | _ \<Rightarrow> None)"
| "hex4 _ = None"

definition simple_escape :: "char \<Rightarrow> char option" where
  "simple_escape c =
     (if c = CHR 0x22 \<or> c = CHR 0x5C \<or> c = CHR ''/'' then Some c
      else if c = CHR ''b'' then Some (CHR 0x08) else if c = CHR ''f'' then Some (CHR 0x0C)
      else if c = CHR ''n'' then Some (CHR 0x0A) else if c = CHR ''r'' then Some (CHR 0x0D)
      else if c = CHR ''t'' then Some (CHR 0x09) else None)"

text \<open>The characters of a string literal, after its opening quote.\<close>

fun p_chars :: "string \<Rightarrow> (string \<times> string) result" where
  "p_chars [] = Inl ValueError"
| "p_chars (c # s) =
     (if c = CHR 0x22 then Inr ([], s)
      else if c = CHR 0x5C then
        (case s of
           [] \<Rightarrow> Inl ValueError
         | e # s' \<Rightarrow>
             if e = CHR ''u'' then
               (case hex4 (take 4 s') of
                  None \<Rightarrow> Inl ValueError
                | Some n \<Rightarrow> if 256 \<le> n then Inl NotModelled
                    else res_bind (p_chars (drop 4 s')) (\<lambda>(t, r). Inr (char_of n # t, r)))
             else (case simple_escape e of
                     None \<Rightarrow> Inl ValueError
                   | Some x \<Rightarrow> res_bind (p_chars s') (\<lambda>(t, r). Inr (x # t, r))))
      else if (of_char c :: nat) < 32 then Inl ValueError
      else res_bind (p_chars s) (\<lambda>(t, r). Inr (c # t, r)))"

definition digits_val :: "string \<Rightarrow> nat" where
  "digits_val s = foldl (\<lambda>v c. 10 * v + digit_val c) 0 s"

text \<open>
  A number: \<open>-?(0|[1-9]\d*)(\.\d+)?([eE][-+]?\d+)?\<close>.  A fraction or exponent that does not match
  is left in the rest.
\<close>

definition p_frac :: "string \<Rightarrow> (pyfloat \<times> string) option" where
  "p_frac s = (case s of [] \<Rightarrow> None | c # s' \<Rightarrow>
     if c = CHR ''.'' then
       let ds = takeWhile py_isdigit s' in
       if ds = [] then None
       else Some (of_nat (digits_val ds) / 10 ^ length ds, dropWhile py_isdigit s')
     else None)"

definition p_exp :: "string \<Rightarrow> (pyfloat \<times> string) option" where
  "p_exp s = (case s of [] \<Rightarrow> None | c # s' \<Rightarrow>
     if c = CHR ''e'' \<or> c = CHR ''E'' then
       let (neg, t) = (case s' of [] \<Rightarrow> (False, []) | d # u \<Rightarrow>
              if d = CHR ''-'' then (True, u) else if d = CHR ''+'' then (False, u) else (False, s'));
           ds = takeWhile py_isdigit t
       in if ds = [] then None
          else Some (if neg then 1 / 10 ^ digits_val ds else 10 ^ digits_val ds, dropWhile py_isdigit t)
     else None)"

definition p_tail :: "bool \<Rightarrow> nat \<Rightarrow> string \<Rightarrow> json \<times> string" where
  "p_tail neg n s =
     (let sgn = (if neg then - 1 else 1) in
      case (p_frac s, p_exp (case p_frac s of None \<Rightarrow> s | Some (_, r) \<Rightarrow> r)) of
        (None, None) \<Rightarrow> (JInt (of_int sgn * int n), s)
      | (Some (f, r), None) \<Rightarrow> (JFloat (of_int sgn * (of_nat n + f)), r)
      | (None, Some (e, r)) \<Rightarrow> (JFloat (of_int sgn * of_nat n * e), r)
      | (Some (f, _), Some (e, r)) \<Rightarrow> (JFloat (of_int sgn * (of_nat n + f) * e), r))"

definition p_unsigned :: "bool \<Rightarrow> string \<Rightarrow> (json \<times> string) result" where
  "p_unsigned neg s = (case s of
     [] \<Rightarrow> Inl ValueError
   | c # s' \<Rightarrow>
       if c = CHR ''0'' then Inr (p_tail neg 0 s')
       else if py_isdigit c
            then Inr (p_tail neg (digits_val (takeWhile py_isdigit s)) (dropWhile py_isdigit s))
       else Inl ValueError)"

definition starts :: "string \<Rightarrow> string \<Rightarrow> bool" where
  "starts w s \<longleftrightarrow> take (length w) s = w"

text \<open>\<open>NaN\<close> and the infinities are accepted by Python's parser and outside the model.\<close>

definition p_atom :: "string \<Rightarrow> (json \<times> string) result" where
  "p_atom s =
     (if starts ''null'' s then Inr (JNull, drop 4 s)
      else if starts ''true'' s then Inr (JBool True, drop 4 s)
      else if starts ''false'' s then Inr (JBool False, drop 5 s)
      else if starts ''NaN'' s \<or> starts ''Infinity'' s \<or> starts ''-Infinity'' s then Inl NotModelled
      else if starts ''-'' s then p_unsigned True (drop 1 s)
      else p_unsigned False s)"

fun p_value :: "nat \<Rightarrow> string \<Rightarrow> (json \<times> string) result"
  and p_elems :: "nat \<Rightarrow> string \<Rightarrow> (json list \<times> string) result"
  and p_members :: "nat \<Rightarrow> string \<Rightarrow> ((string \<times> json) list \<times> string) result"
where
  "p_value 0 s = Inl OutOfFuel"
| "p_value (Suc n) s = (case s of
     [] \<Rightarrow> Inl ValueError
   | c # s' \<Rightarrow>
       if c = CHR 0x22 then res_bind (p_chars s') (\<lambda>(t, r). Inr (JStr t, r))
       else if c = CHR ''['' then
         let u = skip_ws s' in
         if starts '']'' u then Inr (JArr [], drop 1 u)
         else res_bind (p_elems n u) (\<lambda>(vs, r). Inr (JArr vs, r))
       else if c = CHR ''{'' then
         let u = skip_ws s' in
         if starts ''}'' u then Inr (JObj [], drop 1 u)
         else res_bind (p_members n u) (\<lambda>(kvs, r). Inr (JObj (foldl (\<lambda>d (k, v). AList.update k v d) [] kvs), r))
       else p_atom s)"
| "p_elems 0 s = Inl OutOfFuel"
| "p_elems (Suc n) s =
     res_bind (p_value n s) (\<lambda>(v, r).
       let u = skip_ws r in
       if starts '']'' u then Inr ([v], drop 1 u)
       else if starts '','' u then
         res_bind (p_elems n (skip_ws (drop 1 u))) (\<lambda>(vs, r'). Inr (v # vs, r'))
       else Inl ValueError)"
| "p_members 0 s = Inl OutOfFuel"
| "p_members (Suc n) s = (case s of
     [] \<Rightarrow> Inl ValueError
   | c # s' \<Rightarrow>
       if c = CHR 0x22 then
         res_bind (p_chars s') (\<lambda>(k, r).
           let u = skip_ws r in
           if starts '':'' u then
             res_bind (p_value n (skip_ws (drop 1 u))) (\<lambda>(v, r').
               let u' = skip_ws r' in
               if starts ''}'' u' then Inr ([(k, v)], drop 1 u')
               else if starts '','' u' then
                 res_bind (p_members n (skip_ws (drop 1 u'))) (\<lambda>(kvs, r''). Inr ((k, v) # kvs, r''))
               else Inl ValueError)
           else Inl ValueError)
       else Inl ValueError)"

definition json_loads :: "string \<Rightarrow> json result" where
  "json_loads s =
     res_bind (p_value (2 * length s + 1) (skip_ws s))
       (\<lambda>(v, r). if skip_ws r = [] then Inr v else Inl ValueError)"


subsection \<open>Parsing what was printed\<close>

lemma of_char_less: "(of_char c :: nat) < 256"
  by (rule nat_of_char_less_256)

lemma of_char_digit_char: "d < 10 \<Longrightarrow> (of_char (digit_char d) :: nat) = 48 + d"
  by (simp add: digit_char_def)

lemma digit_val_digit_char [simp]: "d < 10 \<Longrightarrow> digit_val (digit_char d) = d"
  by (simp add: digit_val_def of_char_digit_char)

lemma py_isdigit_digit_char [simp]: "d < 10 \<Longrightarrow> py_isdigit (digit_char d)"
  by (simp add: py_isdigit_def of_char_digit_char)

lemma show_nat_small: "n < 10 \<Longrightarrow> show_nat n = [digit_char n]"
  by (subst show_nat.simps) simp

lemma show_nat_big: "\<not> n < 10 \<Longrightarrow> show_nat n = show_nat (n div 10) @ [digit_char (n mod 10)]"
  by (subst show_nat.simps) simp

lemma show_nat_digits: "\<forall>c \<in> set (show_nat n). py_isdigit c"
proof (induction n rule: show_nat.induct)
  case (1 n)
  then show ?case by (cases "n < 10") (simp_all add: show_nat_small show_nat_big)
qed

lemma digits_val_show_nat [simp]: "digits_val (show_nat n) = n"
proof (induction n rule: show_nat.induct)
  case (1 n)
  show ?case
  proof (cases "n < 10")
    case True
    then show ?thesis by (simp add: show_nat_small digits_val_def)
  next
    case False
    then have "digits_val (show_nat n) = 10 * digits_val (show_nat (n div 10)) + n mod 10"
      by (simp add: show_nat_big digits_val_def)
    then show ?thesis using 1 False by simp
  qed
qed

lemma digit_char_not_0: "0 < d \<Longrightarrow> d < 10 \<Longrightarrow> digit_char d \<noteq> CHR ''0''"
proof
  assume *: "0 < d" "d < 10" "digit_char d = CHR ''0''"
  then have "digit_val (CHR ''0'') = d" by (metis digit_val_digit_char)
  then show False using *(1) by (simp add: digit_val_def)
qed

lemma show_nat_hd:
  "0 < n \<Longrightarrow> \<exists>c cs. show_nat n = c # cs \<and> c \<noteq> CHR ''0'' \<and> py_isdigit c"
proof (induction n rule: show_nat.induct)
  case (1 n)
  show ?case
  proof (cases "n < 10")
    case True
    then show ?thesis using 1(2) by (simp add: show_nat_small digit_char_not_0)
  next
    case False
    then have "0 < n div 10" by (simp add: div_greater_zero_iff)
    with 1(1) [OF False] obtain c cs where "show_nat (n div 10) = c # cs" "c \<noteq> CHR ''0''" "py_isdigit c"
      by blast
    then show ?thesis using False by (simp add: show_nat_big)
  qed
qed

lemma of_char_hex_digit: "d < 16 \<Longrightarrow> (of_char (hex_digit d) :: nat) = (if d < 10 then 48 + d else 87 + d)"
  by (simp add: hex_digit_def)

lemma hex_val_digit [simp]: "d < 16 \<Longrightarrow> hex_val (hex_digit d) = Some d"
  by (simp add: hex_val_def of_char_hex_digit)

lemma hex_val_0 [simp]: "hex_val (CHR ''0'') = Some 0"
  by (simp add: hex_val_def)

lemma char_eqI: "(of_char c :: nat) = of_char d \<Longrightarrow> c = d"
  by (simp add: of_char_eq_iff)

lemma p_chars_esc_special:
  "c \<in> {CHR 0x22, CHR 0x5C, CHR 0x0A, CHR 0x0D, CHR 0x09, CHR 0x0C, CHR 0x08} \<Longrightarrow>
     p_chars (esc_char c @ t) = res_bind (p_chars t) (\<lambda>(u, r). Inr (c # u, r))"
  by (auto simp: esc_char_def simple_escape_def)

lemma esc_char_plain:
  assumes "c \<notin> {CHR 0x22, CHR 0x5C, CHR 0x0A, CHR 0x0D, CHR 0x09, CHR 0x0C, CHR 0x08}"
  shows "esc_char c = (if 32 \<le> (of_char c :: nat) \<and> (of_char c :: nat) \<le> 126 then [c]
     else [CHR 0x5C, CHR ''u'', CHR ''0'', CHR ''0'', hex_digit (of_char c div 16), hex_digit (of_char c mod 16)])"
  using assms char_eqI [of c "CHR 0x22"] char_eqI [of c "CHR 0x5C"] char_eqI [of c "CHR 0x0A"]
    char_eqI [of c "CHR 0x0D"] char_eqI [of c "CHR 0x09"] char_eqI [of c "CHR 0x0C"] char_eqI [of c "CHR 0x08"]
  by (auto simp: esc_char_def Let_def)

lemma p_chars_esc:
  "p_chars (esc_char c @ t) = res_bind (p_chars t) (\<lambda>(u, r). Inr (c # u, r))"
proof (cases "c \<in> {CHR 0x22, CHR 0x5C, CHR 0x0A, CHR 0x0D, CHR 0x09, CHR 0x0C, CHR 0x08}")
  case True
  then show ?thesis by (rule p_chars_esc_special)
next
  case False
  have lt: "(of_char c :: nat) < 256" by (rule of_char_less)
  have hex: "hex4 [CHR ''0'', CHR ''0'', hex_digit (of_char c div 16), hex_digit (of_char c mod 16)] =
      Some (of_char c)" using lt by (simp add: less_mult_imp_div_less)
  have "(256 \<le> (of_char c :: nat)) = False" using lt by (simp add: not_le)
  then show ?thesis
    using False hex by (simp add: esc_char_plain del: hex4.simps)
qed

lemma p_chars_string: "p_chars (concat (map esc_char s) @ CHR 0x22 # r) = Inr (s, r)"
  by (induction s) (simp_all add: p_chars_esc)

lemma starts_simps [simp]:
  "starts [] s"
  "starts (x # xs) [] \<longleftrightarrow> False"
  "starts (x # xs) (y # ys) \<longleftrightarrow> x = y \<and> starts xs ys"
  by (auto simp: starts_def)

text \<open>What may follow a printed number.\<close>

definition num_end :: "string \<Rightarrow> bool" where
  "num_end r = (case r of [] \<Rightarrow> True
     | c # _ \<Rightarrow> \<not> py_isdigit c \<and> c \<noteq> CHR ''.'' \<and> c \<noteq> CHR ''e'' \<and> c \<noteq> CHR ''E'')"

lemma num_end_simps [simp]:
  "num_end []" "num_end (CHR '','' # r)" "num_end (CHR '']'' # r)" "num_end (CHR ''}'' # r)"
  by (simp_all add: num_end_def py_isdigit_def)

lemma p_tail_end: "num_end r \<Longrightarrow> p_tail neg n r = (JInt ((if neg then - 1 else 1) * int n), r)"
  by (auto simp: p_tail_def p_frac_def p_exp_def num_end_def split: list.splits)

lemma num_end_stop: "num_end r \<Longrightarrow> takeWhile py_isdigit r = [] \<and> dropWhile py_isdigit r = r"
  by (auto simp: num_end_def split: list.splits)

lemma p_unsigned_show_nat:
  assumes "num_end r"
  shows "p_unsigned neg (show_nat n @ r) = Inr (JInt ((if neg then - 1 else 1) * int n), r)"
proof (cases "n = 0")
  case True
  have "show_nat 0 = ''0''" by code_simp
  with True assms show ?thesis by (simp add: p_unsigned_def p_tail_end)
next
  case False
  then obtain c cs where c: "show_nat n = c # cs" "c \<noteq> CHR ''0''" "py_isdigit c"
    using show_nat_hd [of n] by auto
  have tw: "takeWhile py_isdigit (show_nat n @ r) = show_nat n" "dropWhile py_isdigit (show_nat n @ r) = r"
    using show_nat_digits [of n] num_end_stop [OF assms] by auto
  have "p_unsigned neg (show_nat n @ r) =
      Inr (p_tail neg (digits_val (takeWhile py_isdigit (show_nat n @ r))) (dropWhile py_isdigit (show_nat n @ r)))"
    using c by (simp add: p_unsigned_def)
  then show ?thesis by (simp add: tw p_tail_end [OF assms])
qed

lemma show_nat_not_word:
  "\<not> starts ''null'' (show_nat n @ r)" "\<not> starts ''true'' (show_nat n @ r)"
  "\<not> starts ''false'' (show_nat n @ r)" "\<not> starts ''NaN'' (show_nat n @ r)"
  "\<not> starts ''Infinity'' (show_nat n @ r)" "\<not> starts ''-'' (show_nat n @ r)"
  "\<not> starts ''-Infinity'' (show_nat n @ r)"
proof -
  obtain c cs where "show_nat n = c # cs" by (cases "show_nat n") (auto simp: show_nat.simps [of n] split: if_splits)
  moreover have "py_isdigit c" using show_nat_digits [of n] calculation by simp
  ultimately show "\<not> starts ''null'' (show_nat n @ r)" "\<not> starts ''true'' (show_nat n @ r)"
    "\<not> starts ''false'' (show_nat n @ r)" "\<not> starts ''NaN'' (show_nat n @ r)"
    "\<not> starts ''Infinity'' (show_nat n @ r)" "\<not> starts ''-'' (show_nat n @ r)"
    "\<not> starts ''-Infinity'' (show_nat n @ r)"
    by (auto simp: py_isdigit_def)
qed

lemma p_atom_show_int: "num_end r \<Longrightarrow> p_atom (show_int i @ r) = Inr (JInt i, r)"
proof -
  assume r: "num_end r"
  have "\<not> starts ''Infinity'' (show_nat m @ r)" for m by (rule show_nat_not_word)
  then have ninf: "\<not> starts ''-Infinity'' (CHR ''-'' # show_nat m @ r)" for m by simp
  show ?thesis
  proof (cases "i < 0")
    case True
    then have "p_atom (show_int i @ r) = p_unsigned True (show_nat (nat (- i)) @ r)"
      using ninf by (simp add: show_int_def p_atom_def del: starts_simps(3)) (simp add: show_nat_not_word)
    then show ?thesis using True p_unsigned_show_nat [OF r] by simp
  next
    case False
    then have "p_atom (show_int i @ r) = p_unsigned False (show_nat (nat i) @ r)"
      by (simp add: show_int_def p_atom_def show_nat_not_word)
    then show ?thesis using False p_unsigned_show_nat [OF r] by simp
  qed
qed

text \<open>The values that print: no float, and objects with distinct keys, as a \<open>dict\<close> has.\<close>

fun printable :: "json \<Rightarrow> bool" where
  "printable (JFloat _) = False"
| "printable (JArr vs) = (\<forall>v \<in> set vs. printable v)"
| "printable (JObj kvs) = (distinct (map fst kvs) \<and> (\<forall>kv \<in> set kvs. printable (snd kv)))"
| "printable _ = True"

lemma printable_no_float: "printable v \<Longrightarrow> \<not> has_float v"
  by (induction v rule: printable.induct) auto

definition good_start :: "char \<Rightarrow> bool" where
  "good_start c \<longleftrightarrow> \<not> json_ws c \<and> c \<noteq> CHR '']'' \<and> c \<noteq> CHR ''}''"

lemma good_start_digit: "py_isdigit c \<Longrightarrow> good_start c"
  by (auto simp: py_isdigit_def good_start_def json_ws_def Let_def)

lemma dumps_start: "printable v \<Longrightarrow> \<exists>c cs. dumps_text v = c # cs \<and> good_start c"
proof (cases v)
  case (JInt i)
  have "\<exists>c cs. show_nat n = c # cs \<and> good_start c" for n
    using show_nat_digits [of n] by (cases "show_nat n") (auto simp: good_start_digit show_nat.simps [of n] split: if_splits)
  moreover have "good_start (CHR ''-'')" by (simp add: good_start_def json_ws_def)
  ultimately show ?thesis using JInt by (simp add: show_int_def)
next
  case (JBool b)
  then show ?thesis by (cases b) (simp_all add: good_start_def json_ws_def)
qed (simp_all add: good_start_def json_ws_def json_string_def)

lemma skip_ws_good: "good_start c \<Longrightarrow> skip_ws (c # s) = c # s"
  by (simp add: skip_ws_def good_start_def)

lemma skip_ws_punct [simp]:
  "skip_ws (CHR '','' # s) = CHR '','' # s" "skip_ws (CHR '':'' # s) = CHR '':'' # s"
  "skip_ws (CHR '']'' # s) = CHR '']'' # s" "skip_ws (CHR ''}'' # s) = CHR ''}'' # s"
  "skip_ws (CHR 0x22 # s) = CHR 0x22 # s"  "skip_ws [] = []"
  by (simp_all add: skip_ws_def json_ws_def)

lemma skip_ws_dumps: "printable v \<Longrightarrow> skip_ws (dumps_text v @ s) = dumps_text v @ s"
  using dumps_start [of v] by (auto simp: skip_ws_good)

text \<open>A value is parsed back when the budget exceeds twice the length of its text.\<close>

definition parses :: "json \<Rightarrow> bool" where
  "parses v \<longleftrightarrow> (\<forall>n r. 2 * length (dumps_text v) < n \<longrightarrow> num_end r \<longrightarrow>
     p_value n (dumps_text v @ r) = Inr (v, r))"

lemma parsesD: "parses v \<Longrightarrow> 2 * length (dumps_text v) < n \<Longrightarrow> num_end r \<Longrightarrow>
     p_value n (dumps_text v @ r) = Inr (v, r)"
  by (simp add: parses_def)

lemma p_elems_dumps:
  "vs \<noteq> [] \<Longrightarrow> \<forall>v \<in> set vs. printable v \<and> parses v \<Longrightarrow>
     2 * length (py_join (CHR '','') (map dumps_text vs)) + 1 < n \<Longrightarrow>
     p_elems n (py_join (CHR '','') (map dumps_text vs) @ CHR '']'' # r) = Inr (vs, r)"
proof (induction vs arbitrary: n)
  case (Cons v vs)
  obtain k where n: "n = Suc k" using Cons.prems(3) by (cases n) auto
  show ?case
  proof (cases vs)
    case Nil
    with Cons.prems n show ?thesis by (simp add: parsesD)
  next
    case (Cons w ws)
    let ?J = "py_join (CHR '','') (map dumps_text vs)"
    have J: "py_join (CHR '','') (map dumps_text (v # vs)) = dumps_text v @ CHR '','' # ?J"
      using Cons by simp
    have "\<exists>t. ?J = dumps_text w @ t" using Cons by (cases ws) auto
    then have ws: "skip_ws (?J @ CHR '']'' # r) = ?J @ CHR '']'' # r"
      using Cons.prems(2) Cons skip_ws_dumps [of w] by auto
    have "p_value k (dumps_text v @ CHR '','' # ?J @ CHR '']'' # r) = Inr (v, CHR '','' # ?J @ CHR '']'' # r)"
      using Cons.prems n J by (intro parsesD) auto
    moreover have "p_elems k (?J @ CHR '']'' # r) = Inr (vs, r)"
      using Cons.prems n J Cons by (intro Cons.IH) auto
    ultimately show ?thesis unfolding n J by (simp add: ws)
  qed
qed simp

abbreviation member_text :: "string \<times> json \<Rightarrow> string" where
  "member_text kv \<equiv> json_string (fst kv) @ CHR '':'' # dumps_text (snd kv)"

lemma p_members_dumps:
  "kvs \<noteq> [] \<Longrightarrow> \<forall>kv \<in> set kvs. printable (snd kv) \<and> parses (snd kv) \<Longrightarrow>
     2 * length (py_join (CHR '','') (map member_text kvs)) + 1 < n \<Longrightarrow>
     p_members n (py_join (CHR '','') (map member_text kvs) @ CHR ''}'' # r) = Inr (kvs, r)"
proof (induction kvs arbitrary: n)
  case (Cons kv kvs)
  obtain k where n: "n = Suc k" using Cons.prems(3) by (cases n) auto
  have pv: "p_value k (dumps_text (snd kv) @ t) = Inr (snd kv, t)" if "num_end t" for t
  proof (rule parsesD)
    show "2 * length (dumps_text (snd kv)) < k" using Cons.prems(3) n by (cases kvs) auto
  qed (use Cons.prems that in auto)
  show ?case
  proof (cases kvs)
    case Nil
    with Cons.prems n pv show ?thesis by (simp add: json_string_def p_chars_string skip_ws_dumps)
  next
    case (Cons w ws)
    define J where "J = py_join (CHR '','') (map member_text kvs)"
    have J: "py_join (CHR '','') (map member_text (kv # kvs)) = member_text kv @ CHR '','' # J"
      using Cons by (simp add: J_def)
    have "\<exists>t. J = CHR 0x22 # t" using Cons by (cases ws) (auto simp: json_string_def J_def)
    then have ws: "skip_ws (J @ CHR ''}'' # r) = J @ CHR ''}'' # r" by auto
    have "p_members k (J @ CHR ''}'' # r) = Inr (kvs, r)"
      unfolding J_def using Cons.prems n J Cons by (intro Cons.IH) (auto simp: J_def)
    then show ?thesis unfolding n J using Cons.prems(2) pv
      by (simp add: ws json_string_def p_chars_string skip_ws_dumps)
  qed
qed simp

lemma update_new: "k \<notin> fst ` set d \<Longrightarrow> AList.update k v d = d @ [(k, v)]"
  by (induction d) auto

lemma foldl_update_distinct:
  "distinct (map fst (d @ kvs)) \<Longrightarrow> foldl (\<lambda>d (k, v). AList.update k v d) d kvs = d @ kvs"
  by (induction kvs arbitrary: d) (auto simp: update_new)

lemma p_value_atom:
  "s = c # t \<Longrightarrow> c \<noteq> CHR 0x22 \<Longrightarrow> c \<noteq> CHR ''['' \<Longrightarrow> c \<noteq> CHR ''{'' \<Longrightarrow> p_value (Suc n) s = p_atom s"
  by simp

lemma show_int_start:
  "\<exists>c t. show_int i = c # t \<and> c \<noteq> CHR 0x22 \<and> c \<noteq> CHR ''['' \<and> c \<noteq> CHR ''{''"
proof -
  have "\<exists>c t. show_nat n = c # t \<and> py_isdigit c" for n
    using show_nat_digits [of n] by (cases "show_nat n") (auto simp: show_nat.simps [of n] split: if_splits)
  then show ?thesis by (force simp: show_int_def py_isdigit_def)
qed

lemma parses_int: "parses (JInt i)"
  unfolding parses_def
proof (intro allI impI)
  fix n r assume n: "2 * length (dumps_text (JInt i)) < n" and r: "num_end r"
  from n obtain k where k: "n = Suc k" by (cases n) auto
  obtain c t where "show_int i = c # t" "c \<noteq> CHR 0x22" "c \<noteq> CHR ''[''" "c \<noteq> CHR ''{''"
    using show_int_start by blast
  then have "p_value n (show_int i @ r) = p_atom (show_int i @ r)"
    unfolding k by (intro p_value_atom [of _ c "t @ r"]) auto
  then show "p_value n (dumps_text (JInt i) @ r) = Inr (JInt i, r)"
    using p_atom_show_int [OF r] by simp
qed

lemma parses_leaf: "parses JNull" "parses (JBool b)" "parses (JStr s)"
proof -
  have "p_value n (''null'' @ r) = Inr (JNull, r)" if "8 < n" for n r
    using that by (cases n) (simp_all add: p_atom_def)
  then show "parses JNull" by (simp add: parses_def)
  have "p_value n (''true'' @ r) = Inr (JBool True, r)" if "8 < n" for n r
    using that by (cases n) (simp_all add: p_atom_def)
  moreover have "p_value n (''false'' @ r) = Inr (JBool False, r)" if "10 < n" for n r
    using that by (cases n) (simp_all add: p_atom_def)
  ultimately show "parses (JBool b)" by (cases b) (simp_all add: parses_def)
  have "p_value n (json_string s @ r) = Inr (JStr s, r)" if "0 < n" for n r
    using that by (cases n) (simp_all add: json_string_def p_chars_string)
  then show "parses (JStr s)" by (simp add: parses_def)
qed

lemma parses_printable: "printable v \<Longrightarrow> parses v"
proof (induction v rule: printable.induct)
  case (2 vs)
  show ?case unfolding parses_def
  proof (intro allI impI)
    fix n r assume n: "2 * length (dumps_text (JArr vs)) < n"
    then obtain k where k: "n = Suc k" by (cases n) auto
    show "p_value n (dumps_text (JArr vs) @ r) = Inr (JArr vs, r)"
    proof (cases vs)
      case Nil
      then show ?thesis by (simp add: k)
    next
      case (Cons w ws)
      let ?J = "py_join (CHR '','') (map dumps_text vs)"
      have el: "p_elems k (?J @ CHR '']'' # r) = Inr (vs, r)"
        using Cons n k 2 by (intro p_elems_dumps) auto
      obtain c t where c: "?J = c # t" "good_start c"
        using dumps_start [of w] 2(2) Cons by (cases ws) auto
      then show ?thesis using el by (auto simp: k skip_ws_good good_start_def Let_def)
    qed
  qed
next
  case (3 kvs)
  show ?case unfolding parses_def
  proof (intro allI impI)
    fix n r assume n: "2 * length (dumps_text (JObj kvs)) < n"
    then obtain k where k: "n = Suc k" by (cases n) auto
    show "p_value n (dumps_text (JObj kvs) @ r) = Inr (JObj kvs, r)"
    proof (cases kvs)
      case Nil
      then show ?thesis by (simp add: k)
    next
      case (Cons w ws)
      let ?J = "py_join (CHR '','') (map member_text kvs)"
      have el: "p_members k (?J @ CHR ''}'' # r) = Inr (kvs, r)"
        using Cons n k 3 by (intro p_members_dumps) auto
      obtain t where c: "?J = CHR 0x22 # t" using Cons by (cases ws) (auto simp: json_string_def)
      then show ?thesis using el 3(2) foldl_update_distinct [of "[]" kvs] by (simp add: k)
    qed
  qed
qed (simp_all add: parses_leaf parses_int)

lemma json_loads_dumps_text:
  assumes "printable v"
  shows "json_loads (dumps_text v) = Inr v"
proof -
  have "p_value (2 * length (dumps_text v) + 1) (dumps_text v @ []) = Inr (v, [])"
    using parses_printable [OF assms] by (intro parsesD) auto
  then show ?thesis
    using skip_ws_dumps [OF assms, of "[]"] by (simp add: json_loads_def)
qed

lemma json_dumps_printable: "printable v \<Longrightarrow> json_dumps v = Inr (dumps_text v)"
  by (simp add: json_dumps_def printable_no_float)

text \<open>
  Reading back what was written: every value without floats whose objects have distinct
  keys is printed, and parsing the text gives exactly that value.
\<close>

theorem json_roundtrip:
  assumes "printable v"
  shows "\<exists>s. json_dumps v = Inr s \<and> json_loads s = Inr v"
  using assms by (simp add: json_dumps_printable json_loads_dumps_text)

definition demo_json :: json where
  "demo_json = JObj [(''k'', JStr ''load''), (''s'', JInt (- 7)), (''u'', JArr [JStr ''b0'', JNull, JBool True])]"

theorem json_roundtrip_witness:
  "\<exists>s. json_dumps demo_json = Inr s \<and> json_loads s = Inr demo_json"
  by (rule json_roundtrip) (simp add: demo_json_def)


subsection \<open>The parser never runs out of its budget\<close>

lemma length_skip_ws: "length (skip_ws s) \<le> length s"
  by (simp add: skip_ws_def length_dropWhile_le)

lemma p_chars_shorter: "p_chars s = Inr (t, r) \<Longrightarrow> length r < length s"
proof (induction s arbitrary: t rule: p_chars.induct)
  case (2 c s)
  show ?case
  proof (cases "c = CHR 0x22 \<or> c \<noteq> CHR 0x5C")
    case True
    then show ?thesis using 2 by (auto split: if_splits)
  next
    case False
    then obtain e s' where s: "s = e # s'" using 2(4) by (cases s) auto
    show ?thesis
      using 2(1)[of e s'] 2(2)[of e s'] 2(4) False
      by (force simp: s split: if_splits option.splits)
  qed
qed simp

lemma p_tail_shorter: "p_tail neg n s = (v, r) \<Longrightarrow> length r \<le> length s"
proof -
  have D: "length (dropWhile py_isdigit t) \<le> length t" for t by (rule length_dropWhile_le)
  have F: "p_frac s = Some (x, u) \<Longrightarrow> length u \<le> length s" for x u s
    by (auto simp: p_frac_def Let_def le_SucI D split: list.splits if_splits)
  have E: "p_exp s = Some (x, u) \<Longrightarrow> length u \<le> length s" for x u s
    by (auto simp: p_exp_def Let_def le_SucI D split: list.splits if_splits prod.splits)
  show "p_tail neg n s = (v, r) \<Longrightarrow> length r \<le> length s"
    by (auto simp: p_tail_def Let_def split: option.splits prod.splits dest!: F E)
qed

lemma p_unsigned_shorter: "p_unsigned neg s = Inr (v, r) \<Longrightarrow> length r < length s"
proof (cases s)
  case (Cons c s')
  assume p: "p_unsigned neg s = Inr (v, r)"
  show ?thesis
  proof (cases "c = CHR ''0''")
    case True
    then have "p_tail neg 0 s' = (v, r)" using p Cons by (simp add: p_unsigned_def)
    from p_tail_shorter [OF this] Cons show ?thesis by simp
  next
    case False
    then have d: "py_isdigit c" "p_tail neg (digits_val (takeWhile py_isdigit s)) (dropWhile py_isdigit s) = (v, r)"
      using p Cons by (auto simp: p_unsigned_def split: if_splits)
    have "length (dropWhile py_isdigit s) \<le> length s'" using d(1) Cons by (simp add: length_dropWhile_le)
    with p_tail_shorter [OF d(2)] Cons show ?thesis by simp
  qed
qed (simp add: p_unsigned_def)

lemma p_atom_shorter: "p_atom s = Inr (v, r) \<Longrightarrow> length r < length s"
proof -
  have st: "starts w s \<Longrightarrow> w \<noteq> [] \<Longrightarrow> s \<noteq> []" for w by (auto simp: starts_def)
  show "p_atom s = Inr (v, r) \<Longrightarrow> length r < length s"
    by (auto simp: p_atom_def split: if_splits dest: st p_unsigned_shorter)
qed

lemma length_skip_drop: "length (skip_ws (drop k s)) \<le> length s"
  using length_skip_ws [of "drop k s"] by simp

definition shorter :: "(string \<Rightarrow> ('a \<times> string) result) \<Rightarrow> bool" where
  "shorter p \<longleftrightarrow> (\<forall>s v r. p s = Inr (v, r) \<longrightarrow> length r < length s)"

lemma shorterD: "shorter p \<Longrightarrow> p s = Inr (v, r) \<Longrightarrow> length r < length s"
  by (simp add: shorter_def)

lemma shorter_value:
  assumes "shorter (p_elems n)" and "shorter (p_members n)"
  shows "shorter (p_value (Suc n))"
  unfolding shorter_def
proof (intro allI impI)
  fix s v r assume p: "p_value (Suc n) s = Inr (v, r)"
  then obtain c s' where s: "s = c # s'" by (cases s) auto
  have u: "length (skip_ws s') \<le> length s'" by (rule length_skip_ws)
  consider "c = CHR 0x22" | "c = CHR ''[''" | "c = CHR ''{''" | "c \<notin> {CHR 0x22, CHR ''['', CHR ''{''}" by blast
  then show "length r < length s"
  proof cases
    case 1
    then show ?thesis using p s by (auto dest!: p_chars_shorter)
  next
    case 2
    then show ?thesis using p s u
      by (auto simp: Let_def split: if_splits dest!: shorterD [OF assms(1)])
  next
    case 3
    then show ?thesis using p s u
      by (auto simp: Let_def split: if_splits dest!: shorterD [OF assms(2)])
  next
    case 4
    then show ?thesis using p s by (auto dest!: p_atom_shorter)
  qed
qed

lemma shorter_elems:
  assumes "shorter (p_value n)" and "shorter (p_elems n)"
  shows "shorter (p_elems (Suc n))"
  unfolding shorter_def
proof (intro allI impI)
  fix s vs r assume p: "p_elems (Suc n) s = Inr (vs, r)"
  then obtain v t where v: "p_value n s = Inr (v, t)" by auto
  have t: "length t < length s" by (rule shorterD [OF assms(1) v])
  have u: "length (skip_ws t) \<le> length t" "length (skip_ws (drop 1 (skip_ws t))) \<le> length t"
    using length_skip_ws [of t] length_skip_drop [of 1 "skip_ws t"] by auto
  show "length r < length s"
  proof (cases "starts '']'' (skip_ws t)")
    case True
    then have "r = drop 1 (skip_ws t)" using p v by (simp add: Let_def)
    then show ?thesis using t u by simp
  next
    case False
    then obtain ws where "p_elems n (skip_ws (drop 1 (skip_ws t))) = Inr (ws, r)"
      using p v by (auto simp: Let_def split: if_splits)
    from shorterD [OF assms(2) this] t u show ?thesis by simp
  qed
qed

lemma shorter_members:
  assumes "shorter (p_value n)" and "shorter (p_members n)"
  shows "shorter (p_members (Suc n))"
  unfolding shorter_def
proof (intro allI impI)
  fix s kvs r assume p: "p_members (Suc n) s = Inr (kvs, r)"
  then obtain c s' where s: "s = c # s'" by (cases s) auto
  then obtain k t where k: "c = CHR 0x22" "p_chars s' = Inr (k, t)" using p by (auto split: if_splits)
  define w where "w = skip_ws (drop 1 (skip_ws t))"
  obtain v t' where v: "p_value n w = Inr (v, t')" "starts '':'' (skip_ws t)"
    using p s k by (auto simp: Let_def w_def split: if_splits)
  have "length w \<le> length t" using length_skip_ws [of t] length_skip_drop [of 1 "skip_ws t"] by (auto simp: w_def)
  then have t': "length t' < length s"
    using shorterD [OF assms(1) v(1)] p_chars_shorter [OF k(2)] s by simp
  have u: "length (skip_ws t') \<le> length t'" "length (skip_ws (drop 1 (skip_ws t'))) \<le> length t'"
    using length_skip_ws [of t'] length_skip_drop [of 1 "skip_ws t'"] by auto
  show "length r < length s"
  proof (cases "starts ''}'' (skip_ws t')")
    case True
    then have "r = drop 1 (skip_ws t')" using p s k v by (simp add: Let_def w_def)
    then show ?thesis using t' u by simp
  next
    case False
    then obtain ws where "p_members n (skip_ws (drop 1 (skip_ws t'))) = Inr (ws, r)"
      using p s k v by (auto simp: Let_def w_def split: if_splits)
    from shorterD [OF assms(2) this] t' u show ?thesis by simp
  qed
qed

lemma parser_shorter: "shorter (p_value n) \<and> shorter (p_elems n) \<and> shorter (p_members n)"
proof (induction n)
  case 0
  then show ?case by (simp add: shorter_def)
next
  case (Suc n)
  then show ?case by (blast intro: shorter_value shorter_elems shorter_members)
qed

lemma p_chars_fuel: "p_chars s \<noteq> Inl OutOfFuel"
proof (induction s rule: p_chars.induct)
  case (2 c s)
  then show ?case by (auto split: list.splits option.splits)
qed simp

lemma p_atom_fuel: "p_atom s \<noteq> Inl OutOfFuel"
  by (auto simp: p_atom_def p_unsigned_def split: list.splits)

definition fueled :: "(nat \<Rightarrow> string \<Rightarrow> 'a result) \<Rightarrow> nat \<Rightarrow> nat \<Rightarrow> bool" where
  "fueled p k n \<longleftrightarrow> (\<forall>s. 2 * length s + k < n \<longrightarrow> p n s \<noteq> Inl OutOfFuel)"

lemma fueledD: "fueled p k n \<Longrightarrow> 2 * length s + k < n \<Longrightarrow> p n s \<noteq> Inl OutOfFuel"
  by (simp add: fueled_def)

lemma fueled_value:
  assumes "fueled p_elems 1 n" and "fueled p_members 1 n"
  shows "fueled p_value 0 (Suc n)"
  unfolding fueled_def
proof (intro allI impI)
  fix s :: string assume l: "2 * length s + 0 < Suc n"
  show "p_value (Suc n) s \<noteq> Inl OutOfFuel"
  proof (cases s)
    case (Cons c s')
    have "2 * length (skip_ws s') + 1 < n" using l Cons length_skip_ws [of s'] by simp
    from fueledD [OF assms(1) this] fueledD [OF assms(2) this] show ?thesis
      by (auto simp: Cons Let_def p_chars_fuel p_atom_fuel)
  qed simp
qed

lemma fueled_elems:
  assumes "fueled p_value 0 n" and "fueled p_elems 1 n"
  shows "fueled p_elems 1 (Suc n)"
  unfolding fueled_def
proof (intro allI impI)
  fix s :: string assume l: "2 * length s + 1 < Suc n"
  have rest: "p_elems n (skip_ws (drop 1 (skip_ws t))) \<noteq> Inl OutOfFuel" if "p_value n s = Inr (v, t)" for v t
  proof (rule fueledD [OF assms(2)])
    have "length t < length s" using parser_shorter [of n] that by (auto dest: shorterD)
    then show "2 * length (skip_ws (drop 1 (skip_ws t))) + 1 < n"
      using l length_skip_ws [of t] length_skip_drop [of 1 "skip_ws t"] by simp
  qed
  show "p_elems (Suc n) s \<noteq> Inl OutOfFuel"
    using fueledD [OF assms(1), of s] l rest by (auto simp: Let_def)
qed

lemma fueled_members:
  assumes "fueled p_value 0 n" and "fueled p_members 1 n"
  shows "fueled p_members 1 (Suc n)"
  unfolding fueled_def
proof (intro allI impI)
  fix s :: string assume l: "2 * length s + 1 < Suc n"
  have val: "2 * length (skip_ws (drop 1 (skip_ws t))) + 1 < n"
    if "length t < length s" for t
    using that l length_skip_ws [of t] length_skip_drop [of 1 "skip_ws t"] by simp
  show "p_members (Suc n) s \<noteq> Inl OutOfFuel"
  proof (cases s)
    case (Cons c s')
    have 1: "p_value n (skip_ws (drop 1 (skip_ws t))) \<noteq> Inl OutOfFuel" if "p_chars s' = Inr (k, t)" for k t
      using val [of t] p_chars_shorter [OF that] Cons by (intro fueledD [OF assms(1)]) simp
    have 2: "p_members n (skip_ws (drop 1 (skip_ws t'))) \<noteq> Inl OutOfFuel"
      if "p_chars s' = Inr (k, t)" "p_value n (skip_ws (drop 1 (skip_ws t))) = Inr (v, t')" for k t v t'
    proof (rule fueledD [OF assms(2)], rule val)
      have "length t' < length (skip_ws (drop 1 (skip_ws t)))" using parser_shorter [of n] that by (auto dest: shorterD)
      also have "\<dots> \<le> length t" using length_skip_ws [of t] length_skip_drop [of 1 "skip_ws t"] by simp
      finally show "length t' < length s" using p_chars_shorter [OF that(1)] Cons by simp
    qed
    show ?thesis using 1 2 by (auto simp: Cons Let_def p_chars_fuel)
  qed simp
qed

lemma parser_fuel: "fueled p_value 0 n \<and> fueled p_elems 1 n \<and> fueled p_members 1 n"
proof (induction n)
  case 0
  then show ?case by (simp add: fueled_def)
next
  case (Suc n)
  then show ?case by (blast intro: fueled_value fueled_elems fueled_members)
qed

text \<open>
  Parsing any text ends with a value or one of the parser's errors: the budget taken from
  the length of the text is always enough.
\<close>

theorem json_loads_total: "json_loads s \<noteq> Inl OutOfFuel"
proof -
  have "p_value (2 * length s + 1) (skip_ws s) \<noteq> Inl OutOfFuel"
    using parser_fuel length_skip_ws [of s] by (intro fueledD [of p_value 0]) auto
  then show ?thesis by (auto simp: json_loads_def)
qed

end
