(* ===== verification/Config.thy ===== *)
theory Config
  imports Gw_Prelude
begin

section \<open>Configuration\<close>

text \<open>
  \<^verbatim>\<open>gateway/config.py\<close>: the gateway's settings with their defaults, and how the environment
  overrides them.  Every configuration class of the program (here and in the subpackages) has
  the same \<open>from_env\<close> loop over its dataclass fields, so the loop is defined once, over the
  field dictionary of the class; the typed \<open>record\<close> the components read is taken from that
  dictionary.  The conversions \<open>int(s)\<close> and \<open>float(s)\<close> are modelled character by character.
\<close>


subsection \<open>Number literals\<close>

text \<open>Digits with single underscores between them; the accumulator is the value and the digit count.\<close>

fun digits_loop :: "string \<Rightarrow> bool \<Rightarrow> nat \<times> nat \<Rightarrow> (nat \<times> nat) option" where
  "digits_loop [] after_digit acc = (if after_digit then Some acc else None)"
| "digits_loop (c # cs) after_digit (v, n) =
     (if py_isdigit c then digits_loop cs True (10 * v + digit_val c, Suc n)
      else if c = CHR ''_'' \<and> after_digit then digits_loop cs False (v, n)
      else None)"

definition parse_digits :: "string \<Rightarrow> (nat \<times> nat) option" where
  "parse_digits s = digits_loop s False (0, 0)"

definition split_sign :: "string \<Rightarrow> int \<times> string" where
  "split_sign s = (case s of [] \<Rightarrow> (1, [])
     | c # cs \<Rightarrow> if c = CHR ''-'' then (- 1, cs) else if c = CHR ''+'' then (1, cs) else (1, s))"

text \<open>
  The blanks \<open>int\<close> and \<open>float\<close> skip are fewer than those of \<open>strip\<close>: not the separators 28 to 31.
\<close>

definition num_space :: "char \<Rightarrow> bool" where
  "num_space c \<longleftrightarrow> (let n = (of_char c :: nat) in 9 \<le> n \<and> n \<le> 13 \<or> n = 32 \<or> n = 133 \<or> n = 160)"

definition num_strip :: "string \<Rightarrow> string" where
  "num_strip s = rev (dropWhile num_space (rev (dropWhile num_space s)))"

definition py_int :: "string \<Rightarrow> int result" where
  "py_int s =
     (let (sgn, body) = split_sign (num_strip s) in
      case parse_digits body of None \<Rightarrow> Inl ValueError | Some (v, _) \<Rightarrow> Inr (sgn * int v))"

text \<open>
  What \<open>float(s)\<close> can return.  The arithmetic of the model is on the finite values only.
\<close>

datatype float_value = FloatFin pyfloat | FloatInf bool | FloatNaN

definition ten_pow :: "int \<Rightarrow> pyfloat" where
  "ten_pow e = (if 0 \<le> e then 10 ^ nat e else 1 / 10 ^ nat (- e))"

text \<open>An empty digit group is allowed on one side of the point.\<close>

definition parse_group :: "string \<Rightarrow> (nat \<times> nat) option" where
  "parse_group s = (if s = [] then Some (0, 0) else parse_digits s)"

definition parse_mantissa :: "string \<Rightarrow> pyfloat option" where
  "parse_mantissa s =
     (let (ip, dot, fp) = py_partition (CHR ''.'') s in
      case (parse_group ip, parse_group fp) of
        (Some (iv, il), Some (fv, fl)) \<Rightarrow>
          if il + fl = 0 then None else Some (of_nat iv + of_nat fv * ten_pow (- int fl))
      | _ \<Rightarrow> None)"

definition parse_exponent :: "string \<Rightarrow> int option" where
  "parse_exponent s = (let (sgn, body) = split_sign s in
     case parse_digits body of None \<Rightarrow> None | Some (v, _) \<Rightarrow> Some (sgn * int v))"

text \<open>The least magnitude that rounds to infinity, \<open>2 ^ 1024 - 2 ^ 970\<close>.\<close>

definition float_limit :: pyfloat where
  "float_limit = 179769313486231580793728971405303415079934132710037826936173778980444968292764750946649017977587207096330286416692887910946555547851940402630657488671505820681908902000708383676273854845817711531764475730270069855571366959622842914819860834936475292719074168444365510704342711559699508093042880177904174497792"

definition clip_float :: "pyfloat \<Rightarrow> float_value" where
  "clip_float x = (if float_limit \<le> \<bar>x\<bar> then FloatInf (x < 0) else FloatFin x)"

definition py_float :: "string \<Rightarrow> float_value result" where
  "py_float s =
     (let (sgn, body) = split_sign (py_lower (num_strip s)) in
      if body = ''inf'' \<or> body = ''infinity'' then Inr (FloatInf (sgn < 0))
      else if body = ''nan'' then Inr FloatNaN
      else let (man, has_exp, ex) = py_partition (CHR ''e'') body in
        case (parse_mantissa man, if has_exp then parse_exponent ex else Some 0) of
          (Some x, Some e) \<Rightarrow> Inr (clip_float (of_int sgn * x * ten_pow e))
        | _ \<Rightarrow> Inl ValueError)"


subsection \<open>Overriding fields from the environment\<close>

datatype cfg_value = CBool bool | CInt int | CFloat float_value | CStr string

abbreviation CRat :: "pyfloat \<Rightarrow> cfg_value" where
  "CRat x \<equiv> CFloat (FloatFin x)"

type_synonym fields = "(string, cfg_value) dict"
type_synonym environ = "string \<rightharpoonup> string"

definition py_upper_char :: "char \<Rightarrow> char" where
  "py_upper_char c = (let n = (of_char c :: nat) in if 97 \<le> n \<and> n \<le> 122 then char_of (n - 32) else c)"

text \<open>\<open>isinstance\<close>: a \<open>bool\<close> is an \<open>int\<close>.\<close>

fun isinstance_bool :: "cfg_value \<Rightarrow> bool" where
  "isinstance_bool (CBool _) = True"
| "isinstance_bool _ = False"

fun isinstance_int :: "cfg_value \<Rightarrow> bool" where
  "isinstance_int (CBool _) = True"
| "isinstance_int (CInt _) = True"
| "isinstance_int _ = False"

fun isinstance_float :: "cfg_value \<Rightarrow> bool" where
  "isinstance_float (CFloat _) = True"
| "isinstance_float _ = False"

text \<open>One field: the type of the default decides how the environment's string is read.\<close>

definition read_field :: "cfg_value \<Rightarrow> string \<Rightarrow> cfg_value result" where
  "read_field cur s =
     (if isinstance_bool cur then Inr (CBool (py_lower s \<in> {''1'', ''true'', ''yes''}))
      else if isinstance_int cur then res_bind (py_int s) (\<lambda>i. Inr (CInt i))
      else if isinstance_float cur then res_bind (py_float s) (\<lambda>x. Inr (CFloat x))
      else Inr (CStr s))"

lemma read_field_simps [simp]:
  "read_field (CBool d) s = Inr (CBool (py_lower s \<in> {''1'', ''true'', ''yes''}))"
  "read_field (CInt i) s = res_bind (py_int s) (\<lambda>i. Inr (CInt i))"
  "read_field (CFloat x) s = res_bind (py_float s) (\<lambda>x. Inr (CFloat x))"
  "read_field (CStr t) s = Inr (CStr s)"
  by (simp_all add: read_field_def)

fun from_env :: "string \<Rightarrow> environ \<Rightarrow> fields \<Rightarrow> fields result" where
  "from_env pre env [] = Inr []"
| "from_env pre env ((f, cur) # fs) =
     (case env (pre @ map py_upper_char f) of
        None \<Rightarrow> res_bind (from_env pre env fs) (\<lambda>rest. Inr ((f, cur) # rest))
      | Some s \<Rightarrow> res_bind (read_field cur s)
          (\<lambda>v. res_bind (from_env pre env fs) (\<lambda>rest. Inr ((f, v) # rest))))"

definition bool_field :: "fields \<Rightarrow> string \<Rightarrow> bool" where
  "bool_field d f = (case map_of d f of Some (CBool b) \<Rightarrow> b | _ \<Rightarrow> False)"

definition int_field :: "fields \<Rightarrow> string \<Rightarrow> int" where
  "int_field d f = (case map_of d f of Some (CInt i) \<Rightarrow> i | _ \<Rightarrow> 0)"

definition float_field :: "fields \<Rightarrow> string \<Rightarrow> pyfloat" where
  "float_field d f = (case map_of d f of Some (CFloat (FloatFin x)) \<Rightarrow> x | _ \<Rightarrow> 0)"

definition str_field :: "fields \<Rightarrow> string \<Rightarrow> string" where
  "str_field d f = (case map_of d f of Some (CStr s) \<Rightarrow> s | _ \<Rightarrow> [])"

fun finite_value :: "cfg_value \<Rightarrow> bool" where
  "finite_value (CFloat (FloatFin _)) = True"
| "finite_value (CFloat _) = False"
| "finite_value _ = True"

text \<open>
  A configuration object read from the environment; an infinite or not-a-number setting is
  outside the rational arithmetic of the components.
\<close>

definition load_config :: "string \<Rightarrow> fields \<Rightarrow> (fields \<Rightarrow> 'c) \<Rightarrow> environ \<Rightarrow> 'c result" where
  "load_config pre defaults mk env =
     res_bind (from_env pre env defaults)
       (\<lambda>d. if list_all (finite_value \<circ> snd) d then Inr (mk d) else Inl NotModelled)"


subsection \<open>The gateway's settings\<close>

record Config =
  block_chars :: int
  block_tokens :: int
  hash_cutoff_blocks :: int
  backend_cache_blocks :: int
  prefill_ms_per_token :: pyfloat
  service_ms_per_request :: pyfloat
  kv_pressure_cutoff :: pyfloat
  max_inflight :: int
  hysteresis_ms :: pyfloat
  strategy :: string
  session_affinity_enabled :: bool
  session_affinity_capacity :: int
  session_affinity_ttl_s :: pyfloat
  use_bpe_hashing :: bool
  tokenizer_model :: string
  token_accurate_accounting :: bool
  ttft_observations_path :: string
  ttft_model_path :: string
  ttft_predictor_weight :: pyfloat
  speculative_k :: int
  backend_adapters :: string
  lora_fallback_to_base :: bool
  semantic_cache_enabled :: bool
  semantic_cache_threshold :: pyfloat
  semantic_cache_max_entries_per_tenant :: int
  semantic_cache_model :: string
  max_retries :: int
  circuit_fail_threshold :: int
  circuit_cooldown_s :: pyfloat
  require_auth :: bool
  api_keys :: string
  api_key_hashes :: string
  admin_token :: string
  rate_limit_enabled :: bool
  tenants :: string
  prefix_isolation :: string
  default_output_tokens :: int
  max_output_tokens :: int
  chars_per_token :: int
  wfq_enabled :: bool
  wfq_max_concurrency :: int
  wfq_weights :: string
  wfq_default_weight :: pyfloat
  wfq_cost :: pyfloat
  log_level :: string
  slo_ttft_ms :: pyfloat
  backends :: string
  default_model :: string

definition Config_fields :: fields where
  "Config_fields =
     [(''block_chars'', CInt 64),
      (''block_tokens'', CInt 16),
      (''hash_cutoff_blocks'', CInt 512),
      (''backend_cache_blocks'', CInt 2000),
      (''prefill_ms_per_token'', CRat 0.05),
      (''service_ms_per_request'', CRat 200),
      (''kv_pressure_cutoff'', CRat 0.9),
      (''max_inflight'', CInt 64),
      (''hysteresis_ms'', CRat 5),
      (''strategy'', CStr ''prefix_tree''),
      (''session_affinity_enabled'', CBool False),
      (''session_affinity_capacity'', CInt 10000),
      (''session_affinity_ttl_s'', CRat 1800),
      (''use_bpe_hashing'', CBool False),
      (''tokenizer_model'', CStr ''gpt2''),
      (''token_accurate_accounting'', CBool False),
      (''ttft_observations_path'', CStr ''''),
      (''ttft_model_path'', CStr ''''),
      (''ttft_predictor_weight'', CRat 0.5),
      (''speculative_k'', CInt 2),
      (''backend_adapters'', CStr ''''),
      (''lora_fallback_to_base'', CBool True),
      (''semantic_cache_enabled'', CBool False),
      (''semantic_cache_threshold'', CRat 0.97),
      (''semantic_cache_max_entries_per_tenant'', CInt 1024),
      (''semantic_cache_model'', CStr ''sentence-transformers/all-MiniLM-L6-v2''),
      (''max_retries'', CInt 2),
      (''circuit_fail_threshold'', CInt 3),
      (''circuit_cooldown_s'', CRat 5),
      (''require_auth'', CBool False),
      (''api_keys'', CStr ''''),
      (''api_key_hashes'', CStr ''''),
      (''admin_token'', CStr ''''),
      (''rate_limit_enabled'', CBool False),
      (''tenants'', CStr ''''),
      (''prefix_isolation'', CStr ''tenant''),
      (''default_output_tokens'', CInt 256),
      (''max_output_tokens'', CInt 4096),
      (''chars_per_token'', CInt 4),
      (''wfq_enabled'', CBool False),
      (''wfq_max_concurrency'', CInt 64),
      (''wfq_weights'', CStr ''gold=3,silver=2,bronze=1,anonymous=1''),
      (''wfq_default_weight'', CRat 1),
      (''wfq_cost'', CRat 1),
      (''log_level'', CStr ''INFO''),
      (''slo_ttft_ms'', CRat 0),
      (''backends'', CStr ''b0=http://localhost:9001,b1=http://localhost:9002,b2=http://localhost:9003''),
      (''default_model'', CStr ''mock-model'')]"

definition Config_of :: "fields \<Rightarrow> Config" where
  "Config_of d =
     \<lparr>block_chars = int_field d ''block_chars'',
      block_tokens = int_field d ''block_tokens'',
      hash_cutoff_blocks = int_field d ''hash_cutoff_blocks'',
      backend_cache_blocks = int_field d ''backend_cache_blocks'',
      prefill_ms_per_token = float_field d ''prefill_ms_per_token'',
      service_ms_per_request = float_field d ''service_ms_per_request'',
      kv_pressure_cutoff = float_field d ''kv_pressure_cutoff'',
      max_inflight = int_field d ''max_inflight'',
      hysteresis_ms = float_field d ''hysteresis_ms'',
      strategy = str_field d ''strategy'',
      session_affinity_enabled = bool_field d ''session_affinity_enabled'',
      session_affinity_capacity = int_field d ''session_affinity_capacity'',
      session_affinity_ttl_s = float_field d ''session_affinity_ttl_s'',
      use_bpe_hashing = bool_field d ''use_bpe_hashing'',
      tokenizer_model = str_field d ''tokenizer_model'',
      token_accurate_accounting = bool_field d ''token_accurate_accounting'',
      ttft_observations_path = str_field d ''ttft_observations_path'',
      ttft_model_path = str_field d ''ttft_model_path'',
      ttft_predictor_weight = float_field d ''ttft_predictor_weight'',
      speculative_k = int_field d ''speculative_k'',
      backend_adapters = str_field d ''backend_adapters'',
      lora_fallback_to_base = bool_field d ''lora_fallback_to_base'',
      semantic_cache_enabled = bool_field d ''semantic_cache_enabled'',
      semantic_cache_threshold = float_field d ''semantic_cache_threshold'',
      semantic_cache_max_entries_per_tenant = int_field d ''semantic_cache_max_entries_per_tenant'',
      semantic_cache_model = str_field d ''semantic_cache_model'',
      max_retries = int_field d ''max_retries'',
      circuit_fail_threshold = int_field d ''circuit_fail_threshold'',
      circuit_cooldown_s = float_field d ''circuit_cooldown_s'',
      require_auth = bool_field d ''require_auth'',
      api_keys = str_field d ''api_keys'',
      api_key_hashes = str_field d ''api_key_hashes'',
      admin_token = str_field d ''admin_token'',
      rate_limit_enabled = bool_field d ''rate_limit_enabled'',
      tenants = str_field d ''tenants'',
      prefix_isolation = str_field d ''prefix_isolation'',
      default_output_tokens = int_field d ''default_output_tokens'',
      max_output_tokens = int_field d ''max_output_tokens'',
      chars_per_token = int_field d ''chars_per_token'',
      wfq_enabled = bool_field d ''wfq_enabled'',
      wfq_max_concurrency = int_field d ''wfq_max_concurrency'',
      wfq_weights = str_field d ''wfq_weights'',
      wfq_default_weight = float_field d ''wfq_default_weight'',
      wfq_cost = float_field d ''wfq_cost'',
      log_level = str_field d ''log_level'',
      slo_ttft_ms = float_field d ''slo_ttft_ms'',
      backends = str_field d ''backends'',
      default_model = str_field d ''default_model''\<rparr>"

definition Config_from_env :: "environ \<Rightarrow> Config result" where
  "Config_from_env env = load_config ''GW_'' Config_fields Config_of env"


subsection \<open>What loading a configuration does\<close>

text \<open>The typed value kept in a field has the type of its default.\<close>

fun same_type :: "cfg_value \<Rightarrow> cfg_value \<Rightarrow> bool" where
  "same_type (CBool _) (CBool _) = True"
| "same_type (CInt _) (CInt _) = True"
| "same_type (CFloat _) (CFloat _) = True"
| "same_type (CStr _) (CStr _) = True"
| "same_type _ _ = False"

lemma same_type_refl [simp]: "same_type v v"
  by (cases v) auto

lemma read_field_type: "read_field cur s = Inr v \<Longrightarrow> same_type cur v"
  by (cases cur) auto

definition field_value :: "string \<Rightarrow> environ \<Rightarrow> string \<times> cfg_value \<Rightarrow> cfg_value result" where
  "field_value pre env fv =
     (case env (pre @ map py_upper_char (fst fv)) of None \<Rightarrow> Inr (snd fv) | Some s \<Rightarrow> read_field (snd fv) s)"

lemma from_env_Cons:
  "from_env pre env (fv # fs) =
     res_bind (field_value pre env fv) (\<lambda>v. res_bind (from_env pre env fs) (\<lambda>rest. Inr ((fst fv, v) # rest)))"
  by (cases fv) (auto simp: field_value_def split: option.split)

lemma field_value_type: "field_value pre env fv = Inr v \<Longrightarrow> same_type (snd fv) v"
  by (auto simp: field_value_def read_field_type split: option.splits)

lemma from_env_iff:
  "from_env pre env defs = Inr d \<longleftrightarrow>
     list_all2 (\<lambda>fv fw. fst fw = fst fv \<and> field_value pre env fv = Inr (snd fw)) defs d"
proof (induction defs arbitrary: d)
  case (Cons fv defs)
  show ?case
    unfolding from_env_Cons by (cases d) (auto simp: Cons.IH list_all2_Cons1 prod_eq_iff)
qed auto

end
