(* ===== verification/Events.thy ===== *)
theory Events
  imports Json Config Hashing
begin

section \<open>Replication events\<close>

text \<open>
  \<^verbatim>\<open>gateway/cluster/events.py\<close>: what the replicas of a clustered gateway tell each other, as
  values and as the JSON that carries them.  A field whose JSON value has another type than its
  dataclass declares is outside the model (\<open>NotModelled\<close>); every other failure of the decoder
  is the exception the code raises.
\<close>

type_synonym replica = string

type_synonym drain_entry = "bool \<times> int \<times> replica"
type_synonym member_entry = "bool \<times> string \<times> string \<times> int \<times> replica"

datatype event =
    PrefixEvent string string replica int "block_hash list"
  | LoadEvent replica int "(string, int) dict" "string list"
  | DrainEvent replica int int string bool
  | DrainDigest replica int "(string, drain_entry) dict"
  | MemberEvent replica int string string string string int
  | MembershipDigest replica int "(string, member_entry) dict"

definition INSERT :: string where "INSERT = ''insert''"
definition REMOVE_BACKEND :: string where "REMOVE_BACKEND = ''remove_backend''"
definition LOAD :: string where "LOAD = ''load''"
definition DRAIN_OP :: string where "DRAIN_OP = ''drainop''"
definition DRAIN_DIGEST :: string where "DRAIN_DIGEST = ''draindigest''"
definition MEMBER_ADD :: string where "MEMBER_ADD = ''member_add''"
definition MEMBER_REMOVE :: string where "MEMBER_REMOVE = ''member_remove''"
definition MEMBER_DIGEST :: string where "MEMBER_DIGEST = ''member_digest''"

lemmas event_tags = INSERT_def REMOVE_BACKEND_def LOAD_def DRAIN_OP_def DRAIN_DIGEST_def
  MEMBER_ADD_def MEMBER_REMOVE_def MEMBER_DIGEST_def

fun ev_origin :: "event \<Rightarrow> replica" where
  "ev_origin (PrefixEvent k b o' s hs) = o'"
| "ev_origin (LoadEvent o' s l u) = o'"
| "ev_origin (DrainEvent o' s t b d) = o'"
| "ev_origin (DrainDigest o' s e) = o'"
| "ev_origin (MemberEvent o' s a b u m t) = o'"
| "ev_origin (MembershipDigest o' s e) = o'"


subsection \<open>Encoding\<close>

definition json_strs :: "string list \<Rightarrow> json" where
  "json_strs xs = JArr (map JStr xs)"

definition json_hashes :: "block_hash list \<Rightarrow> json" where
  "json_hashes hs = JArr (map (\<lambda>h. JInt (uint h)) hs)"

fun drain_entry_json :: "drain_entry \<Rightarrow> json" where
  "drain_entry_json (d, t, o') = JArr [JBool d, JInt t, JStr o']"

fun member_entry_json :: "member_entry \<Rightarrow> json" where
  "member_entry_json (p, u, m, t, o') = JArr [JBool p, JStr u, JStr m, JInt t, JStr o']"

fun event_json :: "event \<Rightarrow> json" where
  "event_json (PrefixEvent k b o' s hs) =
     JObj [(''k'', JStr k), (''b'', JStr b), (''o'', JStr o'), (''s'', JInt s), (''h'', json_hashes hs)]"
| "event_json (LoadEvent o' s l u) =
     JObj [(''k'', JStr LOAD), (''o'', JStr o'), (''s'', JInt s),
           (''l'', JObj (map (map_prod (\<lambda>k. k) JInt) l)), (''u'', json_strs u)]"
| "event_json (DrainEvent o' s t b d) =
     JObj [(''k'', JStr DRAIN_OP), (''o'', JStr o'), (''s'', JInt s), (''t'', JInt t), (''b'', JStr b),
           (''d'', JInt (if d then 1 else 0))]"
| "event_json (DrainDigest o' s e) =
     JObj [(''k'', JStr DRAIN_DIGEST), (''o'', JStr o'), (''s'', JInt s),
           (''e'', JObj (map (map_prod (\<lambda>k. k) drain_entry_json) e))]"
| "event_json (MemberEvent o' s a b u m t) =
     JObj [(''k'', JStr a), (''o'', JStr o'), (''s'', JInt s), (''b'', JStr b), (''u'', JStr u),
           (''m'', JStr m), (''t'', JInt t)]"
| "event_json (MembershipDigest o' s e) =
     JObj [(''k'', JStr MEMBER_DIGEST), (''o'', JStr o'), (''s'', JInt s),
           (''e'', JObj (map (map_prod (\<lambda>k. k) member_entry_json) e))]"

definition to_json :: "event \<Rightarrow> string result" where
  "to_json ev = json_dumps (event_json ev)"


subsection \<open>Decoding\<close>

text \<open>\<open>d[k]\<close>, \<open>int(v)\<close>, \<open>bool(v)\<close> and \<open>x or default\<close> on JSON values.\<close>

definition jget :: "(string \<times> json) list \<Rightarrow> string \<Rightarrow> json result" where
  "jget d k = (case map_of d k of None \<Rightarrow> Inl KeyError | Some v \<Rightarrow> Inr v)"

definition rat_trunc :: "pyfloat \<Rightarrow> int" where
  "rat_trunc x = (if 0 \<le> x then \<lfloor>x\<rfloor> else - \<lfloor>- x\<rfloor>)"

fun json_int :: "json \<Rightarrow> int result" where
  "json_int (JInt i) = Inr i"
| "json_int (JBool b) = Inr (if b then 1 else 0)"
| "json_int (JFloat x) = Inr (rat_trunc x)"
| "json_int (JStr s) = py_int s"
| "json_int _ = Inl TypeError"

definition jget_or :: "(string \<times> json) list \<Rightarrow> string \<Rightarrow> json \<Rightarrow> json" where
  "jget_or d k v = (case map_of d k of None \<Rightarrow> v | Some w \<Rightarrow> if json_truthy w then w else v)"

fun as_str :: "json \<Rightarrow> string result" where
  "as_str (JStr s) = Inr s"
| "as_str _ = Inl NotModelled"

fun as_hash :: "json \<Rightarrow> block_hash result" where
  "as_hash (JInt i) = (if 0 \<le> i \<and> i < 2 ^ 64 then Inr (word_of_int i) else Inl NotModelled)"
| "as_hash _ = Inl NotModelled"

fun res_map :: "('a \<Rightarrow> 'b result) \<Rightarrow> 'a list \<Rightarrow> 'b list result" where
  "res_map f [] = Inr []"
| "res_map f (x # xs) = res_bind (f x) (\<lambda>y. res_bind (res_map f xs) (\<lambda>ys. Inr (y # ys)))"

text \<open>\<open>list(v)\<close>: a number or a boolean is not iterable; a string or an object would give strings.\<close>

fun json_list :: "json \<Rightarrow> json list result" where
  "json_list (JArr vs) = Inr vs"
| "json_list (JStr s) = Inl NotModelled"
| "json_list (JObj kvs) = Inl NotModelled"
| "json_list _ = Inl TypeError"

definition json_values :: "(json \<Rightarrow> 'a result) \<Rightarrow> (string \<times> json) list \<Rightarrow> (string \<times> 'a) list result" where
  "json_values f kvs = res_map (\<lambda>(k, v). res_bind (f v) (\<lambda>x. Inr (k, x))) kvs"

text \<open>The entries of a digest, as \<open>merge\<close> reads them.\<close>

fun as_drain_entry :: "json \<Rightarrow> drain_entry result" where
  "as_drain_entry (JArr (d # t # JStr o' # _)) = res_bind (json_int t) (\<lambda>ts. Inr (json_truthy d, ts, o'))"
| "as_drain_entry _ = Inl NotModelled"

fun as_member_entry :: "json \<Rightarrow> member_entry result" where
  "as_member_entry (JArr (p # JStr u # JStr m # t # JStr o' # _)) =
     res_bind (json_int t) (\<lambda>ts. Inr (json_truthy p, u, m, ts, o'))"
| "as_member_entry _ = Inl NotModelled"

definition get_str :: "(string \<times> json) list \<Rightarrow> string \<Rightarrow> string result" where
  "get_str d k = res_bind (jget d k) as_str"

definition get_int :: "(string \<times> json) list \<Rightarrow> string \<Rightarrow> int result" where
  "get_int d k = res_bind (jget d k) json_int"

definition PrefixEvent_from_json :: "(string \<times> json) list \<Rightarrow> event result" where
  "PrefixEvent_from_json d =
     res_bind (get_str d ''k'') (\<lambda>k. res_bind (get_str d ''b'') (\<lambda>b.
     res_bind (get_str d ''o'') (\<lambda>o'. res_bind (get_int d ''s'') (\<lambda>s.
     res_bind (json_list (jget_or d ''h'' (JArr []))) (\<lambda>vs.
     res_bind (res_map as_hash vs) (\<lambda>hs. Inr (PrefixEvent k b o' s hs)))))))"

definition LoadEvent_from_json :: "(string \<times> json) list \<Rightarrow> event result" where
  "LoadEvent_from_json d =
     res_bind (get_str d ''o'') (\<lambda>o'. res_bind (get_int d ''s'') (\<lambda>s.
     res_bind (case jget_or d ''l'' (JObj []) of JObj kvs \<Rightarrow> json_values json_int kvs | _ \<Rightarrow> Inl AttributeError) (\<lambda>l.
     res_bind (json_list (jget_or d ''u'' (JArr []))) (\<lambda>vs.
     res_bind (res_map as_str vs) (\<lambda>u. Inr (LoadEvent o' s l u))))))"

definition DrainEvent_from_json :: "(string \<times> json) list \<Rightarrow> event result" where
  "DrainEvent_from_json d =
     res_bind (get_str d ''o'') (\<lambda>o'. res_bind (get_int d ''s'') (\<lambda>s. res_bind (get_int d ''t'') (\<lambda>t.
     res_bind (get_str d ''b'') (\<lambda>b. res_bind (jget d ''d'') (\<lambda>v.
       Inr (DrainEvent o' s t b (json_truthy v)))))))"

definition DrainDigest_from_json :: "(string \<times> json) list \<Rightarrow> event result" where
  "DrainDigest_from_json d =
     res_bind (get_str d ''o'') (\<lambda>o'. res_bind (get_int d ''s'') (\<lambda>s.
     res_bind (case jget_or d ''e'' (JObj []) of JObj kvs \<Rightarrow> json_values as_drain_entry kvs | _ \<Rightarrow> Inl NotModelled)
       (\<lambda>e. Inr (DrainDigest o' s e))))"

definition MemberEvent_from_json :: "(string \<times> json) list \<Rightarrow> event result" where
  "MemberEvent_from_json d =
     res_bind (get_str d ''o'') (\<lambda>o'. res_bind (get_int d ''s'') (\<lambda>s. res_bind (get_str d ''k'') (\<lambda>a.
     res_bind (get_str d ''b'') (\<lambda>b.
     res_bind (case map_of d ''u'' of None \<Rightarrow> Inr [] | Some v \<Rightarrow> as_str v) (\<lambda>u.
     res_bind (case map_of d ''m'' of None \<Rightarrow> Inr [] | Some v \<Rightarrow> as_str v) (\<lambda>m.
     res_bind (case map_of d ''t'' of None \<Rightarrow> Inr 0 | Some v \<Rightarrow> json_int v) (\<lambda>t.
       Inr (MemberEvent o' s a b u m t))))))))"

definition MembershipDigest_from_json :: "(string \<times> json) list \<Rightarrow> event result" where
  "MembershipDigest_from_json d =
     res_bind (get_str d ''o'') (\<lambda>o'. res_bind (get_int d ''s'') (\<lambda>s.
     res_bind (case jget_or d ''e'' (JObj []) of JObj kvs \<Rightarrow> json_values as_member_entry kvs | _ \<Rightarrow> Inl NotModelled)
       (\<lambda>e. Inr (MembershipDigest o' s e))))"

definition decode_event :: "string \<Rightarrow> event result" where
  "decode_event raw =
     res_bind (json_loads raw) (\<lambda>v. case v of
        JObj d \<Rightarrow>
          (let kind = map_of d ''k'' in
           if kind = Some (JStr LOAD) then LoadEvent_from_json d
           else if kind = Some (JStr DRAIN_OP) then DrainEvent_from_json d
           else if kind = Some (JStr DRAIN_DIGEST) then DrainDigest_from_json d
           else if kind = Some (JStr MEMBER_ADD) \<or> kind = Some (JStr MEMBER_REMOVE) then MemberEvent_from_json d
           else if kind = Some (JStr MEMBER_DIGEST) then MembershipDigest_from_json d
           else PrefixEvent_from_json d)
      | _ \<Rightarrow> Inl AttributeError)"


subsection \<open>Round trip\<close>

text \<open>The events a replica produces: dictionaries have distinct keys, the tags are those of the class.\<close>

fun wf_event :: "event \<Rightarrow> bool" where
  "wf_event (PrefixEvent k b o' s hs) \<longleftrightarrow> k = INSERT \<or> k = REMOVE_BACKEND"
| "wf_event (LoadEvent o' s l u) \<longleftrightarrow> dict_ok l"
| "wf_event (DrainEvent o' s t b d) \<longleftrightarrow> True"
| "wf_event (DrainDigest o' s e) \<longleftrightarrow> dict_ok e"
| "wf_event (MemberEvent o' s a b u m t) \<longleftrightarrow> a = MEMBER_ADD \<or> a = MEMBER_REMOVE"
| "wf_event (MembershipDigest o' s e) \<longleftrightarrow> dict_ok e"

lemma printable_entry: "printable (drain_entry_json x)" "printable (member_entry_json y)"
  by (cases x; simp) (cases y; simp)

lemma printable_event: "wf_event ev \<Longrightarrow> printable (event_json ev)"
  by (cases ev) (auto simp: json_hashes_def json_strs_def dict_ok_def printable_entry comp_def)

lemma res_map_map: "(\<And>x. x \<in> set xs \<Longrightarrow> f (g x) = Inr x) \<Longrightarrow> res_map f (map g xs) = Inr xs"
  by (induction xs) auto

lemma as_hash_uint [simp]: "as_hash (JInt (uint h)) = Inr h"
proof -
  have "0 \<le> uint h \<and> uint h < 2 ^ 64" using uint_lt2p [of h] by simp
  then show ?thesis by simp
qed

lemma as_entry_json: "as_drain_entry (drain_entry_json x) = Inr x" "as_member_entry (member_entry_json y) = Inr y"
  by (cases x; simp) (cases y; simp)

lemma json_values_map:
  "(\<And>x. f (g x) = Inr x) \<Longrightarrow> json_values f (map (map_prod (\<lambda>k. k) g) l) = Inr l"
  unfolding json_values_def by (rule res_map_map) (auto simp: map_prod_def split: prod.split)

lemma decode_parsed:
  "json_loads raw = Inr (event_json ev) \<Longrightarrow> wf_event ev \<Longrightarrow> decode_event raw = Inr ev"
proof (cases ev)
  case (LoadEvent o' s l u)
  assume raw: "json_loads raw = Inr (event_json ev)"
  have "json_values json_int (map (map_prod (\<lambda>k. k) JInt) l) = Inr l" by (rule json_values_map) simp
  then show ?thesis using raw LoadEvent
    by (cases l; cases u)
       (simp_all add: decode_event_def event_tags LoadEvent_from_json_def get_str_def get_int_def jget_def
         jget_or_def json_strs_def res_map_map json_values_def)
next
  case (DrainDigest o' s e)
  assume raw: "json_loads raw = Inr (event_json ev)"
  have "json_values as_drain_entry (map (map_prod (\<lambda>k. k) drain_entry_json) e) = Inr e"
    by (rule json_values_map) (simp add: as_entry_json)
  then show ?thesis using raw DrainDigest
    by (cases e) (simp_all add: decode_event_def event_tags DrainDigest_from_json_def get_str_def get_int_def jget_def
         jget_or_def json_values_def)
next
  case (MembershipDigest o' s e)
  assume raw: "json_loads raw = Inr (event_json ev)"
  have "json_values as_member_entry (map (map_prod (\<lambda>k. k) member_entry_json) e) = Inr e"
    by (rule json_values_map) (simp add: as_entry_json)
  then show ?thesis using raw MembershipDigest
    by (cases e) (simp_all add: decode_event_def event_tags MembershipDigest_from_json_def get_str_def get_int_def
         jget_def jget_or_def json_values_def)
next
  case (PrefixEvent k b o' s hs)
  assume raw: "json_loads raw = Inr (event_json ev)" and wf: "wf_event ev"
  have "res_map as_hash (map (\<lambda>h. JInt (uint h)) hs) = Inr hs" by (rule res_map_map) (rule as_hash_uint)
  then show ?thesis using raw wf PrefixEvent
    by (cases hs) (auto simp: decode_event_def event_tags PrefixEvent_from_json_def get_str_def get_int_def
         jget_def jget_or_def json_hashes_def)
next
  case (DrainEvent o' s t b d)
  assume raw: "json_loads raw = Inr (event_json ev)"
  then show ?thesis using DrainEvent
    by (simp add: decode_event_def event_tags DrainEvent_from_json_def get_str_def get_int_def jget_def)
next
  case (MemberEvent o' s a b u m t)
  assume raw: "json_loads raw = Inr (event_json ev)" and wf: "wf_event ev"
  then show ?thesis using MemberEvent
    by (auto simp: decode_event_def event_tags MemberEvent_from_json_def get_str_def get_int_def jget_def)
qed

lemma to_json_decode:
  assumes "wf_event ev"
  shows "to_json ev = Inr (dumps_text (event_json ev)) \<and> decode_event (dumps_text (event_json ev)) = Inr ev"
  using assms by (simp add: to_json_def json_dumps_printable json_loads_dumps_text printable_event decode_parsed)

text \<open>
  C19. Every event a replica produces survives the wire: it is serialised without error, and
  \<open>decode_event\<close> reads back the same event with all its fields.
\<close>

theorem event_roundtrip:
  assumes "wf_event ev"
  shows "\<exists>raw. to_json ev = Inr raw \<and> decode_event raw = Inr ev"
  using to_json_decode [OF assms] by blast

theorem event_roundtrip_witness:
  "\<exists>raw. to_json (DrainDigest ''r1'' 4 [(''b0'', True, 3, ''r2'')]) = Inr raw \<and>
     decode_event raw = Inr (DrainDigest ''r1'' 4 [(''b0'', True, 3, ''r2'')])"
  by (rule event_roundtrip) (simp add: dict_ok_def)

end
