(* ===== verification/Fleet.thy ===== *)
theory Fleet
  imports Events
begin

section \<open>Fleet-wide load\<close>

text \<open>
  \<^verbatim>\<open>gateway/cluster/fleet.py\<close>: the last load snapshot of every peer replica, which the router
  adds to its own counters.
\<close>

record FleetLoadView =
  fl_inflight :: "(replica, (string, int) dict) dict"
  fl_unhealthy :: "(replica, string set) dict"

definition FleetLoadView_init :: FleetLoadView where
  "FleetLoadView_init = \<lparr>fl_inflight = [], fl_unhealthy = []\<rparr>"

definition fleet_apply :: "FleetLoadView \<Rightarrow> replica \<Rightarrow> (string, int) dict \<Rightarrow> string list \<Rightarrow> FleetLoadView" where
  "fleet_apply v o' l u =
     v\<lparr>fl_inflight := AList.update o' l (fl_inflight v),
       fl_unhealthy := AList.update o' (set u) (fl_unhealthy v)\<rparr>"

definition peer_inflight :: "FleetLoadView \<Rightarrow> string \<Rightarrow> int" where
  "peer_inflight v b = sum_list (map (\<lambda>d. dget d b 0) (map snd (fl_inflight v)))"

definition peer_unhealthy :: "FleetLoadView \<Rightarrow> string \<Rightarrow> bool" where
  "peer_unhealthy v b \<longleftrightarrow> list_ex (\<lambda>s. b \<in> s) (map snd (fl_unhealthy v))"

definition fleet_peers :: "FleetLoadView \<Rightarrow> nat" where
  "fleet_peers v = length (fl_inflight v)"


subsection \<open>The view is the last snapshot of every peer\<close>

type_synonym snapshot = "replica \<times> (string, int) dict \<times> string list"

definition fleet_run :: "snapshot list \<Rightarrow> FleetLoadView" where
  "fleet_run evs = foldl (\<lambda>v (o', l, u). fleet_apply v o' l u) FleetLoadView_init evs"

definition last_from :: "replica \<Rightarrow> snapshot list \<Rightarrow> ((string, int) dict \<times> string list) option" where
  "last_from o' evs = map_of (rev evs) o'"

lemma fleet_run_snoc:
  "fleet_run (evs @ [e]) = (case e of (o', l, u) \<Rightarrow> fleet_apply (fleet_run evs) o' l u)"
  by (simp add: fleet_run_def)

lemma fleet_run_dicts: "dict_ok (fl_inflight (fleet_run evs)) \<and> dict_ok (fl_unhealthy (fleet_run evs))"
  by (induction evs rule: rev_induct)
     (auto simp: fleet_run_snoc fleet_apply_def fleet_run_def FleetLoadView_init_def split: prod.split)

lemma fleet_run_lookup:
  "map_of (fl_inflight (fleet_run evs)) o' = map_option fst (last_from o' evs)"
  "map_of (fl_unhealthy (fleet_run evs)) o' = map_option (set \<circ> snd) (last_from o' evs)"
  by (induction evs rule: rev_induct)
     (auto simp: fleet_run_snoc fleet_apply_def last_from_def fleet_run_def FleetLoadView_init_def split: prod.split)

lemma sum_list_dict:
  assumes "dict_ok d"
  shows "sum_list (map f (map snd d)) = (\<Sum>k \<in> fst ` set d. f (the (map_of d k)))"
proof -
  have "(\<Sum>k \<in> fst ` set d. f (the (map_of d k))) = (\<Sum>p \<in> set d. f (snd p))"
    using assms by (subst sum.reindex) (auto simp: dict_ok_def distinct_map intro!: sum.cong)
  moreover have "sum_list (map f (map snd d)) = (\<Sum>p \<in> set d. f (snd p))"
    using assms by (simp add: dict_ok_def sum_list_distinct_conv_sum_set distinct_map comp_def)
  ultimately show ?thesis by simp
qed

text \<open>
  What the router adds for a backend is the sum over the peers of the in-flight count in
  each peer's latest snapshot, and a backend counts as shed by a peer exactly when some peer's
  latest snapshot lists it; earlier snapshots of the same peer leave no trace.
\<close>

theorem fleet_view_latest:
  "peer_inflight (fleet_run evs) b =
     (\<Sum>o' \<in> fst ` set evs. dget (fst (the (last_from o' evs))) b 0) \<and>
   (peer_unhealthy (fleet_run evs) b \<longleftrightarrow> (\<exists>o' l u. last_from o' evs = Some (l, u) \<and> b \<in> set u)) \<and>
   fleet_peers (fleet_run evs) = card (fst ` set evs)"
proof -
  let ?v = "fleet_run evs"
  have keys: "fst ` set (fl_inflight ?v) = fst ` set evs"
    using map_of_eq_None_iff [of "fl_inflight ?v"] map_of_eq_None_iff [of "rev evs"]
    by (auto simp: fleet_run_lookup(1) last_from_def)
  have "peer_inflight ?v b = (\<Sum>o' \<in> fst ` set evs. dget (the (map_of (fl_inflight ?v) o')) b 0)"
    using sum_list_dict [of "fl_inflight ?v" "\<lambda>d. dget d b 0"] fleet_run_dicts by (simp add: peer_inflight_def keys)
  also have "\<dots> = (\<Sum>o' \<in> fst ` set evs. dget (fst (the (last_from o' evs))) b 0)"
  proof (rule sum.cong)
    fix o' assume "o' \<in> fst ` set evs"
    then have "last_from o' evs \<noteq> None" using map_of_eq_None_iff [of "rev evs" o'] by (simp add: last_from_def)
    then show "dget (the (map_of (fl_inflight ?v) o')) b 0 = dget (fst (the (last_from o' evs))) b 0"
      by (auto simp: fleet_run_lookup(1))
  qed simp
  finally have 1: "peer_inflight ?v b = (\<Sum>o' \<in> fst ` set evs. dget (fst (the (last_from o' evs))) b 0)" .
  have "peer_unhealthy ?v b \<longleftrightarrow> (\<exists>o' S. map_of (fl_unhealthy ?v) o' = Some S \<and> b \<in> S)"
    using fleet_run_dicts [of evs] by (force simp: peer_unhealthy_def list_ex_iff dict_ok_def)
  then have 2: "peer_unhealthy ?v b \<longleftrightarrow> (\<exists>o' l u. last_from o' evs = Some (l, u) \<and> b \<in> set u)"
    by (auto simp: fleet_run_lookup(2))
  have "fleet_peers ?v = card (fst ` set (fl_inflight ?v))"
    using fleet_run_dicts [of evs] distinct_card [of "map fst (fl_inflight ?v)"]
    by (simp add: fleet_peers_def dict_ok_def)
  with 1 2 show ?thesis by (simp add: keys)
qed

end
