(* ===== verification/Router.thy ===== *)
theory Router
  imports Radix_Tree Load_Tracker Fleet Config
    "HOL-Library.List_Lexorder" "HOL-Library.Char_ord" "HOL-Library.Product_Lexorder"
begin

section \<open>Routing\<close>

text \<open>
  \<^verbatim>\<open>gateway/router.py\<close>, the TTFT predictor of \<^verbatim>\<open>gateway/extensions/ttft_predictor.py\<close> and the
  ranking and race of \<^verbatim>\<open>gateway/extensions/speculative.py\<close>.  The trained regressor is a
  third-party object: it is a function from the feature vector to what \<open>predict\<close> returns,
  \<open>None\<close> when it raises and \<open>Some None\<close> for not-a-number.
\<close>


subsection \<open>The TTFT predictor\<close>

type_synonym regressor = "pyfloat list \<Rightarrow> pyfloat option option"

record TTFTPredictor =
  model_path :: "string option"
  p_model :: "regressor option"
  p_mtime :: "pyfloat option"

text \<open>What the file system and the \<open>joblib\<close> package answer.\<close>

record model_files =
  path_exists :: "string \<Rightarrow> bool"
  getmtime :: "string \<Rightarrow> pyfloat option"
  has_joblib :: bool
  joblib_load :: "string \<Rightarrow> regressor option"

definition reload_if_changed :: "model_files \<Rightarrow> TTFTPredictor \<Rightarrow> TTFTPredictor" where
  "reload_if_changed fs p =
     (case model_path p of
        None \<Rightarrow> p
      | Some path \<Rightarrow>
          if path = [] \<or> \<not> path_exists fs path then p
          else case getmtime fs path of
            None \<Rightarrow> p
          | Some mtime \<Rightarrow>
              if p_mtime p = Some mtime then p
              else if \<not> has_joblib fs then p
              else case joblib_load fs path of
                None \<Rightarrow> p\<lparr>p_model := None\<rparr>
              | Some m \<Rightarrow> p\<lparr>p_model := Some m, p_mtime := Some mtime\<rparr>)"

definition TTFTPredictor_init :: "model_files \<Rightarrow> string option \<Rightarrow> TTFTPredictor" where
  "TTFTPredictor_init fs path =
     reload_if_changed fs \<lparr>model_path = path, p_model = None, p_mtime = None\<rparr>"

definition available :: "TTFTPredictor \<Rightarrow> bool" where
  "available p \<longleftrightarrow> p_model p \<noteq> None"

text \<open>A negative or not-a-number prediction is dropped.\<close>

definition run_model :: "regressor \<Rightarrow> pyfloat list \<Rightarrow> pyfloat option" where
  "run_model m feats = (case m feats of Some (Some v) \<Rightarrow> if v < 0 then None else Some v | _ \<Rightarrow> None)"

definition predict :: "model_files \<Rightarrow> TTFTPredictor \<Rightarrow> pyfloat list \<Rightarrow> pyfloat option \<times> TTFTPredictor" where
  "predict fs p feats =
     (let p' = (if p_model p = None then reload_if_changed fs p else p) in
      (case p_model p' of None \<Rightarrow> None | Some m \<Rightarrow> run_model m feats, p'))"

definition backend_idx :: "string \<Rightarrow> nat" where
  "backend_idx b = unat (foldl (\<lambda>h c. h * 31 + ucast c) (0 :: 32 word) (utf8_encode b)) mod 64"

definition features_for :: "int \<Rightarrow> int \<Rightarrow> int \<Rightarrow> int \<Rightarrow> pyfloat \<Rightarrow> string \<Rightarrow> pyfloat list" where
  "features_for prompt_tokens match_blocks block_toks infl kv b =
     (let uncached = max 0 (prompt_tokens - match_blocks * block_toks) in
      [of_int prompt_tokens, of_int match_blocks, of_int uncached, of_int infl, kv, of_nat (backend_idx b)])"

definition blended_ttft :: "pyfloat \<Rightarrow> pyfloat option \<Rightarrow> pyfloat \<Rightarrow> pyfloat" where
  "blended_ttft static_ms predicted_ms weight =
     (case predicted_ms of
        None \<Rightarrow> static_ms
      | Some x \<Rightarrow> let w = max 0 (min 1 weight) in (1 - w) * static_ms + w * x)"


subsection \<open>The router\<close>

record Router =
  cfg :: Config
  tree :: RadixTree
  load :: LoadTracker
  rr :: nat
  predictor :: "TTFTPredictor option"
  fleet :: "FleetLoadView option"

record RouteResult =
  res_backend :: string
  res_hashes :: "block_hash list"
  res_tokens :: int
  res_match :: nat
  res_mode :: hash_mode

definition eff_inflight :: "Router \<Rightarrow> string \<Rightarrow> int" where
  "eff_inflight r b =
     dget (inflight (load r)) b 0 + (case fleet r of None \<Rightarrow> 0 | Some v \<Rightarrow> peer_inflight v b)"

definition peer_bad :: "Router \<Rightarrow> string \<Rightarrow> bool" where
  "peer_bad r b \<longleftrightarrow> (case fleet r of None \<Rightarrow> False | Some v \<Rightarrow> peer_unhealthy v b)"

definition saturated :: "Router \<Rightarrow> string \<Rightarrow> bool" where
  "saturated r b \<longleftrightarrow>
     peer_bad r b \<or> dget (kv_usage (load r)) b 0 > kv_pressure_cutoff (cfg r) \<or> eff_inflight r b > max_inflight (cfg r)"

definition est_ttft :: "Router \<Rightarrow> int \<Rightarrow> nat \<Rightarrow> string \<Rightarrow> pyfloat" where
  "est_ttft r tokens match_blocks b =
     (let cached_tokens = int match_blocks * block_tokens (cfg r);
          uncached = max 0 (tokens - cached_tokens);
          prefill_ms = prefill_ms_per_token (cfg r) * of_int uncached;
          queue_ms = of_int (eff_inflight r b) * service_ms_per_request (cfg r);
          static_ttft = prefill_ms + queue_ms
      in case predictor r of
           None \<Rightarrow> static_ttft
         | Some p \<Rightarrow>
             (case p_model p of
                None \<Rightarrow> static_ttft
              | Some m \<Rightarrow>
                  blended_ttft static_ttft
                    (run_model m (features_for tokens (int match_blocks) (block_tokens (cfg r))
                       (eff_inflight r b) (dget (kv_usage (load r)) b 0) b))
                    (ttft_predictor_weight (cfg r))))"

definition match_get :: "(string \<rightharpoonup> nat) \<Rightarrow> string \<Rightarrow> nat" where
  "match_get mt b = (case mt b of None \<Rightarrow> 0 | Some k \<Rightarrow> k)"

text \<open>The loop over the candidates: the scored ones, and the least loaded of the saturated ones.\<close>

fun score_loop ::
  "Router \<Rightarrow> (string \<rightharpoonup> nat) \<Rightarrow> int \<Rightarrow> string list \<Rightarrow> (pyfloat \<times> string \<times> nat) list \<Rightarrow> string option \<Rightarrow>
   (pyfloat \<times> string \<times> nat) list \<times> string option"
where
  "score_loop r mt tokens [] scored fb = (scored, fb)"
| "score_loop r mt tokens (b # bs) scored fb =
     (if saturated r b then
        score_loop r mt tokens bs scored
          (case fb of None \<Rightarrow> Some b | Some f \<Rightarrow> if eff_inflight r b < eff_inflight r f then Some b else fb)
      else
        let m_blocks = match_get mt b in
        score_loop r mt tokens bs (scored @ [(est_ttft r tokens m_blocks b, b, m_blocks)]) fb)"

definition pick_good :: "Router \<Rightarrow> (pyfloat \<times> string \<times> nat) list \<Rightarrow> (string \<times> nat) list" where
  "pick_good r scored =
     (let min_ttft = Min (fst ` set scored);
          good = [(b, m). (ttft, b, m) \<leftarrow> scored, ttft \<le> min_ttft + hysteresis_ms (cfg r)];
          min_load = Min ((\<lambda>(b, m). eff_inflight r b) ` set good)
      in filter (\<lambda>(b, m). eff_inflight r b = min_load) good)"

definition choose_prefix_tree :: "Router \<Rightarrow> string list \<Rightarrow> block_hash list \<Rightarrow> int \<Rightarrow> ((string \<times> nat) \<times> Router) result" where
  "choose_prefix_tree r cands hs tokens =
     (let mt = radix_match (tree r) hs;
          (scored, fb) = score_loop r mt tokens cands [] None
      in if scored = [] then
           (case fb of
              Some (c # cs) \<Rightarrow> Inr ((c # cs, match_get mt (c # cs)), r)
            | _ \<Rightarrow> (case cands of [] \<Rightarrow> Inl IndexError | b # _ \<Rightarrow> Inr ((b, match_get mt b), r)))
         else let tied = pick_good r scored
              in Inr (tied ! (rr r mod length tied), r\<lparr>rr := rr r + 1\<rparr>))"

definition choose_hashed ::
  "Router \<Rightarrow> string list \<Rightarrow> string \<Rightarrow> block_hash list \<Rightarrow> int \<Rightarrow> ((string \<times> nat) \<times> Router) result"
where
  "choose_hashed r cands strat hs tokens =
     (if strat = ''round_robin'' then
        (if cands = [] then Inl ZeroDivisionError
         else Inr ((cands ! (rr r mod length cands), 0), r\<lparr>rr := rr r + 1\<rparr>))
      else if strat = ''consistent_hash'' then
        (if cands = [] then Inl ZeroDivisionError
         else let key = (case hs of [] \<Rightarrow> 0 | h # _ \<Rightarrow> h)
              in Inr ((cands ! (unat key mod length cands), 0), r))
      else choose_prefix_tree r cands hs tokens)"

definition hash_prompt ::
  "(string \<Rightarrow> tokenizer option) \<Rightarrow> tok_cache \<Rightarrow> Config \<Rightarrow> string \<Rightarrow> int \<Rightarrow> (block_hash list \<times> hash_mode) result \<times> tok_cache"
where
  "hash_prompt load_tok tc c prompt seed =
     (if use_bpe_hashing c then
        block_hashes_with_fallback load_tok tc prompt (block_chars c) (block_tokens c)
          (hash_cutoff_blocks c) (tokenizer_model c) True seed
      else (res_bind (block_hashes prompt (block_chars c) (hash_cutoff_blocks c) seed) (\<lambda>hs. Inr (hs, CharMode)), tc))"

definition router_choose ::
  "(string \<Rightarrow> tokenizer option) \<Rightarrow> tok_cache \<Rightarrow> Router \<Rightarrow> string \<Rightarrow> string list \<Rightarrow> string option \<Rightarrow> int \<Rightarrow>
   (RouteResult \<times> Router) result \<times> tok_cache"
where
  "router_choose load_tok tc r prompt cands strat seed =
     (let strat' = (case strat of None \<Rightarrow> strategy (cfg r) | Some s \<Rightarrow> if s = [] then strategy (cfg r) else s);
          (hashed, tc') = hash_prompt load_tok tc (cfg r) prompt seed
      in (res_bind hashed (\<lambda>(hs, mode).
            let tokens = int (length hs) * block_tokens (cfg r) in
            res_bind (choose_hashed r cands strat' hs tokens) (\<lambda>((b, m), r').
              Inr (\<lparr>res_backend = b, res_hashes = hs, res_tokens = tokens, res_match = m, res_mode = mode\<rparr>, r'))),
          tc'))"


subsection \<open>What the scoring loop finds\<close>

lemma score_loop_scored:
  "fst (score_loop r mt tokens bs scored fb) =
     scored @ map (\<lambda>b. (est_ttft r tokens (match_get mt b) b, b, match_get mt b)) (filter (\<lambda>b. \<not> saturated r b) bs)"
  by (induction bs arbitrary: scored fb) (simp_all add: Let_def)

definition least_loaded :: "Router \<Rightarrow> string \<Rightarrow> string set \<Rightarrow> bool" where
  "least_loaded r f S \<longleftrightarrow> f \<in> S \<and> (\<forall>b \<in> S. eff_inflight r f \<le> eff_inflight r b)"

definition keep_lighter :: "Router \<Rightarrow> string option \<Rightarrow> string \<Rightarrow> string option" where
  "keep_lighter r fb b =
     (case fb of None \<Rightarrow> Some b | Some f \<Rightarrow> if eff_inflight r b < eff_inflight r f then Some b else fb)"

lemma score_loop_fallback:
  "snd (score_loop r mt tokens bs scored fb) = foldl (keep_lighter r) fb (filter (saturated r) bs)"
  by (induction bs arbitrary: scored fb) (simp_all add: Let_def keep_lighter_def)

lemma keep_lighter_fold_acc:
  "\<exists>f'. foldl (keep_lighter r) (Some f) bs = Some f' \<and> least_loaded r f' (insert f (set bs))"
proof (induction bs arbitrary: f)
  case (Cons b bs)
  define g where "g = (if eff_inflight r b < eff_inflight r f then b else f)"
  obtain f' where f': "foldl (keep_lighter r) (Some g) bs = Some f'" "least_loaded r f' (insert g (set bs))"
    using Cons.IH by blast
  have "eff_inflight r g \<le> eff_inflight r b" "eff_inflight r g \<le> eff_inflight r f" "g = b \<or> g = f"
    by (auto simp: g_def)
  then have "least_loaded r f' (insert f (set (b # bs)))"
    using f'(2) by (auto simp: least_loaded_def)
  moreover have "keep_lighter r (Some f) b = Some g" by (simp add: keep_lighter_def g_def)
  ultimately show ?case using f'(1) by simp
qed (simp add: least_loaded_def)

lemma keep_lighter_fold:
  "bs \<noteq> [] \<Longrightarrow> \<exists>f. foldl (keep_lighter r) None bs = Some f \<and> least_loaded r f (set bs)"
  using keep_lighter_fold_acc [of r "hd bs" "tl bs"] by (cases bs) (auto simp: keep_lighter_def)

lemma pick_good_spec:
  assumes "scored \<noteq> []" and "0 \<le> hysteresis_ms (cfg r)"
  shows "pick_good r scored \<noteq> []"
    and "(b, m) \<in> set (pick_good r scored) \<Longrightarrow>
      \<exists>t. (t, b, m) \<in> set scored \<and> (\<forall>(t', b', m') \<in> set scored. t \<le> t' + hysteresis_ms (cfg r)) \<and>
        (\<forall>(t', b', m') \<in> set scored.
           (\<forall>(t'', _) \<in> set scored. t' \<le> t'' + hysteresis_ms (cfg r)) \<longrightarrow> eff_inflight r b \<le> eff_inflight r b')"
proof -
  define mt where "mt = Min (fst ` set scored)"
  define good where "good = [(b, m). (ttft, b, m) \<leftarrow> scored, ttft \<le> mt + hysteresis_ms (cfg r)]"
  define ml where "ml = Min ((\<lambda>(b, m). eff_inflight r b) ` set good)"
  have pg: "pick_good r scored = filter (\<lambda>(b, m). eff_inflight r b = ml) good"
    by (simp add: pick_good_def Let_def mt_def good_def ml_def)
  have good: "(b, m) \<in> set good \<longleftrightarrow> (\<exists>t. (t, b, m) \<in> set scored \<and> t \<le> mt + hysteresis_ms (cfg r))" for b m
    by (force simp: good_def)
  have "mt \<in> fst ` set scored" unfolding mt_def using assms(1) by (intro Min_in) auto
  then obtain b0 m0 where mt: "(mt, b0, m0) \<in> set scored" by force
  have mt_le: "mt \<le> t" if "(t, b, m) \<in> set scored" for t b m
    unfolding mt_def using that by (intro Min_le) force+
  have "(b0, m0) \<in> set good" using mt assms(2) by (auto simp: good)
  then have ne: "good \<noteq> []" by auto
  then have "ml \<in> (\<lambda>(b, m). eff_inflight r b) ` set good" unfolding ml_def by (intro Min_in) auto
  then show "pick_good r scored \<noteq> []" by (auto simp: pg filter_empty_conv)
  assume bm: "(b, m) \<in> set (pick_good r scored)"
  then obtain t where t: "(t, b, m) \<in> set scored" "t \<le> mt + hysteresis_ms (cfg r)" and l: "eff_inflight r b = ml"
    by (auto simp: pg good)
  have "t \<le> t' + hysteresis_ms (cfg r)" if "(t', b', m') \<in> set scored" for t' b' m'
    using t(2) mt_le [OF that] by simp
  moreover have "eff_inflight r b \<le> eff_inflight r b'"
    if "(t', b', m') \<in> set scored" "\<forall>(t'', _) \<in> set scored. t' \<le> t'' + hysteresis_ms (cfg r)" for t' b' m'
  proof -
    have "t' \<le> mt + hysteresis_ms (cfg r)" using that(2) mt by auto
    then have "(b', m') \<in> set good" using that(1) by (auto simp: good)
    then show ?thesis unfolding l ml_def by (intro Min_le) force+
  qed
  ultimately show "\<exists>t. (t, b, m) \<in> set scored \<and> (\<forall>(t', b', m') \<in> set scored. t \<le> t' + hysteresis_ms (cfg r)) \<and>
        (\<forall>(t', b', m') \<in> set scored.
           (\<forall>(t'', _) \<in> set scored. t' \<le> t'' + hysteresis_ms (cfg r)) \<longrightarrow> eff_inflight r b \<le> eff_inflight r b')"
    using t(1) by blast
qed


subsection \<open>Properties of the choice\<close>

text \<open>The estimate a candidate is ranked by, and the candidates that pass the guardrails.\<close>

definition cand_ttft :: "Router \<Rightarrow> block_hash list \<Rightarrow> int \<Rightarrow> string \<Rightarrow> pyfloat" where
  "cand_ttft r hs tokens b = est_ttft r tokens (match_get (radix_match (tree r) hs) b) b"

definition eligible :: "Router \<Rightarrow> string list \<Rightarrow> string list" where
  "eligible r cands = filter (\<lambda>b. \<not> saturated r b) cands"

lemma score_loop_cand:
  "fst (score_loop r (radix_match (tree r) hs) tokens cands [] None) =
     map (\<lambda>b. (cand_ttft r hs tokens b, b, match_get (radix_match (tree r) hs) b)) (eligible r cands)"
  by (simp add: score_loop_scored cand_ttft_def eligible_def)

lemma choose_eligible:
  assumes "eligible r cands \<noteq> []" and "0 \<le> hysteresis_ms (cfg r)"
  obtains b where
    "choose_prefix_tree r cands hs tokens = Inr ((b, match_get (radix_match (tree r) hs) b), r\<lparr>rr := rr r + 1\<rparr>)"
    "b \<in> set (eligible r cands)"
    "\<forall>b' \<in> set (eligible r cands). cand_ttft r hs tokens b \<le> cand_ttft r hs tokens b' + hysteresis_ms (cfg r)"
    "\<forall>b' \<in> set (eligible r cands).
       (\<forall>b'' \<in> set (eligible r cands). cand_ttft r hs tokens b' \<le> cand_ttft r hs tokens b'' + hysteresis_ms (cfg r)) \<longrightarrow>
       eff_inflight r b \<le> eff_inflight r b'"
proof -
  let ?mt = "radix_match (tree r) hs"
  define sc where "sc = fst (score_loop r ?mt tokens cands [] None)"
  define tied where "tied = pick_good r sc"
  have sc: "sc = map (\<lambda>b. (cand_ttft r hs tokens b, b, match_get ?mt b)) (eligible r cands)"
    by (simp add: sc_def score_loop_cand)
  have ne: "sc \<noteq> []" using assms(1) by (simp add: sc)
  have "tied \<noteq> []" unfolding tied_def by (rule pick_good_spec(1) [OF ne assms(2)])
  then have "tied ! (rr r mod length tied) \<in> set tied" by (intro nth_mem) simp
  moreover obtain b m where bm: "tied ! (rr r mod length tied) = (b, m)" by (cases "tied ! (rr r mod length tied)")
  ultimately have "(b, m) \<in> set (pick_good r sc)" by (simp add: tied_def)
  from pick_good_spec(2) [OF ne assms(2) this] obtain t where
    t: "(t, b, m) \<in> set sc" "\<forall>(t', b', m') \<in> set sc. t \<le> t' + hysteresis_ms (cfg r)"
    "\<forall>(t', b', m') \<in> set sc. (\<forall>(t'', _) \<in> set sc. t' \<le> t'' + hysteresis_ms (cfg r)) \<longrightarrow>
       eff_inflight r b \<le> eff_inflight r b'" by blast
  have tb: "b \<in> set (eligible r cands)" "t = cand_ttft r hs tokens b" "m = match_get ?mt b"
    using t(1) by (auto simp: sc)
  have "choose_prefix_tree r cands hs tokens = Inr (tied ! (rr r mod length tied), r\<lparr>rr := rr r + 1\<rparr>)"
    using ne by (cases "score_loop r ?mt tokens cands [] None")
       (simp add: choose_prefix_tree_def Let_def sc_def tied_def)
  then show ?thesis using t tb bm by (intro that [of b]) (auto simp: sc)
qed

lemma choose_saturated:
  assumes "eligible r cands = []" and "cands \<noteq> []"
  obtains b where
    "choose_prefix_tree r cands hs tokens = Inr ((b, match_get (radix_match (tree r) hs) b), r)" "b \<in> set cands"
    "[] \<notin> set cands \<Longrightarrow> least_loaded r b (set cands)"
proof -
  let ?mt = "radix_match (tree r) hs"
  have sat: "filter (saturated r) cands = cands"
    using assms(1) by (auto simp: eligible_def filter_empty_conv filter_id_conv)
  obtain f where f: "foldl (keep_lighter r) None cands = Some f" "least_loaded r f (set cands)"
    using keep_lighter_fold [OF assms(2)] by blast
  have sl: "score_loop r ?mt tokens cands [] None = ([], Some f)"
    using score_loop_cand [of r hs tokens cands] score_loop_fallback [of r ?mt tokens cands "[]" None] sat assms(1) f
    by (simp add: prod_eq_iff)
  have fc: "f \<in> set cands" using f(2) by (simp add: least_loaded_def)
  show ?thesis
  proof (cases f)
    case Nil
    obtain x xs where x: "cands = x # xs" using assms(2) by (cases cands) auto
    then show ?thesis using sl fc Nil
      by (intro that [of x]) (auto simp: choose_prefix_tree_def)
  next
    case (Cons c cs)
    then show ?thesis using sl f(2) fc
      by (intro that [of f]) (simp_all add: choose_prefix_tree_def)
  qed
qed

text \<open>
  C4. Cache-aware routing picks well: when some candidate passes the guardrails, the chosen
  backend is one of those, its estimated time to first token is within the hysteresis of every
  other eligible one, and among the eligible backends that are within the hysteresis of the best
  it has the least load; when none passes, the choice is the least loaded candidate (backend ids
  being non-empty).  The match length reported with it is the radix tree's.
\<close>

theorem choose_prefix_tree_best:
  assumes "cands \<noteq> []" and "[] \<notin> set cands" and "0 \<le> hysteresis_ms (cfg r)"
  shows "\<exists>b r'. choose_prefix_tree r cands hs tokens = Inr ((b, match_get (radix_match (tree r) hs) b), r') \<and>
    b \<in> set cands \<and>
    (if eligible r cands = [] then \<forall>b' \<in> set cands. eff_inflight r b \<le> eff_inflight r b'
     else \<not> saturated r b \<and>
       (\<forall>b' \<in> set (eligible r cands).
          cand_ttft r hs tokens b \<le> cand_ttft r hs tokens b' + hysteresis_ms (cfg r) \<and>
          ((\<forall>b'' \<in> set (eligible r cands).
              cand_ttft r hs tokens b' \<le> cand_ttft r hs tokens b'' + hysteresis_ms (cfg r)) \<longrightarrow>
           eff_inflight r b \<le> eff_inflight r b')))"
proof (cases "eligible r cands = []")
  case True
  obtain b where "choose_prefix_tree r cands hs tokens = Inr ((b, match_get (radix_match (tree r) hs) b), r)"
    "b \<in> set cands" "least_loaded r b (set cands)"
    using choose_saturated [OF True assms(1)] assms(2) by metis
  with True show ?thesis by (auto simp: least_loaded_def)
next
  case False
  obtain b where "choose_prefix_tree r cands hs tokens =
      Inr ((b, match_get (radix_match (tree r) hs) b), r\<lparr>rr := rr r + 1\<rparr>)" and b: "b \<in> set (eligible r cands)"
    and "\<forall>b' \<in> set (eligible r cands). cand_ttft r hs tokens b \<le> cand_ttft r hs tokens b' + hysteresis_ms (cfg r)"
    and "\<forall>b' \<in> set (eligible r cands).
       (\<forall>b'' \<in> set (eligible r cands). cand_ttft r hs tokens b' \<le> cand_ttft r hs tokens b'' + hysteresis_ms (cfg r)) \<longrightarrow>
       eff_inflight r b \<le> eff_inflight r b'"
    by (rule choose_eligible [OF False assms(3)])
  moreover have "b \<in> set cands" "\<not> saturated r b" using b by (auto simp: eligible_def)
  ultimately show ?thesis using False by auto
qed

definition demo_router :: Router where
  "demo_router = \<lparr>cfg = Config_of Config_fields, tree = radix_insert (RadixTree_init 10) [1, 2] ''b1'',
     load = LoadTracker_init, rr = 0, predictor = None, fleet = None\<rparr>"

lemma demo_fields:
  "float_field Config_fields ''hysteresis_ms'' = 5" "int_field Config_fields ''block_chars'' = 64"
  "int_field Config_fields ''block_tokens'' = 16" "int_field Config_fields ''max_inflight'' = 64"
  "float_field Config_fields ''kv_pressure_cutoff'' = 9 / 10"
  by code_simp+

lemma demo_router_cfg:
  "hysteresis_ms (cfg demo_router) = 5" "block_chars (cfg demo_router) = 64" "block_tokens (cfg demo_router) = 16"
  "max_inflight (cfg demo_router) = 64" "kv_pressure_cutoff (cfg demo_router) = 9 / 10"
  by (simp_all add: demo_router_def Config_of_def demo_fields)

theorem choose_prefix_tree_best_witness:
  "\<exists>b r'. choose_prefix_tree demo_router [''b0'', ''b1''] [1, 2] 32 =
     Inr ((b, match_get (radix_match (tree demo_router) [1, 2]) b), r') \<and> b \<in> {''b0'', ''b1''}"
proof -
  have *: "[''b0'', ''b1''] \<noteq> []" "[] \<notin> set [''b0'', ''b1'']" "0 \<le> hysteresis_ms (cfg demo_router)"
    by (simp_all add: demo_router_cfg)
  obtain b r' where "choose_prefix_tree demo_router [''b0'', ''b1''] [1, 2] 32 =
      Inr ((b, match_get (radix_match (tree demo_router) [1, 2]) b), r')" "b \<in> set [''b0'', ''b1'']"
    using choose_prefix_tree_best [OF *, of "[1, 2]" 32] by blast
  then show ?thesis by (intro exI [of _ b] exI [of _ r']) simp
qed

lemma choose_hashed_total:
  assumes "cands \<noteq> []" and "0 \<le> hysteresis_ms (cfg r)"
  shows "\<exists>b m r'. choose_hashed r cands strat hs tokens = Inr ((b, m), r') \<and> b \<in> set cands"
proof -
  have "\<exists>b m r'. choose_prefix_tree r cands hs tokens = Inr ((b, m), r') \<and> b \<in> set cands"
  proof (cases "eligible r cands = []")
    case True
    from choose_saturated [OF this assms(1), of hs tokens] show ?thesis by metis
  next
    case False
    obtain b m r' where "choose_prefix_tree r cands hs tokens = Inr ((b, m), r')" "b \<in> set (eligible r cands)"
      using choose_eligible [OF False assms(2), of hs tokens] by metis
    then show ?thesis by (auto simp: eligible_def)
  qed
  then show ?thesis using assms(1) by (auto simp: choose_hashed_def Let_def)
qed

lemma block_hashes_ok: "bc \<noteq> 0 \<Longrightarrow> \<exists>hs. block_hashes p bc cutoff seed = Inr hs"
  by (simp add: block_hashes_def chain_blocks_def Let_def)

lemma load_tokenizer_error: "fst (load_tokenizer lt tc name) = Inl e \<Longrightarrow> e = TokenizerUnavailable"
  by (auto simp: load_tokenizer_def Let_def split: option.splits prod.splits if_splits)

lemma bpe_error:
  assumes "bpe_block_hashes lt tc p bt cutoff name seed = (Inl e, tc')" and "bt \<noteq> 0"
  shows "e = TokenizerUnavailable"
proof -
  obtain r tc'' where lt: "load_tokenizer lt tc name = (r, tc'')" by (cases "load_tokenizer lt tc name")
  with assms have "r = Inl e"
    by (cases r) (auto simp: bpe_block_hashes_def tokenize_ids_def chain_blocks_def Let_def)
  then show ?thesis using load_tokenizer_error [of lt tc name e] lt by simp
qed

lemma hash_prompt_total:
  assumes "block_chars c \<noteq> 0" and "block_tokens c \<noteq> 0"
  shows "\<exists>hs mode tc'. hash_prompt lt tc c p seed = (Inr (hs, mode), tc')"
proof -
  obtain hs0 where hs0: "block_hashes p (block_chars c) (hash_cutoff_blocks c) seed = Inr hs0"
    using block_hashes_ok [OF assms(1)] by blast
  obtain r tc' where b: "bpe_block_hashes lt tc p (block_tokens c) (hash_cutoff_blocks c) (tokenizer_model c) seed = (r, tc')"
    by (cases "bpe_block_hashes lt tc p (block_tokens c) (hash_cutoff_blocks c) (tokenizer_model c) seed")
  show ?thesis
  proof (cases r)
    case (Inl e)
    then have "e = TokenizerUnavailable" using bpe_error b assms(2) by blast
    then show ?thesis using b Inl hs0 by (simp add: hash_prompt_def block_hashes_with_fallback_def)
  next
    case (Inr hs)
    then show ?thesis using b hs0 by (simp add: hash_prompt_def block_hashes_with_fallback_def)
  qed
qed

lemma router_choose_ok:
  assumes "cands \<noteq> []" and "block_chars (cfg r) \<noteq> 0" and "block_tokens (cfg r) \<noteq> 0"
    and "0 \<le> hysteresis_ms (cfg r)"
  shows "\<exists>res r' tc'. router_choose lt tc r prompt cands strat seed = (Inr (res, r'), tc') \<and>
    res_backend res \<in> set cands"
proof -
  obtain hs mode tc' where h: "hash_prompt lt tc (cfg r) prompt seed = (Inr (hs, mode), tc')"
    using hash_prompt_total [OF assms(2,3)] by blast
  define strat' where "strat' = (case strat of None \<Rightarrow> strategy (cfg r) | Some s \<Rightarrow> if s = [] then strategy (cfg r) else s)"
  obtain b m r' where "choose_hashed r cands strat' hs (int (length hs) * block_tokens (cfg r)) = Inr ((b, m), r')"
    "b \<in> set cands"
    using choose_hashed_total [OF assms(1,4)] by blast
  then show ?thesis using h by (simp add: router_choose_def strat'_def)
qed

text \<open>
  Routing always answers with one of its candidates: whatever the prompt, the strategy
  requested or configured, the tokenizer (loadable or not) and the load, if there is a candidate
  and the block sizes are not zero the router returns a candidate and never an exception.
\<close>

theorem router_choose_total:
  assumes "cands \<noteq> []" and "block_chars (cfg r) \<noteq> 0" and "block_tokens (cfg r) \<noteq> 0"
    and "0 \<le> hysteresis_ms (cfg r)"
  shows "\<exists>res r' tc'. router_choose lt tc r prompt cands strat seed = (Inr (res, r'), tc') \<and>
    res_backend res \<in> set cands"
  using assms by (rule router_choose_ok)

theorem router_choose_total_witness:
  "\<exists>res r' tc'. router_choose (\<lambda>_. None) None demo_router ''hello'' [''b0''] (Some ''round_robin'') 0 =
     (Inr (res, r'), tc') \<and> res_backend res \<in> {''b0''}"
  using router_choose_total [of "[''b0'']" demo_router "\<lambda>_. None" None "''hello''" "Some ''round_robin''" 0]
  by (simp add: demo_router_cfg)


subsection \<open>Round robin\<close>

text \<open>The backends chosen by \<open>n\<close> successive requests.\<close>

fun rr_picks :: "Router \<Rightarrow> string list \<Rightarrow> nat \<Rightarrow> string list" where
  "rr_picks r cands 0 = []"
| "rr_picks r cands (Suc n) =
     (case choose_hashed r cands ''round_robin'' [] 0 of
        Inl _ \<Rightarrow> []
      | Inr ((b, _), r') \<Rightarrow> b # rr_picks r' cands n)"

lemma rr_picks_map:
  "cands \<noteq> [] \<Longrightarrow> rr_picks r cands n = map (\<lambda>i. cands ! ((rr r + i) mod length cands)) [0..<n]"
proof (induction n arbitrary: r)
  case (Suc n)
  have "[0..<Suc n] = 0 # map Suc [0..<n]" by (simp add: map_Suc_upt upt_conv_Cons del: upt_Suc)
  then show ?case using Suc by (simp add: choose_hashed_def)
qed simp

lemma rotate_map: "xs \<noteq> [] \<Longrightarrow> map (\<lambda>i. xs ! ((k + i) mod length xs)) [0..<length xs] = rotate k xs"
  by (rule nth_equalityI) (simp_all add: nth_rotate add.commute)

lemma mset_rotate: "mset (rotate k xs) = mset xs"
proof (induction k)
  case (Suc k)
  have "mset (rotate1 ys) = mset ys" for ys :: "'a list" by (cases ys) auto
  with Suc show ?case by simp
qed simp

text \<open>
  Round robin is fair: from any counter value, as many successive requests as there are
  candidates serve every candidate exactly once, in a rotation of their order.
\<close>

theorem round_robin_fair:
  "cands \<noteq> [] \<Longrightarrow> rr_picks r cands (length cands) = rotate (rr r) cands \<and>
     mset (rr_picks r cands (length cands)) = mset cands"
  by (simp add: rr_picks_map rotate_map mset_rotate)

theorem round_robin_fair_witness:
  "rr_picks demo_router [''b0'', ''b1''] 2 = [''b0'', ''b1'']"
  using round_robin_fair [of "[''b0'', ''b1'']" demo_router] by (simp add: demo_router_def numeral_2_eq_2)

end
