(* ===== verification/Speculative.thy ===== *)
theory Speculative
  imports Router
begin

section \<open>Speculative routing\<close>

text \<open>
  \<^verbatim>\<open>gateway/extensions/speculative.py\<close>: ranking the best \<open>k\<close> candidates and racing them.  The
  answers of the upstream servers are a parameter of the race: the batches of finished tasks
  that \<open>asyncio.wait\<close> reports, in order, each with its response or its failure.
\<close>

record TopKResult =
  tk_backends :: "string list"
  tk_match :: "(string, nat) dict"
  tk_hashes :: "block_hash list"
  tk_tokens :: int
  tk_mode :: hash_mode

text \<open>The guardrails of the ranking read this replica's own counters.\<close>

definition local_saturated :: "Router \<Rightarrow> string \<Rightarrow> bool" where
  "local_saturated r b \<longleftrightarrow>
     dget (kv_usage (load r)) b 0 > kv_pressure_cutoff (cfg r) \<or> dget (inflight (load r)) b 0 > max_inflight (cfg r)"

fun top_k_loop ::
  "Router \<Rightarrow> (string \<rightharpoonup> nat) \<Rightarrow> int \<Rightarrow> string list \<Rightarrow> (pyfloat \<times> string \<times> nat) list \<Rightarrow> (int \<times> string) list \<Rightarrow>
   (pyfloat \<times> string \<times> nat) list \<times> (int \<times> string) list"
where
  "top_k_loop r mt tokens [] scored sat = (scored, sat)"
| "top_k_loop r mt tokens (b # bs) scored sat =
     (if local_saturated r b then top_k_loop r mt tokens bs scored (sat @ [(dget (inflight (load r)) b 0, b)])
      else top_k_loop r mt tokens bs
             (scored @ [(est_ttft r tokens (match_get mt b) b, b, match_get mt b)]) sat)"

definition top_k_chosen :: "Router \<Rightarrow> string list \<Rightarrow> int \<Rightarrow> (string \<rightharpoonup> nat) \<Rightarrow> int \<Rightarrow> string list" where
  "top_k_chosen r cands k mt tokens =
     (let (scored, sat) = top_k_loop r mt tokens cands [] [] in
      if scored = [] then
        (case sort sat of (n, b) # _ \<Rightarrow> [b] | [] \<Rightarrow> take 1 cands)
      else map (\<lambda>(_, b, _). b) (take (nat (max 1 k)) (sort_key fst scored)))"

definition top_k_backends ::
  "(string \<Rightarrow> tokenizer option) \<Rightarrow> tok_cache \<Rightarrow> Router \<Rightarrow> string \<Rightarrow> string list \<Rightarrow> int \<Rightarrow> int \<Rightarrow>
   TopKResult result \<times> tok_cache"
where
  "top_k_backends load_tok tc r prompt cands k seed =
     (let (hashed, tc') = hash_prompt load_tok tc (cfg r) prompt seed
      in (res_bind hashed (\<lambda>(hs, mode).
            let tokens = int (length hs) * block_tokens (cfg r);
                mt = radix_match (tree r) hs;
                chosen = top_k_chosen r cands k mt tokens
            in Inr \<lparr>tk_backends = chosen,
                    tk_match = foldl (\<lambda>d b. AList.update b (match_get mt b) d) [] chosen,
                    tk_hashes = hs, tk_tokens = tokens, tk_mode = mode\<rparr>), tc'))"


subsection \<open>The ranking\<close>

lemma top_k_loop_result:
  "top_k_loop r mt tokens bs scored sat =
     (scored @ map (\<lambda>b. (est_ttft r tokens (match_get mt b) b, b, match_get mt b)) (filter (\<lambda>b. \<not> local_saturated r b) bs),
      sat @ map (\<lambda>b. (dget (inflight (load r)) b 0, b)) (filter (local_saturated r) bs))"
  by (induction bs arbitrary: scored sat) simp_all

definition local_eligible :: "Router \<Rightarrow> string list \<Rightarrow> string list" where
  "local_eligible r cands = filter (\<lambda>b. \<not> local_saturated r b) cands"

lemma top_k_chosen_scored:
  assumes "local_eligible r cands \<noteq> []"
  shows "top_k_chosen r cands k (radix_match (tree r) hs) tokens =
    take (nat (max 1 k)) (sort_key (cand_ttft r hs tokens) (local_eligible r cands))"
  using assms
  by (simp add: top_k_chosen_def top_k_loop_result cand_ttft_def [abs_def] take_map comp_def local_eligible_def sort_key_map)

lemma top_k_chosen_saturated:
  assumes "local_eligible r cands = []" and "cands \<noteq> []"
  shows "\<exists>b. top_k_chosen r cands k mt tokens = [b] \<and> b \<in> set cands \<and>
    (\<forall>b' \<in> set cands. dget (inflight (load r)) b 0 \<le> dget (inflight (load r)) b' 0)"
proof -
  let ?p = "\<lambda>b. (dget (inflight (load r)) b 0, b)"
  have all: "filter (local_saturated r) cands = cands"
    using assms(1) by (auto simp: local_eligible_def filter_empty_conv filter_id_conv)
  have tl: "top_k_loop r mt tokens cands [] [] = ([], map ?p cands)"
    using assms(1) all by (simp add: top_k_loop_result local_eligible_def)
  define L where "L = sort (map ?p cands)"
  have "length L = length cands" by (simp add: L_def)
  then obtain q ps where "L = q # ps" using assms(2) by (cases L) auto
  then obtain n b where s: "sort (map ?p cands) = (n, b) # ps" by (cases q) (simp add: L_def)
  have st: "set (map ?p cands) = set ((n, b) # ps)" using set_sort [of "\<lambda>x. x" "map ?p cands"] unfolding s by (rule sym)
  have mem: "(n, b) \<in> set (map ?p cands)" unfolding st by simp
  have "sorted ((n, b) # ps)" using sorted_sort [of "map ?p cands"] s by simp
  then have "\<forall>q \<in> set ((n, b) # ps). (n, b) \<le> q" by (simp only: sorted_simps list.set) blast
  then have "\<forall>q \<in> set (map ?p cands). (n, b) \<le> q" unfolding st .
  then have "\<forall>b' \<in> set cands. n \<le> dget (inflight (load r)) b' 0" by (auto simp: less_eq_prod_def)
  then show ?thesis using mem s tl by (auto simp: top_k_chosen_def)
qed

text \<open>
  The race is run between the most promising backends: among the candidates that pass this
  replica's guardrails the ranking takes the requested number (at least one, all if fewer), in
  order of estimated time to first token, and leaves out none that is faster than one it took;
  if none passes it takes the single candidate with the fewest requests in flight.
\<close>

theorem top_k_best:
  assumes "cands \<noteq> []"
  shows "let chosen = top_k_chosen r cands k (radix_match (tree r) hs) tokens;
             E = local_eligible r cands; t = cand_ttft r hs tokens in
    chosen \<noteq> [] \<and> set chosen \<subseteq> set cands \<and>
    (if E = [] then length chosen = 1 \<and>
       (\<forall>b \<in> set cands. dget (inflight (load r)) (hd chosen) 0 \<le> dget (inflight (load r)) b 0)
     else length chosen = min (nat (max 1 k)) (length E) \<and> set chosen \<subseteq> set E \<and> sorted (map t chosen) \<and>
       (\<forall>b \<in> set chosen. \<forall>b' \<in> set E - set chosen. t b \<le> t b'))"
proof (cases "local_eligible r cands = []")
  case True
  then show ?thesis using top_k_chosen_saturated [OF True assms, of k "radix_match (tree r) hs" tokens]
    by (auto simp: Let_def)
next
  case False
  define E where "E = local_eligible r cands"
  define t where "t = cand_ttft r hs tokens"
  define n where "n = nat (max 1 k)"
  define xs where "xs = sort_key t E"
  have ch: "top_k_chosen r cands k (radix_match (tree r) hs) tokens = take n xs"
    using top_k_chosen_scored [OF False] by (simp add: E_def t_def n_def xs_def)
  have sx: "sorted (map t xs)" by (simp add: xs_def)
  have "t b \<le> t b'" if "b \<in> set (take n xs)" "b' \<in> set E" "b' \<notin> set (take n xs)" for b b'
  proof (rule sorted_take_drop [OF sx that(1)])
    have "b' \<in> set (take n xs @ drop n xs)" using that(2) by (simp add: xs_def)
    then show "b' \<in> set (drop n xs)" using that(3) by (simp del: append_take_drop_id)
  qed
  moreover have "set (take n xs) \<subseteq> set E" using set_take_subset [of n xs] by (simp add: xs_def)
  moreover have "set E \<subseteq> set cands" by (auto simp: E_def local_eligible_def)
  moreover have "take n xs \<noteq> []" using False by (simp add: xs_def n_def E_def) (metis length_0_conv length_sort)
  moreover have "sorted (map t (take n xs))" using sx sorted_wrt_take [of "(\<le>)" "map t xs" n] by (simp add: take_map)
  moreover have "length (take n xs) = min n (length E)" by (simp add: xs_def)
  moreover have "E \<noteq> []" using False by (simp add: E_def)
  ultimately show ?thesis unfolding ch Let_def E_def [symmetric] t_def [symmetric] n_def [symmetric] by auto
qed

theorem top_k_best_witness:
  "set (top_k_chosen demo_router [''b0'', ''b1''] 1 (radix_match (tree demo_router) [1, 2]) 32) \<subseteq> {''b0'', ''b1''}"
  using top_k_best [of "[''b0'', ''b1'']" demo_router 1 "[1, 2]" 32] by (simp add: Let_def)


text \<open>A backend that a peer replica has shed, on an otherwise idle fleet.\<close>

definition shed_router :: Router where
  "shed_router = demo_router\<lparr>tree := RadixTree_init 10,
     fleet := Some (fleet_apply FleetLoadView_init ''r2'' [] [''b0''])\<rparr>"

lemma shed_router_sel:
  "cfg shed_router = cfg demo_router" "load shed_router = LoadTracker_init" "predictor shed_router = None"
  "fleet shed_router = Some (fleet_apply FleetLoadView_init ''r2'' [] [''b0''])"
  by (simp_all add: shed_router_def demo_router_def)

lemma shed_router_inflight: "eff_inflight shed_router b = 0"
  by (simp add: eff_inflight_def shed_router_sel LoadTracker_init_def peer_inflight_def fleet_apply_def
      FleetLoadView_init_def)

lemma shed_router_guards: "saturated shed_router b \<longleftrightarrow> b = ''b0''" "\<not> local_saturated shed_router b"
proof -
  have "peer_bad shed_router b \<longleftrightarrow> b = ''b0''"
    by (simp add: peer_bad_def shed_router_sel peer_unhealthy_def fleet_apply_def FleetLoadView_init_def)
  moreover have "dget (kv_usage (load shed_router)) b 0 = 0" "dget (inflight (load shed_router)) b 0 = 0"
    by (simp_all add: shed_router_sel LoadTracker_init_def)
  ultimately show "saturated shed_router b \<longleftrightarrow> b = ''b0''" "\<not> local_saturated shed_router b"
    by (simp_all add: saturated_def local_saturated_def shed_router_sel(1) demo_router_cfg shed_router_inflight)
qed

lemma shed_router_ttft: "cand_ttft shed_router hs 0 b = 0"
proof -
  have "max 0 (0 - int k * (16 :: int)) = 0" for k by simp
  then show ?thesis
    by (simp add: cand_ttft_def est_ttft_def shed_router_inflight shed_router_sel demo_router_cfg)
qed

text \<open>
  The ranking does not apply the guardrail on peers that \<open>choose\<close> applies: with an idle
  fleet in which another replica has shed \<open>b0\<close>, \<open>choose\<close> excludes \<open>b0\<close> while the top-1 ranking
  selects it.
\<close>

theorem top_k_ignores_peers:
  "eligible shed_router [''b0'', ''b1''] = [''b1''] \<and>
   top_k_chosen shed_router [''b0'', ''b1''] 1 (radix_match (tree shed_router) []) 0 = [''b0'']"
proof
  show "eligible shed_router [''b0'', ''b1''] = [''b1'']" by (simp add: eligible_def shed_router_guards)
  have "local_eligible shed_router [''b0'', ''b1''] = [''b0'', ''b1'']"
    by (simp add: local_eligible_def shed_router_guards)
  then show "top_k_chosen shed_router [''b0'', ''b1''] 1 (radix_match (tree shed_router) []) 0 = [''b0'']"
    by (simp add: top_k_chosen_scored shed_router_ttft)
qed


subsection \<open>The race\<close>

record 'resp RaceOutcome =
  winner_id :: string
  winner_response :: 'resp
  loser_ids :: "string list"

text \<open>
  The inner loop over the finished tasks: the first that has a response wins and ends the loop,
  a failed one is noted.  Finished tasks leave the table of running tasks when they are looked at.
\<close>

fun race_done ::
  "(string \<times> 'resp option) list \<Rightarrow> string list \<Rightarrow> string list \<Rightarrow>
   (string \<times> 'resp) option \<times> string list \<times> string list"
where
  "race_done [] tasks failed = (None, tasks, failed)"
| "race_done ((bid, Some resp) # done) tasks failed = (Some (bid, resp), remove1 bid tasks, failed)"
| "race_done ((bid, None) # done) tasks failed = race_done done (remove1 bid tasks) (failed @ [bid])"

fun race_loop ::
  "(string \<times> 'resp option) list list \<Rightarrow> string list \<Rightarrow> string list \<Rightarrow>
   (string \<times> 'resp) option \<times> string list \<times> string list"
where
  "race_loop [] tasks failed = (None, tasks, failed)"
| "race_loop (batch # batches) tasks failed =
     (if tasks = [] then (None, tasks, failed)
      else case race_done batch tasks failed of
             (Some w, rest) \<Rightarrow> (Some w, rest)
           | (None, tasks', failed') \<Rightarrow> race_loop batches tasks' failed')"

definition race :: "(string \<times> 'resp option) list list \<Rightarrow> string list \<Rightarrow> 'resp RaceOutcome option" where
  "race batches cands =
     (if cands = [] then None
      else case race_loop batches cands [] of
             (None, _) \<Rightarrow> None
           | (Some (w, resp), tasks, failed) \<Rightarrow>
               Some \<lparr>winner_id = w, winner_response = resp,
                     loser_ids = filter (\<lambda>b. b \<noteq> w) tasks @ failed\<rparr>)"

text \<open>The order in which the tasks finish: every racing task once, some task in every report.\<close>

definition race_schedule :: "(string \<times> 'resp option) list list \<Rightarrow> string list \<Rightarrow> bool" where
  "race_schedule batches cands \<longleftrightarrow> [] \<notin> set batches \<and> distinct cands \<and> mset (map fst (concat batches)) = mset cands"

lemma race_done_append:
  "race_done (xs @ ys) tasks failed =
     (case race_done xs tasks failed of
        (Some w, rest) \<Rightarrow> (Some w, rest)
      | (None, tasks', failed') \<Rightarrow> race_done ys tasks' failed')"
  by (induction xs tasks failed rule: race_done.induct) auto

lemma race_done_tasks:
  "race_done xs tasks failed = (None, tasks', failed') \<Longrightarrow>
     mset (map fst xs) \<subseteq># mset tasks \<Longrightarrow> mset tasks' = mset tasks - mset (map fst xs)"
proof (induction xs tasks failed rule: race_done.induct)
  case (3 bid "done" tasks failed)
  then have "mset (map fst done) \<subseteq># mset (remove1 bid tasks)"
    by (simp add: insert_subset_eq_iff)
  with 3 show ?case by simp
qed auto

lemma race_loop_concat:
  "[] \<notin> set batches \<Longrightarrow> mset (map fst (concat batches)) = mset tasks \<Longrightarrow>
     fst (race_loop batches tasks failed) = fst (race_done (concat batches) tasks failed) \<and>
     (fst (race_loop batches tasks failed) \<noteq> None \<longrightarrow>
      race_loop batches tasks failed = race_done (concat batches) tasks failed)"
proof (induction batches arbitrary: tasks failed)
  case (Cons batch batches)
  then have ne: "tasks \<noteq> []" by (cases batch) auto
  obtain w tasks' failed' where d: "race_done batch tasks failed = (w, tasks', failed')"
    by (cases "race_done batch tasks failed") auto
  show ?case
  proof (cases w)
    case None
    have eq: "mset tasks = mset (map fst batch) + mset (map fst (concat batches))"
      using Cons.prems(2) by simp
    then have sub: "mset (map fst batch) \<subseteq># mset tasks" by (simp only: mset_subset_eq_add_left)
    have "mset tasks' = mset tasks - mset (map fst batch)" by (rule race_done_tasks [OF d [unfolded None] sub])
    then have "mset (map fst (concat batches)) = mset tasks'" by (simp only: eq add_diff_cancel_left')
    then have "fst (race_loop batches tasks' failed') = fst (race_done (concat batches) tasks' failed') \<and>
        (fst (race_loop batches tasks' failed') \<noteq> None \<longrightarrow>
         race_loop batches tasks' failed' = race_done (concat batches) tasks' failed')"
      using Cons.prems(1) by (intro Cons.IH) simp_all
    moreover have "race_loop (batch # batches) tasks failed = race_loop batches tasks' failed'"
      using ne d None by simp
    moreover have "race_done (concat (batch # batches)) tasks failed = race_done (concat batches) tasks' failed'"
      using d None by (simp add: race_done_append)
    ultimately show ?thesis by metis
  next
    case (Some x)
    then show ?thesis using d ne by (simp add: race_done_append)
  qed
qed auto

abbreviation drop_tasks :: "string list \<Rightarrow> (string \<times> 'resp option) list \<Rightarrow> string list" where
  "drop_tasks tasks xs \<equiv> foldl (\<lambda>t p. remove1 (fst p) t) tasks xs"

lemma race_done_failed:
  "list_all (\<lambda>p. snd p = None) xs \<Longrightarrow> race_done xs tasks failed = (None, drop_tasks tasks xs, failed @ map fst xs)"
  by (induction xs arbitrary: tasks failed) auto

lemma drop_tasks_set:
  "distinct tasks \<Longrightarrow> distinct (drop_tasks tasks xs) \<and> set (drop_tasks tasks xs) = set tasks - fst ` set xs"
  by (induction xs arbitrary: tasks) auto

text \<open>
  C35. A race returns the first backend to answer: over any order in which the tasks finish, if
  some candidate answers then the winner is the first that does and the losers are exactly the
  other candidates, and if every candidate fails the race gives up.
\<close>

theorem race_first_answer:
  assumes "race_schedule batches cands"
  shows "(concat batches = pre @ (w, Some resp) # post \<and> list_all (\<lambda>p. snd p = None) pre \<longrightarrow>
      (\<exists>losers. race batches cands = Some \<lparr>winner_id = w, winner_response = resp, loser_ids = losers\<rparr> \<and>
         set losers = set cands - {w})) \<and>
    (list_all (\<lambda>p. snd p = None) (concat batches) \<longrightarrow> race batches cands = None)"
proof (intro conjI impI)
  have sch: "[] \<notin> set batches" "distinct cands" "mset (map fst (concat batches)) = mset cands"
    using assms by (auto simp: race_schedule_def)
  note loop = race_loop_concat [OF sch(1,3), of "[]"]
  {
    assume "list_all (\<lambda>p. snd p = None) (concat batches)"
    then have "fst (race_loop batches cands []) = None" using loop by (simp add: race_done_failed)
    then show "race batches cands = None" by (cases "race_loop batches cands []") (simp add: race_def)
  next
    assume c: "concat batches = pre @ (w, Some resp) # post \<and> list_all (\<lambda>p. snd p = None) pre"
    let ?T = "remove1 w (drop_tasks cands pre)"
    have d: "race_done (concat batches) cands [] = (Some (w, resp), ?T, map fst pre)"
      using c by (simp add: race_done_append race_done_failed)
    then have "fst (race_loop batches cands []) \<noteq> None" by (simp only: loop [THEN conjunct1] fst_conv) simp
    with loop have "race_loop batches cands [] = race_done (concat batches) cands []" by blast
    then have l: "race_loop batches cands [] = (Some (w, resp), ?T, map fst pre)" by (simp only: d)
    have st: "set cands = fst ` set pre \<union> {w} \<union> fst ` set post" and "distinct (map fst (concat batches))"
      using sch(2,3) c mset_eq_setD [OF sch(3)] mset_eq_imp_distinct_iff [OF sch(3)] by auto
    then have w: "w \<notin> fst ` set pre" using c by auto
    have "set (filter (\<lambda>b. b \<noteq> w) ?T) = set cands - fst ` set pre - {w}"
      using drop_tasks_set [OF sch(2), of pre] by auto
    then have "set (filter (\<lambda>b. b \<noteq> w) ?T @ map fst pre) = set cands - {w}" using st w by auto
    moreover have "cands \<noteq> []" using st by auto
    ultimately show "\<exists>losers. race batches cands =
        Some \<lparr>winner_id = w, winner_response = resp, loser_ids = losers\<rparr> \<and> set losers = set cands - {w}"
      using l by (auto simp: race_def)
  }
qed

theorem race_first_answer_witness:
  "\<exists>losers. race [[(''b1'', None)], [(''b0'', Some (200 :: nat)), (''b2'', Some 500)]] [''b1'', ''b0'', ''b2''] =
     Some \<lparr>winner_id = ''b0'', winner_response = 200, loser_ids = losers\<rparr> \<and>
     set losers = set [''b1'', ''b0'', ''b2''] - {''b0''}"
proof -
  have "race_schedule [[(''b1'', None)], [(''b0'', Some (200 :: nat)), (''b2'', Some 500)]] [''b1'', ''b0'', ''b2'']"
    by (simp add: race_schedule_def)
  from race_first_answer [OF this, of "[(''b1'', None)]" "''b0''" 200 "[(''b2'', Some 500)]"] show ?thesis by simp
qed

end
