(* ===== verification/Fair_Queue.thy ===== *)
theory Fair_Queue
  imports Gw_Prelude "HOL-Library.Product_Lexorder"
begin

section \<open>Weighted fair queuing\<close>

text \<open>
  \<^verbatim>\<open>gateway/fairqueue.py\<close>.  The binary heap of \<open>heapq\<close> is kept in the order its minima come
  out, by finish time and then by sequence number: \<open>heappush\<close> inserts, \<open>heappop\<close> takes the
  first, which is all the code observes of it.  Virtual times are rationals.
\<close>

type_synonym 'i entry = "pyfloat \<times> nat \<times> 'i"

record 'i WeightedFairQueue =
  heap :: "'i entry list"
  last_finish :: "(string, pyfloat) dict"
  vt :: pyfloat
  seq :: nat

definition WeightedFairQueue_init :: "'i WeightedFairQueue" where
  "WeightedFairQueue_init = \<lparr>heap = [], last_finish = [], vt = 0, seq = 0\<rparr>"

definition entry_key :: "'i entry \<Rightarrow> pyfloat \<times> nat" where
  "entry_key e = (fst e, fst (snd e))"

definition heappush :: "'i entry list \<Rightarrow> 'i entry \<Rightarrow> 'i entry list" where
  "heappush h e = insort_key entry_key e h"

fun heappop :: "'i entry list \<Rightarrow> ('i entry \<times> 'i entry list) result" where
  "heappop [] = Inl IndexError"
| "heappop (e # h) = Inr (e, h)"

definition wfq_len :: "'i WeightedFairQueue \<Rightarrow> nat" where
  "wfq_len q = length (heap q)"

definition enqueue ::
  "'i WeightedFairQueue \<Rightarrow> 'i \<Rightarrow> string \<Rightarrow> pyfloat \<Rightarrow> pyfloat \<Rightarrow> pyfloat \<times> 'i WeightedFairQueue"
where
  "enqueue q item cls weight cost =
     (let w = (if weight > 0 then weight else 1 / 10 ^ 9);
          start = max (vt q) (dget (last_finish q) cls 0);
          finish = start + cost / w
      in (finish, q\<lparr>last_finish := AList.update cls finish (last_finish q),
                    heap := heappush (heap q) (finish, seq q, item),
                    seq := seq q + 1\<rparr>))"

definition dequeue :: "'i WeightedFairQueue \<Rightarrow> ('i \<times> 'i WeightedFairQueue) result" where
  "dequeue q =
     res_bind (heappop (heap q)) (\<lambda>((finish, _, item), h).
       let q' = q\<lparr>heap := h\<rparr>
       in Inr (item, if finish > vt q' then q'\<lparr>vt := finish\<rparr> else q'))"

text \<open>\<open>cls_of\<close> is the attribute lookup \<open>getattr(item, "cls", None)\<close> on the items in use.\<close>

definition peek_class :: "('i \<Rightarrow> string option) \<Rightarrow> 'i WeightedFairQueue \<Rightarrow> string option" where
  "peek_class cls_of q = (case heap q of [] \<Rightarrow> None | (_, _, item) # _ \<Rightarrow> cls_of item)"


subsection \<open>Runs with a fixed weight for every class\<close>

text \<open>Items are tagged with their class; every request has the same cost, as the scheduler charges it.\<close>

type_synonym 'a citem = "string \<times> 'a"

datatype 'a fq_op = Enq string 'a | Deq

fun fq_step :: "(string \<Rightarrow> pyfloat) \<Rightarrow> pyfloat \<Rightarrow> 'a citem WeightedFairQueue \<Rightarrow> 'a fq_op \<Rightarrow> 'a citem WeightedFairQueue" where
  "fq_step w c q (Enq cls x) = snd (enqueue q (cls, x) cls (w cls) c)"
| "fq_step w c q Deq = (case dequeue q of Inl _ \<Rightarrow> q | Inr (_, q') \<Rightarrow> q')"

fun fq_run :: "(string \<Rightarrow> pyfloat) \<Rightarrow> pyfloat \<Rightarrow> 'a citem WeightedFairQueue \<Rightarrow> 'a fq_op list \<Rightarrow> 'a citem WeightedFairQueue" where
  "fq_run w c q [] = q"
| "fq_run w c q (x # xs) = fq_run w c (fq_step w c q x) xs"

text \<open>How many requests of a class a run serves, and whether a class always has one waiting.\<close>

definition serves :: "string \<Rightarrow> 'a citem WeightedFairQueue \<Rightarrow> 'a fq_op \<Rightarrow> nat" where
  "serves cls q x =
     (case x of Deq \<Rightarrow> (case dequeue q of Inr ((cls', _), _) \<Rightarrow> if cls' = cls then 1 else 0 | Inl _ \<Rightarrow> 0)
      | Enq _ _ \<Rightarrow> 0)"

fun served :: "(string \<Rightarrow> pyfloat) \<Rightarrow> pyfloat \<Rightarrow> string \<Rightarrow> 'a citem WeightedFairQueue \<Rightarrow> 'a fq_op list \<Rightarrow> nat" where
  "served w c cls q [] = 0"
| "served w c cls q (x # xs) = serves cls q x + served w c cls (fq_step w c q x) xs"

definition of_class :: "string \<Rightarrow> 'a citem entry \<Rightarrow> bool" where
  "of_class cls e \<longleftrightarrow> fst (snd (snd e)) = cls"

definition tags :: "'a citem WeightedFairQueue \<Rightarrow> string \<Rightarrow> pyfloat list" where
  "tags q cls = map fst (filter (of_class cls) (heap q))"

fun backlogged :: "(string \<Rightarrow> pyfloat) \<Rightarrow> pyfloat \<Rightarrow> string \<Rightarrow> 'a citem WeightedFairQueue \<Rightarrow> 'a fq_op list \<Rightarrow> bool" where
  "backlogged w c cls q [] = (tags q cls \<noteq> [])"
| "backlogged w c cls q (x # xs) = (tags q cls \<noteq> [] \<and> backlogged w c cls (fq_step w c q x) xs)"


subsection \<open>The finish times of a class\<close>

definition ap :: "pyfloat \<Rightarrow> pyfloat \<Rightarrow> nat \<Rightarrow> pyfloat list" where
  "ap h d n = map (\<lambda>k. h + of_nat k * d) [0..<n]"

lemma ap_0 [simp]: "ap h d 0 = []"
  by (simp add: ap_def)

lemma ap_Cons: "ap h d (Suc n) = h # ap (h + d) d n"
proof -
  have "[0..<Suc n] = 0 # map Suc [0..<n]" by (simp add: map_Suc_upt upt_conv_Cons del: upt_Suc)
  then show ?thesis by (simp add: ap_def comp_def algebra_simps)
qed

lemma ap_snoc: "ap h d (Suc n) = ap h d n @ [h + of_nat n * d]"
  by (simp add: ap_def)

lemma ap_eq_Nil [simp]: "ap h d n = [] \<longleftrightarrow> n = 0"
  by (simp add: ap_def)

text \<open>
  The waiting requests of a class have finish times in arithmetic progression, the first at most
  one step after the virtual time; a class with none waiting was last served in the past.
\<close>

definition class_ok :: "(string \<Rightarrow> pyfloat) \<Rightarrow> pyfloat \<Rightarrow> 'a citem WeightedFairQueue \<Rightarrow> string \<Rightarrow> bool" where
  "class_ok w c q cls \<longleftrightarrow>
     (if tags q cls = [] then dget (last_finish q) cls 0 \<le> vt q
      else \<exists>h n. tags q cls = ap h (c / w cls) (Suc n) \<and> vt q \<le> h \<and> h \<le> vt q + c / w cls \<and>
             dget (last_finish q) cls 0 = h + of_nat n * (c / w cls))"

lemma class_okI:
  "tags q cls = ap h (c / w cls) (Suc n) \<Longrightarrow> vt q \<le> h \<Longrightarrow> h \<le> vt q + c / w cls \<Longrightarrow>
     dget (last_finish q) cls 0 = h + of_nat n * (c / w cls) \<Longrightarrow> class_ok w c q cls"
  unfolding class_ok_def by (subst if_not_P) (simp, blast)

lemma class_okD:
  assumes "class_ok w c q cls" and "tags q cls \<noteq> []"
  obtains h n where "tags q cls = ap h (c / w cls) (Suc n)" "vt q \<le> h" "h \<le> vt q + c / w cls"
    "dget (last_finish q) cls 0 = h + of_nat n * (c / w cls)"
  using assms unfolding class_ok_def by auto

definition fair_inv :: "(string \<Rightarrow> pyfloat) \<Rightarrow> pyfloat \<Rightarrow> 'a citem WeightedFairQueue \<Rightarrow> bool" where
  "fair_inv w c q \<longleftrightarrow> sorted (map entry_key (heap q)) \<and> (\<forall>e \<in> set (heap q). fst (snd e) < seq q) \<and>
     (\<forall>cls. class_ok w c q cls)"

lemma fair_inv_init: "fair_inv w c WeightedFairQueue_init"
  by (simp add: fair_inv_def WeightedFairQueue_init_def class_ok_def tags_def)

lemma tags_push_other:
  "cls' \<noteq> cls \<Longrightarrow> filter (of_class cls') (heappush h (f, s, cls, x)) = filter (of_class cls') h"
  unfolding heappush_def by (rule filter_insort_triv) (simp add: of_class_def)

lemma insort_last: "\<forall>e \<in> set xs. k e < k x \<Longrightarrow> insort_key k x xs = xs @ [x]"
  by (induction xs) auto

lemma tags_push_same:
  assumes "sorted (map entry_key h)" and "\<forall>e \<in> set h. fst (snd e) < s"
    and "\<forall>e \<in> set h. of_class cls e \<longrightarrow> fst e \<le> f"
  shows "filter (of_class cls) (heappush h (f, s, cls, x)) = filter (of_class cls) h @ [(f, s, cls, x)]"
proof -
  have "filter (of_class cls) (heappush h (f, s, cls, x)) = insort_key entry_key (f, s, cls, x) (filter (of_class cls) h)"
    unfolding heappush_def by (rule filter_insort [OF assms(1)]) (simp add: of_class_def)
  also have "\<dots> = filter (of_class cls) h @ [(f, s, cls, x)]"
  proof (rule insort_last, rule ballI)
    fix e assume "e \<in> set (filter (of_class cls) h)"
    then have "fst e \<le> f" "fst (snd e) < s" using assms(2,3) by auto
    then show "entry_key e < entry_key (f, s, cls, x)" by (auto simp: entry_key_def)
  qed
  finally show ?thesis .
qed

lemma ap_le_last:
  assumes "t \<in> set (ap h d (Suc n))" and "0 \<le> d"
  shows "t \<le> h + of_nat n * d"
  using assms by (auto simp: ap_def intro!: mult_right_mono)

lemma fair_inv_enqueue:
  assumes inv: "fair_inv w c q" and w: "0 < w cls" and c: "0 \<le> c"
  shows "fair_inv w c (snd (enqueue q (cls, x) cls (w cls) c))"
proof -
  define d where "d = c / w cls"
  define t where "t = max (vt q) (dget (last_finish q) cls 0) + d"
  define q' where "q' = snd (enqueue q (cls, x) cls (w cls) c)"
  have d0: "0 \<le> d" using w c by (simp add: d_def)
  have q': "heap q' = heappush (heap q) (t, seq q, cls, x)" "last_finish q' = AList.update cls t (last_finish q)"
    "vt q' = vt q" "seq q' = seq q + 1"
    using w by (simp_all add: q'_def enqueue_def Let_def t_def d_def)
  have so: "sorted (map entry_key (heap q))" and sq: "\<forall>e \<in> set (heap q). fst (snd e) < seq q"
    and ok: "class_ok w c q cls'" for cls' using inv by (auto simp: fair_inv_def)
  have "class_ok w c q' cls'" for cls'
  proof (cases "cls' = cls")
    case False
    then have "tags q' cls' = tags q cls'" "dget (last_finish q') cls' 0 = dget (last_finish q) cls' 0"
      by (simp_all add: tags_def q' tags_push_other)
    then show ?thesis using ok [of cls'] by (simp only: class_ok_def q'(3))
  next
    case True
    have le: "\<forall>e \<in> set (heap q). of_class cls e \<longrightarrow> fst e \<le> t"
    proof (intro ballI impI)
      fix e assume "e \<in> set (heap q)" "of_class cls e"
      then have et: "fst e \<in> set (tags q cls)" by (auto simp: tags_def)
      then have "tags q cls \<noteq> []" by auto
      then obtain h n where hn: "tags q cls = ap h d (Suc n)" "dget (last_finish q) cls 0 = h + of_nat n * d"
        using class_okD [OF ok, of cls] unfolding d_def by blast
      have "fst e \<le> dget (last_finish q) cls 0" using et ap_le_last [of "fst e" h d n] d0 by (simp add: hn)
      then show "fst e \<le> t" using d0 by (simp add: t_def max_def)
    qed
    have tg: "tags q' cls = tags q cls @ [t]"
      using tags_push_same [OF so sq le, of x] by (simp add: tags_def q')
    show ?thesis
    proof (cases "tags q cls = []")
      case True
      then have "dget (last_finish q) cls 0 \<le> vt q" using ok [of cls] by (simp add: class_ok_def)
      then have "t = vt q + d" by (simp add: t_def max_def)
      then have "tags q' cls = ap (vt q + d) d (Suc 0)" using tg True by (simp add: ap_def)
      then show ?thesis using \<open>cls' = cls\<close> d0 \<open>t = vt q + d\<close>
        by (intro class_okI [of _ _ "vt q + d" _ _ 0]) (simp_all add: q' flip: d_def)
    next
      case False
      then obtain h n where hn: "tags q cls = ap h d (Suc n)" "vt q \<le> h" "h \<le> vt q + d"
        "dget (last_finish q) cls 0 = h + of_nat n * d"
        using class_okD [OF ok, of cls] unfolding d_def by blast
      have "vt q \<le> h + of_nat n * d" using hn(2) d0 by (simp add: add_increasing2)
      then have t: "t = h + of_nat (Suc n) * d" by (simp add: t_def hn(4) max_def algebra_simps)
      have "tags q' cls = ap h d (Suc (Suc n))" using tg hn(1) t by (simp add: ap_snoc [of h d "Suc n"])
      then show ?thesis using \<open>cls' = cls\<close> hn(2,3) t
        by (intro class_okI [of _ _ h _ _ "Suc n"]) (simp_all add: q' flip: d_def)
    qed
  qed
  moreover have "sorted (map entry_key (heap q'))" using so by (simp add: q' heappush_def sorted_insort_key)
  moreover have "\<forall>e \<in> set (heap q'). fst (snd e) < seq q'" using sq by (auto simp: q' heappush_def set_insort_key)
  ultimately show ?thesis by (simp add: fair_inv_def q'_def)
qed

lemma dequeue_Cons:
  assumes "heap q = (t, s, cls, x) # h"
  shows "dequeue q = Inr ((cls, x), q\<lparr>heap := h, vt := max (vt q) t\<rparr>)"
  using assms by (auto simp: dequeue_def Let_def max_def)

lemma dequeue_Nil: "heap q = [] \<Longrightarrow> dequeue q = Inl IndexError"
  by (simp add: dequeue_def)

lemma vt_le_tags:
  assumes "fair_inv w c q" and "e \<in> set (heap q)" and "\<forall>cls. 0 < w cls" and "0 \<le> c"
  shows "vt q \<le> fst e"
proof -
  obtain cls where "of_class cls e" by (simp add: of_class_def)
  then have et: "fst e \<in> set (tags q cls)" using assms(2) by (auto simp: tags_def)
  then obtain h n where hn: "tags q cls = ap h (c / w cls) (Suc n)" "vt q \<le> h"
    using class_okD [of w c q cls] assms(1) by (metis fair_inv_def empty_iff list.set(1))
  then have "h \<le> fst e" using et assms(3,4) by (auto simp: ap_def add_increasing2 less_imp_le)
  then show ?thesis using hn(2) by simp
qed

lemma fair_inv_dequeue:
  assumes inv: "fair_inv w c q" and w: "\<forall>cls. 0 < w cls" and c: "0 \<le> c"
    and q: "heap q = (t, s, cls, x) # h"
  shows "fair_inv w c (q\<lparr>heap := h, vt := max (vt q) t\<rparr>)"
proof -
  let ?q = "q\<lparr>heap := h, vt := max (vt q) t\<rparr>"
  have vt: "vt q \<le> t" using vt_le_tags [OF inv _ w c, of "(t, s, cls, x)"] q by simp
  then have mx: "max (vt q) t = t" by simp
  have ok: "class_ok w c q cls'" for cls' using inv by (simp add: fair_inv_def)
  have so: "sorted (map entry_key ((t, s, cls, x) # h))" using inv q by (simp add: fair_inv_def)
  have "class_ok w c ?q cls'" for cls'
  proof (cases "cls' = cls")
    case True
    have tg: "tags q cls = t # tags ?q cls" by (simp add: tags_def q of_class_def)
    then obtain a n where an: "tags q cls = ap a (c / w cls) (Suc n)"
      "dget (last_finish q) cls 0 = a + of_nat n * (c / w cls)"
      using class_okD [OF ok, of cls] by (metis list.distinct(1))
    have at': "t = a \<and> tags ?q cls = ap (a + c / w cls) (c / w cls) n"
      using an(1) unfolding tg ap_Cons list.inject .
    then have at: "a = t" "tags ?q cls = ap (t + c / w cls) (c / w cls) n" by (rule conjE, simp only:)+
    have d0: "0 \<le> c / w cls" using w c by (simp add: less_imp_le)
    show ?thesis
    proof (cases n)
      case 0
      then show ?thesis using an at True by (simp add: class_ok_def mx)
    next
      case (Suc m)
      have "tags ?q cls = ap (t + c / w cls) (c / w cls) (Suc m)" using at(2) Suc by simp
      moreover have "dget (last_finish ?q) cls 0 = (t + c / w cls) + of_nat m * (c / w cls)"
        using an(2) at(1) Suc by (simp add: algebra_simps add_divide_distrib)
      ultimately show ?thesis using True d0 by (intro class_okI) (simp_all add: mx)
    qed
  next
    case False
    then have tg: "tags ?q cls' = tags q cls'" by (simp add: tags_def q of_class_def)
    show ?thesis
    proof (cases "tags q cls' = []")
      case True
      then show ?thesis using ok [of cls'] vt tg by (simp add: class_ok_def mx)
    next
      case ne: False
      then obtain a n where an: "tags q cls' = ap a (c / w cls') (Suc n)" "a \<le> vt q + c / w cls'"
        "dget (last_finish q) cls' 0 = a + of_nat n * (c / w cls')"
        using class_okD [OF ok ne] by blast
      have "a \<in> set (tags ?q cls')" using tg an(1) by (simp add: ap_Cons)
      then obtain e where "e \<in> set h" "fst e = a" by (auto simp: tags_def)
      then have "t \<le> a" using so by (auto simp: entry_key_def)
      then show ?thesis using an vt tg by (intro class_okI [of _ _ a _ _ n]) (simp_all add: mx)
    qed
  qed
  moreover have "sorted (map entry_key (heap ?q))" using so by simp
  moreover have "\<forall>e \<in> set (heap ?q). fst (snd e) < seq ?q" using inv q by (simp add: fair_inv_def)
  ultimately show ?thesis by (simp add: fair_inv_def)
qed

lemma fair_inv_step:
  "fair_inv w c q \<Longrightarrow> \<forall>cls. 0 < w cls \<Longrightarrow> 0 \<le> c \<Longrightarrow> fair_inv w c (fq_step w c q x)"
proof (cases x)
  case Deq
  assume "fair_inv w c q" "\<forall>cls. 0 < w cls" "0 \<le> c"
  then show ?thesis
  proof (cases "heap q")
    case Nil
    then show ?thesis using \<open>fair_inv w c q\<close> by (simp add: Deq dequeue_Nil)
  next
    case (Cons e h)
    obtain t s cls y where "e = (t, s, cls, y)" by (cases e)
    then have e: "heap q = (t, s, cls, y) # h" using Cons by simp
    then show ?thesis using \<open>fair_inv w c q\<close> \<open>\<forall>cls. 0 < w cls\<close> \<open>0 \<le> c\<close>
      by (simp add: Deq dequeue_Cons [OF e] fair_inv_dequeue)
  qed
qed (simp add: fair_inv_enqueue)

lemma fair_inv_run:
  "fair_inv w c q \<Longrightarrow> \<forall>cls. 0 < w cls \<Longrightarrow> 0 \<le> c \<Longrightarrow> fair_inv w c (fq_run w c q xs)"
  by (induction xs arbitrary: q) (simp_all add: fair_inv_step)


subsection \<open>Fairness\<close>

text \<open>The head tag of a backlogged class advances by one step for every request of the class that is served.\<close>

lemma head_tag_step:
  assumes "fair_inv w c q" and "\<forall>cls. 0 < w cls" and "0 \<le> c"
    and "tags q cls \<noteq> []" and "tags (fq_step w c q x) cls \<noteq> []"
  shows "hd (tags (fq_step w c q x) cls) = hd (tags q cls) + of_nat (serves cls q x) * (c / w cls)"
proof (cases x)
  case (Enq cls' y)
  have so: "sorted (map entry_key (heap q))" and sq: "\<forall>e \<in> set (heap q). fst (snd e) < seq q"
    using assms(1) by (auto simp: fair_inv_def)
  have inv': "fair_inv w c (fq_step w c q x)" by (rule fair_inv_step [OF assms(1-3)])
  have "\<exists>zs. tags (fq_step w c q x) cls = tags q cls @ zs"
  proof (cases "cls' = cls")
    case False
    then show ?thesis by (simp add: Enq enqueue_def Let_def tags_def tags_push_other)
  next
    case True
    define t where "t = max (vt q) (dget (last_finish q) cls 0) + c / w cls"
    have "\<forall>e \<in> set (heap q). of_class cls e \<longrightarrow> fst e \<le> t"
    proof (intro ballI impI)
      fix e assume "e \<in> set (heap q)" "of_class cls e"
      then have et: "fst e \<in> set (tags q cls)" by (auto simp: tags_def)
      obtain h n where hn: "tags q cls = ap h (c / w cls) (Suc n)" "dget (last_finish q) cls 0 = h + of_nat n * (c / w cls)"
        using class_okD [of w c q cls] assms(1,4) unfolding fair_inv_def by metis
      have d0: "0 \<le> c / w cls" using assms(2,3) by (simp add: less_imp_le)
      have "fst e \<le> dget (last_finish q) cls 0" using et ap_le_last [of "fst e" h "c / w cls" n] d0 by (simp add: hn)
      then show "fst e \<le> t" using d0 by (simp add: t_def max_def)
    qed
    from tags_push_same [OF so sq this, of y] assms(2) True show ?thesis
      by (simp add: Enq enqueue_def Let_def tags_def t_def)
  qed
  then show ?thesis using assms(4) by (auto simp: Enq serves_def)
next
  case Deq
  obtain t s cls' y h where q: "heap q = (t, s, cls', y) # h"
    using assms(4) by (cases "heap q") (auto simp: tags_def)
  show ?thesis
  proof (cases "cls' = cls")
    case True
    have tg: "tags q cls = t # tags (fq_step w c q x) cls"
      using True by (simp add: Deq dequeue_Cons [OF q]) (simp add: tags_def q of_class_def)
    obtain a n where an: "tags q cls = ap a (c / w cls) (Suc n)"
      using class_okD [of w c q cls] assms(1,4) unfolding fair_inv_def by metis
    have "a = t" "tags (fq_step w c q x) cls = ap (a + c / w cls) (c / w cls) n"
      using an unfolding tg ap_Cons by simp_all
    moreover obtain m where "n = Suc m" using assms(5) calculation(2) by (cases n) auto
    ultimately have "hd (tags (fq_step w c q x) cls) = t + c / w cls" by (simp add: ap_Cons)
    then show ?thesis using True tg by (simp add: Deq serves_def dequeue_Cons [OF q])
  next
    case False
    then have "tags (fq_step w c q x) cls = tags q cls"
      by (simp add: Deq dequeue_Cons [OF q]) (simp add: tags_def q of_class_def)
    then show ?thesis using False by (simp add: Deq serves_def dequeue_Cons [OF q])
  qed
qed

lemma backlogged_start: "backlogged w c cls q xs \<Longrightarrow> tags q cls \<noteq> []"
  by (cases xs) auto

lemma head_tag_run:
  "fair_inv w c q \<Longrightarrow> \<forall>cls. 0 < w cls \<Longrightarrow> 0 \<le> c \<Longrightarrow> backlogged w c cls q xs \<Longrightarrow>
     hd (tags (fq_run w c q xs) cls) = hd (tags q cls) + of_nat (served w c cls q xs) * (c / w cls) \<and>
     tags (fq_run w c q xs) cls \<noteq> []"
proof (induction xs arbitrary: q)
  case (Cons x xs)
  have b: "backlogged w c cls (fq_step w c q x) xs" using Cons.prems by simp
  note IH = Cons.IH [OF fair_inv_step [OF Cons.prems(1-3)] Cons.prems(2,3) b]
  have "hd (tags (fq_step w c q x) cls) = hd (tags q cls) + of_nat (serves cls q x) * (c / w cls)"
    using Cons.prems backlogged_start [OF b] by (intro head_tag_step) auto
  then show ?case using IH by (simp add: distrib_right add.assoc del: times_divide_eq_right)
qed simp

lemma head_tag_bounds:
  assumes "fair_inv w c q" and "tags q cls \<noteq> []"
  shows "vt q \<le> hd (tags q cls) \<and> hd (tags q cls) \<le> vt q + c / w cls"
proof -
  obtain h n where "tags q cls = ap h (c / w cls) (Suc n)" "vt q \<le> h" "h \<le> vt q + c / w cls"
    using class_okD [of w c q cls] assms unfolding fair_inv_def by metis
  then show ?thesis by (simp add: ap_Cons)
qed

lemma served_bounds:
  assumes "fair_inv w c q" and "\<forall>cls. 0 < w cls" and "0 \<le> c" and "backlogged w c cls q xs"
  shows "\<bar>of_nat (served w c cls q xs) * (c / w cls) - (vt (fq_run w c q xs) - vt q)\<bar> \<le> c / w cls"
proof -
  note run = head_tag_run [OF assms]
  have 0: "vt q \<le> hd (tags q cls)" "hd (tags q cls) \<le> vt q + c / w cls"
    using head_tag_bounds [OF assms(1) backlogged_start [OF assms(4)]] by simp_all
  have 1: "vt (fq_run w c q xs) \<le> hd (tags (fq_run w c q xs) cls)"
    "hd (tags (fq_run w c q xs) cls) \<le> vt (fq_run w c q xs) + c / w cls"
    using head_tag_bounds [OF fair_inv_run [OF assms(1-3)] run [THEN conjunct2]] by simp_all
  show ?thesis unfolding abs_le_iff using 0 1 run by linarith
qed

text \<open>
  C9. Weighted fairness: over any stretch of arrivals and dispatches, reached from an empty queue
  by any history, during which two classes both always have requests waiting, the work served for
  each in proportion to its weight differs by at most one request of each class.  In particular
  no class starves and no burst of one class displaces the other beyond that bound.
\<close>

theorem weighted_fairness:
  assumes "\<forall>cls. 0 < w cls" and "0 \<le> c"
    and "q = fq_run w c WeightedFairQueue_init history"
    and "backlogged w c a q xs" and "backlogged w c b q xs"
  shows "\<bar>of_nat (served w c a q xs) * c / w a - of_nat (served w c b q xs) * c / w b\<bar> \<le> c / w a + c / w b"
proof -
  have inv: "fair_inv w c q" unfolding assms(3) by (rule fair_inv_run [OF fair_inv_init assms(1,2)])
  note A = served_bounds [OF inv assms(1,2,4)] and B = served_bounds [OF inv assms(1,2,5)]
  show ?thesis using A B unfolding abs_le_iff times_divide_eq_right by linarith
qed

definition demo_weights :: "string \<Rightarrow> pyfloat" where
  "demo_weights cls = (if cls = ''gold'' then 3 else 1)"

definition demo_history :: "nat fq_op list" where
  "demo_history = map (Enq ''gold'') [0..<4] @ map (Enq ''bronze'') [0..<2]"

theorem weighted_fairness_witness:
  "let q = fq_run demo_weights 1 WeightedFairQueue_init demo_history in
   \<bar>of_nat (served demo_weights 1 ''gold'' q [Deq, Deq, Deq]) * 1 / demo_weights ''gold'' -
    of_nat (served demo_weights 1 ''bronze'' q [Deq, Deq, Deq]) * 1 / demo_weights ''bronze''\<bar>
   \<le> 1 / demo_weights ''gold'' + 1 / demo_weights ''bronze''"
proof -
  have "backlogged demo_weights 1 ''gold'' (fq_run demo_weights 1 WeightedFairQueue_init demo_history) [Deq, Deq, Deq]"
    by code_simp
  moreover have "backlogged demo_weights 1 ''bronze'' (fq_run demo_weights 1 WeightedFairQueue_init demo_history) [Deq, Deq, Deq]"
    by code_simp
  ultimately show ?thesis
    using weighted_fairness [of demo_weights 1 "fq_run demo_weights 1 WeightedFairQueue_init demo_history" demo_history
      "''gold''" "[Deq, Deq, Deq]" "''bronze''"]
    by (simp add: Let_def demo_weights_def)
qed

end
