(* ===== verification/Fair_Sched.thy ===== *)
theory Fair_Sched
  imports Fair_Queue Config "HOL-Library.Multiset"
begin

section \<open>The dispatch scheduler\<close>

text \<open>
  \<^verbatim>\<open>gateway/fairsched.py\<close>: a bounded number of dispatch slots in front of the fair queue.  The
  coroutine \<open>acquire\<close> suspends only at \<open>await fut\<close>; the operations below are its synchronous
  spans, and the futures of the parked requests are part of the state.  A future is \<open>Finished\<close>
  once the request that waited for it has gone on or has been cancelled after the grant.
\<close>

fun weights_loop :: "string list \<Rightarrow> (string, pyfloat) dict \<Rightarrow> (string, pyfloat) dict result" where
  "weights_loop [] out = Inr out"
| "weights_loop (pair # pairs) out =
     (let p = py_strip pair in
      if p = [] \<or> CHR ''='' \<notin> set p then weights_loop pairs out
      else let (name, _, val) = py_partition (CHR ''='') p in
        case py_float val of
          Inl _ \<Rightarrow> weights_loop pairs out
        | Inr (FloatFin w) \<Rightarrow>
            weights_loop pairs (if w > 0 then AList.update (py_strip name) w out else out)
        | Inr FloatNaN \<Rightarrow> weights_loop pairs out
        | Inr (FloatInf neg) \<Rightarrow> if neg then weights_loop pairs out else Inl NotModelled)"

definition parse_weights :: "string \<Rightarrow> (string, pyfloat) dict result" where
  "parse_weights spec = weights_loop (py_split (CHR '','') spec) []"

datatype fut_state = Pending | Cancelled | Granted | Finished

record AsyncFairScheduler =
  max_concurrency :: int
  s_weights :: "(string, pyfloat) dict"
  s_default_weight :: pyfloat
  s_cost :: pyfloat
  active :: int
  wfq :: "nat WeightedFairQueue"
  futs :: "(nat, fut_state) dict"
  next_fut :: nat

definition AsyncFairScheduler_init :: "int \<Rightarrow> (string, pyfloat) dict \<Rightarrow> pyfloat \<Rightarrow> pyfloat \<Rightarrow> AsyncFairScheduler" where
  "AsyncFairScheduler_init n ws dw c =
     \<lparr>max_concurrency = max 1 n, s_weights = ws, s_default_weight = dw, s_cost = c, active = 0,
      wfq = WeightedFairQueue_init, futs = [], next_fut = 0\<rparr>"

definition queue_depth :: "AsyncFairScheduler \<Rightarrow> nat" where
  "queue_depth s = wfq_len (wfq s)"

definition weight_for :: "AsyncFairScheduler \<Rightarrow> string \<Rightarrow> pyfloat" where
  "weight_for s cls = dget (s_weights s) cls (s_default_weight s)"

text \<open>\<open>None\<close>: the slot was free; \<open>Some f\<close>: the request waits for future \<open>f\<close>.\<close>

definition acquire :: "AsyncFairScheduler \<Rightarrow> string \<Rightarrow> nat option \<times> AsyncFairScheduler" where
  "acquire s cls =
     (if active s < max_concurrency s then (None, s\<lparr>active := active s + 1\<rparr>)
      else let fut = next_fut s in
        (Some fut,
         s\<lparr>next_fut := next_fut s + 1, futs := AList.update fut Pending (futs s),
           wfq := snd (enqueue (wfq s) fut cls (weight_for s cls) (s_cost s))\<rparr>))"

text \<open>The loop of \<open>_grant_next\<close>: the next waiter that has not given up.\<close>

function grant_loop :: "(nat, fut_state) dict \<Rightarrow> nat WeightedFairQueue \<Rightarrow> nat option \<times> nat WeightedFairQueue" where
  "grant_loop fs q =
     (case dequeue q of
        Inl _ \<Rightarrow> (None, q)
      | Inr (fut, q') \<Rightarrow> if map_of fs fut = Some Cancelled then grant_loop fs q' else (Some fut, q'))"
  by pat_completeness auto
termination
proof (relation "measure (\<lambda>(fs, q). length (heap q))")
  fix fs :: "(nat, fut_state) dict" and q :: "nat WeightedFairQueue" and y fut q'
  assume "dequeue q = Inr y" "(fut, q') = y"
  then show "((fs, q'), (fs, q)) \<in> measure (\<lambda>(fs, q). length (heap q))"
    by (cases "heap q") (auto simp: dequeue_def Let_def split: if_splits)
qed simp

declare grant_loop.simps [simp del]

definition grant_next :: "AsyncFairScheduler \<Rightarrow> bool \<times> AsyncFairScheduler" where
  "grant_next s =
     (case grant_loop (futs s) (wfq s) of
        (None, q) \<Rightarrow> (False, s\<lparr>wfq := q\<rparr>)
      | (Some fut, q) \<Rightarrow> (True, s\<lparr>wfq := q, futs := AList.update fut Granted (futs s)\<rparr>))"

definition release_one :: "AsyncFairScheduler \<Rightarrow> AsyncFairScheduler" where
  "release_one s =
     (let (granted, s') = grant_next s in
      if granted then s' else s'\<lparr>active := max 0 (active s' - 1)\<rparr>)"

definition release :: "AsyncFairScheduler \<Rightarrow> AsyncFairScheduler" where
  "release s = release_one s"

text \<open>The client of a parked request disconnects: \<open>CancelledError\<close> at the await.\<close>

definition cancel_waiter :: "AsyncFairScheduler \<Rightarrow> nat \<Rightarrow> AsyncFairScheduler" where
  "cancel_waiter s fut =
     (case map_of (futs s) fut of
        Some Pending \<Rightarrow> s\<lparr>futs := AList.update fut Cancelled (futs s)\<rparr>
      | Some Granted \<Rightarrow> release_one (s\<lparr>futs := AList.update fut Finished (futs s)\<rparr>)
      | _ \<Rightarrow> s)"

text \<open>The awaiting request goes on with the slot it was granted.\<close>

definition resume_waiter :: "AsyncFairScheduler \<Rightarrow> nat \<Rightarrow> AsyncFairScheduler" where
  "resume_waiter s fut =
     (if map_of (futs s) fut = Some Granted then s\<lparr>futs := AList.update fut Finished (futs s)\<rparr> else s)"


subsection \<open>Slots\<close>

text \<open>
  Runs of the scheduler.  The second component counts the requests that are running with a slot:
  those that acquired one at once and those that went on after a grant, until they release it.
\<close>

inductive sched_run :: "AsyncFairScheduler \<Rightarrow> AsyncFairScheduler \<Rightarrow> nat \<Rightarrow> bool" for s0 where
  start: "sched_run s0 s0 0"
| enter: "sched_run s0 s n \<Longrightarrow> acquire s cls = (None, s') \<Longrightarrow> sched_run s0 s' (Suc n)"
| park: "sched_run s0 s n \<Longrightarrow> acquire s cls = (Some fut, s') \<Longrightarrow> sched_run s0 s' n"
| leave: "sched_run s0 s (Suc n) \<Longrightarrow> sched_run s0 (release s) n"
| disconnect: "sched_run s0 s n \<Longrightarrow> sched_run s0 (cancel_waiter s fut) n"
| resume: "sched_run s0 s n \<Longrightarrow> map_of (futs s) fut = Some Granted \<Longrightarrow> sched_run s0 (resume_waiter s fut) (Suc n)"

definition live :: "AsyncFairScheduler \<Rightarrow> nat entry \<Rightarrow> bool" where
  "live s e \<longleftrightarrow> map_of (futs s) (snd (snd e)) \<noteq> Some Cancelled"

definition live_waiters :: "AsyncFairScheduler \<Rightarrow> nat entry list" where
  "live_waiters s = filter (live s) (heap (wfq s))"

definition granted :: "AsyncFairScheduler \<Rightarrow> nat set" where
  "granted s = {f. map_of (futs s) f = Some Granted}"

definition queue_ok :: "AsyncFairScheduler \<Rightarrow> bool" where
  "queue_ok s \<longleftrightarrow> sorted (map entry_key (heap (wfq s))) \<and> distinct (map (snd \<circ> snd) (heap (wfq s))) \<and>
     (\<forall>e \<in> set (heap (wfq s)). map_of (futs s) (snd (snd e)) \<in> {Some Pending, Some Cancelled}) \<and>
     (\<forall>f. map_of (futs s) f \<noteq> None \<longrightarrow> f < next_fut s)"

definition sched_inv :: "AsyncFairScheduler \<Rightarrow> nat \<Rightarrow> bool" where
  "sched_inv s n \<longleftrightarrow>
     active s = int n + int (card (granted s)) \<and> active s \<le> max_concurrency s \<and>
     (live_waiters s \<noteq> [] \<longrightarrow> active s = max_concurrency s) \<and> queue_ok s"

lemma finite_granted [simp]: "finite (granted s)"
proof -
  have "granted s \<subseteq> dom (map_of (futs s))" by (auto simp: granted_def)
  then show ?thesis by (rule finite_subset) (simp add: finite_dom_map_of)
qed

lemma dequeue_entry:
  "heap q = (t, s, x) # h \<Longrightarrow> dequeue q = Inr (x, q\<lparr>heap := h, vt := max (vt q) t\<rparr>)"
  by (auto simp: dequeue_def Let_def max_def)

lemma grant_loop_spec:
  "case grant_loop fs q of
     (None, q') \<Rightarrow> heap q' = [] \<and> (\<forall>e \<in> set (heap q). map_of fs (snd (snd e)) = Some Cancelled)
   | (Some f, q') \<Rightarrow> \<exists>pre t s. heap q = pre @ (t, s, f) # heap q' \<and> map_of fs f \<noteq> Some Cancelled \<and>
       (\<forall>e \<in> set pre. map_of fs (snd (snd e)) = Some Cancelled)"
proof (induction "length (heap q)" arbitrary: q)
  case 0
  then show ?case by (subst grant_loop.simps) (simp add: dequeue_def)
next
  case (Suc n)
  then obtain t s x h where q: "heap q = (t, s, x) # h" by (cases "heap q") auto
  let ?q = "q\<lparr>heap := h, vt := max (vt q) t\<rparr>"
  show ?case
  proof (cases "map_of fs x = Some Cancelled")
    case False
    have "grant_loop fs q = (Some x, ?q)" using False by (subst grant_loop.simps) (simp add: dequeue_entry [OF q])
    then show ?thesis using False q by (auto intro!: exI [of _ "[]"])
  next
    case True
    have g: "grant_loop fs q = grant_loop fs ?q" using True by (subst grant_loop.simps) (simp add: dequeue_entry [OF q])
    have IH: "case grant_loop fs ?q of
     (None, q') \<Rightarrow> heap q' = [] \<and> (\<forall>e \<in> set (heap ?q). map_of fs (snd (snd e)) = Some Cancelled)
   | (Some f, q') \<Rightarrow> \<exists>pre t s. heap ?q = pre @ (t, s, f) # heap q' \<and> map_of fs f \<noteq> Some Cancelled \<and>
       (\<forall>e \<in> set pre. map_of fs (snd (snd e)) = Some Cancelled)"
      using Suc(2) q by (intro Suc(1)) simp
    obtain o' q' where r: "grant_loop fs ?q = (o', q')" by (cases "grant_loop fs ?q")
    show ?thesis
    proof (cases o')
      case None
      then show ?thesis using IH g r q True by simp
    next
      case (Some f)
      then obtain pre t' s' where "h = pre @ (t', s', f) # heap q'" "map_of fs f \<noteq> Some Cancelled"
        "\<forall>e \<in> set pre. map_of fs (snd (snd e)) = Some Cancelled" using IH r by auto
      then show ?thesis using g r q True Some
        by (auto intro!: exI [of _ "(t, s, x) # pre"])
    qed
  qed
qed

text \<open>What handing on a slot does: the live waiter first in fair order is granted it, if there is one.\<close>

lemma grant_next_none:
  assumes "live_waiters s = []"
  shows "\<exists>q. grant_next s = (False, s\<lparr>wfq := q\<rparr>) \<and> heap q = []"
proof -
  obtain o' q where g: "grant_loop (futs s) (wfq s) = (o', q)" by (cases "grant_loop (futs s) (wfq s)")
  show ?thesis
  proof (cases o')
    case None
    then show ?thesis using g grant_loop_spec [where fs = "futs s" and q = "wfq s"] by (auto simp: grant_next_def)
  next
    case (Some f)
    then obtain pre t n where "heap (wfq s) = pre @ (t, n, f) # heap q" "map_of (futs s) f \<noteq> Some Cancelled"
      using g grant_loop_spec [where fs = "futs s" and q = "wfq s"] by auto
    then show ?thesis using assms by (simp add: live_waiters_def live_def)
  qed
qed

lemma grant_next_some:
  assumes "live_waiters s = (t, n, f) # es" and "queue_ok s"
  shows "\<exists>q. grant_next s = (True, s\<lparr>wfq := q, futs := AList.update f Granted (futs s)\<rparr>) \<and>
    map_of (futs s) f = Some Pending \<and>
    live_waiters (s\<lparr>wfq := q, futs := AList.update f Granted (futs s)\<rparr>) = es \<and>
    queue_ok (s\<lparr>wfq := q, futs := AList.update f Granted (futs s)\<rparr>)"
proof -
  obtain o' q where g: "grant_loop (futs s) (wfq s) = (o', q)" by (cases "grant_loop (futs s) (wfq s)")
  have "o' \<noteq> None"
  proof
    assume "o' = None"
    then have "\<forall>e \<in> set (heap (wfq s)). map_of (futs s) (snd (snd e)) = Some Cancelled"
      using g grant_loop_spec [where fs = "futs s" and q = "wfq s"] by simp
    then have "live_waiters s = []" by (simp add: live_waiters_def live_def filter_empty_conv)
    then show False using assms(1) by simp
  qed
  then obtain f' where o': "o' = Some f'" by blast
  then obtain pre t' n' where h: "heap (wfq s) = pre @ (t', n', f') # heap q" "map_of (futs s) f' \<noteq> Some Cancelled"
    "\<forall>e \<in> set pre. map_of (futs s) (snd (snd e)) = Some Cancelled"
    using g grant_loop_spec [where fs = "futs s" and q = "wfq s"] by auto
  have "filter (live s) pre = []" using h(3) by (simp add: filter_empty_conv live_def)
  then have lw: "live_waiters s = (t', n', f') # filter (live s) (heap q)"
    using h(1,2) by (simp add: live_waiters_def live_def)
  then have f: "f' = f" "es = filter (live s) (heap q)" using assms(1) by auto
  have ok: "distinct (map (snd \<circ> snd) (heap (wfq s)))" "sorted (map entry_key (heap (wfq s)))"
    "\<forall>e \<in> set (heap (wfq s)). map_of (futs s) (snd (snd e)) \<in> {Some Pending, Some Cancelled}"
    "\<forall>f. map_of (futs s) f \<noteq> None \<longrightarrow> f < next_fut s"
    using assms(2) by (auto simp: queue_ok_def)
  have pend: "map_of (futs s) f = Some Pending" using ok(3) h(1,2) f(1) by auto
  have nin: "f \<noteq> snd (snd e)" if "e \<in> set (heap q)" for e using ok(1) h(1) f(1) that by (auto simp: image_iff)
  let ?s = "s\<lparr>wfq := q, futs := AList.update f Granted (futs s)\<rparr>"
  have "filter (live ?s) (heap q) = filter (live s) (heap q)"
    by (rule filter_cong) (auto simp: live_def dest: nin)
  then have "live_waiters ?s = es" by (simp add: live_waiters_def f(2))
  moreover have "sorted (map entry_key (heap q))" using ok(2) h(1) by (simp add: sorted_append)
  then have "queue_ok ?s" using ok h(1) nin pend by (auto simp: queue_ok_def)
  moreover have "grant_next s = (True, ?s)" using g o' f(1) by (simp add: grant_next_def)
  ultimately show ?thesis using pend by blast
qed

lemma granted_update:
  "granted (s\<lparr>futs := AList.update f st (futs s)\<rparr>) = (if st = Granted then insert f (granted s) else granted s - {f})"
  by (auto simp: granted_def)

lemma granted_wfq [simp]: "granted (s\<lparr>wfq := q\<rparr>) = granted s" "granted (s\<lparr>active := a\<rparr>) = granted s"
  by (simp_all add: granted_def)

lemma sched_inv_release_one:
  assumes "queue_ok s" and "live_waiters s \<noteq> [] \<longrightarrow> active s = max_concurrency s"
    and "active s = int n + 1 + int (card (granted s))" and "active s \<le> max_concurrency s"
  shows "sched_inv (release_one s) n"
proof (cases "live_waiters s")
  case Nil
  then obtain q where q: "grant_next s = (False, s\<lparr>wfq := q\<rparr>)" "heap q = []" using grant_next_none by blast
  then have "release_one s = s\<lparr>wfq := q, active := active s - 1\<rparr>"
    using assms(3) by (simp add: release_one_def max_def)
  moreover have "queue_ok (s\<lparr>wfq := q, active := active s - 1\<rparr>)" using assms(1) q(2) by (simp add: queue_ok_def)
  ultimately show ?thesis using assms q by (simp add: sched_inv_def live_waiters_def granted_def)
next
  case (Cons e es)
  obtain t k f where e: "e = (t, k, f)" by (cases e)
  let ?s = "\<lambda>q. s\<lparr>wfq := q, futs := AList.update f Granted (futs s)\<rparr>"
  obtain q where q: "grant_next s = (True, ?s q)" "map_of (futs s) f = Some Pending"
    "live_waiters (?s q) = es" "queue_ok (?s q)"
    using grant_next_some [OF _ assms(1)] Cons e by blast
  have "f \<notin> granted s" using q(2) by (simp add: granted_def)
  moreover have "granted (?s q) = insert f (granted s)" by (auto simp: granted_def)
  ultimately have "card (granted (?s q)) = Suc (card (granted s))" by simp
  moreover have "release_one s = ?s q" using q(1) by (simp add: release_one_def)
  ultimately show ?thesis using assms q Cons by (simp add: sched_inv_def)
qed

lemma sched_inv_init: "sched_inv (AsyncFairScheduler_init m ws dw c) 0"
  by (simp add: sched_inv_def AsyncFairScheduler_init_def live_waiters_def queue_ok_def granted_def
      WeightedFairQueue_init_def)

lemma sched_inv_enter:
  assumes "sched_inv s n" and "acquire s cls = (None, s')"
  shows "sched_inv s' (Suc n)"
proof -
  have a: "active s < max_concurrency s" "s' = s\<lparr>active := active s + 1\<rparr>"
    using assms(2) by (auto simp: acquire_def Let_def split: if_splits)
  then have "live_waiters s = []" using assms(1) by (auto simp: sched_inv_def)
  then have "live_waiters s' = []" by (simp add: a(2) live_waiters_def live_def [abs_def])
  then show ?thesis using assms(1) a by (simp add: sched_inv_def queue_ok_def)
qed

lemma distinct_map_insort: "distinct (map g (insort_key k x xs)) \<longleftrightarrow> distinct (map g (x # xs))"
  by (rule mset_eq_imp_distinct_iff) simp

lemma sched_inv_park:
  assumes "sched_inv s n" and "acquire s cls = (Some fut, s')"
  shows "sched_inv s' n"
proof -
  have a: "active s = max_concurrency s" "fut = next_fut s"
    "s' = s\<lparr>next_fut := next_fut s + 1, futs := AList.update fut Pending (futs s),
           wfq := snd (enqueue (wfq s) fut cls (weight_for s cls) (s_cost s))\<rparr>"
    using assms by (auto simp: acquire_def Let_def sched_inv_def split: if_splits)
  obtain t where h: "heap (wfq s') = insort_key entry_key (t, seq (wfq s), fut) (heap (wfq s))"
    by (simp add: a(3) enqueue_def Let_def heappush_def)
  have ok: "queue_ok s" using assms(1) by (simp add: sched_inv_def)
  have new: "map_of (futs s) fut = None" using ok a(2) by (auto simp: queue_ok_def)
  have nin: "snd (snd e) \<noteq> fut" if "e \<in> set (heap (wfq s))" for e
    using ok that new by (auto simp: queue_ok_def)
  have "fut \<notin> (snd \<circ> snd) ` set (heap (wfq s))" using nin by auto
  then have d: "distinct (map (snd \<circ> snd) (heap (wfq s')))"
    using ok by (simp add: h queue_ok_def distinct_map_insort)
  have f': "futs s' = AList.update fut Pending (futs s)" "next_fut s' = Suc fut" by (simp_all add: a(2,3))
  have "map_of (futs s') (snd (snd e)) \<in> {Some Pending, Some Cancelled}" if "e \<in> set (heap (wfq s'))" for e
    using that ok nin [of e] by (auto simp: h set_insort_key f' queue_ok_def)
  moreover have "f < next_fut s'" if "map_of (futs s') f \<noteq> None" for f
    using that ok by (auto simp: f' queue_ok_def a(2) less_SucI split: if_splits)
  moreover have "sorted (map entry_key (heap (wfq s')))" using ok by (simp add: h sorted_insort_key queue_ok_def)
  ultimately have "queue_ok s'" using d unfolding queue_ok_def by blast
  moreover have "granted s' = granted s" using new by (auto simp: granted_def a(3))
  ultimately show ?thesis using assms(1) a(1) by (simp add: sched_inv_def a(3))
qed

lemma sched_inv_leave: "sched_inv s (Suc n) \<Longrightarrow> sched_inv (release s) n"
  unfolding release_def by (rule sched_inv_release_one) (auto simp: sched_inv_def)

lemma sched_inv_cancel:
  assumes "sched_inv s n"
  shows "sched_inv (cancel_waiter s fut) n"
proof -
  have ok: "queue_ok s" using assms by (simp add: sched_inv_def)
  let ?s = "\<lambda>st. s\<lparr>futs := AList.update fut st (futs s)\<rparr>"
  consider "map_of (futs s) fut = Some Pending" | "map_of (futs s) fut = Some Granted"
    | "cancel_waiter s fut = s"
  proof (cases "map_of (futs s) fut")
    case (Some st)
    then show thesis using that by (cases st) (simp_all add: cancel_waiter_def)
  qed (simp add: cancel_waiter_def that)
  then show ?thesis
  proof cases
    case 1
    have "granted (?s Cancelled) = granted s" using 1 by (auto simp: granted_def)
    moreover have "live_waiters (?s Cancelled) \<noteq> [] \<Longrightarrow> live_waiters s \<noteq> []"
      by (auto simp: live_waiters_def live_def filter_empty_conv split: if_splits)
    moreover have "queue_ok (?s Cancelled)" using ok 1 by (auto simp: queue_ok_def)
    ultimately show ?thesis using assms 1 by (auto simp: cancel_waiter_def sched_inv_def)
  next
    case 2
    have nin: "snd (snd e) \<noteq> fut" if "e \<in> set (heap (wfq s))" for e using ok 2 that by (auto simp: queue_ok_def)
    have "fut \<in> granted s" using 2 by (simp add: granted_def)
    then have "0 < card (granted s)" by (auto simp: card_gt_0_iff)
    have "granted (?s Finished) = granted s - {fut}" by (auto simp: granted_def)
    then have card: "card (granted (?s Finished)) = card (granted s) - 1" using \<open>fut \<in> granted s\<close> by simp
    have "live_waiters (?s Finished) = live_waiters s"
      unfolding live_waiters_def by (auto simp: live_def dest: nin intro!: filter_cong)
    moreover have "queue_ok (?s Finished)" using ok nin 2 by (auto simp: queue_ok_def)
    ultimately have "sched_inv (release_one (?s Finished)) n"
      using assms card \<open>0 < card (granted s)\<close> by (intro sched_inv_release_one) (auto simp: sched_inv_def)
    then show ?thesis using 2 by (simp add: cancel_waiter_def)
  next
    case 3
    then show ?thesis using assms by simp
  qed
qed

lemma sched_inv_resume:
  assumes "sched_inv s n" and "map_of (futs s) fut = Some Granted"
  shows "sched_inv (resume_waiter s fut) (Suc n)"
proof -
  let ?s = "s\<lparr>futs := AList.update fut Finished (futs s)\<rparr>"
  have ok: "queue_ok s" using assms by (simp add: sched_inv_def)
  have nin: "snd (snd e) \<noteq> fut" if "e \<in> set (heap (wfq s))" for e using ok assms(2) that by (auto simp: queue_ok_def)
  have g: "fut \<in> granted s" using assms(2) by (simp add: granted_def)
  have "granted ?s = granted s - {fut}" by (auto simp: granted_def)
  then have "Suc (card (granted ?s)) = card (granted s)" using g by (simp only: card_Suc_Diff1 finite_granted)
  moreover have "live_waiters ?s = live_waiters s"
    unfolding live_waiters_def by (auto simp: live_def dest: nin intro!: filter_cong)
  moreover have "queue_ok ?s" using ok nin assms(2) by (auto simp: queue_ok_def)
  ultimately show ?thesis using assms by (auto simp: resume_waiter_def sched_inv_def)
qed

lemma sched_inv_run:
  "sched_run (AsyncFairScheduler_init m ws dw c) s n \<Longrightarrow> sched_inv s n"
  by (induction rule: sched_run.induct)
     (blast intro: sched_inv_init sched_inv_enter sched_inv_park sched_inv_leave sched_inv_cancel sched_inv_resume)+

text \<open>
  C10. The concurrency limit holds and no slot leaks: after any sequence of arrivals, releases,
  disconnects of waiting or just-granted requests and resumptions, the counter equals the running
  requests plus the granted ones, never exceeds the limit, and requests wait only while every slot
  is taken.
\<close>

theorem scheduler_slots:
  assumes "sched_run (AsyncFairScheduler_init m ws dw c) s n"
  shows "active s = int n + int (card (granted s)) \<and> active s \<le> max_concurrency s \<and>
    (live_waiters s \<noteq> [] \<longrightarrow> active s = max_concurrency s)"
  using sched_inv_run [OF assms] unfolding sched_inv_def by blast

text \<open>One slot: a gold request takes it, a bronze one waits.\<close>

definition demo_sched :: AsyncFairScheduler where
  "demo_sched = AsyncFairScheduler_init 1 [(''gold'', 3)] 1 1"

definition demo_full :: AsyncFairScheduler where
  "demo_full = snd (acquire (snd (acquire demo_sched ''gold'')) ''bronze'')"

lemma demo_full_run: "sched_run (AsyncFairScheduler_init 1 [(''gold'', 3)] 1 1) demo_full 1"
proof -
  let ?s1 = "snd (acquire demo_sched ''gold'')"
  have "fst (acquire demo_sched ''gold'') = None" "fst (acquire ?s1 ''bronze'') = Some 0" by code_simp+
  then have "acquire demo_sched ''gold'' = (None, ?s1)" "acquire ?s1 ''bronze'' = (Some 0, demo_full)"
    by (simp_all add: prod_eq_iff demo_full_def)
  moreover have "sched_run demo_sched demo_sched 0" by (rule sched_run.start)
  ultimately have "sched_run demo_sched demo_full (Suc 0)" by (blast intro: sched_run.enter sched_run.park)
  then show ?thesis by (simp add: demo_sched_def)
qed

theorem scheduler_slots_witness:
  "active demo_full = 1 + int (card (granted demo_full)) \<and> active demo_full \<le> max_concurrency demo_full"
  using scheduler_slots [OF demo_full_run] by simp

text \<open>
  No wake-up is lost: whenever a running request releases its slot and some request is still
  waiting, the release hands the slot to the waiting request that is first in weighted-fair order
  (smallest finish time, then arrival order), skipping the ones that gave up, and the number of
  slots in use does not change; with nobody waiting it frees the slot.
\<close>

theorem release_hands_over:
  assumes "sched_run (AsyncFairScheduler_init m ws dw c) s (Suc n)"
  shows "case live_waiters s of
      [] \<Rightarrow> active (release s) = active s - 1
    | (t, k, f) # es \<Rightarrow>
        map_of (futs (release s)) f = Some Granted \<and> active (release s) = active s \<and>
        live_waiters (release s) = es \<and> (\<forall>e \<in> set es. (t, k) \<le> entry_key e)"
proof (cases "live_waiters s")
  case Nil
  have "0 < active s" using sched_inv_run [OF assms] by (simp add: sched_inv_def)
  then show ?thesis using grant_next_none [OF Nil] Nil by (auto simp: release_def release_one_def)
next
  case (Cons e es)
  obtain t k f where e: "e = (t, k, f)" by (cases e)
  have ok: "queue_ok s" using sched_inv_run [OF assms] by (simp add: sched_inv_def)
  from grant_next_some [OF _ ok] Cons e obtain q where
    q: "grant_next s = (True, s\<lparr>wfq := q, futs := AList.update f Granted (futs s)\<rparr>)"
      "live_waiters (s\<lparr>wfq := q, futs := AList.update f Granted (futs s)\<rparr>) = es" by blast
  have "sorted (map entry_key (live_waiters s))"
    using ok by (simp add: queue_ok_def live_waiters_def sorted_filter)
  then have "\<forall>e \<in> set es. (t, k) \<le> entry_key e" by (simp add: Cons e entry_key_def)
  then show ?thesis using q Cons e by (simp add: release_def release_one_def)
qed

theorem release_hands_over_witness:
  "map_of (futs (release demo_full)) 0 = Some Granted \<and> active (release demo_full) = active demo_full"
proof -
  have "live_waiters demo_full = [(1, 0, 0)]" by code_simp
  with release_hands_over [of 1 "[(''gold'', 3)]" 1 1 demo_full 0] demo_full_run show ?thesis by simp
qed

end
