(* ===== verification/Tenancy.thy ===== *)
theory Tenancy
  imports Hashing
begin

section \<open>Tenants and rate limits\<close>

text \<open>
  \<^verbatim>\<open>gateway/tenancy.py\<close>: token buckets, the tenant registry and the per-tenant rate limiter.
  Times are the values of the monotonic clock at each call.
\<close>

record Tier =
  tier_rps :: pyfloat
  tier_tps :: pyfloat
  tier_max_inflight :: int

record Tenant =
  tenant_id :: string
  rps :: pyfloat
  tps :: pyfloat
  tn_max_inflight :: int
  tier :: string

definition DEFAULT_TIERS :: "(string, Tier) dict" where
  "DEFAULT_TIERS =
     [(''gold'', \<lparr>tier_rps = 50, tier_tps = 100000, tier_max_inflight = 64\<rparr>),
      (''silver'', \<lparr>tier_rps = 20, tier_tps = 40000, tier_max_inflight = 24\<rparr>),
      (''bronze'', \<lparr>tier_rps = 5, tier_tps = 10000, tier_max_inflight = 8\<rparr>),
      (''anonymous'', \<lparr>tier_rps = 2, tier_tps = 4000, tier_max_inflight = 4\<rparr>)]"

definition from_tier :: "string \<Rightarrow> Tier \<Rightarrow> string \<Rightarrow> Tenant" where
  "from_tier tid t name =
     \<lparr>tenant_id = tid, rps = tier_rps t, tps = tier_tps t, tn_max_inflight = tier_max_inflight t, tier = name\<rparr>"


subsection \<open>Token buckets\<close>

record TokenBucket =
  capacity :: pyfloat
  refill :: pyfloat
  tokens :: pyfloat
  ts :: pyfloat

definition TokenBucket_init :: "pyfloat \<Rightarrow> pyfloat \<Rightarrow> TokenBucket" where
  "TokenBucket_init cap refill_per_sec = \<lparr>capacity = cap, refill = refill_per_sec, tokens = cap, ts = 0\<rparr>"

definition replenish :: "TokenBucket \<Rightarrow> pyfloat \<Rightarrow> TokenBucket" where
  "replenish b now =
     (if now > ts b then b\<lparr>tokens := min (capacity b) (tokens b + (now - ts b) * refill b), ts := now\<rparr> else b)"

definition try_consume :: "TokenBucket \<Rightarrow> pyfloat \<Rightarrow> pyfloat \<Rightarrow> bool \<times> TokenBucket" where
  "try_consume b n now =
     (let b' = replenish b now in
      if tokens b' \<ge> n then (True, b'\<lparr>tokens := tokens b' - n\<rparr>) else (False, b'))"

definition deficit_seconds :: "TokenBucket \<Rightarrow> pyfloat \<Rightarrow> pyfloat \<Rightarrow> xfloat \<times> TokenBucket" where
  "deficit_seconds b n now =
     (let b' = replenish b now in
      (if tokens b' \<ge> n then Fin 0 else if refill b' \<le> 0 then PInf else Fin ((n - tokens b') / refill b'), b'))"

definition adjust :: "TokenBucket \<Rightarrow> pyfloat \<Rightarrow> TokenBucket" where
  "adjust b delta = b\<lparr>tokens := min (capacity b) (tokens b + delta)\<rparr>"


subsection \<open>The tenant registry\<close>

record TenantRegistry =
  tiers :: "(string, Tier) dict"
  by_key :: "(string, Tenant) dict"
  anon :: Tenant

fun tenants_loop :: "(string, Tier) dict \<Rightarrow> string list \<Rightarrow> (string, Tenant) dict \<Rightarrow> (string, Tenant) dict result" where
  "tenants_loop trs [] d = Inr d"
| "tenants_loop trs (pair # pairs) d =
     (let p = py_strip pair in
      if p = [] then tenants_loop trs pairs d
      else let (key, _, rest) = py_partition (CHR ''='') p;
               (tid, _, tier_name) = py_partition (CHR '':'') rest;
               name0 = (if py_strip tier_name = [] then ''bronze'' else py_strip tier_name);
               name = (if map_of trs name0 = None then ''bronze'' else name0)
           in case map_of trs name of
                None \<Rightarrow> Inl KeyError
              | Some t \<Rightarrow>
                  let k = py_strip key in
                  tenants_loop trs pairs
                    (AList.update k (from_tier (if py_strip tid = [] then k else py_strip tid) t name) d))"

definition TenantRegistry_init :: "string \<Rightarrow> (string, Tier) dict \<Rightarrow> TenantRegistry result" where
  "TenantRegistry_init spec ts0 =
     (let trs = (if ts0 = [] then DEFAULT_TIERS else ts0) in
      res_bind (tenants_loop trs (py_split (CHR '','') spec) []) (\<lambda>d.
        case map_of trs ''anonymous'' of
          None \<Rightarrow> Inl KeyError
        | Some t \<Rightarrow> Inr \<lparr>tiers = trs, by_key = d, anon = from_tier ''anonymous'' t ''anonymous''\<rparr>))"

text \<open>\<open>headers.get\<close> is the parameter \<open>hdr\<close>: the value of a header, if it is present.\<close>

type_synonym headers = "string \<Rightarrow> string option"

definition hdr_or :: "headers \<Rightarrow> string \<Rightarrow> string \<Rightarrow> string" where
  "hdr_or hdr a b =
     (case hdr a of Some (c # cs) \<Rightarrow> c # cs
      | _ \<Rightarrow> (case hdr b of Some v \<Rightarrow> v | None \<Rightarrow> []))"

definition resolve :: "TenantRegistry \<Rightarrow> headers \<Rightarrow> Tenant" where
  "resolve r hdr =
     (let auth = hdr_or hdr ''authorization'' ''Authorization'' in
      if py_lower (take 7 auth) = ''bearer '' then
        (case map_of (by_key r) (py_strip (drop 7 auth)) of Some t \<Rightarrow> t | None \<Rightarrow> anon r)
      else anon r)"

definition tenant_keys :: "TenantRegistry \<Rightarrow> string set" where
  "tenant_keys r = set (dkeys (by_key r))"

definition tenant_seed :: "string \<Rightarrow> block_hash" where
  "tenant_seed tid = stable_seed tid"


subsection \<open>The rate limiter\<close>

record RateLimiter =
  rl_rps :: "(string, TokenBucket) dict"
  rl_tps :: "(string, TokenBucket) dict"
  rl_inflight :: "(string, int) dict"

definition RateLimiter_init :: RateLimiter where
  "RateLimiter_init = \<lparr>rl_rps = [], rl_tps = [], rl_inflight = []\<rparr>"

record Admission =
  allowed :: bool
  adm_reason :: "string option"
  retry_after :: xfloat
  remaining_rps :: pyfloat
  remaining_tps :: pyfloat

text \<open>The two buckets of a tenant are created together, on its first request.\<close>

definition buckets :: "RateLimiter \<Rightarrow> Tenant \<Rightarrow> (TokenBucket \<times> TokenBucket) \<times> RateLimiter" where
  "buckets l t =
     (let l' = (if map_of (rl_rps l) (tenant_id t) = None
                then l\<lparr>rl_rps := AList.update (tenant_id t) (TokenBucket_init (max 1 (rps t)) (rps t)) (rl_rps l),
                       rl_tps := AList.update (tenant_id t) (TokenBucket_init (tps t) (tps t)) (rl_tps l)\<rparr>
                else l)
      in ((the (map_of (rl_rps l') (tenant_id t)), the (map_of (rl_tps l') (tenant_id t))), l'))"

definition put_buckets :: "RateLimiter \<Rightarrow> Tenant \<Rightarrow> TokenBucket \<Rightarrow> TokenBucket \<Rightarrow> RateLimiter" where
  "put_buckets l t r p =
     l\<lparr>rl_rps := AList.update (tenant_id t) r (rl_rps l), rl_tps := AList.update (tenant_id t) p (rl_tps l)\<rparr>"

definition deny :: "string \<Rightarrow> xfloat \<Rightarrow> TokenBucket \<Rightarrow> TokenBucket \<Rightarrow> Admission" where
  "deny why ra r p = \<lparr>allowed = False, adm_reason = Some why, retry_after = ra,
     remaining_rps = tokens r, remaining_tps = tokens p\<rparr>"

definition admit :: "RateLimiter \<Rightarrow> Tenant \<Rightarrow> pyfloat \<Rightarrow> pyfloat \<Rightarrow> Admission \<times> RateLimiter" where
  "admit l t cost_tokens now =
     (let ((rps_b, tps_b), l0) = buckets l t in
      if dget (rl_inflight l0) (tenant_id t) 0 \<ge> tn_max_inflight t
      then (deny ''inflight'' (Fin 1) rps_b tps_b, l0)
      else
        let (ok, tps1) = try_consume tps_b cost_tokens now in
        if \<not> ok then
          let (ra, tps2) = deficit_seconds tps1 cost_tokens now
          in (deny ''tps'' ra rps_b tps2, put_buckets l0 t rps_b tps2)
        else
          let (ok', rps1) = try_consume rps_b 1 now in
          if \<not> ok' then
            let tps2 = adjust tps1 cost_tokens; (ra, rps2) = deficit_seconds rps1 1 now
            in (deny ''rps'' ra rps2 tps2, put_buckets l0 t rps2 tps2)
          else
            (\<lparr>allowed = True, adm_reason = None, retry_after = Fin 0,
              remaining_rps = tokens rps1, remaining_tps = tokens tps1\<rparr>,
             (put_buckets l0 t rps1 tps1)\<lparr>rl_inflight :=
                AList.update (tenant_id t) (dget (rl_inflight l0) (tenant_id t) 0 + 1) (rl_inflight l0)\<rparr>))"

definition rl_release :: "RateLimiter \<Rightarrow> Tenant \<Rightarrow> pyfloat \<Rightarrow> pyfloat \<Rightarrow> RateLimiter" where
  "rl_release l t reserved_output actual_output =
     (let l1 = l\<lparr>rl_inflight := AList.update (tenant_id t)
                  (max 0 (dget (rl_inflight l) (tenant_id t) 0 - 1)) (rl_inflight l)\<rparr>;
          ((rps_b, tps_b), l2) = buckets l1 t
      in put_buckets l2 t rps_b (adjust tps_b (reserved_output - actual_output)))"


subsection \<open>What a bucket lets through\<close>

definition bucket_ok :: "TokenBucket \<Rightarrow> bool" where
  "bucket_ok b \<longleftrightarrow> 0 \<le> refill b \<and> 0 \<le> tokens b \<and> tokens b \<le> capacity b"

lemma bucket_ok_init: "0 \<le> cap \<Longrightarrow> 0 \<le> r \<Longrightarrow> bucket_ok (TokenBucket_init cap r)"
  by (simp add: bucket_ok_def TokenBucket_init_def)

lemma replenish_fields [simp]: "capacity (replenish b now) = capacity b" "refill (replenish b now) = refill b"
  "ts (replenish b now) = max (ts b) now"
  by (simp_all add: replenish_def)

lemma replenish_ok: "bucket_ok b \<Longrightarrow> bucket_ok (replenish b now)"
  by (auto simp: bucket_ok_def replenish_def)

lemma replenish_gain: "bucket_ok b \<Longrightarrow> tokens (replenish b now) \<le> tokens b + refill b * (max (ts b) now - ts b)"
  by (auto simp: bucket_ok_def replenish_def max_def mult.commute min_le_iff_disj)

lemma replenish_same: "now \<le> ts b \<Longrightarrow> replenish b now = b"
  by (simp add: replenish_def)

lemma replenish_twice:
  assumes "bucket_ok b" and "t0 \<le> now"
  shows "replenish (replenish b t0) now = replenish b now"
proof (cases "ts b < t0 \<and> t0 < now")
  case False
  then show ?thesis using assms(2) by (auto simp: replenish_def)
next
  case True
  have "0 \<le> (now - t0) * refill b" using True assms(1) by (simp add: bucket_ok_def)
  then have "min (capacity b) (min (capacity b) (tokens b + (t0 - ts b) * refill b) + (now - t0) * refill b) =
      min (capacity b) (tokens b + (now - ts b) * refill b)"
    by (auto simp: min_def algebra_simps)
  then show ?thesis using True by (simp add: replenish_def)
qed

lemma try_consume_ok: "bucket_ok b \<Longrightarrow> 0 \<le> n \<Longrightarrow> bucket_ok (snd (try_consume b n now))"
  using replenish_ok [of b now] by (auto simp: try_consume_def Let_def bucket_ok_def)

lemma try_consume_fields: "ts (snd (try_consume b n now)) = max (ts b) now"
  "refill (snd (try_consume b n now)) = refill b" "capacity (snd (try_consume b n now)) = capacity b"
  by (auto simp: try_consume_def Let_def)

text \<open>
  The tokens left, discounted by what has been refilled up to the last use and looked at from
  time \<open>t0\<close> on: every success lowers it by what it takes.
\<close>

definition credit :: "pyfloat \<Rightarrow> TokenBucket \<Rightarrow> pyfloat" where
  "credit t0 b = tokens (replenish b t0) - refill b * max (ts b) t0"

lemma credit_consume:
  assumes "bucket_ok b" and "t0 \<le> now"
  shows "(if fst (try_consume b n now) then n else 0) + credit t0 (snd (try_consume b n now)) \<le> credit t0 b"
proof -
  let ?c = "replenish b t0"
  have "replenish b now = replenish ?c now" using replenish_twice [OF assms] by simp
  then have tc: "try_consume b n now = try_consume ?c n now" by (simp add: try_consume_def)
  have "tokens (replenish ?c now) \<le> tokens ?c + refill b * (max (ts ?c) now - ts ?c)"
    using replenish_gain [OF replenish_ok [OF assms(1)], of t0 now] by simp
  moreover have "max (ts ?c) now = max (ts b) now" "ts ?c = max (ts b) t0" using assms(2) by auto
  ultimately have g: "tokens (replenish ?c now) - refill b * max (ts b) now \<le> credit t0 b"
    by (simp add: credit_def algebra_simps)
  let ?d = "snd (try_consume b n now)"
  have "t0 \<le> ts ?d" using assms(2) by (simp add: try_consume_fields)
  then have "credit t0 ?d = tokens ?d - refill b * max (ts b) now"
    by (simp add: credit_def replenish_same try_consume_fields max_absorb1)
  moreover have "(if fst (try_consume b n now) then n else 0) + tokens ?d = tokens (replenish ?c now)"
    unfolding tc by (simp add: try_consume_def Let_def)
  ultimately show ?thesis using g by linarith
qed

lemma credit_bounds:
  assumes "bucket_ok b"
  shows "credit t0 b \<le> capacity b - refill b * t0" and "ts b \<le> T \<Longrightarrow> t0 \<le> T \<Longrightarrow> - (refill b * T) \<le> credit t0 b"
proof -
  have ok: "0 \<le> tokens (replenish b t0)" "tokens (replenish b t0) \<le> capacity b"
    using replenish_ok [OF assms, of t0] by (auto simp: bucket_ok_def)
  have r: "0 \<le> refill b" using assms by (simp add: bucket_ok_def)
  have "refill b * t0 \<le> refill b * max (ts b) t0" using r by (intro mult_left_mono) auto
  then show "credit t0 b \<le> capacity b - refill b * t0" using ok(2) unfolding credit_def by linarith
  assume "ts b \<le> T" "t0 \<le> T"
  then have "refill b * max (ts b) t0 \<le> refill b * T" using r by (intro mult_left_mono) auto
  then show "- (refill b * T) \<le> credit t0 b" using ok(1) unfolding credit_def by linarith
qed

text \<open>A run of requests \<open>(amount, time)\<close> against one bucket, and the total amount granted.\<close>

fun bucket_run :: "TokenBucket \<Rightarrow> (pyfloat \<times> pyfloat) list \<Rightarrow> pyfloat \<times> TokenBucket" where
  "bucket_run b [] = (0, b)"
| "bucket_run b ((n, now) # reqs) =
     (let (ok, b') = try_consume b n now; (g, b'') = bucket_run b' reqs in ((if ok then n else 0) + g, b''))"

lemma bucket_run_credit:
  "bucket_ok b \<Longrightarrow> \<forall>(n, now) \<in> set reqs. 0 \<le> n \<and> t0 \<le> now \<and> now \<le> T \<Longrightarrow> ts b \<le> T \<Longrightarrow>
     fst (bucket_run b reqs) + credit t0 (snd (bucket_run b reqs)) \<le> credit t0 b \<and>
     bucket_ok (snd (bucket_run b reqs)) \<and> ts (snd (bucket_run b reqs)) \<le> T \<and>
     refill (snd (bucket_run b reqs)) = refill b"
proof (induction reqs arbitrary: b)
  case (Cons r reqs)
  obtain n now where r: "r = (n, now)" by (cases r)
  have p: "0 \<le> n" "t0 \<le> now" "now \<le> T" using Cons.prems(2) by (auto simp: r)
  obtain ok b' where tc: "try_consume b n now = (ok, b')" by (cases "try_consume b n now")
  have b': "bucket_ok b'" "ts b' \<le> T" "refill b' = refill b"
    using try_consume_ok [OF Cons.prems(1) p(1), of now] try_consume_fields(1,2) [of b n now] tc Cons.prems(3) p(3) by auto
  note IH = Cons.IH [OF b'(1) _ b'(2)]
  have "(if ok then n else 0) + credit t0 b' \<le> credit t0 b"
    using credit_consume [OF Cons.prems(1) p(2), of n] tc by simp
  then show ?case using IH Cons.prems(2) b'(3) by (cases "bucket_run b' reqs") (auto simp: r tc)
qed simp

text \<open>
  A token bucket enforces its rate: from any state of the bucket, the amount granted to
  requests that arrive between \<open>t0\<close> and \<open>T\<close>, in whatever amounts, is at most the capacity plus the
  refill over that time.
\<close>

theorem token_bucket_rate:
  assumes "bucket_ok b" and "ts b \<le> T" and "t0 \<le> T"
    and "\<forall>(n, now) \<in> set reqs. 0 \<le> n \<and> t0 \<le> now \<and> now \<le> T"
  shows "fst (bucket_run b reqs) \<le> capacity b + refill b * (T - t0)"
proof -
  note run = bucket_run_credit [OF assms(1,4,2)]
  let ?b = "snd (bucket_run b reqs)"
  have "- (refill b * T) \<le> credit t0 ?b" using credit_bounds(2) [of ?b T t0] run assms(3) by simp
  moreover have "credit t0 b \<le> capacity b - refill b * t0" by (rule credit_bounds(1) [OF assms(1)])
  ultimately show ?thesis using run by (simp add: algebra_simps)
qed

theorem token_bucket_rate_witness:
  "fst (bucket_run (TokenBucket_init 5 5) [(1, 0), (3, 1), (4, 2)]) \<le> 5 + 5 * (2 - 0)"
  using token_bucket_rate [of "TokenBucket_init 5 5" 2 0 "[(1, 0), (3, 1), (4, 2)]"]
  by (simp add: bucket_ok_def TokenBucket_init_def)


subsection \<open>What the limiter lets through\<close>

datatype rl_op = Admit Tenant pyfloat pyfloat | Release Tenant pyfloat pyfloat

fun rl_step :: "RateLimiter \<Rightarrow> rl_op \<Rightarrow> RateLimiter" where
  "rl_step l (Admit t cost now) = snd (admit l t cost now)"
| "rl_step l (Release t res act) = rl_release l t res act"

fun rl_admitted :: "Tenant \<Rightarrow> RateLimiter \<Rightarrow> rl_op \<Rightarrow> nat" where
  "rl_admitted t l (Admit t' cost now) = (if t' = t \<and> allowed (fst (admit l t' cost now)) then 1 else 0)"
| "rl_admitted t l (Release t' res act) = 0"

fun rl_count :: "Tenant \<Rightarrow> RateLimiter \<Rightarrow> rl_op list \<Rightarrow> nat" where
  "rl_count t l [] = 0"
| "rl_count t l (x # xs) = rl_admitted t l x + rl_count t (rl_step l x) xs"

fun op_tenant :: "rl_op \<Rightarrow> Tenant" where
  "op_tenant (Admit t cost now) = t"
| "op_tenant (Release t res act) = t"

text \<open>The request bucket of a tenant, which a tenant not seen yet will get.\<close>

definition rps_of :: "RateLimiter \<Rightarrow> Tenant \<Rightarrow> TokenBucket" where
  "rps_of l t =
     (case map_of (rl_rps l) (tenant_id t) of None \<Rightarrow> TokenBucket_init (max 1 (rps t)) (rps t) | Some b \<Rightarrow> b)"

lemma buckets_rps:
  "fst (fst (buckets l t)) = rps_of l t" "rps_of (snd (buckets l t)) t = rps_of l t"
  by (auto simp: buckets_def rps_of_def Let_def)

lemma buckets_rps_other: "tenant_id t' \<noteq> tenant_id t \<Longrightarrow> rps_of (snd (buckets l t')) t = rps_of l t"
  by (simp add: buckets_def rps_of_def Let_def)

lemma rps_of_put [simp]:
  "rps_of (put_buckets l t' r p) t = (if tenant_id t' = tenant_id t then r else rps_of l t)"
  "rps_of (l\<lparr>rl_inflight := d\<rparr>) t = rps_of l t"
  by (simp_all add: rps_of_def put_buckets_def)

lemma rps_of_release: "tenant_id t' = tenant_id t \<longrightarrow> t' = t \<Longrightarrow> rps_of (rl_release l t' res act) t = rps_of l t"
proof -
  assume t': "tenant_id t' = tenant_id t \<longrightarrow> t' = t"
  define l1 where "l1 = l\<lparr>rl_inflight := AList.update (tenant_id t') (max 0 (dget (rl_inflight l) (tenant_id t') 0 - 1)) (rl_inflight l)\<rparr>"
  obtain r p l2 where b: "buckets l1 t' = ((r, p), l2)" by (cases "buckets l1 t'") auto
  have "rps_of l1 x = rps_of l x" for x by (simp add: l1_def)
  moreover have "r = rps_of l1 t'" using buckets_rps(1) [of l1 t'] b by simp
  moreover have "tenant_id t' \<noteq> tenant_id t \<Longrightarrow> rps_of l2 t = rps_of l1 t" using buckets_rps_other [of t' t l1] b by simp
  moreover have "rl_release l t' res act = put_buckets l2 t' r (adjust p (res - act))"
    using b by (simp add: rl_release_def l1_def Let_def)
  ultimately show ?thesis using t' by auto
qed

lemma deficit_after_consume: "snd (deficit_seconds (snd (try_consume b n now)) m now) = snd (try_consume b n now)"
  by (simp add: deficit_seconds_def Let_def replenish_same try_consume_fields)

lemma admit_rps:
  "rps_of (snd (admit l t cost now)) t = rps_of l t \<and> \<not> allowed (fst (admit l t cost now)) \<or>
   rps_of (snd (admit l t cost now)) t = snd (try_consume (rps_of l t) 1 now) \<and>
     (allowed (fst (admit l t cost now)) \<longleftrightarrow> fst (try_consume (rps_of l t) 1 now))"
proof -
  obtain r p l0 where b: "buckets l t = ((r, p), l0)" by (cases "buckets l t") auto
  have r: "r = rps_of l t" "rps_of l0 t = rps_of l t" using buckets_rps [of l t] b by simp_all
  obtain ok p1 where c: "try_consume p cost now = (ok, p1)" by (cases "try_consume p cost now")
  obtain ok' r1 where c': "try_consume r 1 now = (ok', r1)" by (cases "try_consume r 1 now")
  obtain ra p2 where d: "deficit_seconds p1 cost now = (ra, p2)" by (cases "deficit_seconds p1 cost now")
  obtain ra' where d': "deficit_seconds r1 1 now = (ra', r1)"
    using deficit_after_consume [of r 1 now 1] c' by (cases "deficit_seconds r1 1 now") auto
  show ?thesis using r c'
    by (cases "dget (rl_inflight l0) (tenant_id t) 0 \<ge> tn_max_inflight t"; cases ok; cases ok')
       (simp_all add: admit_def b c c' d d' deny_def Let_def)
qed

lemma admit_rps_other:
  assumes "tenant_id t' \<noteq> tenant_id t"
  shows "rps_of (snd (admit l t' cost now)) t = rps_of l t"
proof -
  obtain r p l0 where b: "buckets l t' = ((r, p), l0)" by (cases "buckets l t'") auto
  have "rps_of l0 t = rps_of l t" using buckets_rps_other [OF assms] b by (metis snd_conv)
  then show ?thesis using assms b by (auto simp: admit_def Let_def split: prod.splits)
qed

lemma rl_step_credit:
  assumes ok: "bucket_ok (rps_of l t)" and T: "ts (rps_of l t) \<le> T"
    and x: "tenant_id (op_tenant x) = tenant_id t \<longrightarrow> op_tenant x = t"
    and now: "\<forall>cost now. x = Admit t cost now \<longrightarrow> t0 \<le> now \<and> now \<le> T"
  shows "of_nat (rl_admitted t l x) + credit t0 (rps_of (rl_step l x) t) \<le> credit t0 (rps_of l t) \<and>
    bucket_ok (rps_of (rl_step l x) t) \<and> ts (rps_of (rl_step l x) t) \<le> T \<and>
    refill (rps_of (rl_step l x) t) = refill (rps_of l t) \<and> capacity (rps_of (rl_step l x) t) = capacity (rps_of l t)"
proof (cases x)
  case (Release t' res act)
  then show ?thesis using ok T x rps_of_release [of t' t l res act] by simp
next
  case (Admit t' cost time)
  show ?thesis
  proof (cases "t' = t")
    case True
    then have tm: "t0 \<le> time" "time \<le> T" using now Admit by auto
    let ?b = "rps_of l t"
    have c: "(if fst (try_consume ?b 1 time) then 1 else 0) + credit t0 (snd (try_consume ?b 1 time)) \<le> credit t0 ?b"
      by (rule credit_consume [OF ok tm(1)])
    have b': "bucket_ok (snd (try_consume ?b 1 time))" "ts (snd (try_consume ?b 1 time)) \<le> T"
      "refill (snd (try_consume ?b 1 time)) = refill ?b" "capacity (snd (try_consume ?b 1 time)) = capacity ?b"
      using try_consume_ok [OF ok] T tm by (simp_all add: try_consume_fields)
    show ?thesis using admit_rps [of l t cost time] c b' ok T Admit True by (auto split: if_splits)
  next
    case False
    then show ?thesis using x ok T Admit admit_rps_other [of t' t l cost time] by auto
  qed
qed

lemma rl_run_credit:
  "bucket_ok (rps_of l t) \<Longrightarrow> ts (rps_of l t) \<le> T \<Longrightarrow>
   \<forall>x \<in> set xs. (tenant_id (op_tenant x) = tenant_id t \<longrightarrow> op_tenant x = t) \<and>
     (\<forall>cost now. x = Admit t cost now \<longrightarrow> t0 \<le> now \<and> now \<le> T) \<Longrightarrow>
   of_nat (rl_count t l xs) + credit t0 (rps_of (foldl rl_step l xs) t) \<le> credit t0 (rps_of l t) \<and>
   bucket_ok (rps_of (foldl rl_step l xs) t) \<and> ts (rps_of (foldl rl_step l xs) t) \<le> T \<and>
   refill (rps_of (foldl rl_step l xs) t) = refill (rps_of l t) \<and>
   capacity (rps_of (foldl rl_step l xs) t) = capacity (rps_of l t)"
proof (induction xs arbitrary: l)
  case (Cons x xs)
  have st: "of_nat (rl_admitted t l x) + credit t0 (rps_of (rl_step l x) t) \<le> credit t0 (rps_of l t)"
    "bucket_ok (rps_of (rl_step l x) t)" "ts (rps_of (rl_step l x) t) \<le> T"
    "refill (rps_of (rl_step l x) t) = refill (rps_of l t)" "capacity (rps_of (rl_step l x) t) = capacity (rps_of l t)"
    using rl_step_credit [OF Cons.prems(1,2), of x t0] Cons.prems(3) by auto
  from Cons.IH [OF st(2,3)] Cons.prems(3) st(1,4,5) show ?case by (auto simp: add.assoc)
qed simp

text \<open>
  C7. The request limit of a tenant holds across everything the limiter does: after any history
  of admissions and releases of all tenants up to time \<open>T\<close>, however many requests of the tenant
  arrive between \<open>t0\<close> and \<open>T\<close> and whatever they cost, at most its burst plus its rate times the
  length of the window are admitted.
\<close>

theorem admitted_rate:
  assumes "0 \<le> rps t" and "0 \<le> t0" and "t0 \<le> T"
    and "\<forall>x \<in> set (history @ xs). tenant_id (op_tenant x) = tenant_id t \<longrightarrow> op_tenant x = t"
    and "\<forall>cost now. Admit t cost now \<in> set history \<longrightarrow> 0 \<le> now \<and> now \<le> T"
    and "\<forall>cost now. Admit t cost now \<in> set xs \<longrightarrow> t0 \<le> now \<and> now \<le> T"
  shows "of_nat (rl_count t (foldl rl_step RateLimiter_init history) xs) \<le> max 1 (rps t) + rps t * (T - t0)"
proof -
  let ?l = "foldl rl_step RateLimiter_init history"
  have b0: "rps_of RateLimiter_init t = TokenBucket_init (max 1 (rps t)) (rps t)"
    by (simp add: rps_of_def RateLimiter_init_def)
  have ok0: "bucket_ok (rps_of RateLimiter_init t)" "ts (rps_of RateLimiter_init t) \<le> T"
    using assms(1-3) by (simp_all add: b0 bucket_ok_init) (simp add: TokenBucket_init_def)
  have h: "bucket_ok (rps_of ?l t)" "ts (rps_of ?l t) \<le> T" "refill (rps_of ?l t) = rps t"
    using rl_run_credit [OF ok0, of history 0] assms(4,5) by (auto simp: b0 TokenBucket_init_def)
  have cap: "capacity (rps_of ?l t) = max 1 (rps t)"
    using rl_run_credit [OF ok0, of history 0] assms(4,5) by (auto simp: b0 TokenBucket_init_def)
  let ?b = "rps_of (foldl rl_step ?l xs) t"
  have run: "of_nat (rl_count t ?l xs) + credit t0 ?b \<le> credit t0 (rps_of ?l t)" "bucket_ok ?b" "ts ?b \<le> T"
    "refill ?b = rps t"
    using rl_run_credit [OF h(1,2), of xs t0] assms(4,6) h(3) by auto
  have "- (rps t * T) \<le> credit t0 ?b" using credit_bounds(2) [OF run(2,3) assms(3)] run(4) by simp
  moreover have "credit t0 (rps_of ?l t) \<le> max 1 (rps t) - rps t * t0" using credit_bounds(1) [OF h(1), of t0] h(3) cap by simp
  ultimately show ?thesis using run(1) by (simp add: algebra_simps)
qed

definition demo_tenant :: Tenant where
  "demo_tenant = \<lparr>tenant_id = ''acme'', rps = 2, tps = 4000, tn_max_inflight = 4, tier = ''anonymous''\<rparr>"

theorem admitted_rate_witness:
  "(of_nat (rl_count demo_tenant (foldl rl_step RateLimiter_init [Admit demo_tenant 10 0])
     [Admit demo_tenant 10 1, Release demo_tenant 5 3, Admit demo_tenant 9000 2]) :: rat) \<le> 2 + 2 * (2 - 1)"
  using admitted_rate [of demo_tenant 1 2 "[Admit demo_tenant 10 0]"
      "[Admit demo_tenant 10 1, Release demo_tenant 5 3, Admit demo_tenant 9000 2]"]
  by (simp add: demo_tenant_def)

definition tps_of :: "RateLimiter \<Rightarrow> Tenant \<Rightarrow> TokenBucket" where
  "tps_of l t = (case map_of (rl_tps l) (tenant_id t) of None \<Rightarrow> TokenBucket_init (tps t) (tps t) | Some b \<Rightarrow> b)"

definition capped :: "TokenBucket \<Rightarrow> bool" where
  "capped b \<longleftrightarrow> 0 \<le> refill b \<and> tokens b \<le> capacity b"

definition rl_ok :: "RateLimiter \<Rightarrow> bool" where
  "rl_ok l \<longleftrightarrow> (\<forall>i. map_of (rl_rps l) i = None \<longleftrightarrow> map_of (rl_tps l) i = None) \<and>
     (\<forall>i b. map_of (rl_rps l) i = Some b \<or> map_of (rl_tps l) i = Some b \<longrightarrow> capped b)"

lemma capped_init: "0 \<le> r \<Longrightarrow> capped (TokenBucket_init c r)"
  by (simp add: capped_def TokenBucket_init_def)

lemma capped_ops:
  assumes "capped b"
  shows "capped (replenish b now)" "0 \<le> n \<Longrightarrow> capped (snd (try_consume b n now))"
    "capped (snd (deficit_seconds b n now))" "capped (adjust b d)"
  using assms by (auto simp: capped_def replenish_def try_consume_def deficit_seconds_def adjust_def Let_def)

lemma rl_ok_put: "rl_ok l \<Longrightarrow> capped r \<Longrightarrow> capped p \<Longrightarrow> rl_ok (put_buckets l t r p)"
  by (auto simp: rl_ok_def put_buckets_def split: if_splits)

lemma buckets_result:
  assumes "rl_ok l" and "0 \<le> rps t" and "0 \<le> tps t" and "buckets l t = ((r, p), l0)"
  shows "r = rps_of l t" "p = tps_of l t" "rl_inflight l0 = rl_inflight l" "capped r" "capped p" "rl_ok l0"
    "rps_of l0 t = r" "tps_of l0 t = p"
proof -
  have none: "map_of (rl_tps l) (tenant_id t) = None \<longleftrightarrow> map_of (rl_rps l) (tenant_id t) = None"
    using assms(1) by (auto simp: rl_ok_def)
  have sync: "map_of (rl_rps l) i = None \<longleftrightarrow> map_of (rl_tps l) i = None"
    and cap: "map_of (rl_rps l) i = Some b \<or> map_of (rl_tps l) i = Some b \<Longrightarrow> capped b" for i b
    using assms(1) unfolding rl_ok_def by blast+
  have "(r = rps_of l t \<and> p = tps_of l t \<and> rl_inflight l0 = rl_inflight l \<and> capped r \<and> capped p \<and> rl_ok l0 \<and>
    rps_of l0 t = r \<and> tps_of l0 t = p)"
  proof (cases "map_of (rl_rps l) (tenant_id t)")
    case None
    then have "map_of (rl_tps l) (tenant_id t) = None" using none by simp
    moreover from this None have "l0 = put_buckets l t r p" "r = TokenBucket_init (max 1 (rps t)) (rps t)"
      "p = TokenBucket_init (tps t) (tps t)"
      using assms(4) by (auto simp: buckets_def Let_def put_buckets_def)
    moreover have "rl_ok (put_buckets l t r p)"
      using calculation assms(1-3) by (intro rl_ok_put) (simp_all add: capped_init)
    ultimately show ?thesis using None assms(2,3)
      by (auto simp: rps_of_def tps_of_def capped_init put_buckets_def)
  next
    case (Some b)
    then obtain b' where "map_of (rl_tps l) (tenant_id t) = Some b'" using none by (cases "map_of (rl_tps l) (tenant_id t)") auto
    then show ?thesis using Some assms(1,4) cap [of "tenant_id t" b] cap [of "tenant_id t" b']
      by (auto simp: buckets_def Let_def rps_of_def tps_of_def)
  qed
  then show "r = rps_of l t" "p = tps_of l t" "rl_inflight l0 = rl_inflight l" "capped r" "capped p" "rl_ok l0"
    "rps_of l0 t = r" "tps_of l0 t = p" by blast+
qed

lemma rl_ok_inflight [simp]: "rl_ok (l\<lparr>rl_inflight := d\<rparr>) = rl_ok l"
  by (simp add: rl_ok_def)

lemma admit_cases:
  assumes "buckets l t = ((r, p), l0)"
  obtains
    (inflight) "dget (rl_inflight l0) (tenant_id t) 0 \<ge> tn_max_inflight t"
      "admit l t cost now = (deny ''inflight'' (Fin 1) r p, l0)"
  | (tps) ra where "\<not> fst (try_consume p cost now)"
      "admit l t cost now = (deny ''tps'' ra r (replenish p now), put_buckets l0 t r (replenish p now))"
  | (rps) ra where "fst (try_consume p cost now)" "\<not> fst (try_consume r 1 now)"
      "admit l t cost now =
         (deny ''rps'' ra (replenish r now) (adjust (snd (try_consume p cost now)) cost),
          put_buckets l0 t (replenish r now) (adjust (snd (try_consume p cost now)) cost))"
  | (ok) adm where "allowed adm" "fst (try_consume p cost now)" "fst (try_consume r 1 now)"
      "dget (rl_inflight l0) (tenant_id t) 0 < tn_max_inflight t"
      "admit l t cost now =
         (adm, (put_buckets l0 t (snd (try_consume r 1 now)) (snd (try_consume p cost now)))\<lparr>rl_inflight :=
            AList.update (tenant_id t) (dget (rl_inflight l0) (tenant_id t) 0 + 1) (rl_inflight l0)\<rparr>)"
proof -
  have fail: "snd (try_consume b n now) = replenish b now" "snd (deficit_seconds (replenish b now) n now) = replenish b now"
    if "\<not> fst (try_consume b n now)" for b n
    using that by (auto simp: try_consume_def deficit_seconds_def Let_def replenish_same split: if_splits)
  obtain okp p1 where c: "try_consume p cost now = (okp, p1)" by (cases "try_consume p cost now")
  obtain okr r1 where c': "try_consume r 1 now = (okr, r1)" by (cases "try_consume r 1 now")
  obtain ra p2 where d: "deficit_seconds p1 cost now = (ra, p2)" by (cases "deficit_seconds p1 cost now")
  obtain ra' r2 where d': "deficit_seconds r1 1 now = (ra', r2)" by (cases "deficit_seconds r1 1 now")
  note eqs = assms c c' d d'
  consider "dget (rl_inflight l0) (tenant_id t) 0 \<ge> tn_max_inflight t"
    | "dget (rl_inflight l0) (tenant_id t) 0 < tn_max_inflight t" "\<not> okp"
    | "dget (rl_inflight l0) (tenant_id t) 0 < tn_max_inflight t" okp "\<not> okr"
    | "dget (rl_inflight l0) (tenant_id t) 0 < tn_max_inflight t" okp okr by linarith
  then show thesis
  proof cases
    case 1
    then show ?thesis by (intro inflight) (simp_all add: admit_def eqs)
  next
    case 2
    then have e: "p1 = replenish p now" "p2 = replenish p now" using fail [of p cost] c d by auto
    have "deficit_seconds (replenish p now) cost now = (ra, replenish p now)" using d unfolding e .
    then show ?thesis using 2 by (intro tps [of ra]) (simp_all add: admit_def assms c e)
  next
    case 3
    then have "r2 = replenish r now" using fail [of r 1] c' d' by auto
    then show ?thesis using 3 by (intro rps [of ra']) (simp_all add: admit_def eqs Let_def)
  next
    case 4
    then show ?thesis
      by (intro ok [of "\<lparr>allowed = True, adm_reason = None, retry_after = Fin 0,
              remaining_rps = tokens r1, remaining_tps = tokens p1\<rparr>"]) (simp_all add: admit_def eqs)
  qed
qed

lemma replenish_more: "capped b \<Longrightarrow> tokens b \<le> tokens (replenish b now)"
  by (auto simp: capped_def replenish_def)

lemma refund_exact:
  "capped b \<Longrightarrow> fst (try_consume b n now) \<Longrightarrow> adjust (snd (try_consume b n now)) n = replenish b now"
  using capped_ops(1) [of b now]
  by (auto simp: adjust_def try_consume_def Let_def capped_def min_def split: if_splits)

lemma rl_ok_step:
  assumes "rl_ok l" and "0 \<le> rps (op_tenant x)" and "0 \<le> tps (op_tenant x)"
    and "\<forall>t cost now. x = Admit t cost now \<longrightarrow> 0 \<le> cost"
  shows "rl_ok (rl_step l x)"
proof (cases x)
  case (Admit t cost now)
  have c: "0 \<le> cost" using assms(4) Admit by blast
  obtain r p l0 where b: "buckets l t = ((r, p), l0)" by (cases "buckets l t") auto
  have "0 \<le> rps t" "0 \<le> tps t" using assms(2,3) Admit by auto
  note br = buckets_result [OF assms(1) this b]
  from b show ?thesis
    by (cases rule: admit_cases [where cost = cost and now = now])
       (simp_all add: Admit br(4-6) c capped_ops rl_ok_put)
next
  case (Release t res act)
  define l1 where "l1 = l\<lparr>rl_inflight := AList.update (tenant_id t) (max 0 (dget (rl_inflight l) (tenant_id t) 0 - 1)) (rl_inflight l)\<rparr>"
  obtain r p l0 where b: "buckets l1 t = ((r, p), l0)" by (cases "buckets l1 t") auto
  have "0 \<le> rps t" "0 \<le> tps t" "rl_ok l1" using assms Release by (auto simp: l1_def)
  note br = buckets_result [OF this(3,1,2) b]
  have "rl_step l x = put_buckets l0 t r (adjust p (res - act))"
    using b by (simp add: Release rl_release_def l1_def Let_def)
  then show ?thesis by (simp add: br(4-6) capped_ops rl_ok_put)
qed

definition op_ok :: "rl_op \<Rightarrow> bool" where
  "op_ok x \<longleftrightarrow> 0 \<le> rps (op_tenant x) \<and> 0 \<le> tps (op_tenant x) \<and>
     (case x of Admit t cost now \<Rightarrow> 0 \<le> cost | Release _ _ _ \<Rightarrow> True)"

lemma rl_ok_run: "rl_ok l \<Longrightarrow> \<forall>x \<in> set xs. op_ok x \<Longrightarrow> rl_ok (foldl rl_step l xs)"
proof (induction xs arbitrary: l)
  case (Cons x xs)
  have "rl_ok (rl_step l x)" using Cons.prems by (intro rl_ok_step) (auto simp: op_ok_def)
  then show ?case using Cons by simp
qed simp

text \<open>
  C8. A refused request costs the tenant nothing: after any history, when the limiter refuses a
  request, for whatever reason, the in-flight count is what it was and neither bucket has fewer
  tokens than before; in particular the tokens reserved before the request limit refused are
  given back in full.  An admitted one raises the in-flight count, which was below the cap, by one.
\<close>

theorem refusal_costs_nothing:
  assumes "\<forall>x \<in> set history. op_ok x" and "0 \<le> rps t" and "0 \<le> tps t" and "0 \<le> cost"
  shows "let l = foldl rl_step RateLimiter_init history; (adm, l') = admit l t cost now;
             n = \<lambda>l. dget (rl_inflight l) (tenant_id t) 0 in
    if allowed adm then n l < tn_max_inflight t \<and> n l' = n l + 1
    else n l' = n l \<and> tokens (rps_of l t) \<le> tokens (rps_of l' t) \<and> tokens (tps_of l t) \<le> tokens (tps_of l' t)"
proof -
  define l where "l = foldl rl_step RateLimiter_init history"
  have ok: "rl_ok l" unfolding l_def
    by (rule rl_ok_run [OF _ assms(1)]) (simp add: rl_ok_def RateLimiter_init_def)
  obtain r p l0 where b: "buckets l t = ((r, p), l0)" by (cases "buckets l t") auto
  note br = buckets_result [OF ok assms(2,3) b]
  have put: "rps_of (put_buckets l0 t r' p') t = r'" "tps_of (put_buckets l0 t r' p') t = p'"
    "rl_inflight (put_buckets l0 t r' p') = rl_inflight l" for r' p'
    using br(3) by (simp_all add: tps_of_def rps_of_def put_buckets_def)
  have rp: "rps_of l t = r" "tps_of l t = p" using br(1,2) by simp_all
  have more: "tokens r \<le> tokens (replenish r now)" "tokens p \<le> tokens (replenish p now)"
    using br by (simp_all add: replenish_more)
  from b have "case admit l t cost now of (adm, l') \<Rightarrow>
    if allowed adm then dget (rl_inflight l) (tenant_id t) 0 < tn_max_inflight t \<and>
      dget (rl_inflight l') (tenant_id t) 0 = dget (rl_inflight l) (tenant_id t) 0 + 1
    else dget (rl_inflight l') (tenant_id t) 0 = dget (rl_inflight l) (tenant_id t) 0 \<and>
      tokens (rps_of l t) \<le> tokens (rps_of l' t) \<and> tokens (tps_of l t) \<le> tokens (tps_of l' t)"
  proof (cases rule: admit_cases [where cost = cost and now = now])
    case inflight
    then show ?thesis using br(3,7,8) by (simp add: rp deny_def)
  next
    case (tps ra)
    then show ?thesis using more by (simp add: rp put deny_def)
  next
    case (rps ra)
    have "adjust (snd (try_consume p cost now)) cost = replenish p now" by (rule refund_exact [OF br(5) rps(1)])
    then show ?thesis using rps more by (simp add: rp put deny_def)
  next
    case (ok adm)
    then show ?thesis using br(3) by simp
  qed
  then show ?thesis by (simp only: Let_def l_def)
qed

theorem refusal_costs_nothing_witness:
  "let l = foldl rl_step RateLimiter_init [Admit demo_tenant 3000 1]; (adm, l') = admit l demo_tenant 2000 1;
       n = \<lambda>l. dget (rl_inflight l) (tenant_id demo_tenant) 0 in
    if allowed adm then n l < tn_max_inflight demo_tenant \<and> n l' = n l + 1
    else n l' = n l \<and> tokens (rps_of l demo_tenant) \<le> tokens (rps_of l' demo_tenant) \<and>
      tokens (tps_of l demo_tenant) \<le> tokens (tps_of l' demo_tenant)"
  by (rule refusal_costs_nothing) (simp_all add: op_ok_def demo_tenant_def)

end
