(* ===== verification/Lww_State.thy ===== *)
theory Lww_State
  imports Events "HOL-Library.List_Lexorder" "HOL-Library.Char_ord" "HOL-Library.Product_Lexorder"
begin

section \<open>Last-writer-wins maps\<close>

text \<open>
  \<^verbatim>\<open>gateway/cluster/drain_state.py\<close> and \<^verbatim>\<open>gateway/cluster/membership_state.py\<close>: two maps whose
  entries carry a version, a Lamport timestamp with the replica id as tie-breaker.  The locale
  \<open>lww\<close> states what both promise; convergence is proved once inside it and both classes are
  instances.  Versions are compared as Python compares tuples, lexicographically, the replica
  ids by code points.
\<close>

subsection \<open>The drain map\<close>

record DrainState =
  ds_map :: "(string, drain_entry) dict"
  ds_clock :: int

definition DrainState_init :: DrainState where
  "DrainState_init = \<lparr>ds_map = [], ds_clock = 0\<rparr>"

definition drain_tick :: "DrainState \<Rightarrow> int \<times> DrainState" where
  "drain_tick s = (ds_clock s + 1, s\<lparr>ds_clock := ds_clock s + 1\<rparr>)"

definition drain_observe :: "DrainState \<Rightarrow> int \<Rightarrow> DrainState" where
  "drain_observe s ts = (if ts > ds_clock s then s\<lparr>ds_clock := ts\<rparr> else s)"

definition drain_set_local :: "DrainState \<Rightarrow> string \<Rightarrow> bool \<Rightarrow> replica \<Rightarrow> int \<times> DrainState" where
  "drain_set_local s b d o' =
     (let (ts, s') = drain_tick s
      in (ts, s'\<lparr>ds_map := AList.update b (d, ts, o') (ds_map s')\<rparr>))"

definition drain_apply :: "DrainState \<Rightarrow> string \<Rightarrow> drain_entry \<Rightarrow> bool \<times> DrainState" where
  "drain_apply s b e =
     (let (d, ts, o') = e; s' = drain_observe s ts in
      case map_of (ds_map s') b of
        None \<Rightarrow> (True, s'\<lparr>ds_map := AList.update b (d, ts, o') (ds_map s')\<rparr>)
      | Some (cd, cts, co) \<Rightarrow>
          if (ts, o') > (cts, co)
          then (cd \<noteq> d, s'\<lparr>ds_map := AList.update b (d, ts, o') (ds_map s')\<rparr>)
          else (False, s'))"

fun drain_merge :: "DrainState \<Rightarrow> (string, drain_entry) dict \<Rightarrow> bool \<times> DrainState" where
  "drain_merge s [] = (False, s)"
| "drain_merge s ((b, e) # es) =
     (let (c, s') = drain_apply s b e; (c', s'') = drain_merge s' es in (c \<or> c', s''))"

definition drained :: "DrainState \<Rightarrow> string set" where
  "drained s = set (map fst (filter (\<lambda>(b, d, _). d) (ds_map s)))"

definition drain_digest :: "DrainState \<Rightarrow> (string, drain_entry) dict" where
  "drain_digest s = map (\<lambda>(b, d, ts, o'). (b, d, ts, o')) (ds_map s)"

definition drain_len :: "DrainState \<Rightarrow> nat" where
  "drain_len s = length (ds_map s)"


subsection \<open>The membership map\<close>

record MembershipState =
  ms_map :: "(string, member_entry) dict"
  ms_clock :: int

definition MembershipState_init :: MembershipState where
  "MembershipState_init = \<lparr>ms_map = [], ms_clock = 0\<rparr>"

definition member_tick :: "MembershipState \<Rightarrow> int \<times> MembershipState" where
  "member_tick s = (ms_clock s + 1, s\<lparr>ms_clock := ms_clock s + 1\<rparr>)"

definition member_observe :: "MembershipState \<Rightarrow> int \<Rightarrow> MembershipState" where
  "member_observe s ts = (if ts > ms_clock s then s\<lparr>ms_clock := ts\<rparr> else s)"

definition member_set_local ::
  "MembershipState \<Rightarrow> string \<Rightarrow> bool \<times> string \<times> string \<Rightarrow> replica \<Rightarrow> int \<times> MembershipState"
where
  "member_set_local s b x o' =
     (let (p, u, m) = x; (ts, s') = member_tick s
      in (ts, s'\<lparr>ms_map := AList.update b (p, u, m, ts, o') (ms_map s')\<rparr>))"

definition member_apply :: "MembershipState \<Rightarrow> string \<Rightarrow> member_entry \<Rightarrow> bool \<times> MembershipState" where
  "member_apply s b e =
     (let (p, u, m, ts, o') = e; s' = member_observe s ts in
      case map_of (ms_map s') b of
        None \<Rightarrow> (True, s'\<lparr>ms_map := AList.update b (p, u, m, ts, o') (ms_map s')\<rparr>)
      | Some (cp, cu, cm, cts, co) \<Rightarrow>
          if (ts, o') > (cts, co)
          then (cp \<noteq> p \<or> cu \<noteq> u, s'\<lparr>ms_map := AList.update b (p, u, m, ts, o') (ms_map s')\<rparr>)
          else (False, s'))"

fun member_merge :: "MembershipState \<Rightarrow> (string, member_entry) dict \<Rightarrow> bool \<times> MembershipState" where
  "member_merge s [] = (False, s)"
| "member_merge s ((b, e) # es) =
     (let (c, s') = member_apply s b e; (c', s'') = member_merge s' es in (c \<or> c', s''))"

definition member_present :: "MembershipState \<Rightarrow> (string, string \<times> string) dict" where
  "member_present s = map (\<lambda>(b, p, u, m, _). (b, u, m)) (filter (\<lambda>(b, p, _). p) (ms_map s))"

definition member_removed :: "MembershipState \<Rightarrow> string set" where
  "member_removed s = set (map fst (filter (\<lambda>(b, p, _). \<not> p) (ms_map s)))"

definition member_digest :: "MembershipState \<Rightarrow> (string, member_entry) dict" where
  "member_digest s = map (\<lambda>(b, p, u, m, ts, o'). (b, p, u, m, ts, o')) (ms_map s)"

definition member_len :: "MembershipState \<Rightarrow> nat" where
  "member_len s = length (ms_map s)"


subsection \<open>Replicas exchanging operations\<close>

type_synonym version = "int \<times> replica"

definition lww_put :: "('e \<Rightarrow> version) \<Rightarrow> (string \<rightharpoonup> 'e) \<Rightarrow> string \<Rightarrow> 'e \<Rightarrow> (string \<rightharpoonup> 'e)" where
  "lww_put ver m k e =
     (case m k of None \<Rightarrow> m(k \<mapsto> e) | Some c \<Rightarrow> if ver c < ver e then m(k \<mapsto> e) else m)"

text \<open>
  The runs of a fleet of replicas with states \<open>\<sigma>\<close>: a replica sets an entry locally, or applies
  any operation issued by any replica so far, in any order and any number of times.  \<open>I\<close> is what
  has been issued, \<open>R r\<close> what has reached replica \<open>r\<close>.
\<close>

inductive lww_reach ::
  "'s \<Rightarrow> ('s \<Rightarrow> string \<Rightarrow> 'e \<Rightarrow> bool \<times> 's) \<Rightarrow> ('s \<Rightarrow> string \<Rightarrow> 'v \<Rightarrow> replica \<Rightarrow> int \<times> 's) \<Rightarrow>
   ('v \<Rightarrow> int \<Rightarrow> replica \<Rightarrow> 'e) \<Rightarrow>
   (replica \<Rightarrow> 's) \<Rightarrow> (string \<times> 'e) set \<Rightarrow> (replica \<Rightarrow> (string \<times> 'e) set) \<Rightarrow> bool"
  for st0 apply_op set_op mk
where
  start: "lww_reach st0 apply_op set_op mk (\<lambda>_. st0) {} (\<lambda>_. {})"
| set_local: "lww_reach st0 apply_op set_op mk \<sigma> I R \<Longrightarrow> set_op (\<sigma> r) k x r = (ts, s') \<Longrightarrow>
    lww_reach st0 apply_op set_op mk (\<sigma>(r := s')) (insert (k, mk x ts r) I)
      (R(r := insert (k, mk x ts r) (R r)))"
| deliver: "lww_reach st0 apply_op set_op mk \<sigma> I R \<Longrightarrow> (k, e) \<in> I \<Longrightarrow>
    lww_reach st0 apply_op set_op mk (\<sigma>(r := snd (apply_op (\<sigma> r) k e))) I (R(r := insert (k, e) (R r)))"

locale lww =
  fixes st0 :: 's
    and apply_op :: "'s \<Rightarrow> string \<Rightarrow> 'e \<Rightarrow> bool \<times> 's"
    and set_op :: "'s \<Rightarrow> string \<Rightarrow> 'v \<Rightarrow> replica \<Rightarrow> int \<times> 's"
    and mk :: "'v \<Rightarrow> int \<Rightarrow> replica \<Rightarrow> 'e"
    and ver :: "'e \<Rightarrow> version"
    and entries :: "'s \<Rightarrow> (string, 'e) dict"
    and lclock :: "'s \<Rightarrow> int"
    and merge_op :: "'s \<Rightarrow> (string, 'e) dict \<Rightarrow> bool \<times> 's"
  assumes entries_init: "entries st0 = []"
    and entries_apply: "map_of (entries (snd (apply_op s k e))) = lww_put ver (map_of (entries s)) k e"
    and entries_local: "map_of (entries (snd (set_op s k x r))) = (map_of (entries s))(k \<mapsto> mk x (lclock s + 1) r)"
    and ts_local: "fst (set_op s k x r) = lclock s + 1"
    and clock_local: "lclock (snd (set_op s k x r)) = lclock s + 1"
    and clock_apply: "lclock (snd (apply_op s k e)) = max (lclock s) (fst (ver e))"
    and ver_mk: "ver (mk x t r) = (t, r)"
    and entries_ok: "dict_ok (entries s) \<Longrightarrow> dict_ok (entries (snd (apply_op s k e)))"
    and entries_ok_local: "dict_ok (entries s) \<Longrightarrow> dict_ok (entries (snd (set_op s k x r)))"
    and merge_Nil: "snd (merge_op s []) = s"
    and merge_Cons: "snd (merge_op s ((k, e) # es)) = snd (merge_op (snd (apply_op s k e)) es)"
begin

text \<open>The state \<open>s\<close> of a replica in terms of the operations \<open>Q\<close> that have reached it.\<close>

definition repl_ok :: "'s \<Rightarrow> (string \<times> 'e) set \<Rightarrow> bool" where
  "repl_ok s Q \<longleftrightarrow> dict_ok (entries s) \<and>
     (\<forall>k e. (k, e) \<in> Q \<longrightarrow> fst (ver e) \<le> lclock s) \<and>
     (\<forall>k. case map_of (entries s) k of
            None \<Rightarrow> \<forall>e. (k, e) \<notin> Q
          | Some c \<Rightarrow> (k, c) \<in> Q \<and> (\<forall>e. (k, e) \<in> Q \<longrightarrow> ver e \<le> ver c))"

definition uniq :: "(string \<times> 'e) set \<Rightarrow> bool" where
  "uniq I \<longleftrightarrow> (\<forall>k e k' e'. (k, e) \<in> I \<longrightarrow> (k', e') \<in> I \<longrightarrow> ver e = ver e' \<longrightarrow> k = k' \<and> e = e')"

definition issued_ok :: "(replica \<Rightarrow> 's) \<Rightarrow> (string \<times> 'e) set \<Rightarrow> bool" where
  "issued_ok \<sigma> I \<longleftrightarrow> (\<forall>k e. (k, e) \<in> I \<longrightarrow> fst (ver e) \<le> lclock (\<sigma> (snd (ver e))))"

lemma repl_okD:
  assumes "repl_ok s Q"
  shows "dict_ok (entries s)" and "(k, e) \<in> Q \<Longrightarrow> fst (ver e) \<le> lclock s"
    and "map_of (entries s) k = Some c \<Longrightarrow> (k, c) \<in> Q"
    and "map_of (entries s) k = Some c \<Longrightarrow> (k, e) \<in> Q \<Longrightarrow> ver e \<le> ver c"
    and "map_of (entries s) k = None \<Longrightarrow> (k, e) \<notin> Q"
  using assms unfolding repl_ok_def by (auto dest: spec [of _ k] split: option.splits)

lemma repl_okI:
  assumes "dict_ok (entries s)" and "\<And>k e. (k, e) \<in> Q \<Longrightarrow> fst (ver e) \<le> lclock s"
    and "\<And>k c. map_of (entries s) k = Some c \<Longrightarrow> (k, c) \<in> Q"
    and "\<And>k c e. map_of (entries s) k = Some c \<Longrightarrow> (k, e) \<in> Q \<Longrightarrow> ver e \<le> ver c"
    and "\<And>k e. map_of (entries s) k = None \<Longrightarrow> (k, e) \<notin> Q"
  shows "repl_ok s Q"
  using assms unfolding repl_ok_def by (auto split: option.split)

lemma repl_ok_apply:
  assumes "repl_ok s Q"
  shows "repl_ok (snd (apply_op s k e)) (insert (k, e) Q)"
proof (rule repl_okI)
  let ?s = "snd (apply_op s k e)"
  note D = repl_okD [OF assms]
  show "dict_ok (entries ?s)" by (rule entries_ok [OF D(1)])
  fix k' c e'
  show "(k', e') \<in> insert (k, e) Q \<Longrightarrow> fst (ver e') \<le> lclock ?s"
    using D(2) [of k' e'] by (auto simp: clock_apply)
  show "map_of (entries ?s) k' = Some c \<Longrightarrow> (k', c) \<in> insert (k, e) Q"
    using D(3) [of k' c] by (auto simp: entries_apply lww_put_def split: option.splits if_splits)
  show "map_of (entries ?s) k' = None \<Longrightarrow> (k', e') \<notin> insert (k, e) Q"
    using D(5) [of k' e'] by (auto simp: entries_apply lww_put_def split: option.splits if_splits)
  assume c: "map_of (entries ?s) k' = Some c" and e': "(k', e') \<in> insert (k, e) Q"
  show "ver e' \<le> ver c"
  proof (cases "k' = k")
    case False
    then have "map_of (entries s) k' = Some c" "(k', e') \<in> Q"
      using c e' by (auto simp: entries_apply lww_put_def split: option.splits if_splits)
    then show ?thesis by (rule D(4))
  next
    case k: True
    show ?thesis
    proof (cases "map_of (entries s) k")
      case None
      then show ?thesis using c e' k D(5) [of k e'] by (auto simp: entries_apply lww_put_def)
    next
      case (Some c0)
      have le: "ver e' \<le> ver c0 \<or> e' = e" using e' k D(4) [OF Some, of e'] by auto
      show ?thesis
      proof (cases "ver c0 < ver e")
        case True
        then have "c = e" using c k Some by (simp add: entries_apply lww_put_def)
        then show ?thesis using le True by (auto intro: order_trans less_imp_le)
      next
        case False
        then have "c = c0" using c k Some by (simp add: entries_apply lww_put_def)
        then show ?thesis using le False by (auto simp: not_less)
      qed
    qed
  qed
qed

lemma repl_ok_local:
  assumes "repl_ok s Q"
  shows "repl_ok (snd (set_op s k x r)) (insert (k, mk x (lclock s + 1) r) Q)"
proof (rule repl_okI)
  let ?s = "snd (set_op s k x r)"
  note D = repl_okD [OF assms]
  show "dict_ok (entries ?s)" by (rule entries_ok_local [OF D(1)])
  fix k' c e'
  show "(k', e') \<in> insert (k, mk x (lclock s + 1) r) Q \<Longrightarrow> fst (ver e') \<le> lclock ?s"
    using D(2) [of k' e'] by (auto simp: clock_local ver_mk)
  show "map_of (entries ?s) k' = Some c \<Longrightarrow> (k', c) \<in> insert (k, mk x (lclock s + 1) r) Q"
    using D(3) [of k' c] by (auto simp: entries_local split: if_splits)
  show "map_of (entries ?s) k' = None \<Longrightarrow> (k', e') \<notin> insert (k, mk x (lclock s + 1) r) Q"
    using D(5) [of k' e'] by (auto simp: entries_local split: if_splits)
  assume c: "map_of (entries ?s) k' = Some c" and e': "(k', e') \<in> insert (k, mk x (lclock s + 1) r) Q"
  show "ver e' \<le> ver c"
  proof (cases "k' = k")
    case True
    then have "c = mk x (lclock s + 1) r" using c by (simp add: entries_local)
    moreover have "e' = mk x (lclock s + 1) r \<or> fst (ver e') < lclock s + 1"
      using e' D(2) [of k' e'] True by auto
    ultimately show ?thesis by (cases "ver e'") (auto simp: ver_mk)
  next
    case False
    then show ?thesis using c e' D(4) [of k' c e'] by (simp add: entries_local)
  qed
qed

lemma repl_ok_merge: "repl_ok s Q \<Longrightarrow> repl_ok (snd (merge_op s es)) (Q \<union> set es)"
proof (induction es arbitrary: s Q)
  case (Cons p es)
  obtain k e where p: "p = (k, e)" by force
  from Cons.IH [OF repl_ok_apply [OF Cons.prems]] show ?case by (simp add: p merge_Cons)
qed (simp add: merge_Nil)

lemma repl_ok_entries: "repl_ok s Q \<Longrightarrow> repl_ok s (set (entries s))"
proof (rule repl_okI)
  assume ok: "repl_ok s Q"
  note D = repl_okD [OF ok]
  show d: "dict_ok (entries s)" by (rule D(1))
  have m: "(k, e) \<in> set (entries s) \<longleftrightarrow> map_of (entries s) k = Some e" for k e
    using d by (simp add: dict_ok_def)
  fix k c e
  show "(k, e) \<in> set (entries s) \<Longrightarrow> fst (ver e) \<le> lclock s" using D(2) [of k e] D(3) [of k e] by (simp add: m)
  show "map_of (entries s) k = Some c \<Longrightarrow> (k, c) \<in> set (entries s)" by (simp add: m)
  show "map_of (entries s) k = Some c \<Longrightarrow> (k, e) \<in> set (entries s) \<Longrightarrow> ver e \<le> ver c" by (simp add: m)
  show "map_of (entries s) k = None \<Longrightarrow> (k, e) \<notin> set (entries s)" by (simp add: m)
qed

text \<open>The map is determined by what has reached the replica.\<close>

lemma repl_ok_determined:
  assumes "repl_ok s Q" and "repl_ok s' Q" and "uniq Q"
  shows "map_of (entries s) = map_of (entries s')"
proof
  fix k
  note D = repl_okD [OF assms(1)] and D' = repl_okD [OF assms(2)]
  show "map_of (entries s) k = map_of (entries s') k"
  proof (cases "map_of (entries s) k")
    case None
    then show ?thesis using D(5) [OF None] D'(3) by (cases "map_of (entries s') k") auto
  next
    case (Some c)
    then have Q: "(k, c) \<in> Q" by (rule D(3))
    then obtain c' where c': "map_of (entries s') k = Some c'" using D'(5) by (cases "map_of (entries s') k") auto
    have Q': "(k, c') \<in> Q" using c' by (rule D'(3))
    have "ver c = ver c'" using D(4) [OF Some Q'] D'(4) [OF c' Q] by (rule antisym [rotated])
    with assms(3) Q Q' have "c = c'" by (auto simp: uniq_def)
    then show ?thesis using Some c' by simp
  qed
qed

lemma reach_ok:
  "lww_reach st0 apply_op set_op mk \<sigma> I R \<Longrightarrow> issued_ok \<sigma> I \<and> uniq I \<and> (\<forall>r. R r \<subseteq> I \<and> repl_ok (\<sigma> r) (R r))"
proof (induction rule: lww_reach.induct)
  case start
  then show ?case by (simp add: issued_ok_def uniq_def repl_ok_def entries_init)
next
  case (set_local \<sigma> I R r k x ts s')
  define n where "n = mk x ts r"
  have ts: "ts = lclock (\<sigma> r) + 1" and s': "s' = snd (set_op (\<sigma> r) k x r)"
    using set_local(2) ts_local [of "\<sigma> r" k x r] by auto
  have vn: "ver n = (lclock (\<sigma> r) + 1, r)" by (simp add: n_def ver_mk ts)
  have cl: "lclock s' = lclock (\<sigma> r) + 1" by (simp add: s' clock_local)
  have new: "ver e \<noteq> ver n" if "(k', e) \<in> I" for k' e
  proof
    assume "ver e = ver n"
    moreover have "fst (ver e) \<le> lclock (\<sigma> (snd (ver e)))" using set_local(3) that by (simp add: issued_ok_def)
    ultimately show False by (simp add: vn)
  qed
  have "issued_ok (\<sigma>(r := s')) (insert (k, n) I)"
    using set_local(3) by (auto simp: issued_ok_def vn cl add_increasing2)
  moreover have "uniq (insert (k, n) I)"
    using set_local(3) new unfolding uniq_def by (metis insert_iff prod.inject)
  moreover have "repl_ok s' (insert (k, n) (R r))"
    using repl_ok_local [of "\<sigma> r" "R r" k x r] set_local(3) by (simp add: s' n_def ts)
  ultimately show ?case using set_local(3) unfolding n_def by (simp add: subset_insertI2 fun_upd_def)
next
  case (deliver \<sigma> I R k e r)
  have "issued_ok (\<sigma>(r := snd (apply_op (\<sigma> r) k e))) I"
    using deliver(3) by (auto simp: issued_ok_def clock_apply le_max_iff_disj)
  then show ?case using deliver by (auto simp: repl_ok_apply fun_upd_def)
qed

text \<open>Two replicas that the same operations have reached have the same map.\<close>

lemma converge:
  assumes "lww_reach st0 apply_op set_op mk \<sigma> I R" and "R r = R r'"
  shows "map_of (entries (\<sigma> r)) = map_of (entries (\<sigma> r'))"
proof (rule repl_ok_determined)
  note ok = reach_ok [OF assms(1)]
  have "repl_ok (\<sigma> q) (R q)" for q using ok by blast
  from this [of r] this [of r'] assms(2) show "repl_ok (\<sigma> r) (R r)" "repl_ok (\<sigma> r') (R r)" by simp_all
  show "uniq (R r)" using ok unfolding uniq_def by blast
qed

text \<open>Two replicas that have merged each other's map have the same map.\<close>

lemma exchange:
  assumes "lww_reach st0 apply_op set_op mk \<sigma> I R"
  shows "map_of (entries (snd (merge_op (\<sigma> r) (entries (\<sigma> r'))))) =
         map_of (entries (snd (merge_op (\<sigma> r') (entries (\<sigma> r)))))"
proof (rule repl_ok_determined)
  let ?Q = "set (entries (\<sigma> r)) \<union> set (entries (\<sigma> r'))"
  note ok = reach_ok [OF assms]
  show "repl_ok (snd (merge_op (\<sigma> r) (entries (\<sigma> r')))) ?Q"
    using ok by (intro repl_ok_merge repl_ok_entries) blast
  have "repl_ok (snd (merge_op (\<sigma> r') (entries (\<sigma> r)))) (set (entries (\<sigma> r')) \<union> set (entries (\<sigma> r)))"
    using ok by (intro repl_ok_merge repl_ok_entries) blast
  then show "repl_ok (snd (merge_op (\<sigma> r') (entries (\<sigma> r)))) ?Q" by (simp add: Un_commute)
  have "set (entries (\<sigma> r)) \<subseteq> R r" for r
    using ok repl_okD(1,3) [of "\<sigma> r" "R r"] by (auto simp: dict_ok_def)
  then have "?Q \<subseteq> I" using ok by blast
  then show "uniq ?Q" using ok unfolding uniq_def by blast
qed

text \<open>Applying a peer's digest is a sequence of deliveries.\<close>

lemma merge_reach:
  "lww_reach st0 apply_op set_op mk \<sigma> I R \<Longrightarrow> set es \<subseteq> I \<Longrightarrow>
     lww_reach st0 apply_op set_op mk (\<sigma>(r := snd (merge_op (\<sigma> r) es))) I (R(r := R r \<union> set es))"
proof (induction es arbitrary: \<sigma> R)
  case (Cons p es)
  obtain k e where p: "p = (k, e)" by force
  have "lww_reach st0 apply_op set_op mk (\<sigma>(r := snd (apply_op (\<sigma> r) k e))) I (R(r := insert (k, e) (R r)))"
    using Cons.prems by (intro lww_reach.deliver) (auto simp: p)
  from Cons.IH [OF this] Cons.prems(2) show ?case
    by (simp add: p merge_Cons fun_upd_def cong: if_cong)
qed (simp add: merge_Nil)

text \<open>A local change always wins over what the replica had seen.\<close>

lemma local_wins: "map_of (entries (snd (set_op s k x r))) k = Some (mk x (lclock s + 1) r)"
  by (simp add: entries_local)

end


subsection \<open>Both classes are last-writer-wins maps\<close>

abbreviation drain_mk :: "bool \<Rightarrow> int \<Rightarrow> replica \<Rightarrow> drain_entry" where
  "drain_mk d ts o' \<equiv> (d, ts, o')"

abbreviation member_mk :: "bool \<times> string \<times> string \<Rightarrow> int \<Rightarrow> replica \<Rightarrow> member_entry" where
  "member_mk x ts o' \<equiv> (fst x, fst (snd x), snd (snd x), ts, o')"

lemmas drain_defs = drain_apply_def drain_set_local_def drain_observe_def drain_tick_def
  DrainState_init_def lww_put_def
lemmas member_defs = member_apply_def member_set_local_def member_observe_def member_tick_def
  MembershipState_init_def lww_put_def

interpretation drains: lww DrainState_init drain_apply drain_set_local drain_mk "\<lambda>(d, ts, o'). (ts, o')"
  ds_map ds_clock drain_merge
  by unfold_locales
     (auto simp: drain_defs Let_def max_def split: option.splits prod.splits)

interpretation members: lww MembershipState_init member_apply member_set_local member_mk
  "\<lambda>(p, u, m, ts, o'). (ts, o')" ms_map ms_clock member_merge
  by unfold_locales
     (auto simp: member_defs Let_def max_def split: option.splits prod.splits)

abbreviation drain_reach where
  "drain_reach \<equiv> lww_reach DrainState_init drain_apply drain_set_local drain_mk"

abbreviation member_reach where
  "member_reach \<equiv> lww_reach MembershipState_init member_apply member_set_local member_mk"

lemma drained_map: "dict_ok (ds_map s) \<Longrightarrow> b \<in> drained s \<longleftrightarrow> (\<exists>ts o'. map_of (ds_map s) b = Some (True, ts, o'))"
  by (force simp: drained_def dict_ok_def)

lemma member_present_map:
  "dict_ok (ms_map s) \<Longrightarrow>
     (b, u, m) \<in> set (member_present s) \<longleftrightarrow> (\<exists>ts o'. map_of (ms_map s) b = Some (True, u, m, ts, o'))"
  by (force simp: member_present_def dict_ok_def)

lemma member_removed_map:
  "dict_ok (ms_map s) \<Longrightarrow>
     b \<in> member_removed s \<longleftrightarrow> (\<exists>u m ts o'. map_of (ms_map s) b = Some (False, u, m, ts, o'))"
  by (force simp: member_removed_def dict_ok_def)

lemma drain_digest_entries [simp]: "drain_digest s = ds_map s"
  by (simp add: drain_digest_def)

lemma member_digest_entries [simp]: "member_digest s = ms_map s"
  by (simp add: member_digest_def)

lemma drain_reach_dict_ok: "drain_reach \<sigma> I R \<Longrightarrow> dict_ok (ds_map (\<sigma> r))"
  using drains.reach_ok drains.repl_okD(1) by blast

lemma member_reach_dict_ok: "member_reach \<sigma> I R \<Longrightarrow> dict_ok (ms_map (\<sigma> r))"
  using members.reach_ok members.repl_okD(1) by blast

lemma drained_cong:
  "dict_ok (ds_map s) \<Longrightarrow> dict_ok (ds_map s') \<Longrightarrow> map_of (ds_map s) = map_of (ds_map s') \<Longrightarrow> drained s = drained s'"
  by (auto simp: drained_map)

lemma drain_merge_ok: "dict_ok (ds_map s) \<Longrightarrow> dict_ok (ds_map (snd (drain_merge s es)))"
proof (induction es arbitrary: s)
  case (Cons p es)
  obtain b e where p: "p = (b, e)" by (cases p)
  show ?case using Cons.IH [OF drains.entries_ok [OF Cons.prems, of b e]] by (simp only: p drains.merge_Cons)
qed simp

lemma drain_start: "drain_reach (\<lambda>_. DrainState_init) {} (\<lambda>_. {})"
  by (rule lww_reach.start)

lemma member_start: "member_reach (\<lambda>_. MembershipState_init) {} (\<lambda>_. {})"
  by (rule lww_reach.start)

lemma drained_reach:
  assumes "drain_reach \<sigma> I R"
  shows "drained (\<sigma> r) = {b. \<exists>v. (b, True, v) \<in> R r \<and> (\<forall>d v'. (b, d, v') \<in> R r \<longrightarrow> v' \<le> v)}"
proof (intro set_eqI iffI CollectI)
  have ok: "drains.repl_ok (\<sigma> r) (R r)" and u: "drains.uniq I" "R r \<subseteq> I" using drains.reach_ok [OF assms] by blast+
  note D = drains.repl_okD [OF ok] and m = drained_map [OF drain_reach_dict_ok [OF assms, of r]]
  fix b
  {
    assume "b \<in> drained (\<sigma> r)"
    then obtain ts q where e: "map_of (ds_map (\<sigma> r)) b = Some (True, ts, q)" by (auto simp: m)
    have "v' \<le> (ts, q)" if "(b, d, v') \<in> R r" for d v' using D(4) [OF e that] by (cases v') simp
    then show "\<exists>v. (b, True, v) \<in> R r \<and> (\<forall>d v'. (b, d, v') \<in> R r \<longrightarrow> v' \<le> v)" using D(3) [OF e] by blast
  next
    assume "b \<in> {b. \<exists>v. (b, True, v) \<in> R r \<and> (\<forall>d v'. (b, d, v') \<in> R r \<longrightarrow> v' \<le> v)}"
    then obtain v where v: "(b, True, v) \<in> R r" "\<And>d v'. (b, d, v') \<in> R r \<Longrightarrow> v' \<le> v" by blast
    obtain c where c: "map_of (ds_map (\<sigma> r)) b = Some c" using D(5) [of b] v(1) by (cases "map_of (ds_map (\<sigma> r)) b") auto
    have "snd c = v" using D(4) [OF c v(1)] v(2) [of "fst c" "snd c"] D(3) [OF c] by (cases v; cases c) (auto split: prod.splits)
    then have "c = (True, v)" using u D(3) [OF c] v(1) unfolding drains.uniq_def by (cases v; cases c) (fastforce split: prod.splits)
    then show "b \<in> drained (\<sigma> r)" using c by (cases v) (auto simp: m)
  }
qed

text \<open>
  C13. Drain decisions converge to the latest: in any run of a fleet in which replicas drain and undrain backends and receive
  each other's operations late, reordered or several times, a replica holds a backend drained exactly when the operation with the highest version
  (timestamp, then replica) among those that have reached it for the backend is a drain; and two replicas that the same operations have
  reached agree on every entry.
\<close>

theorem drain_convergence:
  assumes "drain_reach \<sigma> I R"
  shows "drained (\<sigma> r) = {b. \<exists>v. (b, True, v) \<in> R r \<and> (\<forall>d v'. (b, d, v') \<in> R r \<longrightarrow> v' \<le> v)} \<and>
    (R r = R r' \<longrightarrow> map_of (ds_map (\<sigma> r)) = map_of (ds_map (\<sigma> r')) \<and> drained (\<sigma> r) = drained (\<sigma> r'))"
proof (intro conjI impI)
  show "drained (\<sigma> r) = {b. \<exists>v. (b, True, v) \<in> R r \<and> (\<forall>d v'. (b, d, v') \<in> R r \<longrightarrow> v' \<le> v)}" by (rule drained_reach [OF assms])
  assume "R r = R r'"
  then show eq: "map_of (ds_map (\<sigma> r)) = map_of (ds_map (\<sigma> r'))" by (rule drains.converge [OF assms])
  note ok = drain_reach_dict_ok [OF assms]
  show "drained (\<sigma> r) = drained (\<sigma> r')" by (rule drained_cong [OF ok ok eq])
qed

text \<open>A run of two replicas: the first drains a backend, the second undrains it unaware, each hears of the other.\<close>

lemma demo_drain_run:
  "drain_reach
     ((\<lambda>_. DrainState_init)
        (''r1'' := \<lparr>ds_map = [(''b0'', False, 1, ''r2'')], ds_clock = 1\<rparr>,
         ''r2'' := \<lparr>ds_map = [(''b0'', False, 1, ''r2'')], ds_clock = 1\<rparr>))
     {(''b0'', False, 1, ''r2''), (''b0'', True, 1, ''r1'')}
     ((\<lambda>_. {})(''r1'' := {(''b0'', False, 1, ''r2''), (''b0'', True, 1, ''r1'')},
              ''r2'' := {(''b0'', False, 1, ''r2''), (''b0'', True, 1, ''r1'')}))"
  (is "drain_reach ?S ?I ?R")
proof -
  let ?op1 = "(''b0'', True, 1, ''r1'')" and ?op2 = "(''b0'', False, 1, ''r2'')"
  let ?s1 = "\<lparr>ds_map = [?op1], ds_clock = 1\<rparr>" and ?s2 = "\<lparr>ds_map = [?op2], ds_clock = 1\<rparr>"
  have "drain_reach ((\<lambda>_. DrainState_init)(''r1'' := ?s1)) (insert ?op1 {}) ((\<lambda>_. {})(''r1'' := insert ?op1 {}))"
    using lww_reach.set_local [OF drain_start, where r = "''r1''" and k = "''b0''"
        and x = True and ts = 1 and s' = ?s1]
    by (simp add: drain_defs)
  from lww_reach.set_local [OF this, where r = "''r2''" and k = "''b0''" and x = False and ts = 1 and s' = ?s2]
  have 2: "drain_reach ((\<lambda>_. DrainState_init)(''r1'' := ?s1, ''r2'' := ?s2)) (insert ?op2 (insert ?op1 {}))
     ((\<lambda>_. {})(''r1'' := insert ?op1 {}, ''r2'' := insert ?op2 {}))"
    by (simp add: drain_defs)
  from lww_reach.deliver [OF this, of "''b0''" "(False, 1, ''r2'')" "''r1''"]
  have 3: "drain_reach ((\<lambda>_. DrainState_init)(''r2'' := ?s2, ''r1'' := ?s2)) (insert ?op2 (insert ?op1 {}))
     ((\<lambda>_. {})(''r2'' := insert ?op2 {}, ''r1'' := insert ?op2 (insert ?op1 {})))"
    by (simp add: drain_defs fun_upd_def cong: if_cong)
  from lww_reach.deliver [OF this, of "''b0''" "(True, 1, ''r1'')" "''r2''"]
  show ?thesis by (simp add: drain_defs fun_upd_def insert_commute cong: if_cong)
qed

theorem drain_convergence_witness:
  "drained \<lparr>ds_map = [(''b0'', False, 1, ''r2'')], ds_clock = 1\<rparr> =
     {b. \<exists>v. (b, True, v) \<in> {(''b0'', False, 1 :: int, ''r2''), (''b0'', True, 1, ''r1'')} \<and>
        (\<forall>d v'. (b, d, v') \<in> {(''b0'', False, 1, ''r2''), (''b0'', True, 1, ''r1'')} \<longrightarrow> v' \<le> v)}"
  using drain_convergence [OF demo_drain_run, of "''r1''" "''r2''"] by simp

text \<open>
  Anti-entropy heals the fleet: whatever two replicas missed of each other's history, after
  each has merged the other's digest they have the same drain map and drained set.
\<close>

theorem drain_digest_exchange:
  assumes "drain_reach \<sigma> I R"
  shows "drained (snd (drain_merge (\<sigma> r) (drain_digest (\<sigma> r')))) =
         drained (snd (drain_merge (\<sigma> r') (drain_digest (\<sigma> r))))"
  unfolding drain_digest_entries
  by (intro drained_cong drain_merge_ok drain_reach_dict_ok [OF assms] drains.exchange [OF assms])

theorem drain_digest_exchange_witness:
  "drained (snd (drain_merge \<lparr>ds_map = [(''b0'', False, 1, ''r2'')], ds_clock = 1\<rparr> (drain_digest DrainState_init))) =
   drained (snd (drain_merge DrainState_init (drain_digest \<lparr>ds_map = [(''b0'', False, 1, ''r2'')], ds_clock = 1\<rparr>)))"
  using drain_digest_exchange [OF demo_drain_run, of "''r1''" "''r3''"] by simp

text \<open>
  Fleet membership converges: two replicas that the same add and remove operations have
  reached agree on the runtime backends with their address and model and on the tombstones.
\<close>

theorem member_convergence:
  assumes "member_reach \<sigma> I R" and "R r = R r'"
  shows "set (member_present (\<sigma> r)) = set (member_present (\<sigma> r')) \<and> member_removed (\<sigma> r) = member_removed (\<sigma> r')"
proof -
  have eq: "map_of (ms_map (\<sigma> r)) = map_of (ms_map (\<sigma> r'))" by (rule members.converge [OF assms])
  note ok = member_reach_dict_ok [OF assms(1)]
  have "x \<in> set (member_present (\<sigma> r)) \<longleftrightarrow> x \<in> set (member_present (\<sigma> r'))" for x
    by (cases x) (simp add: member_present_map [OF ok] eq)
  moreover have "x \<in> member_removed (\<sigma> r) \<longleftrightarrow> x \<in> member_removed (\<sigma> r')" for x
    by (simp add: member_removed_map [OF ok] eq)
  ultimately show ?thesis by blast
qed

lemma demo_member_run:
  "member_reach ((\<lambda>_. MembershipState_init)(''r1'' := \<lparr>ms_map = [(''b7'', True, ''u'', ''m'', 1, ''r1'')], ms_clock = 1\<rparr>))
     {(''b7'', True, ''u'', ''m'', 1, ''r1'')} ((\<lambda>_. {})(''r1'' := {(''b7'', True, ''u'', ''m'', 1, ''r1'')}))"
  using lww_reach.set_local [OF member_start, where r = "''r1''" and k = "''b7''"
      and x = "(True, ''u'', ''m'')" and ts = 1 and s' = "\<lparr>ms_map = [(''b7'', True, ''u'', ''m'', 1, ''r1'')], ms_clock = 1\<rparr>"]
  by (simp add: member_defs)

theorem member_convergence_witness:
  "set (member_present MembershipState_init) = {}"
  using member_convergence [OF demo_member_run, of "''r2''" "''r3''"]
  by (simp add: member_present_def MembershipState_init_def)

end
