(* ===== verification/Lru.thy ===== *)
theory Lru
  imports Gw_Prelude
begin

section \<open>Least-recently-used tables\<close>

text \<open>
  The idiom the session table and the chunk and media indexes share: an \<open>OrderedDict\<close> in which a
  use moves the key to the end and overflow pops from the front.  The locale \<open>lru_index\<close> is the
  contract of the per-backend indexes, with its consequence that an index holds exactly the most
  recently used keys.
\<close>

text \<open>\<open>d[k] = v; d.move_to_end(k)\<close>.\<close>

definition lru_touch :: "('k, 'v) dict \<Rightarrow> 'k \<Rightarrow> 'v \<Rightarrow> ('k, 'v) dict" where
  "lru_touch d k v = AList.delete k d @ [(k, v)]"

text \<open>\<open>while len(d) > cap: d.popitem(last=False)\<close>; popping from an empty table raises.\<close>

fun lru_trim :: "int \<Rightarrow> ('k, 'v) dict \<Rightarrow> ('k, 'v) dict result" where
  "lru_trim cap [] = (if 0 > cap then Inl KeyError else Inr [])"
| "lru_trim cap (e # d) = (if int (length (e # d)) > cap then lru_trim cap d else Inr (e # d))"

definition lastn :: "nat \<Rightarrow> 'a list \<Rightarrow> 'a list" where
  "lastn n xs = drop (length xs - n) xs"

lemma lru_trim_lastn: "0 \<le> cap \<Longrightarrow> lru_trim cap d = Inr (lastn (nat cap) d)"
proof (induction d)
  case (Cons e d)
  show ?case
  proof (cases "int (length (e # d)) > cap")
    case True
    then have "length (e # d) - nat cap = Suc (length d - nat cap)" by simp
    then show ?thesis using True Cons by (simp add: lastn_def)
  next
    case False
    then have "length (e # d) - nat cap = 0" by simp
    then show ?thesis using False by (simp add: lastn_def)
  qed
qed (simp add: lastn_def)

lemma length_lastn [simp]: "length (lastn n xs) = min n (length xs)"
  by (simp add: lastn_def)

lemma lastn_all: "length xs \<le> n \<Longrightarrow> lastn n xs = xs"
  by (simp add: lastn_def)

lemma lastn_append_right: "n \<le> length ys \<Longrightarrow> lastn n (xs @ ys) = lastn n ys"
  by (simp add: lastn_def)

lemma lastn_append_left: "length ys \<le> n \<Longrightarrow> lastn n (xs @ ys) = lastn (n - length ys) xs @ ys"
  by (simp add: lastn_def)

lemma lastn_suffix: "\<exists>zs. xs = zs @ lastn n xs"
  by (metis append_take_drop_id lastn_def)

lemma map_lastn: "map f (lastn n xs) = lastn n (map f xs)"
  by (simp add: lastn_def drop_map)

lemma set_lastn: "set (lastn n xs) \<subseteq> set xs"
  by (simp add: lastn_def set_drop_subset)

lemma distinct_lastn: "distinct xs \<Longrightarrow> distinct (lastn n xs)"
  by (simp add: lastn_def)

lemma keys_touch: "map fst (lru_touch d k v) = filter (\<lambda>x. x \<noteq> k) (map fst d) @ [k]"
  by (induction d) (auto simp: lru_touch_def AList.delete_eq)

lemma remdups_snoc: "remdups (xs @ [k]) = filter (\<lambda>x. x \<noteq> k) (remdups xs) @ [k]"
  by (induction xs) auto

lemma remdups_append_filter: "remdups (xs @ ys) = filter (\<lambda>x. x \<notin> set ys) (remdups xs) @ remdups ys"
  by (induction xs) auto

text \<open>Using several keys in a row leaves them at the end, in the order of their last use.\<close>

lemma keys_touch_all:
  "distinct (map fst d) \<Longrightarrow>
     map fst (foldl (\<lambda>d k. lru_touch d k v) d ks) = remdups (map fst d @ ks)"
proof (induction ks rule: rev_induct)
  case Nil
  then show ?case by (simp add: distinct_remdups_id)
next
  case (snoc k ks)
  then show ?case by (simp add: keys_touch remdups_snoc flip: append_assoc)
qed

text \<open>Trimming before more keys are used does not change what is kept in the end.\<close>

lemma lastn_remdups_append:
  assumes "distinct xs"
  shows "lastn n (remdups (lastn n xs @ ks)) = lastn n (remdups (xs @ ks))"
proof (cases "length xs \<le> n")
  case True
  then show ?thesis by (simp add: lastn_all)
next
  case False
  obtain zs where zs: "xs = zs @ lastn n xs" using lastn_suffix by blast
  let ?L = "lastn n xs" and ?P = "\<lambda>x. x \<notin> set ks"
  have dL: "distinct ?L" by (rule distinct_lastn [OF assms])
  have len: "length ?L = n" using False by simp
  have "length (filter (\<lambda>x. \<not> ?P x) ?L) = card (set (filter (\<lambda>x. \<not> ?P x) ?L))"
    by (rule distinct_card [OF distinct_filter [OF dL], symmetric])
  also have "\<dots> \<le> card (set ks)" by (rule card_mono) auto
  finally have "n \<le> length (filter ?P ?L @ remdups ks)"
    using sum_length_filter_compl [of ?P ?L] len by (simp add: length_remdups_card_conv)
  then have "lastn n (filter ?P zs @ (filter ?P ?L @ remdups ks)) = lastn n (filter ?P ?L @ remdups ks)"
    by (rule lastn_append_right)
  moreover have "remdups (xs @ ks) = filter ?P zs @ (filter ?P ?L @ remdups ks)"
    using zs assms by (metis append_assoc distinct_remdups_id filter_append remdups_append_filter)
  moreover have "remdups (?L @ ks) = filter ?P ?L @ remdups ks"
    using dL by (simp add: remdups_append_filter distinct_remdups_id)
  ultimately show ?thesis by simp
qed


subsection \<open>Per-backend indexes\<close>

text \<open>
  The body of \<open>record\<close>, \<open>overlap\<close> and \<open>remove_backend\<close> that the chunk and the media index share: a
  table of least-recently-used sets by backend.
\<close>

type_synonym 'k lru_sets = "(string, ('k, unit) dict) dict"

definition sets_record :: "int \<Rightarrow> 'k lru_sets \<Rightarrow> string \<Rightarrow> 'k list \<Rightarrow> 'k lru_sets result" where
  "sets_record cap d b ids =
     (let c = dget d b []; c' = foldl (\<lambda>c k. lru_touch c k ()) c ids
      in res_bind (lru_trim cap c') (\<lambda>c''. Inr (AList.update b c'' d)))"

definition sets_keys :: "'k lru_sets \<Rightarrow> string \<Rightarrow> 'k list" where
  "sets_keys d b = map fst (dget d b [])"

definition sets_overlap :: "'k lru_sets \<Rightarrow> string \<Rightarrow> 'k list \<Rightarrow> nat" where
  "sets_overlap d b ids = length (filter (\<lambda>k. k \<in> set (sets_keys d b)) ids)"

definition sets_ok :: "'k lru_sets \<Rightarrow> bool" where
  "sets_ok d \<longleftrightarrow> (\<forall>b. distinct (sets_keys d b))"

lemma sets_record_spec:
  assumes "0 \<le> cap" and "sets_ok d"
  shows "\<exists>d'. sets_record cap d b ids = Inr d' \<and> sets_ok d' \<and>
    (\<forall>b'. sets_keys d' b' = (if b' = b then lastn (nat cap) (remdups (sets_keys d b @ ids)) else sets_keys d b'))"
proof -
  let ?c = "foldl (\<lambda>c k. lru_touch c k ()) (dget d b []) ids"
  let ?d = "AList.update b (lastn (nat cap) ?c) d"
  have k: "map fst ?c = remdups (sets_keys d b @ ids)"
    using keys_touch_all [of "dget d b []" "()" ids] assms(2) by (simp add: sets_ok_def sets_keys_def)
  have "sets_record cap d b ids = Inr ?d" by (simp add: sets_record_def Let_def lru_trim_lastn [OF assms(1)])
  moreover have "sets_keys ?d b' = (if b' = b then lastn (nat cap) (remdups (sets_keys d b @ ids)) else sets_keys d b')" for b'
    using k by (simp add: sets_keys_def map_lastn)
  moreover from this have "sets_ok ?d" using assms(2) by (simp add: sets_ok_def distinct_lastn)
  ultimately show ?thesis by blast
qed

lemma sets_forget:
  "sets_keys (AList.delete b d) b' = (if b' = b then [] else sets_keys d b')"
  "sets_ok d \<Longrightarrow> sets_ok (AList.delete b d)"
  by (simp_all add: sets_keys_def sets_ok_def)

datatype 'k index_op = Record string "'k list" | Forget string

text \<open>The keys recorded for a backend since it was last removed, oldest first; the history is newest last.\<close>

definition recorded :: "string \<Rightarrow> 'k index_op list \<Rightarrow> 'k list" where
  "recorded b ops = foldl (\<lambda>ks x. case x of Record b' ids \<Rightarrow> if b' = b then ks @ ids else ks
     | Forget b' \<Rightarrow> if b' = b then [] else ks) [] ops"

lemma recorded_snoc:
  "recorded b (ops @ [x]) = (case x of Record b' ids \<Rightarrow> if b' = b then recorded b ops @ ids else recorded b ops
     | Forget b' \<Rightarrow> if b' = b then [] else recorded b ops)"
  unfolding recorded_def by (cases x) simp_all

locale lru_index =
  fixes empty_index :: "int \<Rightarrow> 's"
    and record_op :: "'s \<Rightarrow> string \<Rightarrow> 'k list \<Rightarrow> 's result"
    and forget_op :: "'s \<Rightarrow> string \<Rightarrow> 's"
    and held :: "'s \<Rightarrow> string \<Rightarrow> 'k list"
    and cap_of :: "'s \<Rightarrow> int"
    and index_ok :: "'s \<Rightarrow> bool"
  assumes ok_empty: "index_ok (empty_index c)"
    and cap_empty: "cap_of (empty_index c) = c"
    and held_empty: "held (empty_index c) b = []"
    and record_ok: "index_ok s \<Longrightarrow> 0 \<le> cap_of s \<Longrightarrow>
      \<exists>s'. record_op s b ids = Inr s' \<and> index_ok s' \<and> cap_of s' = cap_of s \<and>
        (\<forall>b'. held s' b' = (if b' = b then lastn (nat (cap_of s)) (remdups (held s b @ ids)) else held s b'))"
    and forget_ok: "index_ok s \<Longrightarrow> index_ok (forget_op s b) \<and> cap_of (forget_op s b) = cap_of s \<and>
      (\<forall>b'. held (forget_op s b) b' = (if b' = b then [] else held s b'))"
begin

fun index_step :: "'s \<Rightarrow> 'k index_op \<Rightarrow> 's" where
  "index_step s (Record b ids) = (case record_op s b ids of Inr s' \<Rightarrow> s' | Inl _ \<Rightarrow> s)"
| "index_step s (Forget b) = forget_op s b"

lemma index_run:
  assumes "0 \<le> c"
  shows "index_ok (foldl index_step (empty_index c) ops) \<and> cap_of (foldl index_step (empty_index c) ops) = c \<and>
    (\<forall>b. held (foldl index_step (empty_index c) ops) b = lastn (nat c) (remdups (recorded b ops)))"
proof (induction ops rule: rev_induct)
  case Nil
  then show ?case by (simp add: ok_empty cap_empty held_empty recorded_def lastn_def)
next
  case (snoc x ops)
  let ?s = "foldl index_step (empty_index c) ops"
  have s: "index_ok ?s" "cap_of ?s = c" and h: "held ?s b = lastn (nat c) (remdups (recorded b ops))" for b
    using snoc by auto
  show ?case
  proof (cases x)
    case (Record b ids)
    obtain s' where s': "record_op ?s b ids = Inr s'" "index_ok s'" "cap_of s' = c"
      "\<forall>b'. held s' b' = (if b' = b then lastn (nat c) (remdups (held ?s b @ ids)) else held ?s b')"
      using record_ok [of ?s b ids] s assms by auto
    have "lastn (nat c) (remdups (lastn (nat c) (remdups (recorded b ops)) @ ids)) =
        lastn (nat c) (remdups (recorded b ops @ ids))"
      using lastn_remdups_append [of "remdups (recorded b ops)" "nat c" ids]
      by (simp add: remdups_append_filter distinct_remdups_id)
    then show ?thesis using s' h by (auto simp: Record recorded_snoc)
  next
    case (Forget b)
    then show ?thesis using forget_ok [of ?s b] s h by (auto simp: recorded_snoc lastn_def)
  qed
qed

end

end
