(* ===== verification/Rag.thy ===== *)
theory Rag
  imports Lru Json Config Hashing Load_Tracker
begin

section \<open>Retrieval-augmented requests\<close>

text \<open>
  \<^verbatim>\<open>gateway/rag\<close>: the structured prompt, the canonical order of its chunks, the chunk cache index
  of every backend and the routing by chunk overlap.
\<close>


subsection \<open>Configuration\<close>

record RagConfig =
  enabled :: bool
  request_field :: string
  canonicalize :: bool
  tokens_per_chunk :: int
  prefill_ms_per_token :: pyfloat
  service_ms_per_request :: pyfloat
  max_inflight :: int
  cache_capacity_chunks :: int

definition RagConfig_fields :: fields where
  "RagConfig_fields =
     [(''enabled'', CBool False),
      (''request_field'', CStr ''rag''),
      (''canonicalize'', CBool True),
      (''tokens_per_chunk'', CInt 256),
      (''prefill_ms_per_token'', CRat 0.05),
      (''service_ms_per_request'', CRat 200),
      (''max_inflight'', CInt 64),
      (''cache_capacity_chunks'', CInt 4096)]"

definition RagConfig_of :: "fields \<Rightarrow> RagConfig" where
  "RagConfig_of d =
     \<lparr>enabled = bool_field d ''enabled'',
      request_field = str_field d ''request_field'',
      canonicalize = bool_field d ''canonicalize'',
      tokens_per_chunk = int_field d ''tokens_per_chunk'',
      prefill_ms_per_token = float_field d ''prefill_ms_per_token'',
      service_ms_per_request = float_field d ''service_ms_per_request'',
      max_inflight = int_field d ''max_inflight'',
      cache_capacity_chunks = int_field d ''cache_capacity_chunks''\<rparr>"

definition RagConfig_from_env :: "environ \<Rightarrow> RagConfig result" where
  "RagConfig_from_env env = load_config ''GW_RAG_'' RagConfig_fields RagConfig_of env"


subsection \<open>The chunk index\<close>

record ChunkAffinityIndex =
  chunk_capacity :: int
  chunk_sets :: "block_hash lru_sets"

definition ChunkAffinityIndex_init :: "int \<Rightarrow> ChunkAffinityIndex" where
  "ChunkAffinityIndex_init cap = \<lparr>chunk_capacity = cap, chunk_sets = []\<rparr>"

definition chunk_record :: "ChunkAffinityIndex \<Rightarrow> string \<Rightarrow> block_hash list \<Rightarrow> ChunkAffinityIndex result" where
  "chunk_record x b ids =
     res_bind (sets_record (chunk_capacity x) (chunk_sets x) b ids) (\<lambda>d. Inr (x\<lparr>chunk_sets := d\<rparr>))"

definition chunk_overlap :: "ChunkAffinityIndex \<Rightarrow> string \<Rightarrow> block_hash list \<Rightarrow> nat" where
  "chunk_overlap x b ids = sets_overlap (chunk_sets x) b ids"

definition cached_fraction :: "ChunkAffinityIndex \<Rightarrow> string \<Rightarrow> block_hash list \<Rightarrow> pyfloat" where
  "cached_fraction x b ids = (if ids = [] then 0 else of_nat (chunk_overlap x b ids) / of_nat (length ids))"

definition chunk_remove_backend :: "ChunkAffinityIndex \<Rightarrow> string \<Rightarrow> ChunkAffinityIndex" where
  "chunk_remove_backend x b = x\<lparr>chunk_sets := AList.delete b (chunk_sets x)\<rparr>"

definition chunk_held :: "ChunkAffinityIndex \<Rightarrow> string \<Rightarrow> block_hash list" where
  "chunk_held x b = sets_keys (chunk_sets x) b"

interpretation chunks: lru_index ChunkAffinityIndex_init chunk_record chunk_remove_backend chunk_held chunk_capacity
  "\<lambda>x. sets_ok (chunk_sets x)"
proof unfold_locales
  fix s :: ChunkAffinityIndex and b ids
  assume "sets_ok (chunk_sets s)" "0 \<le> chunk_capacity s"
  then show "\<exists>s'. chunk_record s b ids = Inr s' \<and> sets_ok (chunk_sets s') \<and> chunk_capacity s' = chunk_capacity s \<and>
      (\<forall>b'. chunk_held s' b' = (if b' = b then lastn (nat (chunk_capacity s)) (remdups (chunk_held s b @ ids)) else chunk_held s b'))"
    using sets_record_spec [of "chunk_capacity s" "chunk_sets s" b ids] by (auto simp: chunk_record_def chunk_held_def)
qed (simp_all add: ChunkAffinityIndex_init_def chunk_held_def sets_ok_def sets_keys_def chunk_remove_backend_def)


subsection \<open>The prompt\<close>

definition chunk_id :: "string \<Rightarrow> block_hash" where
  "chunk_id s = stable_seed s"

record RagPrompt =
  rag_system :: string
  rag_chunks :: "string list"
  rag_query :: string

definition jstr_or :: "(string \<times> json) list \<Rightarrow> string \<Rightarrow> string result" where
  "jstr_or d k = (case map_of d k of None \<Rightarrow> Inr [] | Some v \<Rightarrow> py_str v)"

fun nonempty_str :: "json \<Rightarrow> string option" where
  "nonempty_str (JStr (c # s)) = Some (c # s)"
| "nonempty_str _ = None"

definition parse_rag_request :: "(string \<times> json) list \<Rightarrow> string \<Rightarrow> RagPrompt option result" where
  "parse_rag_request body field =
     (case map_of body field of
        Some (JObj payload) \<Rightarrow>
          (case map_of payload ''chunks'' of
             Some (JArr cs) \<Rightarrow>
               (let clean = List.map_filter nonempty_str cs in
                if clean = [] then Inr None
                else res_bind (jstr_or payload ''system'') (\<lambda>sy. res_bind (jstr_or payload ''query'') (\<lambda>q.
                  Inr (Some \<lparr>rag_system = sy, rag_chunks = clean, rag_query = q\<rparr>))))
           | _ \<Rightarrow> Inr None)
      | _ \<Rightarrow> Inr None)"

text \<open>\<open>seen.setdefault(chunk_id(c), c)\<close> over the chunks, then the values in the order of the ids.\<close>

fun seen_loop :: "string list \<Rightarrow> (block_hash, string) dict \<Rightarrow> (block_hash, string) dict" where
  "seen_loop [] d = d"
| "seen_loop (c # cs) d =
     seen_loop cs (if map_of d (chunk_id c) = None then AList.update (chunk_id c) c d else d)"

definition canonicalize_chunks :: "string list \<Rightarrow> string list" where
  "canonicalize_chunks cs =
     (let seen = seen_loop cs [] in map (\<lambda>k. the (map_of seen k)) (sort (dkeys seen)))"

definition chunk_ids :: "string list \<Rightarrow> block_hash list" where
  "chunk_ids cs = map chunk_id cs"

fun join_blank :: "string list \<Rightarrow> string" where
  "join_blank [] = []"
| "join_blank [s] = s"
| "join_blank (s # ss) = s @ [CHR 0x0A, CHR 0x0A] @ join_blank ss"

definition message :: "string \<Rightarrow> string \<Rightarrow> json" where
  "message role content = JObj [(''role'', JStr role), (''content'', JStr content)]"

definition build_messages :: "RagPrompt \<Rightarrow> string list \<Rightarrow> json list" where
  "build_messages rag ordered =
     (let context = join_blank ordered;
          sys = (if rag_system rag = [] then context else rag_system rag @ [CHR 0x0A, CHR 0x0A] @ context)
      in [message ''system'' sys, message ''user'' (rag_query rag)])"


subsection \<open>Routing\<close>

record RagRouteResult =
  rr_backend :: string
  rr_overlap :: nat
  rr_total :: nat
  rr_est :: pyfloat

definition rag_est :: "ChunkAffinityIndex \<Rightarrow> LoadTracker \<Rightarrow> RagConfig \<Rightarrow> block_hash list \<Rightarrow> string \<Rightarrow> pyfloat" where
  "rag_est x l c ids b =
     (let ov = chunk_overlap x b ids;
          uncached_tokens = max 0 (int (length ids) - int ov) * tokens_per_chunk c
      in prefill_ms_per_token c * of_int uncached_tokens +
         of_int (dget (inflight l) b 0) * service_ms_per_request c)"

definition rag_eligible :: "LoadTracker \<Rightarrow> RagConfig \<Rightarrow> string list \<Rightarrow> string list" where
  "rag_eligible l c backs =
     (let e = filter (\<lambda>b. dget (inflight l) b 0 \<le> max_inflight c) backs in if e = [] then backs else e)"

definition choose_rag_backend ::
  "block_hash list \<Rightarrow> string list \<Rightarrow> ChunkAffinityIndex \<Rightarrow> LoadTracker \<Rightarrow> RagConfig \<Rightarrow> RagRouteResult option"
where
  "choose_rag_backend ids backs x l c =
     (case argmin_loop (rag_est x l c ids) (rag_eligible l c backs) None of
        None \<Rightarrow> None
      | Some (b, cost) \<Rightarrow>
          Some \<lparr>rr_backend = b, rr_overlap = chunk_overlap x b ids, rr_total = length ids, rr_est = cost\<rparr>)"


subsection \<open>Properties\<close>

definition chunk_step :: "ChunkAffinityIndex \<Rightarrow> block_hash index_op \<Rightarrow> ChunkAffinityIndex" where
  "chunk_step x op =
     (case op of
        Record b ids \<Rightarrow> (case chunk_record x b ids of Inr x' \<Rightarrow> x' | Inl _ \<Rightarrow> x)
      | Forget b \<Rightarrow> chunk_remove_backend x b)"

lemma chunk_step_eq: "chunks.index_step = chunk_step"
proof (intro ext)
  fix x op show "chunks.index_step x op = chunk_step x op" by (cases op) (simp_all add: chunk_step_def)
qed

text \<open>
  The chunk index believes exactly what a least-recently-used cache of its capacity holds:
  after any history of served requests and backend removals, the chunks of a backend are the most
  recently recorded distinct ones since its last removal, as many as the capacity allows.
\<close>

theorem chunk_index_lru:
  assumes "0 \<le> cap"
  shows "chunk_held (foldl chunk_step (ChunkAffinityIndex_init cap) ops) b = lastn (nat cap) (remdups (recorded b ops))"
  using chunks.index_run [OF assms, of ops] by (simp add: chunk_step_eq)

theorem chunk_index_lru_witness:
  "chunk_held (foldl chunk_step (ChunkAffinityIndex_init 2) [Record ''b0'' [1, 2], Record ''b0'' [1, 3]]) ''b0'' = [1, 3]"
  using chunk_index_lru [of 2 "[Record ''b0'' [1, 2], Record ''b0'' [1, 3]]" "''b0''"]
  by (simp add: recorded_def lastn_def numeral_2_eq_2)

lemma seen_loop_lookup:
  "map_of (seen_loop cs d) k =
     (case map_of d k of Some c \<Rightarrow> Some c | None \<Rightarrow> find (\<lambda>c. chunk_id c = k) cs)"
  by (induction cs arbitrary: d) (auto split: option.splits)

lemma seen_loop_ok: "dict_ok d \<Longrightarrow> dict_ok (seen_loop cs d)"
  by (induction cs arbitrary: d) auto

lemma set_seen_keys: "set (dkeys (seen_loop cs d)) = set (dkeys d) \<union> chunk_id ` set cs"
  by (induction cs arbitrary: d) (auto simp: map_of_None_dkeys)

lemma find_unique:
  assumes "inj_on chunk_id (set cs)" and "c \<in> set cs"
  shows "find (\<lambda>x. chunk_id x = chunk_id c) cs = Some c"
  using assms by (induction cs) (auto simp: inj_on_def)

lemma sorted_distinct_keys:
  "sort (dkeys (seen_loop cs [])) = sorted_list_of_set (chunk_id ` set cs)"
proof (rule sorted_distinct_set_unique)
  show "distinct (sort (dkeys (seen_loop cs [])))"
    using seen_loop_ok [of "[]" cs] by (simp add: dict_ok_def dkeys_def)
  show "set (sort (dkeys (seen_loop cs []))) = set (sorted_list_of_set (chunk_id ` set cs))"
    by (simp add: set_seen_keys) (simp add: dkeys_def)
qed simp_all

text \<open>
  Retrieval order does not matter: two requests that retrieved the same set of chunks, in
  any order and with any repetitions, get the same chunk list, hence the same prompt prefix and
  block hashes, as long as no two different chunks of the set have the same id; the list contains
  every chunk once, in increasing order of ids.
\<close>

theorem canonicalize_order_free:
  assumes "set cs = set cs'" and "inj_on chunk_id (set cs)"
  shows "canonicalize_chunks cs = canonicalize_chunks cs' \<and> set (canonicalize_chunks cs) = set cs \<and>
    distinct (canonicalize_chunks cs) \<and> sorted (map chunk_id (canonicalize_chunks cs))"
proof -
  define inv where "inv k = the_inv_into (set cs) chunk_id k" for k
  have can: "canonicalize_chunks ds = map inv (sorted_list_of_set (chunk_id ` set cs))" if "set ds = set cs" for ds
  proof -
    have "the (map_of (seen_loop ds []) k) = inv k" if k: "k \<in> chunk_id ` set cs" for k
    proof -
      obtain c where c: "c \<in> set ds" "k = chunk_id c" using k \<open>set ds = set cs\<close> by auto
      have "inj_on chunk_id (set ds)" using assms(2) \<open>set ds = set cs\<close> by simp
      from find_unique [OF this c(1)] c show ?thesis
        using the_inv_into_f_f [OF assms(2)] \<open>set ds = set cs\<close> by (simp add: seen_loop_lookup inv_def)
    qed
    then show ?thesis using that by (auto simp: canonicalize_chunks_def Let_def sorted_distinct_keys)
  qed
  have id: "chunk_id (inv k) = k" "inv k \<in> set cs" if "k \<in> chunk_id ` set cs" for k
    using that f_the_inv_into_f [OF assms(2)] the_inv_into_into [OF assms(2)] by (auto simp: inv_def)
  let ?c = "canonicalize_chunks cs"
  have ids: "map chunk_id ?c = sorted_list_of_set (chunk_id ` set cs)"
    by (simp add: can comp_def) (rule map_idI, simp add: id)
  then have "distinct (map chunk_id ?c)" by simp
  then have "distinct ?c" unfolding distinct_map by blast
  moreover have "set ?c = set cs"
  proof
    show "set ?c \<subseteq> set cs" using id by (auto simp: can)
    show "set cs \<subseteq> set ?c" using the_inv_into_f_f [OF assms(2)] by (force simp: can inv_def)
  qed
  moreover have "sorted (map chunk_id ?c)" unfolding ids by simp
  ultimately show ?thesis using can [of cs'] can [of cs] assms(1) by simp
qed

theorem canonicalize_order_free_witness:
  "canonicalize_chunks [''doc1'', ''doc2'', ''doc1''] = canonicalize_chunks [''doc2'', ''doc1'']"
proof -
  have "chunk_id ''doc1'' \<noteq> chunk_id ''doc2''" by code_simp
  then have "inj_on chunk_id (set [''doc1'', ''doc2'', ''doc1''])" by (auto simp: inj_on_def)
  with canonicalize_order_free [of "[''doc1'', ''doc2'', ''doc1'']" "[''doc2'', ''doc1'']"] show ?thesis by auto
qed

lemma rag_eligible_ne: "backs \<noteq> [] \<Longrightarrow> rag_eligible l c backs \<noteq> []"
  by (auto simp: rag_eligible_def Let_def)

text \<open>
  C36. A retrieval request goes to the cheapest backend: with at least one backend the chunk
  router always answers, with a backend of the list that is not over its in-flight limit unless
  all are, whose estimated cost is the least among those considered, and with that cost and the
  number of the request's chunks it holds.
\<close>

theorem rag_choice_cheapest:
  assumes "backs \<noteq> []"
  shows "\<exists>r. choose_rag_backend ids backs x l c = Some r \<and> rr_backend r \<in> set (rag_eligible l c backs) \<and>
    set (rag_eligible l c backs) \<subseteq> set backs \<and>
    ((\<exists>b \<in> set backs. dget (inflight l) b 0 \<le> max_inflight c) \<longrightarrow> dget (inflight l) (rr_backend r) 0 \<le> max_inflight c) \<and>
    rr_est r = rag_est x l c ids (rr_backend r) \<and> rr_overlap r = chunk_overlap x (rr_backend r) ids \<and>
    (\<forall>b \<in> set (rag_eligible l c backs). rr_est r \<le> rag_est x l c ids b)"
proof -
  obtain b cost where a: "argmin_loop (rag_est x l c ids) (rag_eligible l c backs) None = Some (b, cost)"
    using argmin_loop_ex [OF rag_eligible_ne [OF assms]] by blast
  note min = argmin_loop_min [OF a]
  have "b \<in> set (rag_eligible l c backs)" by (rule min(2))
  moreover have "set (rag_eligible l c backs) \<subseteq> set backs" by (auto simp: rag_eligible_def Let_def)
  moreover have "dget (inflight l) b 0 \<le> max_inflight c" if "\<exists>b \<in> set backs. dget (inflight l) b 0 \<le> max_inflight c"
    using that min(2) by (auto simp: rag_eligible_def Let_def filter_empty_conv split: if_splits)
  ultimately show ?thesis using a min by (auto simp: choose_rag_backend_def)
qed

theorem rag_choice_cheapest_witness:
  "\<exists>r. choose_rag_backend [7] [''b0'', ''b1''] (ChunkAffinityIndex_init 2) LoadTracker_init (RagConfig_of RagConfig_fields) = Some r"
  using rag_choice_cheapest [of "[''b0'', ''b1'']" "[7]" "ChunkAffinityIndex_init 2" LoadTracker_init "RagConfig_of RagConfig_fields"]
  by blast

end
