(* ===== verification/Multimodal.thy ===== *)
theory Multimodal
  imports Lru Json Config Hashing Load_Tracker
begin

section \<open>Multi-modal requests\<close>

text \<open>
  \<^verbatim>\<open>gateway/multimodal\<close>: the token cost of images and audio, parsing a request with media, the
  media cache index of every backend, and routing by capability and cost.
\<close>


subsection \<open>Configuration\<close>

record MultiModalConfig =
  enabled :: bool
  capabilities :: string
  request_field_messages :: string
  chars_per_token :: int
  default_image_width :: int
  default_image_height :: int
  image_base_tokens :: int
  image_tile_tokens :: int
  image_tile_px :: int
  audio_tokens_per_second :: int
  prefill_ms_per_token :: pyfloat
  service_ms_per_request :: pyfloat
  max_inflight :: int
  cache_capacity_media :: int

definition MultiModalConfig_fields :: fields where
  "MultiModalConfig_fields =
     [(''enabled'', CBool False),
      (''capabilities'', CStr ''''),
      (''request_field_messages'', CStr ''messages''),
      (''chars_per_token'', CInt 4),
      (''default_image_width'', CInt 1024),
      (''default_image_height'', CInt 1024),
      (''image_base_tokens'', CInt 85),
      (''image_tile_tokens'', CInt 170),
      (''image_tile_px'', CInt 512),
      (''audio_tokens_per_second'', CInt 50),
      (''prefill_ms_per_token'', CRat 0.05),
      (''service_ms_per_request'', CRat 200),
      (''max_inflight'', CInt 64),
      (''cache_capacity_media'', CInt 1024)]"

definition MultiModalConfig_of :: "fields \<Rightarrow> MultiModalConfig" where
  "MultiModalConfig_of d =
     \<lparr>enabled = bool_field d ''enabled'',
      capabilities = str_field d ''capabilities'',
      request_field_messages = str_field d ''request_field_messages'',
      chars_per_token = int_field d ''chars_per_token'',
      default_image_width = int_field d ''default_image_width'',
      default_image_height = int_field d ''default_image_height'',
      image_base_tokens = int_field d ''image_base_tokens'',
      image_tile_tokens = int_field d ''image_tile_tokens'',
      image_tile_px = int_field d ''image_tile_px'',
      audio_tokens_per_second = int_field d ''audio_tokens_per_second'',
      prefill_ms_per_token = float_field d ''prefill_ms_per_token'',
      service_ms_per_request = float_field d ''service_ms_per_request'',
      max_inflight = int_field d ''max_inflight'',
      cache_capacity_media = int_field d ''cache_capacity_media''\<rparr>"

definition MultiModalConfig_from_env :: "environ \<Rightarrow> MultiModalConfig result" where
  "MultiModalConfig_from_env env = load_config ''GW_MULTIMODAL_'' MultiModalConfig_fields MultiModalConfig_of env"


subsection \<open>Requests and their cost\<close>

definition py_ceil :: "pyfloat \<Rightarrow> int" where
  "py_ceil x = \<lceil>x\<rceil>"

definition rat_int :: "pyfloat \<Rightarrow> int" where
  "rat_int x = (if 0 \<le> x then \<lfloor>x\<rfloor> else - \<lfloor>- x\<rfloor>)"

text \<open>The two rescaling steps, each done only when the image exceeds its bound.\<close>

definition fit_2048 :: "pyfloat \<times> pyfloat \<Rightarrow> pyfloat \<times> pyfloat" where
  "fit_2048 wh = (let (w, h) = wh in
     if max w h > 2048 then (let s = 2048 / max w h in (w * s, h * s)) else (w, h))"

definition fit_768 :: "pyfloat \<times> pyfloat \<Rightarrow> pyfloat \<times> pyfloat" where
  "fit_768 wh = (let (w, h) = wh in
     if min w h > 768 then (let s = 768 / min w h in (w * s, h * s)) else (w, h))"

definition image_tokens :: "int \<Rightarrow> int \<Rightarrow> string \<Rightarrow> MultiModalConfig \<Rightarrow> int result" where
  "image_tokens width height detail c =
     (let base = image_base_tokens c in
      if detail = ''low'' then Inr base
      else let (w, h) = fit_768 (fit_2048 (of_int width, of_int height)) in
        if image_tile_px c = 0 then Inl ZeroDivisionError
        else let tiles = py_ceil (w / of_int (image_tile_px c)) * py_ceil (h / of_int (image_tile_px c))
             in Inr (base + image_tile_tokens c * tiles))"

record MediaItem =
  modality :: string
  media_ref :: string
  media_width :: "int option"
  media_height :: "int option"
  media_detail :: string
  media_seconds :: "pyfloat option"

definition content_id :: "MediaItem \<Rightarrow> block_hash" where
  "content_id m = stable_seed (media_ref m)"

definition int_or :: "int option \<Rightarrow> int \<Rightarrow> int" where
  "int_or x d = (case x of None \<Rightarrow> d | Some v \<Rightarrow> if v = 0 then d else v)"

definition media_tokens :: "MediaItem \<Rightarrow> MultiModalConfig \<Rightarrow> int result" where
  "media_tokens m c =
     (if modality m = ''image'' then
        image_tokens (int_or (media_width m) (default_image_width c)) (int_or (media_height m) (default_image_height c))
          (media_detail m) c
      else if modality m = ''audio'' then
        Inr (rat_int ((case media_seconds m of None \<Rightarrow> 0 | Some s \<Rightarrow> s) * of_int (audio_tokens_per_second c)))
      else Inr 0)"

record ModalRequest =
  modal_text :: string
  modal_media :: "MediaItem list"

definition required_modalities :: "ModalRequest \<Rightarrow> string set" where
  "required_modalities r = insert ''text'' (set (map modality (modal_media r)))"

definition media_ids :: "ModalRequest \<Rightarrow> block_hash list" where
  "media_ids r = map content_id (modal_media r)"

fun media_costs :: "MultiModalConfig \<Rightarrow> MediaItem list \<Rightarrow> (block_hash \<times> int) list result" where
  "media_costs c [] = Inr []"
| "media_costs c (m # ms) =
     res_bind (media_tokens m c) (\<lambda>t. res_bind (media_costs c ms) (\<lambda>ts. Inr ((content_id m, t) # ts)))"

definition text_tokens :: "ModalRequest \<Rightarrow> MultiModalConfig \<Rightarrow> int" where
  "text_tokens r c = int (length (modal_text r)) div max 1 (chars_per_token c)"

definition prompt_tokens :: "ModalRequest \<Rightarrow> MultiModalConfig \<Rightarrow> int result" where
  "prompt_tokens r c =
     res_bind (media_costs c (modal_media r)) (\<lambda>ts. Inr (text_tokens r c + sum_list (map snd ts)))"


subsection \<open>Parsing\<close>

type_synonym jobj = "(string \<times> json) list"

text \<open>An optional number of a media part; a value of another type is outside the model.\<close>

definition opt_int :: "jobj \<Rightarrow> string \<Rightarrow> int option result" where
  "opt_int d k = (case map_of d k of None \<Rightarrow> Inr None | Some JNull \<Rightarrow> Inr None
     | Some (JInt i) \<Rightarrow> Inr (Some i) | Some _ \<Rightarrow> Inl NotModelled)"

definition opt_float :: "jobj \<Rightarrow> string \<Rightarrow> pyfloat option result" where
  "opt_float d k = (case map_of d k of None \<Rightarrow> Inr None | Some JNull \<Rightarrow> Inr None
     | Some (JInt i) \<Rightarrow> Inr (Some (of_int i)) | Some (JFloat x) \<Rightarrow> Inr (Some x) | Some _ \<Rightarrow> Inl NotModelled)"

definition str_default :: "jobj \<Rightarrow> string \<Rightarrow> string \<Rightarrow> string result" where
  "str_default d k v = (case map_of d k of None \<Rightarrow> Inr v | Some (JStr s) \<Rightarrow> Inr s | Some _ \<Rightarrow> Inl NotModelled)"

definition parse_image_part :: "jobj \<Rightarrow> MediaItem option result" where
  "parse_image_part part =
     (case map_of part ''image_url'' of
        Some (JObj img) \<Rightarrow>
          (case map_of img ''url'' of
             Some (JStr (c # cs)) \<Rightarrow>
               res_bind (str_default img ''detail'' ''high'') (\<lambda>detail.
               res_bind (opt_int img ''width'') (\<lambda>w. res_bind (opt_int img ''height'') (\<lambda>h.
                 Inr (Some \<lparr>modality = ''image'', media_ref = c # cs, media_width = w, media_height = h,
                            media_detail = detail, media_seconds = None\<rparr>))))
           | _ \<Rightarrow> Inr None)
      | Some (JStr (c # cs)) \<Rightarrow>
          Inr (Some \<lparr>modality = ''image'', media_ref = c # cs, media_width = None, media_height = None,
                     media_detail = ''high'', media_seconds = None\<rparr>)
      | _ \<Rightarrow> Inr None)"

definition parse_audio_part :: "jobj \<Rightarrow> MediaItem option result" where
  "parse_audio_part part =
     (let aud = (case map_of part ''audio_url'' of
                   Some v \<Rightarrow> if json_truthy v then Some v else map_of part ''input_audio''
                 | None \<Rightarrow> map_of part ''input_audio'')
      in case aud of
           Some (JObj a) \<Rightarrow>
             (case map_of a ''url'' of
                Some (JStr (c # cs)) \<Rightarrow>
                  res_bind (opt_float a ''seconds'') (\<lambda>s.
                    Inr (Some \<lparr>modality = ''audio'', media_ref = c # cs, media_width = None, media_height = None,
                               media_detail = ''high'', media_seconds = s\<rparr>))
              | _ \<Rightarrow> Inr None)
         | Some (JStr (c # cs)) \<Rightarrow>
             Inr (Some \<lparr>modality = ''audio'', media_ref = c # cs, media_width = None, media_height = None,
                        media_detail = ''high'', media_seconds = None\<rparr>)
         | _ \<Rightarrow> Inr None)"

text \<open>The loop over the parts of one message and over the messages; the accumulator is texts and media.\<close>

definition add_media :: "MediaItem option \<Rightarrow> string list \<times> MediaItem list \<Rightarrow> string list \<times> MediaItem list" where
  "add_media i acc = (case i of None \<Rightarrow> acc | Some m \<Rightarrow> (fst acc, snd acc @ [m]))"

fun parts_loop :: "json list \<Rightarrow> string list \<times> MediaItem list \<Rightarrow> (string list \<times> MediaItem list) result" where
  "parts_loop [] acc = Inr acc"
| "parts_loop (JObj part # ps) acc =
     (let ptype = map_of part ''type'' in
      if ptype = Some (JStr ''text'') \<and> (\<exists>s. map_of part ''text'' = Some (JStr s)) then
        (case map_of part ''text'' of Some (JStr s) \<Rightarrow> parts_loop ps (fst acc @ [s], snd acc) | _ \<Rightarrow> parts_loop ps acc)
      else if ptype = Some (JStr ''image_url'') then
        res_bind (parse_image_part part) (\<lambda>i. parts_loop ps (add_media i acc))
      else if ptype = Some (JStr ''audio_url'') \<or> ptype = Some (JStr ''input_audio'') then
        res_bind (parse_audio_part part) (\<lambda>i. parts_loop ps (add_media i acc))
      else parts_loop ps acc)"
| "parts_loop (_ # ps) acc = parts_loop ps acc"

fun messages_loop :: "json list \<Rightarrow> string list \<times> MediaItem list \<Rightarrow> (string list \<times> MediaItem list) result" where
  "messages_loop [] acc = Inr acc"
| "messages_loop (msg # msgs) acc =
     (case (case msg of JObj d \<Rightarrow> map_of d ''content'' | _ \<Rightarrow> None) of
        Some (JStr s) \<Rightarrow> messages_loop msgs (fst acc @ [s], snd acc)
      | Some (JArr ps) \<Rightarrow> res_bind (parts_loop ps acc) (messages_loop msgs)
      | _ \<Rightarrow> messages_loop msgs acc)"

definition parse_multimodal_request :: "jobj \<Rightarrow> MultiModalConfig \<Rightarrow> ModalRequest option result" where
  "parse_multimodal_request body c =
     (case map_of body (request_field_messages c) of
        Some (JArr msgs) \<Rightarrow>
          res_bind (messages_loop msgs ([], [])) (\<lambda>(texts, media).
            if media = [] then Inr None
            else Inr (Some \<lparr>modal_text = py_join (CHR 0x0A) texts, modal_media = media\<rparr>))
      | _ \<Rightarrow> Inr None)"


subsection \<open>The media index\<close>

record MediaAffinityIndex =
  media_capacity :: int
  media_sets :: "block_hash lru_sets"

definition MediaAffinityIndex_init :: "int \<Rightarrow> MediaAffinityIndex" where
  "MediaAffinityIndex_init cap = \<lparr>media_capacity = cap, media_sets = []\<rparr>"

definition media_record :: "MediaAffinityIndex \<Rightarrow> string \<Rightarrow> block_hash list \<Rightarrow> MediaAffinityIndex result" where
  "media_record x b ids =
     res_bind (sets_record (media_capacity x) (media_sets x) b ids) (\<lambda>d. Inr (x\<lparr>media_sets := d\<rparr>))"

definition is_cached :: "MediaAffinityIndex \<Rightarrow> string \<Rightarrow> block_hash \<Rightarrow> bool" where
  "is_cached x b i \<longleftrightarrow> i \<in> set (sets_keys (media_sets x) b)"

definition media_overlap :: "MediaAffinityIndex \<Rightarrow> string \<Rightarrow> block_hash list \<Rightarrow> nat" where
  "media_overlap x b ids = sets_overlap (media_sets x) b ids"

definition media_remove_backend :: "MediaAffinityIndex \<Rightarrow> string \<Rightarrow> MediaAffinityIndex" where
  "media_remove_backend x b = x\<lparr>media_sets := AList.delete b (media_sets x)\<rparr>"

definition media_held :: "MediaAffinityIndex \<Rightarrow> string \<Rightarrow> block_hash list" where
  "media_held x b = sets_keys (media_sets x) b"

interpretation media: lru_index MediaAffinityIndex_init media_record media_remove_backend media_held media_capacity
  "\<lambda>x. sets_ok (media_sets x)"
proof unfold_locales
  fix s :: MediaAffinityIndex and b ids
  assume "sets_ok (media_sets s)" "0 \<le> media_capacity s"
  then show "\<exists>s'. media_record s b ids = Inr s' \<and> sets_ok (media_sets s') \<and> media_capacity s' = media_capacity s \<and>
      (\<forall>b'. media_held s' b' = (if b' = b then lastn (nat (media_capacity s)) (remdups (media_held s b @ ids)) else media_held s b'))"
    using sets_record_spec [of "media_capacity s" "media_sets s" b ids] by (auto simp: media_record_def media_held_def)
qed (simp_all add: MediaAffinityIndex_init_def media_held_def sets_ok_def sets_keys_def media_remove_backend_def)


subsection \<open>Routing\<close>

fun caps_loop :: "string list \<Rightarrow> (string, string set) dict \<Rightarrow> (string, string set) dict" where
  "caps_loop [] d = d"
| "caps_loop (entry # es) d =
     (let e = py_strip entry in
      if e = [] \<or> CHR '':'' \<notin> set e then caps_loop es d
      else let (b, _, mods) = py_partition (CHR '':'') e;
               bid = py_strip b;
               mset = set (filter (\<lambda>m. m \<noteq> []) (map py_strip (py_split (CHR '','') mods)))
           in caps_loop es (if bid \<noteq> [] \<and> mset \<noteq> {} then AList.update bid mset d else d))"

definition parse_capabilities :: "string \<Rightarrow> (string, string set) dict" where
  "parse_capabilities spec = caps_loop (py_split (CHR '';'') spec) []"

record MultiModalRouteResult =
  mm_backend :: string
  mm_tokens :: int
  mm_overlap :: nat
  mm_total_media :: nat
  mm_est :: pyfloat

definition capable_backends :: "ModalRequest \<Rightarrow> (string, string set) dict \<Rightarrow> string list \<Rightarrow> string list" where
  "capable_backends r caps backs = filter (\<lambda>b. required_modalities r \<subseteq> dget caps b {''text''}) backs"

definition mm_cost ::
  "ModalRequest \<Rightarrow> (block_hash \<times> int) list \<Rightarrow> MediaAffinityIndex \<Rightarrow> LoadTracker \<Rightarrow> MultiModalConfig \<Rightarrow> string \<Rightarrow> pyfloat"
where
  "mm_cost r media_tok x l c b =
     (let uncached = sum_list (map snd (filter (\<lambda>(i, _). \<not> is_cached x b i) media_tok))
      in prefill_ms_per_token c * of_int (text_tokens r c + uncached) +
         of_int (dget (inflight l) b 0) * service_ms_per_request c)"

definition mm_eligible :: "LoadTracker \<Rightarrow> MultiModalConfig \<Rightarrow> string list \<Rightarrow> string list" where
  "mm_eligible l c backs =
     (let e = filter (\<lambda>b. dget (inflight l) b 0 \<le> max_inflight c) backs in if e = [] then backs else e)"

definition choose_multimodal_backend ::
  "ModalRequest \<Rightarrow> string list \<Rightarrow> (string, string set) dict \<Rightarrow> MediaAffinityIndex \<Rightarrow> LoadTracker \<Rightarrow> MultiModalConfig \<Rightarrow>
   MultiModalRouteResult option result"
where
  "choose_multimodal_backend r backs caps x l c =
     (let capable = capable_backends r caps backs in
      if capable = [] then Inr None
      else res_bind (media_costs c (modal_media r)) (\<lambda>media_tok.
        case argmin_loop (mm_cost r media_tok x l c) (mm_eligible l c capable) None of
          None \<Rightarrow> Inr None
        | Some (b, cost) \<Rightarrow>
            Inr (Some \<lparr>mm_backend = b, mm_tokens = text_tokens r c + sum_list (map snd media_tok),
                       mm_overlap = length (filter (\<lambda>(i, _). is_cached x b i) media_tok),
                       mm_total_media = length media_tok, mm_est = cost\<rparr>)))"


subsection \<open>Properties\<close>

definition media_step :: "MediaAffinityIndex \<Rightarrow> block_hash index_op \<Rightarrow> MediaAffinityIndex" where
  "media_step x op =
     (case op of
        Record b ids \<Rightarrow> (case media_record x b ids of Inr x' \<Rightarrow> x' | Inl _ \<Rightarrow> x)
      | Forget b \<Rightarrow> media_remove_backend x b)"

lemma media_step_eq: "media.index_step = media_step"
proof (intro ext)
  fix x op show "media.index_step x op = media_step x op" by (cases op) (simp_all add: media_step_def)
qed

lemma media_index_lru:
  assumes "0 \<le> cap"
  shows "media_held (foldl media_step (MediaAffinityIndex_init cap) ops) b = lastn (nat cap) (remdups (recorded b ops))"
  using media.index_run [OF assms, of ops] by (simp add: media_step_eq)

lemma scale_bounds:
  assumes "(0::rat) < y" "y \<le> m" "0 < k" "k < m"
  shows "0 < y * (k / m)" "y * (k / m) \<le> k" "y * (k / m) \<le> y"
  using assms by (simp_all add: divide_simps mult_left_mono)

lemma fit_2048_bounds:
  assumes "0 < w" "0 < h" and "fit_2048 (w, h) = (w', h')"
  shows "0 < w'" "0 < h'" "w' \<le> 2048" "h' \<le> 2048"
  using assms scale_bounds [of w "max w h" 2048] scale_bounds [of h "max w h" 2048]
  by (auto simp: fit_2048_def Let_def split: if_splits)

lemma fit_768_bounds:
  assumes "0 < w" "0 < h" "w \<le> 2048" "h \<le> 2048" and "fit_768 (w, h) = (w', h')"
  shows "0 < w'" "0 < h'" "w' \<le> 2048" "h' \<le> 2048" "w' \<le> 768 \<or> h' \<le> 768"
proof -
  have sh: "0 < 768 / x * y" "768 / x * y \<le> y" if "768 < x" "0 < y" for x y :: rat
    using that by (simp_all add: field_simps)
  note sh = sh [of "min w h" w] sh [of "min w h" h]
  show "0 < w'" "0 < h'" "w' \<le> 2048" "h' \<le> 2048"
    using assms sh by (auto simp: fit_768_def Let_def mult.commute split: if_splits)
  show "w' \<le> 768 \<or> h' \<le> 768"
    using assms by (auto simp: fit_768_def Let_def min_def split: if_splits)
qed

lemma ceil_tiles:
  assumes "(0::rat) < x"
  shows "1 \<le> py_ceil (x / 512)" "x \<le> 2048 \<Longrightarrow> py_ceil (x / 512) \<le> 4" "x \<le> 768 \<Longrightarrow> py_ceil (x / 512) \<le> 2"
  using assms by (simp_all add: py_ceil_def ceiling_le_iff)

lemma tiles_bound:
  assumes "1 \<le> (a::int)" "1 \<le> b" "a \<le> 4" "b \<le> 4" "a \<le> 2 \<or> b \<le> 2"
  shows "1 \<le> a * b \<and> a * b \<le> 8"
proof -
  have "a \<in> {1,2,3,4}" "b \<in> {1,2,3,4}" using assms by auto
  then show ?thesis using assms(5) by auto
qed

text \<open>
  Images cost a bounded number of tokens: with the default tile size, an image of positive
  size and any detail but \<^verbatim>\<open>low\<close> costs the base plus the price of one to eight tiles, however
  large or elongated it is; a low-detail image costs the base only.
\<close>

theorem image_tokens_bounds:
  assumes "0 < w" and "0 < h" and "image_tile_px c = 512"
  shows "image_tokens w h ''low'' c = Inr (image_base_tokens c) \<and>
    (detail \<noteq> ''low'' \<longrightarrow> (\<exists>t. 1 \<le> t \<and> t \<le> 8 \<and> image_tokens w h detail c = Inr (image_base_tokens c + image_tile_tokens c * t)))"
proof (intro conjI impI)
  show "image_tokens w h ''low'' c = Inr (image_base_tokens c)" by (simp add: image_tokens_def)
  assume d: "detail \<noteq> ''low''"
  obtain w1 h1 where f1: "fit_2048 (of_int w, of_int h) = (w1, h1)" by force
  obtain w2 h2 where f2: "fit_768 (w1, h1) = (w2, h2)" by force
  have b1: "0 < w1" "0 < h1" "w1 \<le> 2048" "h1 \<le> 2048"
    using fit_2048_bounds [OF _ _ f1] assms(1,2) by simp_all
  note b2 = fit_768_bounds [OF b1 f2]
  let ?t = "py_ceil (w2 / 512) * py_ceil (h2 / 512)"
  have "1 \<le> ?t \<and> ?t \<le> 8"
    using ceil_tiles [OF b2(1)] ceil_tiles [OF b2(2)] b2 by (intro tiles_bound) auto
  moreover have "image_tokens w h detail c = Inr (image_base_tokens c + image_tile_tokens c * ?t)"
    using d assms(3) by (simp add: image_tokens_def Let_def f1 f2)
  ultimately show "\<exists>t. 1 \<le> t \<and> t \<le> 8 \<and> image_tokens w h detail c = Inr (image_base_tokens c + image_tile_tokens c * t)"
    by blast
qed

lemma default_tile_px: "image_tile_px (MultiModalConfig_of MultiModalConfig_fields) = 512"
proof -
  have "int_field MultiModalConfig_fields ''image_tile_px'' = 512" by code_simp
  then show ?thesis by (simp add: MultiModalConfig_of_def)
qed

theorem image_tokens_bounds_witness:
  "\<exists>t. 1 \<le> t \<and> t \<le> 8 \<and> image_tokens 4000 3000 ''high'' (MultiModalConfig_of MultiModalConfig_fields) =
     Inr (image_base_tokens (MultiModalConfig_of MultiModalConfig_fields) +
          image_tile_tokens (MultiModalConfig_of MultiModalConfig_fields) * t)"
  using image_tokens_bounds [of 4000 3000 "MultiModalConfig_of MultiModalConfig_fields" "''high''"] default_tile_px by simp

lemma image_tokens_total: "image_tile_px c \<noteq> 0 \<Longrightarrow> \<exists>t. image_tokens w h d c = Inr t"
  by (auto simp: image_tokens_def Let_def split: prod.split)

lemma media_costs_total:
  assumes "image_tile_px c \<noteq> 0"
  shows "\<exists>ts. media_costs c ms = Inr ts \<and> map fst ts = map content_id ms"
proof (induction ms)
  case (Cons m ms)
  obtain t where "media_tokens m c = Inr t" using image_tokens_total [OF assms, of "int_or (media_width m) (default_image_width c)"
      "int_or (media_height m) (default_image_height c)" "media_detail m"]
    by (cases "modality m = ''image''"; cases "modality m = ''audio''") (auto simp: media_tokens_def)
  with Cons show ?case by auto
qed simp

lemma mm_eligible_sub: "set (mm_eligible l c backs) \<subseteq> set backs" and mm_eligible_ne: "backs \<noteq> [] \<Longrightarrow> mm_eligible l c backs \<noteq> []"
  by (auto simp: mm_eligible_def Let_def)

lemma mm_eligible_room:
  "b \<in> set (mm_eligible l c backs) \<Longrightarrow> \<exists>b' \<in> set backs. dget (inflight l) b' 0 \<le> max_inflight c \<Longrightarrow>
     dget (inflight l) b 0 \<le> max_inflight c"
  by (auto simp: mm_eligible_def Let_def filter_empty_conv split: if_splits)

text \<open>
  C37. A request with media goes to a backend that can serve it: with a nonzero tile size the
  router answers nothing exactly when no backend offers every modality the request needs;
  otherwise it picks a capable backend that is not over its in-flight limit unless all capable
  ones are, with the least estimated cost of those, where a backend is not charged for the media
  it has cached.
\<close>

theorem multimodal_choice:
  assumes "image_tile_px c \<noteq> 0"
  shows "(if capable_backends r caps backs = [] then choose_multimodal_backend r backs caps x l c = Inr None
    else \<exists>res ts. choose_multimodal_backend r backs caps x l c = Inr (Some res) \<and> media_costs c (modal_media r) = Inr ts \<and>
      mm_backend res \<in> set backs \<and> required_modalities r \<subseteq> dget caps (mm_backend res) {''text''} \<and>
      ((\<exists>b \<in> set (capable_backends r caps backs). dget (inflight l) b 0 \<le> max_inflight c) \<longrightarrow>
         dget (inflight l) (mm_backend res) 0 \<le> max_inflight c) \<and>
      mm_est res = mm_cost r ts x l c (mm_backend res) \<and>
      (\<forall>b \<in> set (mm_eligible l c (capable_backends r caps backs)). mm_est res \<le> mm_cost r ts x l c b))"
proof (cases "capable_backends r caps backs = []")
  case True
  then show ?thesis by (simp add: choose_multimodal_backend_def)
next
  case False
  let ?e = "mm_eligible l c (capable_backends r caps backs)"
  obtain ts where ts: "media_costs c (modal_media r) = Inr ts" using media_costs_total [OF assms] by blast
  obtain b cost where a: "argmin_loop (mm_cost r ts x l c) ?e None = Some (b, cost)"
    using argmin_loop_ex [OF mm_eligible_ne [OF False]] by blast
  note min = argmin_loop_min [OF a]
  let ?res = "\<lparr>mm_backend = b, mm_tokens = text_tokens r c + sum_list (map snd ts),
    mm_overlap = length (filter (\<lambda>(i, _). is_cached x b i) ts), mm_total_media = length ts, mm_est = cost\<rparr>"
  have cap: "b \<in> set (capable_backends r caps backs)" using min(2) mm_eligible_sub by blast
  have "choose_multimodal_backend r backs caps x l c = Inr (Some ?res)"
    using False by (simp add: choose_multimodal_backend_def ts a)
  moreover have "mm_backend ?res \<in> set backs" "required_modalities r \<subseteq> dget caps (mm_backend ?res) {''text''}"
    using cap by (simp_all add: capable_backends_def)
  moreover have "mm_est ?res = mm_cost r ts x l c (mm_backend ?res)" using min(1) by simp
  moreover have "\<forall>b \<in> set ?e. mm_est ?res \<le> mm_cost r ts x l c b" using min(1,3) by simp
  moreover have "(\<exists>b \<in> set (capable_backends r caps backs). dget (inflight l) b 0 \<le> max_inflight c) \<longrightarrow>
      dget (inflight l) (mm_backend ?res) 0 \<le> max_inflight c"
    using mm_eligible_room [OF min(2)] by auto
  ultimately show ?thesis using ts False by simp
qed

definition demo_image :: MediaItem where
  "demo_image = \<lparr>modality = ''image'', media_ref = ''u'', media_width = None, media_height = None,
                 media_detail = ''high'', media_seconds = None\<rparr>"

theorem multimodal_choice_witness:
  "\<exists>res. choose_multimodal_backend \<lparr>modal_text = ''hi'', modal_media = [demo_image]\<rparr> [''b0'', ''b1'']
      (parse_capabilities ''b1:text,image'') (MediaAffinityIndex_init 4) LoadTracker_init
      (MultiModalConfig_of MultiModalConfig_fields) = Inr (Some res) \<and> mm_backend res \<in> {''b0'', ''b1''}"
proof -
  let ?r = "\<lparr>modal_text = ''hi'', modal_media = [demo_image]\<rparr>"
  have p: "parse_capabilities ''b1:text,image'' = [(''b1'', {''text'', ''image''})]" by code_simp
  have "capable_backends ?r (parse_capabilities ''b1:text,image'') [''b0'', ''b1''] \<noteq> []"
    unfolding p by (simp add: capable_backends_def required_modalities_def demo_image_def dget_def)
  with multimodal_choice [of "MultiModalConfig_of MultiModalConfig_fields" ?r "parse_capabilities ''b1:text,image''"
      "[''b0'', ''b1'']" "MediaAffinityIndex_init 4" LoadTracker_init] default_tile_px
  show ?thesis by auto
qed

end
