(* ===== verification/Session_Affinity.thy ===== *)
theory Session_Affinity
  imports Lru Json Tenancy
begin

section \<open>Session affinity\<close>

text \<open>
  \<^verbatim>\<open>gateway/session_affinity.py\<close>: the table that pins a session to the backend of its previous
  turn, bounded in size and in idle time.  The clock is an argument.
\<close>

record SessionAffinity =
  sa_capacity :: int
  ttl_s :: pyfloat
  by_session :: "(string, string \<times> pyfloat) dict"

definition SessionAffinity_init :: "int \<Rightarrow> pyfloat \<Rightarrow> SessionAffinity" where
  "SessionAffinity_init cap ttl = \<lparr>sa_capacity = max 1 cap, ttl_s = ttl, by_session = []\<rparr>"

definition pick_session ::
  "SessionAffinity \<Rightarrow> string option \<Rightarrow> string list \<Rightarrow> pyfloat \<Rightarrow> string option \<times> SessionAffinity"
where
  "pick_session s sid cands now =
     (case sid of
        None \<Rightarrow> (None, s)
      | Some k \<Rightarrow>
          if k = [] then (None, s)
          else case map_of (by_session s) k of
            None \<Rightarrow> (None, s)
          | Some (b, seen) \<Rightarrow>
              if now - seen > ttl_s s then (None, s\<lparr>by_session := AList.delete k (by_session s)\<rparr>)
              else if b \<notin> set cands then (None, s)
              else (Some b, s\<lparr>by_session := move_to_end k (by_session s)\<rparr>))"

definition remember :: "SessionAffinity \<Rightarrow> string option \<Rightarrow> string \<Rightarrow> pyfloat \<Rightarrow> SessionAffinity result" where
  "remember s sid b now =
     (case sid of
        None \<Rightarrow> Inr s
      | Some k \<Rightarrow>
          if k = [] then Inr s
          else res_bind (lru_trim (sa_capacity s) (lru_touch (by_session s) k (b, now)))
                 (\<lambda>d. Inr (s\<lparr>by_session := d\<rparr>)))"

definition forget_backend :: "SessionAffinity \<Rightarrow> string \<Rightarrow> nat \<times> SessionAffinity" where
  "forget_backend s b =
     (let gone = [k. (k, (b', _)) \<leftarrow> by_session s, b' = b]
      in (length gone, s\<lparr>by_session := foldl (\<lambda>d k. AList.delete k d) (by_session s) gone\<rparr>))"

definition sa_len :: "SessionAffinity \<Rightarrow> nat" where
  "sa_len s = length (by_session s)"

text \<open>The header comes before the field of the body; a blank one counts as absent.\<close>

definition strip_or_none :: "string \<Rightarrow> string option" where
  "strip_or_none s = (let t = py_strip s in if t = [] then None else Some t)"

definition extract_session_id :: "headers \<Rightarrow> json option \<Rightarrow> string option result" where
  "extract_session_id h body =
     (let sid = hdr_or h ''x-session-id'' ''X-Session-ID'' in
      if sid \<noteq> [] then Inr (strip_or_none sid)
      else case body of
        Some (JObj d) \<Rightarrow>
          (case map_of d ''session_id'' of
             None \<Rightarrow> Inr None
           | Some v \<Rightarrow> if json_truthy v then res_bind (py_str v) (\<lambda>t. Inr (strip_or_none t)) else Inr None)
      | _ \<Rightarrow> Inr None)"


subsection \<open>Properties\<close>

datatype session_op =
    SPick "string option" "string list" pyfloat
  | SRemember "string option" string pyfloat
  | SForget string

fun session_step :: "SessionAffinity \<Rightarrow> session_op \<Rightarrow> SessionAffinity" where
  "session_step s (SPick sid cands now) = snd (pick_session s sid cands now)"
| "session_step s (SRemember sid b now) = (case remember s sid b now of Inr s' \<Rightarrow> s' | Inl _ \<Rightarrow> s)"
| "session_step s (SForget b) = snd (forget_backend s b)"

definition session_run :: "int \<Rightarrow> pyfloat \<Rightarrow> session_op list \<Rightarrow> SessionAffinity" where
  "session_run cap ttl ops = foldl session_step (SessionAffinity_init cap ttl) ops"

lemma delete_all: "foldl (\<lambda>d k. AList.delete k d) d ks = filter (\<lambda>e. fst e \<notin> set ks) d"
  by (induction ks arbitrary: d) (auto simp: AList.delete_eq intro: filter_cong)

lemma forget_filter:
  "dict_ok (by_session s) \<Longrightarrow>
     by_session (snd (forget_backend s b)) = filter (\<lambda>e. fst (snd e) \<noteq> b) (by_session s)"
proof -
  assume "dict_ok (by_session s)"
  then have u: "v = v'" if "(k, v) \<in> set (by_session s)" "(k, v') \<in> set (by_session s)" for k v v'
    using that by (simp add: dict_ok_def) (metis eq_key_imp_eq_value)
  let ?gone = "[k. (k, (b', _)) \<leftarrow> by_session s, b' = b]"
  have gone: "k \<in> set ?gone \<longleftrightarrow> (\<exists>t. (k, b, t) \<in> set (by_session s))" for k by auto
  have "fst e \<notin> set ?gone \<longleftrightarrow> fst (snd e) \<noteq> b" if "e \<in> set (by_session s)" for e
    unfolding gone using that u [of "fst e" "snd e"] by (metis fst_conv prod.collapse)
  then have "filter (\<lambda>e. fst e \<notin> set ?gone) (by_session s) = filter (\<lambda>e. fst (snd e) \<noteq> b) (by_session s)"
    by (rule filter_cong [OF refl])
  then show ?thesis by (simp only: forget_backend_def Let_def delete_all snd_conv) simp
qed

lemma remember_run:
  "0 \<le> sa_capacity s \<Longrightarrow> k \<noteq> [] \<Longrightarrow>
     remember s (Some k) b now =
       Inr (s\<lparr>by_session := lastn (nat (sa_capacity s)) (lru_touch (by_session s) k (b, now))\<rparr>)"
  by (simp add: remember_def lru_trim_lastn)

definition session_ok :: "int \<Rightarrow> pyfloat \<Rightarrow> SessionAffinity \<Rightarrow> bool" where
  "session_ok cap ttl s \<longleftrightarrow> sa_capacity s = max 1 cap \<and> ttl_s s = ttl \<and> dict_ok (by_session s) \<and>
     int (length (by_session s)) \<le> max 1 cap"

lemma dict_ok_touch: "dict_ok d \<Longrightarrow> dict_ok (lru_touch d k v)"
  by (simp add: dict_ok_def keys_touch)

lemma dict_ok_lastn: "dict_ok d \<Longrightarrow> dict_ok (lastn n d)"
  by (simp add: dict_ok_def map_lastn distinct_lastn)

lemma dict_ok_filter: "dict_ok d \<Longrightarrow> dict_ok (filter P d)"
  by (simp add: dict_ok_def distinct_map_filter)

lemma session_step_cases:
  assumes "session_ok cap ttl s"
  obtains (same) "by_session (session_step s x) = by_session s"
  | (drop) k cands now b t where "x = SPick (Some k) cands now" "map_of (by_session s) k = Some (b, t)"
      "now - t > ttl" "by_session (session_step s x) = AList.delete k (by_session s)"
  | (touch) k cands now where "x = SPick (Some k) cands now" "k \<noteq> []"
      "by_session (session_step s x) = move_to_end k (by_session s)"
  | (pin) k b now where "x = SRemember (Some k) b now" "k \<noteq> []"
      "by_session (session_step s x) = lastn (nat (max 1 cap)) (lru_touch (by_session s) k (b, now))"
  | (forget) b where "x = SForget b" "by_session (session_step s x) = filter (\<lambda>e. fst (snd e) \<noteq> b) (by_session s)"
proof (cases x)
  case (SPick sid cands now)
  show ?thesis
  proof (cases "\<exists>k b t. sid = Some k \<and> k \<noteq> [] \<and> map_of (by_session s) k = Some (b, t)")
    case True
    then obtain k b t where k: "sid = Some k" "k \<noteq> []" "map_of (by_session s) k = Some (b, t)" by blast
    show ?thesis
    proof (cases "now - t > ttl")
      case True
      then show ?thesis
        using k assms SPick by (intro drop [of k cands now b t]) (simp_all add: pick_session_def session_ok_def)
    next
      case False
      then show ?thesis
        using k assms SPick same touch [of k cands now]
        by (cases "b \<in> set cands") (simp_all add: pick_session_def session_ok_def)
    qed
  next
    case False
    then show ?thesis using SPick by (intro same) (auto simp: pick_session_def split: option.split)
  qed
next
  case (SRemember sid b now)
  show ?thesis
  proof (cases "sid = None \<or> sid = Some []")
    case True
    then show ?thesis using SRemember by (intro same) (auto simp: remember_def)
  next
    case False
    then obtain k where "sid = Some k" "k \<noteq> []" by auto
    then show ?thesis
      using SRemember assms remember_run [of s k b now] by (intro pin [of k b now]) (simp_all add: session_ok_def)
  qed
next
  case (SForget b)
  then show ?thesis using assms forget_filter [of s b] by (intro forget [of b]) (simp_all add: session_ok_def)
qed

lemma session_step_frame: "sa_capacity (session_step s x) = sa_capacity s \<and> ttl_s (session_step s x) = ttl_s s"
  by (cases x) (auto simp: pick_session_def remember_def forget_backend_def Let_def split: option.split sum.split)

lemma session_ok_step:
  assumes ok: "session_ok cap ttl s"
  shows "session_ok cap ttl (session_step s x)"
proof -
  have d: "dict_ok (by_session s)" "int (length (by_session s)) \<le> max 1 cap" using ok by (simp_all add: session_ok_def)
  from ok have "dict_ok (by_session (session_step s x)) \<and> int (length (by_session (session_step s x))) \<le> max 1 cap"
  proof (cases rule: session_step_cases [where x = x])
    case same
    then show ?thesis using d by simp
  next
    case (drop k)
    then show ?thesis using d length_delete_le_dict [of k "by_session s"] by simp
  next
    case touch
    then show ?thesis using d by simp
  next
    case pin
    then show ?thesis using d by (simp add: dict_ok_lastn dict_ok_touch)
  next
    case (forget b)
    then show ?thesis
      using d order_trans [OF of_nat_mono [OF length_filter_le] d(2)] by (simp add: dict_ok_filter)
  qed
  then show ?thesis using ok session_step_frame [of s x] by (simp add: session_ok_def)
qed

lemma session_ok_init: "session_ok cap ttl (SessionAffinity_init cap ttl)"
  by (simp add: session_ok_def SessionAffinity_init_def)

lemma session_ok_foldl: "session_ok cap ttl s \<Longrightarrow> session_ok cap ttl (foldl session_step s ops)"
  by (induction ops arbitrary: s) (simp_all add: session_ok_step)

text \<open>The session an operation is about.\<close>

fun op_session :: "session_op \<Rightarrow> string option" where
  "op_session (SPick sid cands now) = sid"
| "op_session (SRemember sid b now) = sid"
| "op_session (SForget b) = None"

text \<open>An entry with few enough entries behind it.\<close>

definition pinned_before :: "SessionAffinity \<Rightarrow> string \<Rightarrow> string \<times> pyfloat \<Rightarrow> string set \<Rightarrow> bool" where
  "pinned_before s sid v T \<longleftrightarrow> (\<exists>xs ys. by_session s = xs @ (sid, v) # ys \<and> set (map fst ys) \<subseteq> T)"

lemma pinned_beforeI: "by_session s = xs @ (sid, v) # ys \<Longrightarrow> set (map fst ys) \<subseteq> T \<Longrightarrow> pinned_before s sid v T"
  unfolding pinned_before_def by blast

lemma pinned_lookup: "session_ok cap ttl s \<Longrightarrow> pinned_before s sid v T \<Longrightarrow> map_of (by_session s) sid = Some v"
  unfolding pinned_before_def session_ok_def dict_ok_def by (auto simp: map_of_append map_add_def split: option.split dest: map_of_SomeD)

lemma delete_split:
  "k \<noteq> sid \<Longrightarrow> AList.delete k (xs @ (sid, v) # ys) = AList.delete k xs @ (sid, v) # AList.delete k ys"
  by (simp add: AList.delete_eq)

lemma lastn_keep: "length ys < n \<Longrightarrow> lastn n (xs @ y # ys) = lastn (n - Suc (length ys)) xs @ y # ys"
  using lastn_append_left [of "y # ys" n xs] by simp

lemma pinned_step:
  assumes ok: "session_ok cap ttl s" and p: "pinned_before s sid v T" and T: "finite T" "int (card T) < max 1 cap"
    and x: "op_session x \<noteq> Some sid" "x \<noteq> SForget (fst v)" "\<And>k. op_session x = Some k \<Longrightarrow> k \<in> T"
  shows "pinned_before (session_step s x) sid v T"
proof -
  obtain xs ys where s: "by_session s = xs @ (sid, v) # ys" and ys: "set (map fst ys) \<subseteq> T"
    using p unfolding pinned_before_def by blast
  have dist: "distinct (map fst (xs @ (sid, v) # ys))" using ok by (simp add: session_ok_def dict_ok_def s)
  have del: "set (map fst (AList.delete k ys)) \<subseteq> T" for k using ys by (auto simp: AList.delete_eq)
  from ok show ?thesis
  proof (cases rule: session_step_cases [where x = x])
    case same
    then show ?thesis using s ys by (intro pinned_beforeI) simp_all
  next
    case (drop k)
    then have "k \<noteq> sid" using x(1) by auto
    then show ?thesis using drop(4) s del delete_split by (intro pinned_beforeI) simp_all
  next
    case (touch k)
    then have k: "k \<noteq> sid" "k \<in> T" using x by auto
    show ?thesis
    proof (cases "map_of (by_session s) k")
      case None
      then have "by_session (session_step s x) = xs @ (sid, v) # ys" using touch(3) s by (simp only: move_to_end_def option.case)
      then show ?thesis using ys by (rule pinned_beforeI)
    next
      case (Some w)
      then have "by_session (session_step s x) = AList.delete k xs @ (sid, v) # (AList.delete k ys @ [(k, w)])"
        using touch(3) delete_split [OF k(1)] by (simp add: move_to_end_def s)
      then show ?thesis by (rule pinned_beforeI) (use del k in auto)
    qed
  next
    case (pin k b now)
    then have k: "k \<noteq> sid" "k \<in> T" using x by auto
    let ?ys = "AList.delete k ys @ [(k, b, now)]"
    have sub: "set (map fst ?ys) \<subseteq> T" using del [of k] k by simp
    have "distinct (map fst ?ys)" using dist by (auto simp: AList.delete_eq distinct_map_filter)
    then have "length ?ys \<le> card T" using sub T(1) by (metis card_mono distinct_card length_map)
    then have "length ?ys < nat (max 1 cap)" using T(2) by linarith
    moreover have "lru_touch (by_session s) k (b, now) = AList.delete k xs @ (sid, v) # ?ys"
      by (simp add: lru_touch_def s delete_split [OF k(1)])
    ultimately have "by_session (session_step s x) =
        lastn (nat (max 1 cap) - Suc (length ?ys)) (AList.delete k xs) @ (sid, v) # ?ys"
      using pin(3) lastn_keep by metis
    then show ?thesis using sub by (rule pinned_beforeI)
  next
    case (forget b)
    then have "fst v \<noteq> b" using x(2) by auto
    then have "by_session (session_step s x) =
        filter (\<lambda>e. fst (snd e) \<noteq> b) xs @ (sid, v) # filter (\<lambda>e. fst (snd e) \<noteq> b) ys"
      using forget(2) s by simp
    then show ?thesis by (rule pinned_beforeI) (use ys in auto)
  qed
qed

lemma pinned_foldl:
  assumes "session_ok cap ttl s" "pinned_before s sid v T" "finite T" "int (card T) < max 1 cap"
    and "\<forall>x \<in> set ops. op_session x \<noteq> Some sid \<and> x \<noteq> SForget (fst v)" "{k. Some k \<in> op_session ` set ops} \<subseteq> T"
  shows "pinned_before (foldl session_step s ops) sid v T"
  using assms
proof (induction ops arbitrary: s)
  case (Cons x ops)
  have "pinned_before (session_step s x) sid v T"
    by (rule pinned_step [OF Cons.prems(1-4)]) (use Cons.prems(5,6) in force)+
  then show ?case using Cons.prems session_ok_step by (auto intro!: Cons.IH)
qed simp

text \<open>
  A session sticks to its backend: after a turn has been recorded, whatever requests of
  other sessions and removals of other backends follow, the next turn goes to the same backend,
  as long as it comes within the idle limit, the backend is still a candidate, and fewer other
  sessions than the capacity were active meanwhile.
\<close>

theorem session_sticks:
  assumes "sid \<noteq> []" and "remember (session_run cap ttl history) (Some sid) b t = Inr s"
    and "\<forall>x \<in> set ops. op_session x \<noteq> Some sid \<and> x \<noteq> SForget b"
    and "int (card {k. Some k \<in> op_session ` set ops}) < max 1 cap"
    and "now - t \<le> ttl" and "b \<in> set cands"
  shows "fst (pick_session (foldl session_step s ops) (Some sid) cands now) = Some b"
proof -
  let ?T = "{k. Some k \<in> op_session ` set ops}" and ?h = "session_run cap ttl history"
  have ok: "session_ok cap ttl ?h" unfolding session_run_def by (rule session_ok_foldl [OF session_ok_init])
  have s: "s = ?h\<lparr>by_session := lastn (nat (max 1 cap)) (lru_touch (by_session ?h) sid (b, t))\<rparr>"
    using assms(2) remember_run [of ?h sid b t] ok assms(1) by (simp add: session_ok_def)
  have "session_step ?h (SRemember (Some sid) b t) = s" using assms(2) by simp
  then have oks: "session_ok cap ttl s" using session_ok_step [OF ok] by metis
  have "finite ?T" using finite_vimageI [of "op_session ` set ops" Some] by (simp add: vimage_def)
  moreover have "pinned_before s sid (b, t) ?T"
    by (rule pinned_beforeI [of _ "lastn (nat (max 1 cap) - 1) (AList.delete sid (by_session ?h))" _ _ "[]"])
      (simp_all add: s lru_touch_def lastn_keep)
  ultimately have "pinned_before (foldl session_step s ops) sid (b, t) ?T"
    using oks assms(3,4) by (intro pinned_foldl) auto
  moreover have ok': "session_ok cap ttl (foldl session_step s ops)" by (rule session_ok_foldl [OF oks])
  ultimately have "map_of (by_session (foldl session_step s ops)) sid = Some (b, t)" by (rule pinned_lookup [rotated])
  then show ?thesis using ok' assms(1,5,6) by (simp add: pick_session_def session_ok_def)
qed

theorem session_sticks_witness:
  "fst (pick_session (foldl session_step
      ((SessionAffinity_init 2 100)\<lparr>by_session := [(''s1'', ''b0'', 1)]\<rparr>)
      [SRemember (Some ''s2'') ''b1'' 2, SForget ''b1'', SRemember (Some ''s2'') ''b2'' 3]) (Some ''s1'') [''b2'', ''b0''] 50) = Some ''b0''"
  by (rule session_sticks [of "''s1''" 2 100 "[]" "''b0''" 1])
    (simp_all add: session_run_def SessionAffinity_init_def remember_def lru_touch_def)

text \<open>The pin of a session that a history of operations asks for.\<close>

fun last_pin :: "string \<Rightarrow> session_op list \<Rightarrow> (string \<times> pyfloat) option \<Rightarrow> (string \<times> pyfloat) option" where
  "last_pin sid [] p = p"
| "last_pin sid (SRemember k b t # ops) p = last_pin sid ops (if k = Some sid then Some (b, t) else p)"
| "last_pin sid (SForget b # ops) p = last_pin sid ops (case p of Some (b', _) \<Rightarrow> if b' = b then None else p | None \<Rightarrow> None)"
| "last_pin sid (_ # ops) p = last_pin sid ops p"

lemma last_pin_append: "last_pin sid (xs @ ys) p = last_pin sid ys (last_pin sid xs p)"
  by (induction sid xs p rule: last_pin.induct) simp_all

lemma map_of_lastn: "dict_ok d \<Longrightarrow> map_of (lastn n d) k = Some v \<Longrightarrow> map_of d k = Some v"
  using set_lastn [of n d] by (auto simp: dict_ok_def dest: map_of_SomeD)

lemma map_of_filter_dict: "dict_ok d \<Longrightarrow> map_of (filter P d) k = Some v \<Longrightarrow> map_of d k = Some v \<and> P (k, v)"
  by (auto simp: dict_ok_def dest!: map_of_SomeD)

lemma map_of_touch: "map_of (lru_touch d k v) = (map_of d)(k \<mapsto> v)"
  by (rule ext) (simp add: lru_touch_def map_of_append map_add_def split: option.split)

lemma session_run_pin:
  "map_of (by_session (session_run cap ttl ops)) sid = Some v \<Longrightarrow> sid \<noteq> [] \<Longrightarrow> last_pin sid ops None = Some v"
proof (induction ops arbitrary: v rule: rev_induct)
  case Nil
  then show ?case by (simp add: session_run_def SessionAffinity_init_def)
next
  case (snoc x ops)
  let ?s = "session_run cap ttl ops"
  have ok: "session_ok cap ttl ?s" unfolding session_run_def by (rule session_ok_foldl [OF session_ok_init])
  have d: "dict_ok (by_session ?s)" using ok by (simp add: session_ok_def)
  have m: "map_of (by_session (session_step ?s x)) sid = Some v" using snoc.prems(1) by (simp add: session_run_def)
  note IH = snoc.IH [OF _ snoc.prems(2)]
  show ?case
  proof (cases x)
    case (SPick k cands now)
    have "map_of (by_session ?s) sid = Some v"
      using m ok by (cases rule: session_step_cases [where x = x, OF ok]) (auto simp: d SPick split: if_splits)
    then show ?thesis using IH SPick by (simp add: last_pin_append)
  next
    case (SRemember k b now)
    show ?thesis
    proof (cases "k = Some sid")
      case True
      then have "by_session (session_step ?s x) = lastn (nat (max 1 cap)) (lru_touch (by_session ?s) sid (b, now))"
        using remember_run [of ?s sid b now] snoc.prems(2) ok by (simp add: SRemember session_ok_def)
      then have "map_of (lru_touch (by_session ?s) sid (b, now)) sid = Some v"
        using m by (metis map_of_lastn dict_ok_touch [OF d])
      then show ?thesis using True by (simp add: map_of_touch last_pin_append SRemember)
    next
      case False
      have "map_of (by_session ?s) sid = Some v"
      proof (cases "k = None \<or> k = Some []")
        case True
        then show ?thesis using m by (auto simp: SRemember remember_def)
      next
        case nz: False
        then obtain k' where k': "k = Some k'" "k' \<noteq> []" by auto
        then have "by_session (session_step ?s x) = lastn (nat (max 1 cap)) (lru_touch (by_session ?s) k' (b, now))"
          using remember_run [of ?s k' b now] ok by (simp add: SRemember session_ok_def)
        then have "map_of (lru_touch (by_session ?s) k' (b, now)) sid = Some v"
          using m by (metis map_of_lastn dict_ok_touch [OF d])
        then show ?thesis using False k' by (simp add: map_of_touch split: if_splits)
      qed
      then show ?thesis using IH False by (simp add: last_pin_append SRemember)
    qed
  next
    case (SForget b)
    then have "map_of (filter (\<lambda>e. fst (snd e) \<noteq> b) (by_session ?s)) sid = Some v"
      using m forget_filter [OF d] by simp
    from map_of_filter_dict [OF d this] show ?thesis
      using IH by (cases v) (simp add: last_pin_append SForget)
  qed
qed

text \<open>
  C38. A pin is never stale and the table stays within its capacity: after any history there are at most as many sessions as the
  capacity allows (at least one), each once; and the backend returned for a session is a
  candidate, is the one its last recorded turn went to, that turn is within the idle limit, and
  the backend was not removed since.
\<close>

theorem session_pick_sound:
  shows "int (length (by_session (session_run cap ttl ops))) \<le> max 1 cap \<and> distinct (map fst (by_session (session_run cap ttl ops))) \<and>
    (fst (pick_session (session_run cap ttl ops) (Some sid) cands now) = Some b \<longrightarrow>
       b \<in> set cands \<and> (\<exists>t. last_pin sid ops None = Some (b, t) \<and> now - t \<le> ttl))"
proof (intro conjI impI)
  have ok: "session_ok cap ttl (session_run cap ttl ops)"
    unfolding session_run_def by (rule session_ok_foldl [OF session_ok_init])
  then show "int (length (by_session (session_run cap ttl ops))) \<le> max 1 cap" "distinct (map fst (by_session (session_run cap ttl ops)))"
    by (simp_all add: session_ok_def dict_ok_def)
  assume p: "fst (pick_session (session_run cap ttl ops) (Some sid) cands now) = Some b"
  then show "b \<in> set cands" using ok by (auto simp: pick_session_def session_ok_def split: if_splits option.splits)
  obtain t where "sid \<noteq> []" "map_of (by_session (session_run cap ttl ops)) sid = Some (b, t)" "now - t \<le> ttl"
    using p ok by (auto simp: pick_session_def session_ok_def split: if_splits option.splits)
  then show "\<exists>t. last_pin sid ops None = Some (b, t) \<and> now - t \<le> ttl" using session_run_pin by blast
qed

theorem session_pick_sound_witness:
  "''b0'' \<in> set [''b0''] \<and> (\<exists>t. last_pin ''s1'' [SRemember (Some ''s1'') ''b0'' 1] None = Some (''b0'', t) \<and> 5 - t \<le> 100)"
  using session_pick_sound [of 2 100 "[SRemember (Some ''s1'') ''b0'' 1]" "''s1''" "[''b0'']" 5 "''b0''"]
  by (simp add: session_run_def SessionAffinity_init_def remember_def lru_touch_def pick_session_def)

end
