(* ===== verification/Auth.thy ===== *)
theory Auth
  imports Tenancy
begin

unbundle bit_operations_syntax

section \<open>API-key authentication\<close>

text \<open>
  \<^verbatim>\<open>gateway/auth.py\<close>: the bearer key of a request against the configured keys and key hashes.
  \<open>hashlib.sha256\<close> is spelled out on 32-bit words, and \<open>hmac.compare_digest\<close> with its refusal of
  strings that are not ASCII.
\<close>


subsection \<open>SHA-256\<close>

type_synonym w32 = "32 word"

definition rotr :: "nat \<Rightarrow> w32 \<Rightarrow> w32" where
  "rotr n x = drop_bit n x OR push_bit (32 - n) x"

definition sha_K :: "w32 list" where
  "sha_K = [1116352408, 1899447441, 3049323471, 3921009573, 961987163,
     1508970993, 2453635748, 2870763221, 3624381080, 310598401,
     607225278, 1426881987, 1925078388, 2162078206, 2614888103,
     3248222580, 3835390401, 4022224774, 264347078, 604807628,
     770255983, 1249150122, 1555081692, 1996064986, 2554220882,
     2821834349, 2952996808, 3210313671, 3336571891, 3584528711,
     113926993, 338241895, 666307205, 773529912, 1294757372,
     1396182291, 1695183700, 1986661051, 2177026350, 2456956037,
     2730485921, 2820302411, 3259730800, 3345764771, 3516065817,
     3600352804, 4094571909, 275423344, 430227734, 506948616,
     659060556, 883997877, 958139571, 1322822218, 1537002063,
     1747873779, 1955562222, 2024104815, 2227730452, 2361852424,
     2428436474, 2756734187, 3204031479, 3329325298]"

definition sha_H0 :: "w32 list" where
  "sha_H0 = [1779033703, 3144134277, 1013904242, 2773480762, 1359893119,
     2600822924, 528734635, 1541459225]"

text \<open>Big-endian bytes of a number, and the padded message.\<close>

definition be_bytes :: "nat \<Rightarrow> int \<Rightarrow> byte list" where
  "be_bytes k n = map (\<lambda>i. of_int (n div 256 ^ (k - 1 - i))) [0..<k]"

definition sha_pad :: "byte list \<Rightarrow> byte list" where
  "sha_pad m = m @ [0x80] @ replicate ((119 - length m mod 64) mod 64) 0 @ be_bytes 8 (8 * int (length m))"

fun sha_words :: "byte list \<Rightarrow> w32 list" where
  "sha_words (a # b # c # d # r) =
     (push_bit 24 (ucast a) OR push_bit 16 (ucast b) OR push_bit 8 (ucast c) OR ucast d) # sha_words r"
| "sha_words _ = []"

text \<open>The message schedule, newest word first, and the compression of one block.\<close>

definition sched_next :: "w32 list \<Rightarrow> w32" where
  "sched_next ws =
     (let w2 = ws ! 1; w7 = ws ! 6; w15 = ws ! 14; w16 = ws ! 15;
          s0 = rotr 7 w15 XOR rotr 18 w15 XOR drop_bit 3 w15;
          s1 = rotr 17 w2 XOR rotr 19 w2 XOR drop_bit 10 w2
      in w16 + s0 + w7 + s1)"

fun sched_extend :: "nat \<Rightarrow> w32 list \<Rightarrow> w32 list" where
  "sched_extend 0 ws = ws"
| "sched_extend (Suc n) ws = sched_extend n (sched_next ws # ws)"

fun sha_round :: "w32 \<times> w32 \<times> w32 \<times> w32 \<times> w32 \<times> w32 \<times> w32 \<times> w32 \<Rightarrow> w32 \<times> w32 \<Rightarrow>
  w32 \<times> w32 \<times> w32 \<times> w32 \<times> w32 \<times> w32 \<times> w32 \<times> w32" where
  "sha_round (a, b, c, d, e, f, g, h) (k, w) =
     (let S1 = rotr 6 e XOR rotr 11 e XOR rotr 25 e;
          ch = (e AND f) XOR (NOT e AND g);
          t1 = h + S1 + ch + k + w;
          S0 = rotr 2 a XOR rotr 13 a XOR rotr 22 a;
          maj = (a AND b) XOR (a AND c) XOR (b AND c)
      in (t1 + (S0 + maj), a, b, c, d + t1, e, f, g))"

fun sha_block :: "w32 list \<Rightarrow> w32 list \<Rightarrow> w32 list" where
  "sha_block [h0, h1, h2, h3, h4, h5, h6, h7] ws =
     (case foldl sha_round (h0, h1, h2, h3, h4, h5, h6, h7) (zip sha_K (rev (sched_extend 48 (rev ws)))) of
        (a, b, c, d, e, f, g, h) \<Rightarrow> [h0 + a, h1 + b, h2 + c, h3 + d, h4 + e, h5 + f, h6 + g, h7 + h])"
| "sha_block st ws = st"

function sha_blocks :: "w32 list \<Rightarrow> w32 list \<Rightarrow> w32 list" where
  "sha_blocks st ws = (if length ws < 16 then st else sha_blocks (sha_block st (take 16 ws)) (drop 16 ws))"
  by pat_completeness auto
termination by (relation "measure (\<lambda>(st, ws). length ws)") auto

declare sha_blocks.simps [simp del]

definition sha256 :: "byte list \<Rightarrow> w32 list" where
  "sha256 m = sha_blocks sha_H0 (sha_words (sha_pad m))"

definition hexd :: "nat \<Rightarrow> char" where
  "hexd n = (if n < 10 then char_of (48 + n) else char_of (87 + n))"

definition word_hex :: "w32 \<Rightarrow> string" where
  "word_hex w = map (\<lambda>i. hexd (unat (drop_bit (28 - 4 * i) w AND 15))) [0..<8]"

definition sha256_hex :: "string \<Rightarrow> string" where
  "sha256_hex key = concat (map word_hex (sha256 (utf8_encode key)))"

text \<open>The first test vector of the standard.\<close>

lemma sha256_abc: "sha256_hex ''abc'' = ''ba7816bf8f01cfea414140de5dae2223b00361a396177a9cb410ff61f20015ad''"
  by code_simp


subsection \<open>Keys\<close>

definition MISSING :: string where
  "MISSING = ''missing_api_key''"

definition INVALID :: string where
  "INVALID = ''invalid_api_key''"

definition extract_bearer :: "headers \<Rightarrow> string option" where
  "extract_bearer hdr =
     (let auth = hdr_or hdr ''authorization'' ''Authorization'' in
      if py_lower (take 7 auth) = ''bearer '' then
        let key = py_strip (drop 7 auth) in if key = [] then None else Some key
      else None)"

text \<open>The set comprehension; a set is kept as a list without repetitions, in any order.\<close>

definition parse_api_keys :: "string \<Rightarrow> string list" where
  "parse_api_keys spec = remdups (filter (\<lambda>k. k \<noteq> []) (map py_strip (py_split (CHR '','') spec)))"

record Authenticator =
  auth_keys :: "string list"
  auth_hashes :: "string list"
  auth_require :: bool

definition Authenticator_init :: "string list \<Rightarrow> bool \<Rightarrow> string list \<Rightarrow> Authenticator" where
  "Authenticator_init valid_keys require valid_hashes =
     \<lparr>auth_keys = remdups valid_keys,
      auth_hashes = remdups (map (\<lambda>h. py_lower (py_strip h)) (filter (\<lambda>h. py_strip h \<noteq> []) valid_hashes)),
      auth_require = require\<rparr>"

text \<open>\<open>hmac.compare_digest\<close> on two strings: both must be ASCII.\<close>

definition ascii :: "string \<Rightarrow> bool" where
  "ascii s \<longleftrightarrow> (\<forall>c \<in> set s. (of_char c :: nat) < 128)"

definition compare_digest :: "string \<Rightarrow> string \<Rightarrow> bool result" where
  "compare_digest a b = (if ascii a \<and> ascii b then Inr (a = b) else Inl TypeError)"

text \<open>The loop compares with every entry, so that its time does not depend on a match.\<close>

fun digest_loop :: "string \<Rightarrow> string list \<Rightarrow> bool \<Rightarrow> bool result" where
  "digest_loop key [] ok = Inr ok"
| "digest_loop key (k # ks) ok = res_bind (compare_digest key k) (\<lambda>eq. digest_loop key ks (ok \<or> eq))"

definition is_valid :: "Authenticator \<Rightarrow> string option \<Rightarrow> bool result" where
  "is_valid a key =
     (case key of
        None \<Rightarrow> Inr False
      | Some k \<Rightarrow>
          if k = [] then Inr False
          else res_bind (digest_loop k (auth_keys a) False) (\<lambda>ok.
            if auth_hashes a = [] then Inr ok else digest_loop (sha256_hex k) (auth_hashes a) ok))"

definition check :: "Authenticator \<Rightarrow> headers \<Rightarrow> (bool \<times> string option) result" where
  "check a hdr =
     (if \<not> auth_require a then Inr (True, None)
      else case extract_bearer hdr of
        None \<Rightarrow> Inr (False, Some MISSING)
      | Some key \<Rightarrow>
          res_bind (is_valid a (Some key)) (\<lambda>ok. Inr (if ok then (True, None) else (False, Some INVALID))))"


subsection \<open>Properties\<close>

lemma digest_loop_ascii:
  "digest_loop key ks ok =
     (if ks = [] \<or> ascii key \<and> (\<forall>k \<in> set ks. ascii k) then Inr (ok \<or> key \<in> set ks) else Inl TypeError)"
  by (induction ks arbitrary: ok) (auto simp: compare_digest_def)

lemma hexd_ascii: "n < 16 \<Longrightarrow> (of_char (hexd n) :: nat) < 128"
  by (auto simp: hexd_def of_char_of)

lemma sha256_hex_ascii: "ascii (sha256_hex k)"
proof -
  have "unat (w AND 15 :: w32) < 16" for w
  proof -
    have "w AND 15 \<le> 15" by (rule word_and_le1)
    then have "unat (w AND 15) \<le> unat (15 :: w32)" by (rule iffD1 [OF word_le_nat_alt])
    then show ?thesis by simp
  qed
  then show ?thesis by (auto simp: ascii_def sha256_hex_def word_hex_def intro!: hexd_ascii)
qed

lemma extract_bearer_nonempty: "extract_bearer hdr = Some k \<Longrightarrow> k \<noteq> []"
  by (auto simp: extract_bearer_def Let_def split: if_splits)

definition accepted :: "Authenticator \<Rightarrow> string \<Rightarrow> bool" where
  "accepted a k \<longleftrightarrow> k \<in> set (auth_keys a) \<or> sha256_hex k \<in> set (auth_hashes a)"

text \<open>
  C22. Who is let in: with authentication off everyone is; otherwise a request without a bearer
  key is refused as missing one, and one with a key is let in exactly when the key is configured
  or its SHA-256 is, and refused as invalid otherwise.  The exception is a key that is not ASCII
  (or a configured entry that is not): then the comparison raises \<open>TypeError\<close> and the request
  fails instead of being refused.
\<close>

theorem check_exact:
  "check a hdr =
     (if \<not> auth_require a then Inr (True, None)
      else case extract_bearer hdr of
        None \<Rightarrow> Inr (False, Some MISSING)
      | Some k \<Rightarrow>
          if (auth_keys a \<noteq> [] \<and> \<not> ascii k) \<or> (\<exists>x \<in> set (auth_keys a) \<union> set (auth_hashes a). \<not> ascii x)
          then Inl TypeError
          else Inr (if accepted a k then (True, None) else (False, Some INVALID)))"
proof (cases "auth_require a \<and> extract_bearer hdr \<noteq> None")
  case False
  then show ?thesis by (auto simp: check_def)
next
  case True
  then obtain k where k: "extract_bearer hdr = Some k" "k \<noteq> []" using extract_bearer_nonempty by blast
  show ?thesis
    using True k sha256_hex_ascii [of k]
    by (auto simp: check_def is_valid_def digest_loop_ascii accepted_def)
qed

text \<open>
  An authenticated tenant is charged to itself: when authentication is on and the keys are
  those of the tenant registry and the extra ones, a request that is let in carries one of those
  keys or a key with a configured hash, and if it is a tenant's key the request resolves to that
  tenant and not to the anonymous one.
\<close>

theorem authenticated_tenant:
  assumes "check (Authenticator_init (dkeys (by_key reg) @ parse_api_keys extra) True hashes) hdr = Inr (True, r)"
  shows "\<exists>k. extract_bearer hdr = Some k \<and>
    (k \<in> tenant_keys reg \<longrightarrow> map_of (by_key reg) k = Some (resolve reg hdr)) \<and>
    (k \<in> tenant_keys reg \<or> k \<in> set (parse_api_keys extra) \<or>
     sha256_hex k \<in> (\<lambda>h. py_lower (py_strip h)) ` set hashes)"
proof -
  let ?a = "Authenticator_init (dkeys (by_key reg) @ parse_api_keys extra) True hashes"
  have "auth_require ?a" by (simp add: Authenticator_init_def)
  then obtain k where k: "extract_bearer hdr = Some k" and v: "is_valid ?a (Some k) = Inr True"
    using assms by (auto simp: check_def split: option.splits if_splits)
  have acc: "k \<in> set (auth_keys ?a) \<or> sha256_hex k \<in> set (auth_hashes ?a)"
    using v extract_bearer_nonempty [OF k] by (auto simp: is_valid_def digest_loop_ascii split: if_splits)
  have "map_of (by_key reg) k = Some (resolve reg hdr)" if kt: "k \<in> tenant_keys reg"
  proof -
    have "py_strip (drop 7 (hdr_or hdr ''authorization'' ''Authorization'')) = k"
        "py_lower (take 7 (hdr_or hdr ''authorization'' ''Authorization'')) = ''bearer ''"
      using k by (auto simp: extract_bearer_def Let_def split: if_splits)
    moreover obtain t where "map_of (by_key reg) k = Some t"
      using kt map_of_None_dkeys [of "by_key reg" k] by (auto simp: tenant_keys_def)
    ultimately show ?thesis by (simp add: resolve_def Let_def)
  qed
  with k acc show ?thesis by (auto simp: Authenticator_init_def tenant_keys_def)
qed

definition demo_tenants :: TenantRegistry where
  "demo_tenants = projr (TenantRegistry_init ''k1=acme:gold'' [])"

theorem authenticated_tenant_witness:
  "map_of (by_key demo_tenants) ''k1'' = Some (resolve demo_tenants [''authorization'' \<mapsto> ''Bearer k1''])"
proof -
  let ?h = "[''authorization'' \<mapsto> ''Bearer k1'']"
  have k: "dkeys (by_key demo_tenants) = [''k1'']" and b: "extract_bearer ?h = Some ''k1''" by code_simp+
  have "check (Authenticator_init ([''k1''] @ parse_api_keys []) True []) ?h = Inr (True, None)" by code_simp
  then have "check (Authenticator_init (dkeys (by_key demo_tenants) @ parse_api_keys []) True []) ?h = Inr (True, None)"
    by (simp only: k)
  from authenticated_tenant [OF this] show ?thesis using b k by (auto simp: tenant_keys_def)
qed

end
