(* ===== verification/Admission.thy ===== *)
theory Admission
  imports Config Json
begin

section \<open>Admission control\<close>

text \<open>
  \<^verbatim>\<open>gateway/admission\<close>: whether a request is admitted, queued or rejected, from its estimated time
  to first token, the pressure on the fleet and the tier of its tenant.
\<close>


subsection \<open>Configuration\<close>

record AdmissionConfig =
  enabled :: bool
  ttft_slo_ms :: pyfloat
  max_inflight_per_backend :: int
  shed_pressure :: pyfloat
  queue_enabled :: bool
  max_queue_depth :: int
  retry_after_base_ms :: pyfloat
  retry_after_max_ms :: pyfloat

definition AdmissionConfig_fields :: fields where
  "AdmissionConfig_fields =
     [(''enabled'', CBool False),
      (''ttft_slo_ms'', CRat 500),
      (''max_inflight_per_backend'', CInt 64),
      (''shed_pressure'', CRat 0.75),
      (''queue_enabled'', CBool True),
      (''max_queue_depth'', CInt 256),
      (''retry_after_base_ms'', CRat 200),
      (''retry_after_max_ms'', CRat 10000)]"

definition AdmissionConfig_of :: "fields \<Rightarrow> AdmissionConfig" where
  "AdmissionConfig_of d =
     \<lparr>enabled = bool_field d ''enabled'',
      ttft_slo_ms = float_field d ''ttft_slo_ms'',
      max_inflight_per_backend = int_field d ''max_inflight_per_backend'',
      shed_pressure = float_field d ''shed_pressure'',
      queue_enabled = bool_field d ''queue_enabled'',
      max_queue_depth = int_field d ''max_queue_depth'',
      retry_after_base_ms = float_field d ''retry_after_base_ms'',
      retry_after_max_ms = float_field d ''retry_after_max_ms''\<rparr>"

definition AdmissionConfig_from_env :: "environ \<Rightarrow> AdmissionConfig result" where
  "AdmissionConfig_from_env env = load_config ''GW_ADMISSION_'' AdmissionConfig_fields AdmissionConfig_of env"


subsection \<open>Numbers in messages\<close>

text \<open>
  Rounding half to even, \<open>round(x, d)\<close> and the format \<open>:.df\<close>, on exact rationals.
\<close>

definition round_half_even :: "pyfloat \<Rightarrow> int" where
  "round_half_even x =
     (let f = \<lfloor>x\<rfloor>; r = x - of_int f in
      if r < 1 / 2 then f else if r > 1 / 2 then f + 1 else if even f then f else f + 1)"

definition py_round :: "nat \<Rightarrow> pyfloat \<Rightarrow> pyfloat" where
  "py_round d x = of_int (round_half_even (x * 10 ^ d)) / 10 ^ d"

definition fmt_fixed :: "nat \<Rightarrow> pyfloat \<Rightarrow> string" where
  "fmt_fixed d x =
     (let n = nat (round_half_even (\<bar>x\<bar> * 10 ^ d)); whole = show_nat (n div 10 ^ d); frac = show_nat (n mod 10 ^ d)
      in (if x < 0 then ''-'' else []) @ whole @
         (if d = 0 then [] else ''.'' @ replicate (d - length frac) (CHR ''0'') @ frac))"


subsection \<open>The policy\<close>

definition TIER_PRIORITY :: "(string, int) dict" where
  "TIER_PRIORITY = [(''gold'', 3), (''silver'', 2), (''bronze'', 1)]"

definition ADMIT :: string where
  "ADMIT = ''admit''"

definition QUEUE :: string where
  "QUEUE = ''queue''"

definition REJECT :: string where
  "REJECT = ''reject''"

definition tier_priority :: "string \<Rightarrow> int" where
  "tier_priority t = dget TIER_PRIORITY (py_lower t) 0"

record FleetState =
  backend_inflight :: "(string, int) dict"
  backend_kv_usage :: "(string, pyfloat) dict"
  fs_queue_depth :: int

record AdmissionRequest =
  est_ttft_ms :: pyfloat
  req_tier :: string
  est_output_tokens :: int

record AdmissionDecision =
  action :: string
  reason :: string
  retry_after_ms :: pyfloat
  pressure :: pyfloat
  admit_floor :: pyfloat

definition fleet_pressure :: "FleetState \<Rightarrow> AdmissionConfig \<Rightarrow> pyfloat" where
  "fleet_pressure f c =
     (let kv = map snd (backend_kv_usage f);
          mean_kv = (if kv \<noteq> [] then sum_list kv / of_nat (length kv) else 0);
          infl = map snd (backend_inflight f);
          sat_frac = (if infl \<noteq> []
            then of_nat (length (filter (\<lambda>n. n \<ge> max_inflight_per_backend c) infl)) / of_nat (length infl) else 0)
      in max 0 (min 1 (max mean_kv sat_frac)))"

definition floor_for :: "pyfloat \<Rightarrow> AdmissionConfig \<Rightarrow> pyfloat" where
  "floor_for p c =
     (let span = max (1 / 10 ^ 9) (1 - shed_pressure c);
          t = max 0 (min 1 ((p - shed_pressure c) / span))
      in 1 + 2 * t)"

definition retry_after :: "pyfloat \<Rightarrow> AdmissionConfig \<Rightarrow> pyfloat \<Rightarrow> pyfloat" where
  "retry_after p c overshoot_ms =
     (let ms = max (retry_after_base_ms c * (1 + p)) overshoot_ms in min (retry_after_max_ms c) ms)"

definition decide :: "AdmissionRequest \<Rightarrow> FleetState \<Rightarrow> AdmissionConfig \<Rightarrow> AdmissionDecision" where
  "decide q f c =
     (let p = fleet_pressure f c in
      if est_ttft_ms q > ttft_slo_ms c then
        let overshoot = est_ttft_ms q - ttft_slo_ms c in
        \<lparr>action = REJECT,
         reason = ''deadline infeasible: est TTFT '' @ fmt_fixed 0 (est_ttft_ms q) @ ''ms > SLO '' @
                  fmt_fixed 0 (ttft_slo_ms c) @ ''ms'',
         retry_after_ms = retry_after p c overshoot, pressure = p, admit_floor = 0\<rparr>
      else if p < shed_pressure c then
        \<lparr>action = ADMIT, reason = ''within SLO, fleet below shed threshold'',
         retry_after_ms = 0, pressure = p, admit_floor = 0\<rparr>
      else
        let flr = floor_for p c in
        if of_int (tier_priority (req_tier q)) \<ge> flr then
          \<lparr>action = ADMIT,
           reason = ''tier '' @ req_tier q @ '' clears admit floor '' @ fmt_fixed 2 flr @ '' under pressure '' @ fmt_fixed 2 p,
           retry_after_ms = 0, pressure = p, admit_floor = flr\<rparr>
        else if queue_enabled c \<and> fs_queue_depth f < max_queue_depth c then
          \<lparr>action = QUEUE,
           reason = ''tier '' @ req_tier q @ '' below floor '' @ fmt_fixed 2 flr @ ''; queued for backpressure'',
           retry_after_ms = retry_after p c 0, pressure = p, admit_floor = flr\<rparr>
        else
          \<lparr>action = REJECT,
           reason = ''tier '' @ req_tier q @ '' below floor '' @ fmt_fixed 2 flr @ '' and queue full; shed'',
           retry_after_ms = retry_after p c 0, pressure = p, admit_floor = flr\<rparr>)"


subsection \<open>Properties\<close>

lemmas action_defs = ADMIT_def QUEUE_def REJECT_def

lemma fleet_pressure_unit: "0 \<le> fleet_pressure f c" "fleet_pressure f c \<le> 1"
  by (simp_all add: fleet_pressure_def Let_def)

lemma floor_for_bounds: "1 \<le> floor_for p c" "floor_for p c \<le> 3"
  by (simp_all add: floor_for_def Let_def)

lemma floor_for_mono: "p \<le> p' \<Longrightarrow> floor_for p c \<le> floor_for p' c"
  unfolding floor_for_def Let_def
  by (intro add_left_mono mult_left_mono max.mono min.mono divide_right_mono) auto

lemma admitted_iff:
  "action (decide q f c) = ADMIT \<longleftrightarrow>
     est_ttft_ms q \<le> ttft_slo_ms c \<and>
     (fleet_pressure f c < shed_pressure c \<or> floor_for (fleet_pressure f c) c \<le> of_int (tier_priority (req_tier q)))"
  by (simp add: decide_def Let_def action_defs)

lemma tier_priority_cases: "tier_priority t \<in> {0, 1, 2, 3}"
  by (simp add: tier_priority_def TIER_PRIORITY_def dget_def)

lemma floor_span:
  assumes "shed_pressure c \<le> p"
  shows "floor_for p c = 1 + 2 * min 1 ((p - shed_pressure c) / max (1 / 10 ^ 9) (1 - shed_pressure c))"
proof -
  have "0 \<le> (p - shed_pressure c) / max (1 / 10 ^ 9) (1 - shed_pressure c)"
    using assms by (intro divide_nonneg_pos) (auto simp: less_max_iff_disj)
  then show ?thesis by (simp add: floor_for_def Let_def)
qed

text \<open>Which tiers clear the floor.\<close>

lemma floor_tiers:
  assumes "shed_pressure c \<le> p"
  shows "floor_for p c \<le> of_int (tier_priority t) \<longleftrightarrow> tier_priority t = 3 \<or>
    tier_priority t = 2 \<and> p - shed_pressure c \<le> max (1 / 10 ^ 9) (1 - shed_pressure c) / 2 \<or>
    tier_priority t = 1 \<and> p = shed_pressure c"
proof -
  define s where "s = max (1 / 10 ^ 9) (1 - shed_pressure c)"
  have s: "0 < s" unfolding s_def by (simp add: less_max_iff_disj)
  define x where "x = (p - shed_pressure c) / s"
  have x: "0 \<le> x" "x \<le> 1 / 2 \<longleftrightarrow> p - shed_pressure c \<le> s / 2" "x \<le> 0 \<longleftrightarrow> p = shed_pressure c"
    using s assms by (auto simp: x_def field_simps)
  have "floor_for p c = 1 + 2 * min 1 x" using floor_span [OF assms] by (simp add: x_def s_def)
  then show ?thesis using tier_priority_cases [of t] x unfolding s_def [symmetric] by (auto simp: min_def split: if_splits)
qed

text \<open>
  Shedding degrades in order: if a request is admitted, then so is every request of the same
  or a higher tier with no larger estimated latency, under no larger fleet pressure.
\<close>

theorem shed_order:
  assumes "action (decide q f c) = ADMIT"
    and "tier_priority (req_tier q) \<le> tier_priority (req_tier q')"
    and "est_ttft_ms q' \<le> est_ttft_ms q" and "fleet_pressure f' c \<le> fleet_pressure f c"
  shows "action (decide q' f' c) = ADMIT"
proof -
  have *: "est_ttft_ms q \<le> ttft_slo_ms c"
    "fleet_pressure f c < shed_pressure c \<or> floor_for (fleet_pressure f c) c \<le> of_int (tier_priority (req_tier q))"
    using assms(1) by (simp_all add: admitted_iff)
  have "(of_int (tier_priority (req_tier q)) :: rat) \<le> of_int (tier_priority (req_tier q'))" using assms(2) by simp
  then show ?thesis using * assms(3,4) floor_for_mono [OF assms(4), of c] unfolding admitted_iff by linarith
qed

theorem shed_order_witness:
  "action (decide \<lparr>est_ttft_ms = 10, req_tier = ''gold'', est_output_tokens = 1\<rparr>
     \<lparr>backend_inflight = [(''b0'', 1)], backend_kv_usage = [(''b0'', 1 / 2)], fs_queue_depth = 0\<rparr>
     (AdmissionConfig_of AdmissionConfig_fields)) = ADMIT"
  by (rule shed_order [of "\<lparr>est_ttft_ms = 10, req_tier = ''bronze'', est_output_tokens = 1\<rparr>"
        "\<lparr>backend_inflight = [(''b0'', 1)], backend_kv_usage = [(''b0'', 1 / 2)], fs_queue_depth = 0\<rparr>"]; code_simp)

text \<open>
  C23. The decision in full, for every request, fleet and configuration.  The pressure is that of the fleet, between 0 and 1.  A request
  that cannot meet its deadline is rejected.  Otherwise it is admitted if the pressure is below the shedding threshold, or its tier is gold, or
  it is silver and the pressure is in the lower half of the range above the threshold, or it is bronze and the pressure is just the threshold; if
  not, it is queued when the queue is enabled and has room, and rejected when not.  The floor reported rises linearly from 1 at the
  threshold to 3.  An admitted request gets no retry delay, any other the base delay scaled by the pressure, or the time by which it
  misses its deadline if that is longer, up to the configured maximum.
\<close>

theorem decide_outcomes:
  "let d = decide q f c; p = fleet_pressure f c; k = tier_priority (req_tier q); late = est_ttft_ms q > ttft_slo_ms c;
       span = max (1 / 10 ^ 9) (1 - shed_pressure c);
       kept = (p < shed_pressure c \<or> k = 3 \<or> k = 2 \<and> p - shed_pressure c \<le> span / 2 \<or> k = 1 \<and> p = shed_pressure c)
   in 0 \<le> p \<and> p \<le> 1 \<and> pressure d = p \<and>
     action d = (if late then REJECT else if kept then ADMIT
                 else if queue_enabled c \<and> fs_queue_depth f < max_queue_depth c then QUEUE else REJECT) \<and>
     admit_floor d = (if late \<or> p < shed_pressure c then 0 else 1 + 2 * min 1 ((p - shed_pressure c) / span)) \<and>
     retry_after_ms d = (if \<not> late \<and> kept then 0
       else min (retry_after_max_ms c) (max (retry_after_base_ms c * (1 + p)) (if late then est_ttft_ms q - ttft_slo_ms c else 0)))"
proof -
  let ?p = "fleet_pressure f c" and ?k = "tier_priority (req_tier q)" and ?span = "max (1 / 10 ^ 9) (1 - shed_pressure c)"
  have "floor_for ?p c \<le> of_int ?k \<longleftrightarrow>
      ?k = 3 \<or> ?k = 2 \<and> ?p - shed_pressure c \<le> ?span / 2 \<or> ?k = 1 \<and> ?p = shed_pressure c" if "shed_pressure c \<le> ?p"
    by (rule floor_tiers [OF that])
  moreover have "floor_for ?p c = 1 + 2 * min 1 ((?p - shed_pressure c) / ?span)" if "shed_pressure c \<le> ?p"
    using floor_span [OF that] by simp
  ultimately show ?thesis using fleet_pressure_unit [of f c]
    unfolding Let_def by (auto simp: decide_def retry_after_def Let_def not_less)
qed

end
