(* ===== verification/Autoscale.thy ===== *)
theory Autoscale
  imports Config Json
begin

section \<open>The autoscaler\<close>

text \<open>
  \<^verbatim>\<open>gateway/autoscale\<close>: Erlang-B and Erlang-C by their recursions, the fewest replicas that meet
  a waiting-time objective, and the scaling decision with its bounds, cooldowns and deadband.
  Every division of the code can raise; the theorems show that none does on the arguments that
  occur.  The initial value \<open>float("-inf")\<close> of the two scaling times is \<open>None\<close>.
\<close>


subsection \<open>Configuration\<close>

record AutoscaleConfig =
  enabled :: bool
  min_replicas :: int
  max_replicas :: int
  service_rate_per_replica_rps :: pyfloat
  target_wait_ms :: pyfloat
  target_utilization :: pyfloat
  scale_up_cooldown_s :: pyfloat
  scale_down_cooldown_s :: pyfloat
  max_scale_step :: int
  scale_down_deadband :: int

definition AutoscaleConfig_fields :: fields where
  "AutoscaleConfig_fields =
     [(''enabled'', CBool False),
      (''min_replicas'', CInt 1),
      (''max_replicas'', CInt 20),
      (''service_rate_per_replica_rps'', CRat 5),
      (''target_wait_ms'', CRat 100),
      (''target_utilization'', CRat 0.7),
      (''scale_up_cooldown_s'', CRat 30),
      (''scale_down_cooldown_s'', CRat 300),
      (''max_scale_step'', CInt 4),
      (''scale_down_deadband'', CInt 1)]"

definition AutoscaleConfig_of :: "fields \<Rightarrow> AutoscaleConfig" where
  "AutoscaleConfig_of d =
     \<lparr>enabled = bool_field d ''enabled'',
      min_replicas = int_field d ''min_replicas'',
      max_replicas = int_field d ''max_replicas'',
      service_rate_per_replica_rps = float_field d ''service_rate_per_replica_rps'',
      target_wait_ms = float_field d ''target_wait_ms'',
      target_utilization = float_field d ''target_utilization'',
      scale_up_cooldown_s = float_field d ''scale_up_cooldown_s'',
      scale_down_cooldown_s = float_field d ''scale_down_cooldown_s'',
      max_scale_step = int_field d ''max_scale_step'',
      scale_down_deadband = int_field d ''scale_down_deadband''\<rparr>"

definition AutoscaleConfig_from_env :: "environ \<Rightarrow> AutoscaleConfig result" where
  "AutoscaleConfig_from_env env = load_config ''GW_AUTOSCALE_'' AutoscaleConfig_fields AutoscaleConfig_of env"


subsection \<open>Queueing formulas\<close>

definition pdiv :: "pyfloat \<Rightarrow> pyfloat \<Rightarrow> pyfloat result" where
  "pdiv x y = (if y = 0 then Inl ZeroDivisionError else Inr (x / y))"

text \<open>The loop over \<open>range(1, c + 1)\<close>; the first argument counts down.\<close>

fun erlang_b_loop :: "nat \<Rightarrow> nat \<Rightarrow> pyfloat \<Rightarrow> pyfloat \<Rightarrow> pyfloat result" where
  "erlang_b_loop 0 k a b = Inr b"
| "erlang_b_loop (Suc n) k a b =
     res_bind (pdiv (a * b) (of_nat k + a * b)) (\<lambda>b'. erlang_b_loop n (k + 1) a b')"

definition erlang_b :: "int \<Rightarrow> pyfloat \<Rightarrow> pyfloat result" where
  "erlang_b c a = (if c \<le> 0 then Inr 1 else erlang_b_loop (nat c) 1 a 1)"

definition erlang_c :: "int \<Rightarrow> pyfloat \<Rightarrow> pyfloat result" where
  "erlang_c c a =
     (if a \<le> 0 then Inr 0
      else if of_int c \<le> a then Inr 1
      else res_bind (erlang_b c a) (\<lambda>b.
        res_bind (pdiv a (of_int c)) (\<lambda>rho. pdiv b (1 - rho * (1 - b)))))"

definition expected_wait_s :: "int \<Rightarrow> pyfloat \<Rightarrow> pyfloat \<Rightarrow> xfloat result" where
  "expected_wait_s c lam mu =
     (if mu \<le> 0 \<or> lam \<le> 0 then Inr (Fin 0)
      else let a = lam / mu in
        if of_int c \<le> a then Inr PInf
        else res_bind (erlang_c c a) (\<lambda>p. res_bind (pdiv p (of_int c * mu - lam)) (\<lambda>w. Inr (Fin w))))"

text \<open>The climb from the smallest stable number of replicas.\<close>

function min_replicas_loop :: "int \<Rightarrow> pyfloat \<Rightarrow> pyfloat \<Rightarrow> pyfloat \<Rightarrow> int \<Rightarrow> int result" where
  "min_replicas_loop c lam mu slo_s max_reps =
     (if c < max_reps then
        res_bind (expected_wait_s c lam mu) (\<lambda>w.
          if xle w (Fin slo_s) then Inr c else min_replicas_loop (c + 1) lam mu slo_s max_reps)
      else Inr max_reps)"
  by pat_completeness auto
termination by (relation "measure (\<lambda>(c, lam, mu, slo_s, max_reps). nat (max_reps - c))") auto

declare min_replicas_loop.simps [simp del]

definition min_replicas_for_wait_slo :: "pyfloat \<Rightarrow> pyfloat \<Rightarrow> pyfloat \<Rightarrow> int \<Rightarrow> int result" where
  "min_replicas_for_wait_slo lam mu slo_s max_reps =
     (if lam \<le> 0 \<or> mu \<le> 0 then Inr 0
      else let a = lam / mu in min_replicas_loop (max 1 (\<lfloor>a\<rfloor> + 1)) lam mu slo_s max_reps)"


subsection \<open>The planner\<close>

record ScalingSignal =
  offered_rps :: pyfloat
  sig_replicas :: int
  now_s :: pyfloat
  last_scale_up_s :: "pyfloat option"
  last_scale_down_s :: "pyfloat option"

record ScalingDecision =
  current_replicas :: int
  desired_replicas :: int
  direction :: string
  sc_reason :: string
  slo_replicas :: int
  util_replicas :: int
  est_wait_ms :: xfloat
  blocked_by_cooldown :: bool

definition util_replicas_for :: "pyfloat \<Rightarrow> pyfloat \<Rightarrow> pyfloat \<Rightarrow> int" where
  "util_replicas_for lam mu target_util =
     (if lam \<le> 0 \<or> mu \<le> 0 then 0 else if target_util \<le> 0 then 1 else \<lceil>(lam / mu) / target_util\<rceil>)"

text \<open>\<open>now - last < cooldown\<close>, with a last time of minus infinity for none.\<close>

definition cooling :: "pyfloat \<Rightarrow> pyfloat option \<Rightarrow> pyfloat \<Rightarrow> bool" where
  "cooling now seen cooldown = (case seen of None \<Rightarrow> False | Some t \<Rightarrow> now - t < cooldown)"

fun xmul :: "xfloat \<Rightarrow> pyfloat \<Rightarrow> xfloat" where
  "xmul (Fin x) k = Fin (x * k)"
| "xmul PInf k = PInf"

definition scale_target :: "int \<Rightarrow> int \<Rightarrow> AutoscaleConfig \<Rightarrow> int" where
  "scale_target slo_n util_n c = max (min_replicas c) (min (max_replicas c) (max slo_n util_n))"

text \<open>The branches: direction, desired count, whether a cooldown blocked it, and the reason.\<close>

definition scale_move :: "ScalingSignal \<Rightarrow> AutoscaleConfig \<Rightarrow> int \<Rightarrow> int \<Rightarrow> string \<times> int \<times> bool \<times> string" where
  "scale_move s c slo_n util_n =
     (let cur = sig_replicas s; target = scale_target slo_n util_n c in
      if target > cur then
        (if cooling (now_s s) (last_scale_up_s s) (scale_up_cooldown_s c)
         then (''hold'', cur, True, ''scale-up to '' @ show_int target @ '' suppressed by up-cooldown'')
         else (''up'', min target (cur + max_scale_step c), False,
               ''latency needs '' @ show_int slo_n @ '', utilization needs '' @ show_int util_n @ '' -> target '' @ show_int target))
      else if target \<le> cur - scale_down_deadband c then
        (if cooling (now_s s) (last_scale_down_s s) (scale_down_cooldown_s c)
         then (''hold'', cur, True, ''scale-down to '' @ show_int target @ '' suppressed by down-cooldown'')
         else (''down'', max target (cur - max_scale_step c), False,
               ''load fits in '' @ show_int target @ '' (deadband '' @ show_int (scale_down_deadband c) @ '')''))
      else (''hold'', cur, False, ''within deadband of current''))"

definition plan :: "ScalingSignal \<Rightarrow> AutoscaleConfig \<Rightarrow> ScalingDecision result" where
  "plan s c =
     (let mu = service_rate_per_replica_rps c; lam = max 0 (offered_rps s) in
      res_bind (min_replicas_for_wait_slo lam mu (target_wait_ms c / 1000) (max_replicas c)) (\<lambda>slo_n.
        let util_n = util_replicas_for lam mu (target_utilization c);
            (dir, desired, blocked, why) = scale_move s c slo_n util_n
        in res_bind (expected_wait_s desired lam mu) (\<lambda>w.
          Inr \<lparr>current_replicas = sig_replicas s, desired_replicas = desired, direction = dir, sc_reason = why,
               slo_replicas = slo_n, util_replicas = util_n, est_wait_ms = xmul w 1000,
               blocked_by_cooldown = blocked\<rparr>)))"


subsection \<open>The formulas in closed form\<close>

text \<open>The terms of the Erlang formulas and their sum.\<close>

definition eterm :: "pyfloat \<Rightarrow> nat \<Rightarrow> pyfloat" where
  "eterm a k = a ^ k / fact k"

definition esum :: "pyfloat \<Rightarrow> nat \<Rightarrow> pyfloat" where
  "esum a n = (\<Sum>k\<le>n. eterm a k)"

lemma eterm_Suc: "eterm a (Suc k) = eterm a k * a / of_nat (Suc k)"
  by (simp add: eterm_def field_simps)

lemma eterm_pos: "0 < a \<Longrightarrow> 0 < eterm a k"
  by (simp add: eterm_def)

lemma esum_pos: "0 < a \<Longrightarrow> 0 < esum a n"
  unfolding esum_def by (rule sum_pos) (auto simp: eterm_pos)

lemma erlang_b_loop_closed:
  assumes "0 < a"
  shows "erlang_b_loop n (Suc k) a (eterm a k / esum a k) = Inr (eterm a (k + n) / esum a (k + n))"
proof (induction n arbitrary: k)
  case (Suc n)
  let ?b = "eterm a k / esum a k"
  have s: "0 < esum a k" "0 < eterm a k" using assms eterm_pos esum_pos by auto
  then have "0 < of_nat (Suc k) + a * ?b" using assms by (intro add_pos_nonneg) auto
  note s = s this
  have "a * ?b / (of_nat (Suc k) + a * ?b) = a * eterm a k / (of_nat (Suc k) * esum a k + a * eterm a k)"
    using s(1) by (simp add: field_simps)
  also have "\<dots> = eterm a (Suc k) / (esum a k + eterm a (Suc k))"
    using s(1,2) assms by (simp add: eterm_Suc divide_simps) (simp add: algebra_simps)
  finally have "a * ?b / (of_nat (Suc k) + a * ?b) = eterm a (Suc k) / esum a (Suc k)"
    by (simp add: esum_def)
  then show ?case using Suc.IH [of "Suc k"] s(3) by (simp add: pdiv_def)
qed simp

lemma erlang_b_closed:
  assumes "0 < a" "0 \<le> c"
  shows "erlang_b c a = Inr (eterm a (nat c) / esum a (nat c))"
  using erlang_b_loop_closed [OF assms(1), of "nat c" 0] assms(2)
  by (cases "c = 0") (simp_all add: erlang_b_def eterm_def esum_def)

lemma erlang_c_closed:
  assumes "0 < a" and "0 < c" and less: "a < of_int c"
  shows "let t = eterm a (nat c) * (of_int c / (of_int c - a))
         in erlang_c c a = Inr (t / ((\<Sum>k<nat c. eterm a k) + t))"
proof -
  define S where "S = (\<Sum>k<nat c. eterm a k)"
  define e where "e = eterm a (nat c)"
  have pos: "0 < e" "0 \<le> S" "0 < of_int c - a" "(0::rat) < of_int c"
    using eterm_pos [OF assms(1)] less assms(2) by (auto simp: e_def S_def less_imp_le intro!: sum_nonneg)
  then have Se: "0 < S + e" by simp
  have b: "erlang_b c a = Inr (e / (S + e))"
    using erlang_b_closed [of a c] assms by (simp add: e_def S_def esum_def flip: lessThan_Suc_atMost)
  have "1 - e / (S + e) = S / (S + e)" using Se by (simp add: field_simps)
  then have d: "1 - a / of_int c * (1 - e / (S + e)) = (of_int c * (S + e) - a * S) / (of_int c * (S + e))"
    using pos Se by (simp add: diff_divide_distrib)
  have p: "0 < of_int c * (S + e) - a * S"
  proof -
    have "a * S \<le> of_int c * S" using less pos(2) by (intro mult_right_mono) auto
    then show ?thesis using mult_pos_pos [OF pos(4,1)] by (simp add: algebra_simps)
  qed
  have "erlang_c c a = Inr (e / (S + e) / (1 - a / of_int c * (1 - e / (S + e))))"
  proof -
    have "0 < (of_int c * (S + e) - a * S) / (of_int c * (S + e))" using p pos(4) Se by (intro divide_pos_pos mult_pos_pos)
    then have nz: "1 - a / of_int c * (1 - e / (S + e)) \<noteq> 0" unfolding d by (rule less_imp_neq [symmetric])
    have "\<not> a \<le> 0" "\<not> of_int c \<le> a" "of_int c \<noteq> (0::rat)" using less assms by simp_all
    then show ?thesis using nz by (simp only: erlang_c_def pdiv_def b if_False res_bind.simps)
  qed
  also have "e / (S + e) / (1 - a / of_int c * (1 - e / (S + e))) = e * of_int c / (of_int c * (S + e) - a * S)"
  proof -
    have "x / y / (N / (z * y)) = x * z / N" if "y \<noteq> 0" for x y z N :: rat using that by simp
    then show ?thesis unfolding d using Se by simp
  qed
  also have "\<dots> = (e * (of_int c / (of_int c - a))) / (S + e * (of_int c / (of_int c - a)))"
  proof -
    have "S + e * (of_int c / (of_int c - a)) = (of_int c * (S + e) - a * S) / (of_int c - a)"
      using pos Se by (simp add: field_simps)
    then show ?thesis using pos Se by simp
  qed
  finally show ?thesis by (simp add: Let_def e_def S_def)
qed

text \<open>
  C25. The recursions compute the textbook formulas without ever dividing by zero: for a positive
  offered load \<open>a\<close> and \<open>c\<close> replicas, \<open>erlang_b\<close> is the Erlang-B blocking probability
  \<open>(a^c/c!) / (\<Sum>k\<le>c. a^k/k!)\<close>, and with more replicas than load \<open>erlang_c\<close> is the
  Erlang-C waiting probability \<open>t / ((\<Sum>k<c. a^k/k!) + t)\<close> where \<open>t = (a^c/c!) c/(c-a)\<close>.
\<close>

theorem erlang_formulas:
  assumes "0 < a" and "0 < c"
  shows "erlang_b c a = Inr ((a ^ nat c / fact (nat c)) / (\<Sum>k\<le>nat c. a ^ k / fact k)) \<and>
    (a < of_int c \<longrightarrow>
      (let t = a ^ nat c / fact (nat c) * (of_int c / (of_int c - a))
       in erlang_c c a = Inr (t / ((\<Sum>k<nat c. a ^ k / fact k) + t))))"
  using erlang_b_closed [of a c] erlang_c_closed [of a c] assms by (simp add: eterm_def esum_def)

theorem erlang_formulas_witness:
  "erlang_b 2 1 = Inr (1 / 5) \<and> erlang_c 2 1 = Inr (1 / 3)"
  using erlang_formulas [of 1 2] by (simp add: Let_def numeral_2_eq_2)

subsection \<open>The planner\<close>

lemma expected_wait_stable:
  assumes "0 < lam" "0 < mu" "lam / mu < of_int c"
  shows "\<exists>w. expected_wait_s c lam mu = Inr (Fin w) \<and> 0 < w"
proof -
  let ?a = "lam / mu"
  have a: "0 < ?a" using assms by simp
  then have "(0::rat) < of_int c" using assms(3) by (rule less_trans)
  then have c: "0 < c" by simp
  let ?t = "eterm ?a (nat c) * (of_int c / (of_int c - ?a))"
  have C: "erlang_c c ?a = Inr (?t / ((\<Sum>k<nat c. eterm ?a k) + ?t))"
    using erlang_c_closed [OF a c assms(3)] by (simp add: Let_def)
  have t: "0 < ?t" using eterm_pos [OF a] c assms(3) by (intro mult_pos_pos divide_pos_pos) auto
  then have "0 < ?t / ((\<Sum>k<nat c. eterm ?a k) + ?t)"
    using eterm_pos [OF a] by (intro divide_pos_pos add_nonneg_pos sum_nonneg) (auto simp: less_imp_le)
  moreover have "0 < of_int c * mu - lam" using assms by (simp add: pos_divide_less_eq)
  moreover define p where "p = ?t / ((\<Sum>k<nat c. eterm ?a k) + ?t)"
  ultimately have "0 < p / (of_int c * mu - lam)" by (intro divide_pos_pos) (simp_all only: p_def)
  moreover have "expected_wait_s c lam mu = Inr (Fin (p / (of_int c * mu - lam)))"
    using assms C \<open>0 < of_int c * mu - lam\<close> unfolding p_def [symmetric] by (simp add: expected_wait_s_def pdiv_def Let_def)
  ultimately show ?thesis by blast
qed

lemma expected_wait_total: "\<exists>w. expected_wait_s c lam mu = Inr w"
proof (cases "mu \<le> 0 \<or> lam \<le> 0 \<or> of_int c \<le> lam / mu")
  case True
  then show ?thesis by (auto simp: expected_wait_s_def Let_def)
next
  case False
  then show ?thesis using expected_wait_stable [of lam mu c] by force
qed

definition meets_slo :: "pyfloat \<Rightarrow> pyfloat \<Rightarrow> pyfloat \<Rightarrow> int \<Rightarrow> bool" where
  "meets_slo lam mu slo_s c \<longleftrightarrow> (case expected_wait_s c lam mu of Inr w \<Rightarrow> xle w (Fin slo_s) | Inl _ \<Rightarrow> False)"

lemma unstable_misses: "0 < lam \<Longrightarrow> 0 < mu \<Longrightarrow> of_int c \<le> lam / mu \<Longrightarrow> \<not> meets_slo lam mu slo_s c"
  by (simp add: meets_slo_def expected_wait_s_def Let_def)

lemma min_replicas_loop_spec:
  "\<exists>n. min_replicas_loop c lam mu slo_s m = Inr n \<and>
     (n = m \<and> (\<forall>k. c \<le> k \<and> k < m \<longrightarrow> \<not> meets_slo lam mu slo_s k) \<or>
      c \<le> n \<and> n < m \<and> meets_slo lam mu slo_s n \<and> (\<forall>k. c \<le> k \<and> k < n \<longrightarrow> \<not> meets_slo lam mu slo_s k))"
proof (induction c lam mu slo_s m rule: min_replicas_loop.induct)
  case (1 c lam mu slo_s m)
  obtain w where w: "expected_wait_s c lam mu = Inr w" using expected_wait_total by blast
  show ?case
  proof (cases "c < m \<and> \<not> xle w (Fin slo_s)")
    case True
    then have no: "\<not> meets_slo lam mu slo_s c" by (simp add: meets_slo_def w)
    have split: "(c \<le> k \<and> k < z) \<longleftrightarrow> (k = c \<and> c < z \<or> c + 1 \<le> k \<and> k < z)" for k z by auto
    from 1 [of w] True no show ?thesis
      unfolding split by (subst min_replicas_loop.simps) (auto simp: w)
  next
    case False
    then show ?thesis by (subst min_replicas_loop.simps) (auto simp: w meets_slo_def)
  qed
qed

text \<open>
  C24. Capacity planning finds the fewest replicas: under a positive load, the search ends
  without an exception, with the least positive number of replicas whose expected wait is within
  the objective if one below the maximum exists, and with the maximum otherwise.
\<close>

theorem fewest_replicas:
  assumes "0 < lam" and "0 < mu"
  shows "\<exists>n. min_replicas_for_wait_slo lam mu slo_s m = Inr n \<and>
    (if \<exists>k. 0 < k \<and> k < m \<and> meets_slo lam mu slo_s k
     then 0 < n \<and> n < m \<and> meets_slo lam mu slo_s n \<and> (\<forall>k. 0 < k \<and> k < n \<longrightarrow> \<not> meets_slo lam mu slo_s k)
     else n = m)"
proof -
  let ?c = "max 1 (\<lfloor>lam / mu\<rfloor> + 1)"
  have below: "\<not> meets_slo lam mu slo_s k" if "0 < k" "k < ?c" for k
    using that assms by (intro unstable_misses) (auto simp: le_floor_iff [symmetric])
  have pos: "0 < ?c" by simp
  obtain n where n: "min_replicas_loop ?c lam mu slo_s m = Inr n"
    "n = m \<and> (\<forall>k. ?c \<le> k \<and> k < m \<longrightarrow> \<not> meets_slo lam mu slo_s k) \<or>
      ?c \<le> n \<and> n < m \<and> meets_slo lam mu slo_s n \<and> (\<forall>k. ?c \<le> k \<and> k < n \<longrightarrow> \<not> meets_slo lam mu slo_s k)"
    using min_replicas_loop_spec by blast
  have "min_replicas_for_wait_slo lam mu slo_s m = Inr n"
    using assms n(1) by (simp add: min_replicas_for_wait_slo_def Let_def)
  then show ?thesis using n(2) below pos by (intro exI [of _ n]) (smt (verit))
qed

theorem fewest_replicas_witness:
  "\<exists>n. min_replicas_for_wait_slo 12 5 (1 / 10) 20 = Inr n \<and>
    (if \<exists>k. 0 < k \<and> k < 20 \<and> meets_slo 12 5 (1 / 10) k
     then 0 < n \<and> n < 20 \<and> meets_slo 12 5 (1 / 10) n \<and> (\<forall>k. 0 < k \<and> k < n \<longrightarrow> \<not> meets_slo 12 5 (1 / 10) k)
     else n = 20)"
  by (rule fewest_replicas) simp_all

lemma min_replicas_total: "\<exists>n. min_replicas_for_wait_slo lam mu slo_s m = Inr n"
  unfolding min_replicas_for_wait_slo_def Let_def using min_replicas_loop_spec by metis

text \<open>
  C26. Scaling is safe: the planner always decides.  One decision moves the fleet by at most the
  configured step and never outside the configured bounds when it was inside; it goes up only when
  more capacity is needed and outside the up-cooldown, down only outside the down-cooldown and
  never below what the load needs, and its direction says which.
\<close>

theorem plan_safe:
  assumes "0 < max_scale_step c" and "0 < scale_down_deadband c"
    and "min_replicas c \<le> sig_replicas s" and "sig_replicas s \<le> max_replicas c"
  shows "\<exists>d. plan s c = Inr d \<and> \<bar>desired_replicas d - sig_replicas s\<bar> \<le> max_scale_step c \<and>
    min_replicas c \<le> desired_replicas d \<and> desired_replicas d \<le> max_replicas c \<and>
    direction d = (if desired_replicas d > sig_replicas s then ''up''
                   else if desired_replicas d < sig_replicas s then ''down'' else ''hold'') \<and>
    (desired_replicas d > sig_replicas s \<longrightarrow>
       \<not> cooling (now_s s) (last_scale_up_s s) (scale_up_cooldown_s c) \<and>
       desired_replicas d \<le> scale_target (slo_replicas d) (util_replicas d) c) \<and>
    (desired_replicas d < sig_replicas s \<longrightarrow>
       \<not> cooling (now_s s) (last_scale_down_s s) (scale_down_cooldown_s c) \<and>
       scale_target (slo_replicas d) (util_replicas d) c \<le> desired_replicas d)"
proof -
  let ?mu = "service_rate_per_replica_rps c" and ?lam = "max 0 (offered_rps s)"
  let ?u = "util_replicas_for ?lam ?mu (target_utilization c)"
  obtain n where n: "min_replicas_for_wait_slo ?lam ?mu (target_wait_ms c / 1000) (max_replicas c) = Inr n"
    using min_replicas_total by blast
  obtain dir des blk why where m: "scale_move s c n ?u = (dir, des, blk, why)" by (metis prod_cases4)
  obtain w where w: "expected_wait_s des ?lam ?mu = Inr w" using expected_wait_total by blast
  let ?d = "\<lparr>current_replicas = sig_replicas s, desired_replicas = des, direction = dir, sc_reason = why,
    slo_replicas = n, util_replicas = ?u, est_wait_ms = xmul w 1000, blocked_by_cooldown = blk\<rparr>"
  have p: "plan s c = Inr ?d" by (simp add: plan_def Let_def n m w)
  have t: "min_replicas c \<le> scale_target n ?u c" "scale_target n ?u c \<le> max_replicas c"
    using assms(3,4) by (simp_all add: scale_target_def)
  show ?thesis
    by (rule exI [of _ ?d])
      (use p m t assms in \<open>auto simp: scale_move_def Let_def split: if_splits\<close>)
qed

theorem plan_safe_witness:
  "\<exists>d. plan \<lparr>offered_rps = 40, sig_replicas = 2, now_s = 0, last_scale_up_s = None, last_scale_down_s = None\<rparr>
     (AutoscaleConfig_of AutoscaleConfig_fields) = Inr d \<and> \<bar>desired_replicas d - 2\<bar> \<le> 4"
proof -
  let ?c = "AutoscaleConfig_of AutoscaleConfig_fields"
  let ?s = "\<lparr>offered_rps = 40, sig_replicas = 2, now_s = 0, last_scale_up_s = None, last_scale_down_s = None\<rparr>"
  have c: "max_scale_step ?c = 4" "scale_down_deadband ?c = 1" "min_replicas ?c = 1" "max_replicas ?c = 20" by code_simp+
  then show ?thesis using plan_safe [of ?c ?s] by auto
qed

end
