(* ===== verification/Dag_Graph.thy ===== *)
theory Dag_Graph
  imports Json "HOL-Library.List_Lexorder" "HOL-Library.Char_ord"
begin

section \<open>Request graphs\<close>

text \<open>
  \<^verbatim>\<open>gateway/dag/graph.py\<close>: a workflow of requests with dependencies, its validation and its
  layering by Kahn's algorithm.  The correctness statement is in terms of the relation between a
  node and its parents: the layering succeeds exactly on acyclic graphs, and puts every node in a
  later layer than its parents.
\<close>

record DagNode =
  dn_id :: string
  dn_prompt :: string
  dn_parents :: "string list"

type_synonym RequestDag = "(string, DagNode) dict"

definition dag_add :: "RequestDag \<Rightarrow> DagNode \<Rightarrow> RequestDag result" where
  "dag_add g n =
     (if dn_id n \<in> set (dkeys g) then Inl (DagError (''duplicate node id: '' @ py_repr (dn_id n)))
      else Inr (AList.update (dn_id n) n g))"

fun dag_add_all :: "DagNode list \<Rightarrow> RequestDag \<Rightarrow> RequestDag result" where
  "dag_add_all [] g = Inr g"
| "dag_add_all (n # ns) g = res_bind (dag_add g n) (dag_add_all ns)"

definition RequestDag_init :: "DagNode list \<Rightarrow> RequestDag result" where
  "RequestDag_init ns = dag_add_all ns []"

text \<open>\<open>children\<close>: every parent gets the node appended; an unknown parent raises \<open>KeyError\<close>.\<close>

fun add_kid :: "string \<Rightarrow> string list \<Rightarrow> (string, string list) dict \<Rightarrow> (string, string list) dict result" where
  "add_kid v [] kids = Inr kids"
| "add_kid v (p # ps) kids =
     (case map_of kids p of
        None \<Rightarrow> Inl KeyError
      | Some ks \<Rightarrow> add_kid v ps (AList.update p (ks @ [v]) kids))"

fun kids_loop :: "DagNode list \<Rightarrow> (string, string list) dict \<Rightarrow> (string, string list) dict result" where
  "kids_loop [] kids = Inr kids"
| "kids_loop (n # ns) kids = res_bind (add_kid (dn_id n) (dn_parents n) kids) (kids_loop ns)"

definition dag_children :: "RequestDag \<Rightarrow> (string, string list) dict result" where
  "dag_children g = kids_loop (map snd g) (map (\<lambda>(i, n). (i, [])) g)"

text \<open>The inner loops of \<open>_kahn\<close>: count the in-degrees down and collect the nodes that reach zero.\<close>

fun dec_loop :: "string list \<Rightarrow> (string, int) dict \<times> string list \<Rightarrow> (string, int) dict \<times> string list" where
  "dec_loop [] st = st"
| "dec_loop (c # cs) (indeg, frontier) =
     (let k = dget indeg c 0 - 1 in
      dec_loop cs (AList.update c k indeg, if k = 0 then frontier @ [c] else frontier))"

fun layer_loop :: "(string, string list) dict \<Rightarrow> string list \<Rightarrow> (string, int) dict \<times> string list \<Rightarrow> (string, int) dict \<times> string list" where
  "layer_loop kids [] st = st"
| "layer_loop kids (v # vs) st = layer_loop kids vs (dec_loop (dget kids v []) st)"

definition indeg_total :: "(string, int) dict \<Rightarrow> nat" where
  "indeg_total d = (\<Sum>(k, v)\<leftarrow>d. nat v)"

lemma indeg_total_update: "indeg_total (AList.update k v d) + nat (dget d k 0) = indeg_total d + nat v"
  by (induction d) (auto simp: indeg_total_def dget_def)

lemma dec_loop_total:
  "dec_loop cs (d, f) = (d', f') \<Longrightarrow>
     indeg_total d' \<le> indeg_total d \<and> (f' = f \<or> indeg_total d' < indeg_total d)"
proof (induction cs arbitrary: d f)
  case (Cons c cs)
  let ?k = "dget d c 0 - 1"
  from Cons.IH [of "AList.update c ?k d" "if ?k = 0 then f @ [c] else f"] Cons.prems
  show ?case using indeg_total_update [of c ?k d] by (auto simp: Let_def split: if_splits)
qed simp

lemma layer_loop_total:
  "layer_loop kids vs (d, f) = (d', f') \<Longrightarrow>
     indeg_total d' \<le> indeg_total d \<and> (f' = f \<or> indeg_total d' < indeg_total d)"
proof (induction vs arbitrary: d f)
  case (Cons v vs)
  obtain d1 f1 where 1: "dec_loop (dget kids v []) (d, f) = (d1, f1)" by force
  from Cons.IH [of d1 f1] Cons.prems 1 dec_loop_total [OF 1] show ?case by auto
qed simp

text \<open>The outer loop, with the layers so far and the number of nodes seen.\<close>

function kahn_loop ::
  "(string, string list) dict \<Rightarrow> (string, int) dict \<Rightarrow> string list \<Rightarrow> string list list \<Rightarrow> nat \<Rightarrow> string list list \<times> nat"
where
  "kahn_loop kids indeg frontier layers seen =
     (if frontier = [] then (layers, seen)
      else let layer = sort frontier;
               (indeg', frontier') = layer_loop kids layer (indeg, [])
           in kahn_loop kids indeg' frontier' (layers @ [layer]) (seen + length layer))"
  by pat_completeness auto
termination
proof (relation "measures [\<lambda>(kids, indeg, frontier, layers, seen). indeg_total indeg,
    \<lambda>(kids, indeg, frontier, layers, seen). length frontier]")
  fix kids indeg layers seen and frontier frontier' layer :: "string list" and x and indeg' :: "(string, int) dict"
  assume "frontier \<noteq> []" "layer = sort frontier" "x = layer_loop kids layer (indeg, [])" "(indeg', frontier') = x"
  then show "((kids, indeg', frontier', layers @ [layer], seen + length layer), kids, indeg, frontier, layers, seen)
      \<in> measures [\<lambda>(kids, indeg, frontier, layers, seen). indeg_total indeg,
         \<lambda>(kids, indeg, frontier, layers, seen). length frontier]"
    using layer_loop_total [of kids layer indeg "[]" indeg' frontier'] by auto
qed simp

declare kahn_loop.simps [simp del]

definition kahn :: "RequestDag \<Rightarrow> string list list result" where
  "kahn g =
     (let indeg = map (\<lambda>(i, n). (i, int (length (dn_parents n)))) g in
      res_bind (dag_children g) (\<lambda>kids.
        let frontier = sort [i. (i, d) \<leftarrow> indeg, d = 0];
            (layers, seen) = kahn_loop kids indeg frontier [] 0
        in if seen \<noteq> length g then Inl (DagError ''DAG contains a cycle'') else Inr layers))"

fun check_parents :: "RequestDag \<Rightarrow> DagNode \<Rightarrow> string list \<Rightarrow> unit result" where
  "check_parents g n [] = Inr ()"
| "check_parents g n (p # ps) =
     (if p \<notin> set (dkeys g)
      then Inl (DagError (''node '' @ py_repr (dn_id n) @ '' references unknown parent '' @ py_repr p))
      else check_parents g n ps)"

fun check_nodes :: "RequestDag \<Rightarrow> DagNode list \<Rightarrow> unit result" where
  "check_nodes g [] = Inr ()"
| "check_nodes g (n # ns) = res_bind (check_parents g n (dn_parents n)) (\<lambda>_. check_nodes g ns)"

definition dag_validate :: "RequestDag \<Rightarrow> unit result" where
  "dag_validate g = res_bind (check_nodes g (map snd g)) (\<lambda>_. res_bind (kahn g) (\<lambda>_. Inr ()))"

definition dag_layers :: "RequestDag \<Rightarrow> string list list result" where
  "dag_layers g = kahn g"


subsection \<open>The graph as a relation\<close>

text \<open>Nodes are stored under their own ids; the parents of an id, and the edges to a node from its parents.\<close>

definition dag_ok :: "RequestDag \<Rightarrow> bool" where
  "dag_ok g \<longleftrightarrow> dict_ok g \<and> (\<forall>(i, n) \<in> set g. dn_id n = i)"

definition parents_of :: "RequestDag \<Rightarrow> string \<Rightarrow> string list" where
  "parents_of g v = (case map_of g v of None \<Rightarrow> [] | Some n \<Rightarrow> dn_parents n)"

definition dag_edges :: "RequestDag \<Rightarrow> (string \<times> string) set" where
  "dag_edges g = {(p, v). v \<in> set (dkeys g) \<and> p \<in> set (parents_of g v)}"

definition closed :: "RequestDag \<Rightarrow> bool" where
  "closed g \<longleftrightarrow> (\<forall>v \<in> set (dkeys g). set (parents_of g v) \<subseteq> set (dkeys g))"

lemma dag_ok_lookup: "dag_ok g \<Longrightarrow> (i, n) \<in> set g \<Longrightarrow> map_of g i = Some n"
  by (simp add: dag_ok_def dict_ok_def)

lemma parents_of_mem: "dag_ok g \<Longrightarrow> (i, n) \<in> set g \<Longrightarrow> parents_of g i = dn_parents n"
  by (simp add: parents_of_def dag_ok_lookup)

lemma dag_ok_add_all: "dag_ok g \<Longrightarrow> dag_add_all ns g = Inr g' \<Longrightarrow> dag_ok g'"
proof (induction ns arbitrary: g)
  case (Cons n ns)
  then have new: "dn_id n \<notin> set (dkeys g)" by (auto simp: dag_add_def split: if_splits)
  then have "AList.update (dn_id n) n g = g @ [(dn_id n, n)]"
    by (induction g) (auto simp: dkeys_def)
  then have "dag_ok (AList.update (dn_id n) n g)"
    using Cons.prems(1) new by (auto simp: dag_ok_def dict_ok_def dkeys_def)
  then show ?case using Cons new by (auto simp: dag_add_def)
qed simp

lemma dag_ok_init: "RequestDag_init ns = Inr g \<Longrightarrow> dag_ok g"
  using dag_ok_add_all [of "[]" ns g] by (simp add: RequestDag_init_def dag_ok_def)

lemma check_parents_ok: "check_parents g n ps = Inr () \<longleftrightarrow> set ps \<subseteq> set (dkeys g)"
  by (induction ps) auto

lemma check_nodes_ok: "check_nodes g ns = Inr () \<longleftrightarrow> (\<forall>n \<in> set ns. set (dn_parents n) \<subseteq> set (dkeys g))"
  by (induction ns) (auto simp: check_parents_ok)

lemma check_nodes_closed: "dag_ok g \<Longrightarrow> check_nodes g (map snd g) = Inr () \<longleftrightarrow> closed g"
  unfolding check_nodes_ok closed_def by (force simp: dkeys_def parents_of_mem)


subsection \<open>The children table\<close>

lemma add_kid_spec:
  "set ps \<subseteq> set (dkeys kids) \<Longrightarrow>
     \<exists>kids'. add_kid v ps kids = Inr kids' \<and> set (dkeys kids') = set (dkeys kids) \<and>
       (\<forall>q. dget kids' q [] = dget kids q [] @ replicate (count_list ps q) v)"
proof (induction ps arbitrary: kids)
  case (Cons p ps)
  then obtain ks where ks: "map_of kids p = Some ks" using map_of_None_dkeys [of kids p] by (cases "map_of kids p") auto
  have "set ps \<subseteq> set (dkeys (AList.update p (ks @ [v]) kids))" using Cons.prems by auto
  from Cons.IH [OF this] obtain kids' where k: "add_kid v ps (AList.update p (ks @ [v]) kids) = Inr kids'"
    "set (dkeys kids') = insert p (set (dkeys kids))"
    "\<forall>q. dget kids' q [] = dget (AList.update p (ks @ [v]) kids) q [] @ replicate (count_list ps q) v" by auto
  have "dget kids p [] = ks" using ks by (simp add: dget_def)
  then show ?case using k ks Cons.prems by (intro exI [of _ kids']) auto
qed simp

lemma kids_loop_spec:
  "\<forall>n \<in> set ns. set (dn_parents n) \<subseteq> set (dkeys kids) \<Longrightarrow>
     \<exists>kids'. kids_loop ns kids = Inr kids' \<and> set (dkeys kids') = set (dkeys kids) \<and>
       (\<forall>q. dget kids' q [] = dget kids q [] @ concat (map (\<lambda>n. replicate (count_list (dn_parents n) q) (dn_id n)) ns))"
proof (induction ns arbitrary: kids)
  case (Cons n ns)
  obtain k1 where 1: "add_kid (dn_id n) (dn_parents n) kids = Inr k1" "set (dkeys k1) = set (dkeys kids)"
    "\<forall>q. dget k1 q [] = dget kids q [] @ replicate (count_list (dn_parents n) q) (dn_id n)"
    using add_kid_spec [of "dn_parents n" kids "dn_id n"] Cons.prems by auto
  from Cons.IH [of k1] Cons.prems 1 show ?case by auto
qed simp

lemma count_replicate: "count_list (replicate k x) y = (if x = y then k else 0)"
  by (induction k) auto

lemma count_concat_replicate:
  assumes "distinct (map f ns)" "n \<in> set ns"
  shows "count_list (concat (map (\<lambda>n. replicate (c n) (f n)) ns)) (f n) = c n"
  using assms
proof (induction ns)
  case (Cons m ns)

  have none: "count_list (concat (map (\<lambda>n. replicate (c n) (f n)) ns)) (f m) = 0" if "f m \<notin> f ` set ns"
    using that by (auto simp: count_list_0_iff)
  show ?case
  proof (cases "n = m")
    case True
    then show ?thesis using Cons.prems none by (simp add: count_replicate)
  next
    case False
    then have "f m \<noteq> f n" using Cons.prems by auto
    then show ?thesis using Cons False by (simp add: count_replicate)
  qed
qed simp

lemma children_count:
  assumes "dag_ok g" "closed g"
  shows "\<exists>kids. dag_children g = Inr kids \<and>
    (\<forall>q. set (dget kids q []) \<subseteq> set (dkeys g)) \<and>
    (\<forall>q. \<forall>v \<in> set (dkeys g). count_list (dget kids q []) v = count_list (parents_of g v) q)"
proof -
  let ?ns = "map snd g" and ?k0 = "map (\<lambda>(i, n). (i, [])) g :: (string, string list) dict"
  have ids: "map dn_id ?ns = dkeys g"
    using assms(1) unfolding dag_ok_def dkeys_def by (auto simp: comp_def intro!: map_cong)
  have k0: "dkeys ?k0 = dkeys g" "dget ?k0 q [] = []" for q
    by (induction g) (auto simp: dkeys_def dget_def)
  have "\<forall>n \<in> set ?ns. set (dn_parents n) \<subseteq> set (dkeys ?k0)"
    using check_nodes_closed [OF assms(1)] assms(2) by (simp add: check_nodes_ok k0)
  from kids_loop_spec [OF this] obtain kids where kids: "dag_children g = Inr kids"
    "\<And>q. dget kids q [] = concat (map (\<lambda>n. replicate (count_list (dn_parents n) q) (dn_id n)) ?ns)"
    by (auto simp: dag_children_def k0)
  have "count_list (dget kids q []) v = count_list (parents_of g v) q" if v: "v \<in> set (dkeys g)" for q v
  proof -
    obtain n where n: "(v, n) \<in> set g" using v by (auto simp: dkeys_def)
    then have "v = dn_id n" "n \<in> set ?ns" using assms(1) by (force simp: dag_ok_def)+
    moreover have "distinct (map dn_id ?ns)" unfolding ids using assms(1) by (simp add: dag_ok_def dict_ok_def dkeys_def)
    ultimately show ?thesis
      using count_concat_replicate [of dn_id ?ns n "\<lambda>n. count_list (dn_parents n) q"] parents_of_mem [OF assms(1) n]
      by (simp only: kids(2))
  qed
  moreover have "set (dget kids q []) \<subseteq> set (dkeys g)" for q
    unfolding kids(2) ids [symmetric] by force
  ultimately show ?thesis using kids(1) by blast
qed

subsection \<open>One layer\<close>

lemma dec_loop_spec:
  "dec_loop cs (d, f) = (d', f') \<Longrightarrow>
     (\<forall>v. dget d' v 0 = dget d v 0 - int (count_list cs v)) \<and>
     (\<exists>fs. f' = f @ fs \<and> distinct fs \<and> set fs = {v. 0 < dget d v 0 \<and> dget d v 0 \<le> int (count_list cs v)})"
proof (induction cs arbitrary: d f)
  case (Cons c cs)
  let ?k = "dget d c 0 - 1"
  let ?d = "AList.update c ?k d" and ?f = "if ?k = 0 then f @ [c] else f"
  from Cons.prems have "dec_loop cs (?d, ?f) = (d', f')" by (simp add: Let_def)
  from Cons.IH [OF this] obtain fs where IH: "\<forall>v. dget d' v 0 = dget ?d v 0 - int (count_list cs v)"
    "f' = ?f @ fs" "distinct fs" "set fs = {v. 0 < dget ?d v 0 \<and> dget ?d v 0 \<le> int (count_list cs v)}" by blast
  show ?case
  proof (intro conjI)
    show "\<forall>v. dget d' v 0 = dget d v 0 - int (count_list (c # cs) v)" using IH(1) by simp
    show "\<exists>fs. f' = f @ fs \<and> distinct fs \<and> set fs = {v. 0 < dget d v 0 \<and> dget d v 0 \<le> int (count_list (c # cs) v)}"
    proof (cases "?k = 0")
      case True
      have "set (c # fs) = {v. 0 < dget d v 0 \<and> dget d v 0 \<le> int (count_list (c # cs) v)}"
        using True unfolding set_simps IH(4) by auto
      moreover have "distinct (c # fs)" using IH(3,4) True by simp
      ultimately show ?thesis using IH(2) True by (intro exI [of _ "c # fs"]) simp
    next
      case False
      have "set fs = {v. 0 < dget d v 0 \<and> dget d v 0 \<le> int (count_list (c # cs) v)}"
        using False unfolding IH(4) by auto
      then show ?thesis using IH(2,3) False by (intro exI [of _ fs]) simp
    qed
  qed
qed simp

lemma dec_loop_append: "dec_loop (xs @ ys) st = dec_loop ys (dec_loop xs st)"
  by (induction xs st rule: dec_loop.induct) (simp_all add: Let_def)

lemma layer_loop_concat: "layer_loop kids vs st = dec_loop (concat (map (\<lambda>v. dget kids v []) vs)) st"
  by (induction vs arbitrary: st) (simp_all add: dec_loop_append)

lemma count_concat: "count_list (concat xss) v = sum_list (map (\<lambda>xs. count_list xs v) xss)"
  by (induction xss) simp_all

lemma sum_count_filter:
  "distinct L \<Longrightarrow> sum_list (map (count_list ps) L) = length (filter (\<lambda>p. p \<in> set L) ps)"
proof (induction L)
  case (Cons x L)
  have "length (filter (\<lambda>p. p \<in> set (x # L)) ps) = count_list ps x + length (filter (\<lambda>p. p \<in> set L) ps)"
    using Cons.prems by (induction ps) auto
  then show ?case using Cons by simp
qed simp

text \<open>
  The state of the outer loop when the nodes \<open>D\<close> have been put into layers: the in-degree of a
  node counts the parents outside \<open>D\<close>, and the frontier has the nodes whose parents are all in \<open>D\<close>.
\<close>

definition open_parents :: "RequestDag \<Rightarrow> string set \<Rightarrow> string \<Rightarrow> nat" where
  "open_parents g D v = length (filter (\<lambda>p. p \<notin> D) (parents_of g v))"

definition kahn_inv :: "RequestDag \<Rightarrow> string set \<Rightarrow> (string, int) dict \<Rightarrow> string list \<Rightarrow> bool" where
  "kahn_inv g D indeg F \<longleftrightarrow>
     (\<forall>v. dget indeg v 0 = (if v \<in> set (dkeys g) then int (open_parents g D v) else 0)) \<and>
     distinct F \<and> set F = {v \<in> set (dkeys g). v \<notin> D \<and> open_parents g D v = 0} \<and>
     D \<subseteq> set (dkeys g) \<and> (\<forall>v \<in> D. open_parents g D v = 0)"

lemma open_parents_union:
  assumes "distinct L" "set L \<inter> D = {}"
  shows "int (open_parents g (D \<union> set L) v) =
    int (open_parents g D v) - int (length (filter (\<lambda>p. p \<in> set L) (parents_of g v)))"
proof -
  have "length (filter (\<lambda>p. p \<notin> D) ps) = length (filter (\<lambda>p. p \<notin> D \<union> set L) ps) + length (filter (\<lambda>p. p \<in> set L) ps)" for ps
    using assms(2) by (induction ps) auto
  then show ?thesis by (simp add: open_parents_def)
qed

lemma kahn_inv_step:
  assumes inv: "kahn_inv g D indeg F"
    and kids: "\<forall>q. set (dget kids q []) \<subseteq> set (dkeys g)"
      "\<forall>q. \<forall>v \<in> set (dkeys g). count_list (dget kids q []) v = count_list (parents_of g v) q"
    and step: "layer_loop kids (sort F) (indeg, []) = (indeg', F')"
  shows "kahn_inv g (D \<union> set F) indeg' F'"
proof -
  let ?N = "set (dkeys g)" and ?cs = "concat (map (\<lambda>v. dget kids v []) (sort F))"
  have F: "distinct F" "set F = {v \<in> ?N. v \<notin> D \<and> open_parents g D v = 0}" and D: "D \<subseteq> ?N"
    and dl: "\<forall>v \<in> D. open_parents g D v = 0"
    and deg: "dget indeg v 0 = (if v \<in> ?N then int (open_parents g D v) else 0)" for v
    using inv unfolding kahn_inv_def by blast+
  have disj: "set F \<inter> D = {}" using F(2) by blast
  have cnt: "count_list ?cs v = length (filter (\<lambda>p. p \<in> set F) (parents_of g v))" if "v \<in> ?N" for v
    using sum_count_filter [of "sort F" "parents_of g v"] that kids(2) F(1)
    by (simp add: count_concat comp_def)
  have out: "count_list ?cs v = 0" if "v \<notin> ?N" for v
    using that kids(1) by (auto simp: count_list_0_iff)
  have un: "int (open_parents g (D \<union> set F) v) = int (open_parents g D v) - int (count_list ?cs v)" if "v \<in> ?N" for v
    using open_parents_union [OF F(1) disj, of g v] cnt [OF that] by simp
  obtain fs where d': "\<forall>v. dget indeg' v 0 = dget indeg v 0 - int (count_list ?cs v)"
    and fs: "F' = fs" "distinct fs" "set fs = {v. 0 < dget indeg v 0 \<and> dget indeg v 0 \<le> int (count_list ?cs v)}"
    using dec_loop_spec [OF step [unfolded layer_loop_concat]] by auto
  have mono: "open_parents g (D \<union> set F) v = 0" if "open_parents g D v = 0" for v
    using that by (auto simp: open_parents_def filter_empty_conv)
  have "set F' = {v \<in> ?N. v \<notin> D \<union> set F \<and> open_parents g (D \<union> set F) v = 0}"
  proof (intro equalityI subsetI)
    fix v assume v: "v \<in> set F'"
    then have "v \<in> ?N" and pos: "0 < open_parents g D v" "int (open_parents g D v) \<le> int (count_list ?cs v)"
      using fs deg [of v] by (auto split: if_splits)
    moreover have "v \<notin> D" "v \<notin> set F" using pos dl F(2) by auto
    ultimately show "v \<in> {v \<in> ?N. v \<notin> D \<union> set F \<and> open_parents g (D \<union> set F) v = 0}" using un [of v] by simp
  next
    fix v assume v: "v \<in> {v \<in> ?N. v \<notin> D \<union> set F \<and> open_parents g (D \<union> set F) v = 0}"
    then have "v \<in> ?N" "v \<notin> D" "v \<notin> set F" by simp_all
    then have "open_parents g D v \<noteq> 0" unfolding F(2) by simp
    moreover have "v \<in> ?N" "open_parents g (D \<union> set F) v = 0" using v by blast+
    ultimately have "0 < dget indeg v 0" "dget indeg v 0 \<le> int (count_list ?cs v)"
      using un [of v] deg [of v] by simp_all
    then show "v \<in> set F'" unfolding fs(1,3) by blast
  qed
  moreover have "dget indeg' v 0 = (if v \<in> ?N then int (open_parents g (D \<union> set F) v) else 0)" for v
    using d' [rule_format, of v] deg [of v] un [of v] out [of v] by (cases "v \<in> ?N") simp_all
  moreover have "D \<union> set F \<subseteq> ?N" using D F(2) by blast
  moreover have "\<forall>v \<in> D \<union> set F. open_parents g (D \<union> set F) v = 0" using dl mono F(2) by blast
  ultimately show ?thesis unfolding kahn_inv_def using fs(1,2) by blast
qed

lemma kahn_loop_spec:
  assumes "kahn_inv g (set (concat layers)) indeg F" "distinct (concat layers)" "seen = length (concat layers)"
    and kids: "\<forall>q. set (dget kids q []) \<subseteq> set (dkeys g)"
      "\<forall>q. \<forall>v \<in> set (dkeys g). count_list (dget kids q []) v = count_list (parents_of g v) q"
    and "\<forall>L \<in> set layers. sorted L"
    and "\<forall>xs L ys. layers = xs @ L # ys \<longrightarrow> (\<forall>v \<in> set L. set (parents_of g v) \<subseteq> set (concat xs))"
    and "kahn_loop kids indeg F layers seen = (layers', seen')"
  shows "seen' = length (concat layers') \<and> distinct (concat layers') \<and> (\<forall>L \<in> set layers'. sorted L) \<and>
    (\<forall>xs L ys. layers' = xs @ L # ys \<longrightarrow> (\<forall>v \<in> set L. set (parents_of g v) \<subseteq> set (concat xs))) \<and>
    (\<exists>indeg'. kahn_inv g (set (concat layers')) indeg' [])"
  using assms
proof (induction kids indeg F layers seen rule: kahn_loop.induct)
  case (1 kids indeg F layers seen)
  show ?case
  proof (cases "F = []")
    case True
    then show ?thesis using "1.prems" by (auto simp: kahn_loop.simps)
  next
    case False
    obtain indeg' F' where step: "layer_loop kids (sort F) (indeg, []) = (indeg', F')" by force
    let ?D = "set (concat layers)"
    have F: "distinct F" "set F \<inter> ?D = {}" "\<forall>v \<in> set F. open_parents g ?D v = 0"
      using "1.prems"(1) unfolding kahn_inv_def by auto
    have set': "set (concat (layers @ [sort F])) = ?D \<union> set F" by simp
    have inv': "kahn_inv g (set (concat (layers @ [sort F]))) indeg' F'"
      unfolding set' by (rule kahn_inv_step [OF "1.prems"(1,4,5) step])
    have dist': "distinct (concat (layers @ [sort F]))" using "1.prems"(2) F by auto
    have par': "\<forall>v \<in> set L. set (parents_of g v) \<subseteq> set (concat xs)" if "layers @ [sort F] = xs @ L # ys" for xs L ys
    proof (cases ys rule: rev_cases)
      case Nil
      then show ?thesis using that F(3) by (auto simp: open_parents_def filter_empty_conv)
    next
      case (snoc ys' y)
      then show ?thesis using that "1.prems"(7) by auto
    qed
    have "kahn_loop kids indeg' F' (layers @ [sort F]) (seen + length (sort F)) = (layers', seen')"
      using "1.prems"(8) False step by (subst (asm) kahn_loop.simps) (simp add: Let_def)
    then show ?thesis
      by (intro "1.IH" [OF False refl step [symmetric] refl inv' dist' _ "1.prems"(4,5)])
        (use "1.prems"(3,6) par' in auto)
  qed
qed

subsection \<open>Properties\<close>

lemma kahn_inv_init:
  assumes "dag_ok g"
  shows "kahn_inv g {} (map (\<lambda>(i, n). (i, int (length (dn_parents n)))) g)
    (sort [i. (i, d) \<leftarrow> map (\<lambda>(i, n). (i, int (length (dn_parents n)))) g, d = 0])"
proof -
  let ?indeg = "map (\<lambda>(i, n). (i, int (length (dn_parents n)))) g"
  have lk: "map_of ?indeg v = map_option (\<lambda>n. int (length (dn_parents n))) (map_of g v)" for v
    by (induction g) auto
  then have deg: "dget ?indeg v 0 = (if v \<in> set (dkeys g) then int (open_parents g {} v) else 0)" for v
    using map_of_None_dkeys [of g v]
    by (cases "map_of g v") (simp_all add: dget_def open_parents_def parents_of_def)
  have fr: "[i. (i, d) \<leftarrow> ?indeg, d = 0] = map fst (filter (\<lambda>(i, n). dn_parents n = []) g)"
    by (induction g) auto
  have "set [i. (i, d) \<leftarrow> ?indeg, d = 0] = {v \<in> set (dkeys g). open_parents g {} v = 0}"
    unfolding fr using assms by (force simp: dkeys_def open_parents_def parents_of_mem)
  moreover have "distinct [i. (i, d) \<leftarrow> ?indeg, d = 0]"
    unfolding fr using assms by (simp add: dag_ok_def dict_ok_def distinct_map_filter)
  ultimately show ?thesis unfolding kahn_inv_def using deg by simp
qed

lemma layered_acyclic:
  assumes all: "set (concat layers) = set (dkeys g)"
    and par: "\<forall>xs L ys. layers = xs @ L # ys \<longrightarrow> (\<forall>v \<in> set L. set (parents_of g v) \<subseteq> set (concat xs))"
    and dist: "distinct (concat layers)"
  shows "acyclic (dag_edges g)"
proof -
  define rank where "rank v = (LEAST i. i < length layers \<and> v \<in> set (layers ! i))" for v
  have "rank p < rank v" if e: "(p, v) \<in> dag_edges g" for p v
  proof -
    have v: "v \<in> set (dkeys g)" "p \<in> set (parents_of g v)" using e by (auto simp: dag_edges_def)
    then have "v \<in> set (concat layers)" using all by simp
    then obtain L where "L \<in> set layers" "v \<in> set L" by auto
    then obtain i where "i < length layers \<and> v \<in> set (layers ! i)" by (metis in_set_conv_nth)
    then have i: "rank v < length layers" "v \<in> set (layers ! rank v)"
      unfolding rank_def by (metis (mono_tags, lifting) LeastI)+
    have "layers = take (rank v) layers @ layers ! rank v # drop (Suc (rank v)) layers"
      using i(1) by (rule id_take_nth_drop)
    then have "p \<in> set (concat (take (rank v) layers))" using par i(2) v(2) by blast
    then obtain L where "L \<in> set (take (rank v) layers)" "p \<in> set L" by auto
    then obtain j where "j < rank v" "j < length layers" "p \<in> set (layers ! j)"
      by (auto simp: in_set_conv_nth [of L])
    moreover from this have "rank p \<le> j" unfolding rank_def by (intro Least_le) simp
    ultimately show ?thesis by simp
  qed
  then have "dag_edges g \<subseteq> measure rank" by auto
  then show ?thesis by (meson acyclic_subset wf_acyclic wf_measure)
qed

lemma stuck_cyclic:
  assumes inv: "kahn_inv g D indeg []" and cl: "closed g" and some: "D \<noteq> set (dkeys g)"
  shows "\<not> acyclic (dag_edges g)"
proof
  assume ac: "acyclic (dag_edges g)"
  have fin: "finite (dag_edges g)"
    by (rule finite_subset [of _ "set (dkeys g) \<times> set (dkeys g)"]) (use cl in \<open>auto simp: dag_edges_def closed_def\<close>)
  have D: "D \<subseteq> set (dkeys g)" using inv by (simp add: kahn_inv_def)
  then obtain v0 where "v0 \<in> set (dkeys g) - D" using some by blast
  from wfE_min [OF finite_acyclic_wf [OF fin ac] this]
  obtain v where v: "v \<in> set (dkeys g) - D" "\<And>p. (p, v) \<in> dag_edges g \<Longrightarrow> p \<notin> set (dkeys g) - D" by blast
  have "open_parents g D v = 0"
    using v cl by (force simp: open_parents_def filter_empty_conv dag_edges_def closed_def)
  then show False using inv v(1) by (auto simp: kahn_inv_def)
qed

lemma kahn_result:
  assumes ok: "dag_ok g" and cl: "closed g"
  obtains layers where "kahn g = Inr layers" "acyclic (dag_edges g)" "distinct (concat layers)"
      "set (concat layers) = set (dkeys g)" "\<forall>L \<in> set layers. sorted L"
      "\<forall>xs L ys. layers = xs @ L # ys \<longrightarrow> (\<forall>v \<in> set L. set (parents_of g v) \<subseteq> set (concat xs))"
  | "kahn g = Inl (DagError ''DAG contains a cycle'')" "\<not> acyclic (dag_edges g)"
proof -
  let ?indeg = "map (\<lambda>(i, n). (i, int (length (dn_parents n)))) g"
  let ?F = "sort [i. (i, d) \<leftarrow> ?indeg, d = 0]"
  obtain kids where kids: "dag_children g = Inr kids" "\<forall>q. set (dget kids q []) \<subseteq> set (dkeys g)"
    "\<forall>q. \<forall>v \<in> set (dkeys g). count_list (dget kids q []) v = count_list (parents_of g v) q"
    using children_count [OF ok cl] by blast
  obtain layers seen where loop: "kahn_loop kids ?indeg ?F [] 0 = (layers, seen)" by force
  have init: "kahn_inv g (set (concat [])) ?indeg ?F" using kahn_inv_init [OF ok] by simp
  from kahn_loop_spec [OF init _ _ kids(2,3) _ _ loop]
  have L: "seen = length (concat layers)" "distinct (concat layers)" "\<forall>L \<in> set layers. sorted L"
    "\<forall>xs L ys. layers = xs @ L # ys \<longrightarrow> (\<forall>v \<in> set L. set (parents_of g v) \<subseteq> set (concat xs))"
    "\<exists>indeg'. kahn_inv g (set (concat layers)) indeg' []" by simp_all
  have sub: "set (concat layers) \<subseteq> set (dkeys g)" using L(5) by (auto simp: kahn_inv_def)
  have card: "card (set (dkeys g)) = length g" using ok distinct_card [of "dkeys g"] by (simp add: dag_ok_def dict_ok_def dkeys_def)
  have k: "kahn g = (if seen \<noteq> length g then Inl (DagError ''DAG contains a cycle'') else Inr layers)"
    using kids(1) loop by (simp add: kahn_def Let_def)
  show thesis
  proof (cases "seen = length g")
    case True
    then have "set (concat layers) = set (dkeys g)"
      using card_subset_eq [OF _ sub] card distinct_card [OF L(2)] L(1) by simp
    then show thesis using that(1) [OF _ layered_acyclic] True k L by simp
  next
    case False
    then have "set (concat layers) \<noteq> set (dkeys g)" using card distinct_card [OF L(2)] L(1) by auto
    then have "\<not> acyclic (dag_edges g)" using stuck_cyclic [OF _ cl] L(5) by blast
    then show thesis using that(2) False k by simp
  qed
qed

text \<open>
  C27. Validation and layering are exact: a graph built from any list of nodes passes \<open>validate\<close>
  if and only if every parent is a node and the dependencies have no cycle; then \<open>layers\<close> returns
  every node exactly once, every layer sorted by id, with all the parents of a node in earlier
  layers.  A graph that fails raises \<open>DagError\<close>, and the loop always ends.
\<close>

theorem dag_layering:
  assumes "RequestDag_init ns = Inr g"
  shows "(if closed g \<and> acyclic (dag_edges g)
     then dag_validate g = Inr () \<and>
       (\<exists>layers. dag_layers g = Inr layers \<and> distinct (concat layers) \<and> set (concat layers) = set (dkeys g) \<and>
         (\<forall>L \<in> set layers. sorted L) \<and>
         (\<forall>xs L ys. layers = xs @ L # ys \<longrightarrow> (\<forall>v \<in> set L. set (parents_of g v) \<subseteq> set (concat xs))))
     else \<exists>msg. dag_validate g = Inl (DagError msg))"
proof -
  have ok: "dag_ok g" by (rule dag_ok_init [OF assms])
  show ?thesis
  proof (cases "closed g")
    case True
    then have cn: "check_nodes g (map snd g) = Inr ()" using check_nodes_closed [OF ok] by simp
    from ok True show ?thesis
      by (rule kahn_result) (use cn True in \<open>auto simp: dag_validate_def dag_layers_def\<close>)
  next
    case False
    then have "check_nodes g (map snd g) \<noteq> Inr ()" using check_nodes_closed [OF ok] by simp
    moreover have "\<exists>msg. check_parents g n ps = Inl (DagError msg)" if "check_parents g n ps \<noteq> Inr ()" for n ps
      using that by (induction ps) (auto split: if_splits)
    then have "\<exists>msg. check_nodes g ms = Inl (DagError msg)" if "check_nodes g ms \<noteq> Inr ()" for ms
      using that
    proof (induction ms)
      case (Cons m ms)
      then show ?case by (cases "check_parents g m (dn_parents m)") (auto, metis Inl_inject sum.distinct(1))
    qed simp
    ultimately show ?thesis using False by (auto simp: dag_validate_def)
  qed
qed

definition demo_nodes :: "DagNode list" where
  "demo_nodes = [\<lparr>dn_id = ''plan'', dn_prompt = ''p'', dn_parents = []\<rparr>,
                 \<lparr>dn_id = ''left'', dn_prompt = ''p'', dn_parents = [''plan'']\<rparr>,
                 \<lparr>dn_id = ''right'', dn_prompt = ''p'', dn_parents = [''plan'']\<rparr>,
                 \<lparr>dn_id = ''join'', dn_prompt = ''p'', dn_parents = [''left'', ''right'']\<rparr>]"

definition demo_dag :: RequestDag where
  "demo_dag = map (\<lambda>n. (dn_id n, n)) demo_nodes"

lemma demo_dag_layers:
  "RequestDag_init demo_nodes = Inr demo_dag" "dag_validate demo_dag = Inr ()"
  "dag_layers demo_dag = Inr [[''plan''], [''left'', ''right''], [''join'']]"
  by code_simp+

theorem dag_layering_witness:
  "closed demo_dag \<and> acyclic (dag_edges demo_dag) \<and>
   (\<exists>layers. dag_layers demo_dag = Inr layers \<and> set (concat layers) = set (dkeys demo_dag))"
  using dag_layering [OF demo_dag_layers(1)] demo_dag_layers(2) by (auto split: if_splits)

end
