(* ===== verification/Dag_Sched.thy ===== *)
theory Dag_Sched
  imports Dag_Graph Radix_Tree Load_Tracker Config
begin

section \<open>Scheduling a request graph\<close>

text \<open>
  \<^verbatim>\<open>gateway/dag/scheduler.py\<close>: greedy list scheduling over the layers of a request graph, with the
  prefix index as the model of what each backend has cached.
\<close>


subsection \<open>Configuration\<close>

record DagSchedConfig =
  enabled :: bool
  block_chars :: int
  block_tokens :: int
  hash_cutoff_blocks :: int
  backend_cache_blocks :: int
  prefill_ms_per_token :: pyfloat
  service_ms_per_request :: pyfloat
  max_inflight :: int
  parent_affinity_bonus_ms :: pyfloat

definition DagSchedConfig_fields :: fields where
  "DagSchedConfig_fields =
     [(''enabled'', CBool False),
      (''block_chars'', CInt 64),
      (''block_tokens'', CInt 16),
      (''hash_cutoff_blocks'', CInt 512),
      (''backend_cache_blocks'', CInt 2000),
      (''prefill_ms_per_token'', CRat 0.05),
      (''service_ms_per_request'', CRat 200),
      (''max_inflight'', CInt 64),
      (''parent_affinity_bonus_ms'', CRat 8)]"

definition DagSchedConfig_of :: "fields \<Rightarrow> DagSchedConfig" where
  "DagSchedConfig_of d =
     \<lparr>enabled = bool_field d ''enabled'',
      block_chars = int_field d ''block_chars'',
      block_tokens = int_field d ''block_tokens'',
      hash_cutoff_blocks = int_field d ''hash_cutoff_blocks'',
      backend_cache_blocks = int_field d ''backend_cache_blocks'',
      prefill_ms_per_token = float_field d ''prefill_ms_per_token'',
      service_ms_per_request = float_field d ''service_ms_per_request'',
      max_inflight = int_field d ''max_inflight'',
      parent_affinity_bonus_ms = float_field d ''parent_affinity_bonus_ms''\<rparr>"

definition DagSchedConfig_from_env :: "environ \<Rightarrow> DagSchedConfig result" where
  "DagSchedConfig_from_env env = load_config ''GW_DAG_'' DagSchedConfig_fields DagSchedConfig_of env"


subsection \<open>The scheduler\<close>

record NodePlacement =
  np_node :: string
  np_backend :: string
  np_layer :: nat
  np_match :: nat
  np_total :: nat
  np_est :: pyfloat

record Schedule =
  placements :: "NodePlacement list"
  est_makespan_ms :: pyfloat
  cache_hit_blocks :: nat
  total_blocks :: nat
  sched_strategy :: string

definition cache_hit_rate :: "Schedule \<Rightarrow> pyfloat" where
  "cache_hit_rate s = (if total_blocks s \<noteq> 0 then of_nat (cache_hit_blocks s) / of_nat (total_blocks s) else 0)"

definition initial_busy :: "LoadTracker option \<Rightarrow> string \<Rightarrow> DagSchedConfig \<Rightarrow> pyfloat" where
  "initial_busy l b c =
     (case l of None \<Rightarrow> 0 | Some t \<Rightarrow> of_int (dget (inflight t) b 0) * service_ms_per_request c)"

definition dag_saturated :: "LoadTracker option \<Rightarrow> string \<Rightarrow> DagSchedConfig \<Rightarrow> bool" where
  "dag_saturated l b c = (case l of None \<Rightarrow> False | Some t \<Rightarrow> dget (inflight t) b 0 > max_inflight c)"

text \<open>The local variables of \<open>schedule\<close>.\<close>

record sched_state =
  ss_tree :: RadixTree
  ss_placements :: "NodePlacement list"
  ss_backend :: "(string, string) dict"
  ss_hit :: nat
  ss_total :: nat
  ss_makespan :: pyfloat
  ss_rr :: nat
  ss_busy :: "(string, pyfloat) dict"

fun hash_nodes :: "DagSchedConfig \<Rightarrow> RequestDag \<Rightarrow> (string, block_hash list) dict result" where
  "hash_nodes c [] = Inr []"
| "hash_nodes c ((i, n) # g) =
     res_bind (block_hashes (dn_prompt n) (block_chars c) (hash_cutoff_blocks c) 0) (\<lambda>hs.
       res_bind (hash_nodes c g) (\<lambda>d. Inr ((i, hs) # d)))"

definition node_work :: "DagSchedConfig \<Rightarrow> nat \<Rightarrow> nat \<Rightarrow> pyfloat" where
  "node_work c nblocks m = prefill_ms_per_token c * of_int (max 0 (int nblocks - int m)) * of_int (block_tokens c)"

definition dag_eligible :: "LoadTracker option \<Rightarrow> DagSchedConfig \<Rightarrow> string list \<Rightarrow> string list" where
  "dag_eligible l c backs =
     (let e = filter (\<lambda>b. \<not> dag_saturated l b c) backs in if e = [] then backs else e)"

definition match_or :: "(string \<rightharpoonup> nat) \<Rightarrow> string \<Rightarrow> nat" where
  "match_or mt b = (case mt b of None \<Rightarrow> 0 | Some k \<Rightarrow> k)"

definition finish_time :: "DagSchedConfig \<Rightarrow> (string \<rightharpoonup> nat) \<Rightarrow> nat \<Rightarrow> (string, pyfloat) dict \<Rightarrow> string list \<Rightarrow> string \<Rightarrow> pyfloat" where
  "finish_time c mt nblocks busy pbs b =
     dget busy b 0 + node_work c nblocks (match_or mt b) -
     (if b \<in> set pbs then parent_affinity_bonus_ms c else 0)"

text \<open>The backend of one node and the next round-robin index.\<close>

definition place_node ::
  "LoadTracker option \<Rightarrow> DagSchedConfig \<Rightarrow> string \<Rightarrow> string list \<Rightarrow> DagNode \<Rightarrow> nat \<Rightarrow> (string \<rightharpoonup> nat) \<Rightarrow> sched_state \<Rightarrow>
   (string \<times> nat) result"
where
  "place_node l c strat backs n nblocks mt s =
     (let el = dag_eligible l c backs in
      if strat = ''round_robin'' then
        (if el = [] then Inl ZeroDivisionError else Inr (el ! (ss_rr s mod length el), ss_rr s + 1))
      else
        let pbs = [b. p \<leftarrow> dn_parents n, Some b \<leftarrow> [map_of (ss_backend s) p]] in
        case argmin_loop (finish_time c mt nblocks (ss_busy s) pbs) el None of
          None \<Rightarrow> Inl KeyError
        | Some (b, _) \<Rightarrow> Inr (b, ss_rr s))"

definition node_step ::
  "LoadTracker option \<Rightarrow> DagSchedConfig \<Rightarrow> string \<Rightarrow> string list \<Rightarrow> RequestDag \<Rightarrow> (string, block_hash list) dict \<Rightarrow> nat \<Rightarrow>
   string \<Rightarrow> sched_state \<Rightarrow> sched_state result"
where
  "node_step l c strat backs g hashes_of idx v s =
     (case (map_of g v, map_of hashes_of v) of
        (Some n, Some hs) \<Rightarrow>
          let nblocks = length hs; mt = radix_match (ss_tree s) hs in
          res_bind (place_node l c strat backs n nblocks mt s) (\<lambda>(b, rr').
            let m = match_or mt b; work = node_work c nblocks m in
            Inr \<lparr>ss_tree = radix_insert (ss_tree s) hs b,
                 ss_placements = ss_placements s @
                   [\<lparr>np_node = v, np_backend = b, np_layer = idx, np_match = m, np_total = nblocks, np_est = work\<rparr>],
                 ss_backend = AList.update v b (ss_backend s),
                 ss_hit = ss_hit s + m, ss_total = ss_total s + nblocks, ss_makespan = ss_makespan s,
                 ss_rr = rr', ss_busy = AList.update b (dget (ss_busy s) b 0 + work) (ss_busy s)\<rparr>)
      | _ \<Rightarrow> Inl KeyError)"

fun layer_nodes ::
  "LoadTracker option \<Rightarrow> DagSchedConfig \<Rightarrow> string \<Rightarrow> string list \<Rightarrow> RequestDag \<Rightarrow> (string, block_hash list) dict \<Rightarrow> nat \<Rightarrow>
   string list \<Rightarrow> sched_state \<Rightarrow> sched_state result"
where
  "layer_nodes l c strat backs g ho idx [] s = Inr s"
| "layer_nodes l c strat backs g ho idx (v # vs) s =
     res_bind (node_step l c strat backs g ho idx v s) (layer_nodes l c strat backs g ho idx vs)"

definition busy_start :: "LoadTracker option \<Rightarrow> DagSchedConfig \<Rightarrow> string list \<Rightarrow> (string, pyfloat) dict" where
  "busy_start l c backs = foldl (\<lambda>d b. AList.update b (initial_busy l b c) d) [] backs"

definition busiest :: "(string, pyfloat) dict \<Rightarrow> pyfloat" where
  "busiest d = (if d = [] then 0 else Max (set (map snd d)))"

fun sched_layers ::
  "LoadTracker option \<Rightarrow> DagSchedConfig \<Rightarrow> string \<Rightarrow> string list \<Rightarrow> RequestDag \<Rightarrow> (string, block_hash list) dict \<Rightarrow> nat \<Rightarrow>
   string list list \<Rightarrow> sched_state \<Rightarrow> sched_state result"
where
  "sched_layers l c strat backs g ho idx [] s = Inr s"
| "sched_layers l c strat backs g ho idx (layer # ls) s =
     res_bind (layer_nodes l c strat backs g ho idx layer (s\<lparr>ss_busy := busy_start l c backs\<rparr>)) (\<lambda>s'.
       sched_layers l c strat backs g ho (idx + 1) ls (s'\<lparr>ss_makespan := ss_makespan s' + busiest (ss_busy s')\<rparr>))"

definition sched_start :: "DagSchedConfig \<Rightarrow> sched_state" where
  "sched_start c = \<lparr>ss_tree = RadixTree_init (backend_cache_blocks c), ss_placements = [], ss_backend = [],
                    ss_hit = 0, ss_total = 0, ss_makespan = 0, ss_rr = 0, ss_busy = []\<rparr>"

definition dag_schedule ::
  "RequestDag \<Rightarrow> string list \<Rightarrow> DagSchedConfig \<Rightarrow> LoadTracker option \<Rightarrow> string \<Rightarrow> Schedule option result"
where
  "dag_schedule g backs c l strat =
     (if backs = [] then Inr None
      else res_bind (dag_validate g) (\<lambda>_.
        res_bind (hash_nodes c g) (\<lambda>ho.
          res_bind (dag_layers g) (\<lambda>layers.
            res_bind (sched_layers l c strat backs g ho 0 layers (sched_start c)) (\<lambda>s.
              Inr (Some \<lparr>placements = ss_placements s, est_makespan_ms = ss_makespan s,
                         cache_hit_blocks = ss_hit s, total_blocks = ss_total s, sched_strategy = strat\<rparr>))))))"

subsection \<open>Properties\<close>

definition placed_ok :: "LoadTracker option \<Rightarrow> DagSchedConfig \<Rightarrow> string list \<Rightarrow> NodePlacement \<Rightarrow> bool" where
  "placed_ok l c backs p \<longleftrightarrow> np_backend p \<in> set (dag_eligible l c backs) \<and> np_match p \<le> np_total p"

definition sched_ok :: "LoadTracker option \<Rightarrow> DagSchedConfig \<Rightarrow> string list \<Rightarrow> sched_state \<Rightarrow> bool" where
  "sched_ok l c backs s \<longleftrightarrow> tree_ok (ss_tree s) \<and> (\<forall>p \<in> set (ss_placements s). placed_ok l c backs p) \<and>
     ss_hit s = sum_list (map np_match (ss_placements s)) \<and> ss_total s = sum_list (map np_total (ss_placements s))"

definition slots :: "sched_state \<Rightarrow> (string \<times> nat) list" where
  "slots s = map (\<lambda>p. (np_node p, np_layer p)) (ss_placements s)"

lemma dag_eligible_sub: "set (dag_eligible l c backs) \<subseteq> set backs" and dag_eligible_ne: "backs \<noteq> [] \<Longrightarrow> dag_eligible l c backs \<noteq> []"
  by (auto simp: dag_eligible_def Let_def)

lemma match_or_le: "tree_ok t \<Longrightarrow> match_or (radix_match t hs) b \<le> length hs"
  using rt.lookup_le [of t hs b] by (auto simp: match_or_def split: option.split)

lemma place_node_ok:
  assumes "backs \<noteq> []"
  obtains b rr' where "place_node l c strat backs n nb mt s = Inr (b, rr')" "b \<in> set (dag_eligible l c backs)"
proof (cases "strat = ''round_robin''")
  case True
  have "dag_eligible l c backs ! (ss_rr s mod length (dag_eligible l c backs)) \<in> set (dag_eligible l c backs)"
    using dag_eligible_ne [OF assms] by (intro nth_mem) simp
  moreover have "place_node l c strat backs n nb mt s =
      Inr (dag_eligible l c backs ! (ss_rr s mod length (dag_eligible l c backs)), ss_rr s + 1)"
    using True dag_eligible_ne [OF assms, of l c] by (simp add: place_node_def Let_def)
  ultimately show thesis using that by blast
next
  case False
  let ?f = "finish_time c mt nb (ss_busy s) [b. p \<leftarrow> dn_parents n, Some b \<leftarrow> [map_of (ss_backend s) p]]"
  obtain b x where a: "argmin_loop ?f (dag_eligible l c backs) None = Some (b, x)"
    using argmin_loop_ex [OF dag_eligible_ne [OF assms]] by blast
  have "place_node l c strat backs n nb mt s = Inr (b, ss_rr s)" unfolding place_node_def Let_def using a False by simp
  then show thesis using that argmin_loop_min(2) [OF a] by blast
qed

lemma node_step_ok:
  assumes "backs \<noteq> []" "sched_ok l c backs s" "v \<in> set (dkeys g)" "set (dkeys g) \<subseteq> set (dkeys ho)"
  shows "\<exists>s'. node_step l c strat backs g ho idx v s = Inr s' \<and> sched_ok l c backs s' \<and> slots s' = slots s @ [(v, idx)]"
proof -
  obtain n where n: "map_of g v = Some n" using assms(3) map_of_None_dkeys [of g v] by (cases "map_of g v") auto
  obtain hs where hs: "map_of ho v = Some hs" using assms(3,4) map_of_None_dkeys [of ho v] by (cases "map_of ho v") auto
  let ?mt = "radix_match (ss_tree s) hs"
  obtain b rr' where b: "place_node l c strat backs n (length hs) ?mt s = Inr (b, rr')" "b \<in> set (dag_eligible l c backs)"
    using place_node_ok [OF assms(1)] by blast
  have t: "tree_ok (ss_tree s)" using assms(2) by (simp add: sched_ok_def)
  show ?thesis
    using assms(2) b(2) match_or_le [OF t, of hs b] rt.ok_ins [OF t, of hs b]
    by (simp add: node_step_def n hs Let_def b(1) sched_ok_def slots_def placed_ok_def)
qed

lemma layer_nodes_ok:
  assumes "backs \<noteq> []" "sched_ok l c backs s" "set vs \<subseteq> set (dkeys g)" "set (dkeys g) \<subseteq> set (dkeys ho)"
  shows "\<exists>s'. layer_nodes l c strat backs g ho idx vs s = Inr s' \<and> sched_ok l c backs s' \<and>
    slots s' = slots s @ map (\<lambda>v. (v, idx)) vs"
  using assms(2,3)
proof (induction vs arbitrary: s)
  case (Cons v vs)
  obtain s1 where 1: "node_step l c strat backs g ho idx v s = Inr s1" "sched_ok l c backs s1" "slots s1 = slots s @ [(v, idx)]"
    using node_step_ok [OF assms(1) Cons.prems(1) _ assms(4)] Cons.prems(2) by (metis insert_subset list.simps(15))
  from Cons.IH [OF 1(2)] Cons.prems(2) 1 show ?case by auto
qed simp

definition numbered :: "nat \<Rightarrow> string list list \<Rightarrow> (string \<times> nat) list" where
  "numbered i layers = concat (map (\<lambda>(L, k). map (\<lambda>v. (v, k)) L) (zip layers [i..<i + length layers]))"

lemma numbered_Cons: "numbered i (L # ls) = map (\<lambda>v. (v, i)) L @ numbered (Suc i) ls"
proof -
  have "[i..<i + length (L # ls)] = i # [Suc i..<Suc i + length ls]" by (simp add: upt_conv_Cons del: upt_Suc)
  then show ?thesis unfolding numbered_def by (simp del: upt_Suc)
qed

lemma fst_numbered: "map fst (numbered i layers) = concat layers"
  by (induction layers arbitrary: i) (simp_all add: numbered_Cons comp_def, simp add: numbered_def)

lemma numbered_mem: "(v, k) \<in> set (numbered i layers) \<longleftrightarrow> i \<le> k \<and> k - i < length layers \<and> v \<in> set (layers ! (k - i))"
proof (induction layers arbitrary: i)
  case Nil
  then show ?case by (simp add: numbered_def)
next
  case (Cons L ls)
  show ?case
  proof (cases "k = i")
    case True
    then show ?thesis using Cons.IH [of "Suc i"] by (auto simp: numbered_Cons)
  next
    case False
    then show ?thesis
      using Cons.IH [of "Suc i"] by (cases "i < k") (auto simp: numbered_Cons nth_Cons' Suc_le_eq)
  qed
qed

lemma sched_layers_ok:
  assumes "backs \<noteq> []" "sched_ok l c backs s" "set (concat layers) \<subseteq> set (dkeys g)" "set (dkeys g) \<subseteq> set (dkeys ho)"
  shows "\<exists>s'. sched_layers l c strat backs g ho idx layers s = Inr s' \<and> sched_ok l c backs s' \<and>
    slots s' = slots s @ numbered idx layers"
  using assms(2,3)
proof (induction layers arbitrary: idx s)
  case Nil
  then show ?case by (simp add: numbered_def)
next
  case (Cons L ls)
  have "sched_ok l c backs (s\<lparr>ss_busy := busy_start l c backs\<rparr>)" using Cons.prems(1) by (simp add: sched_ok_def)
  from layer_nodes_ok [OF assms(1) this _ assms(4), of L strat idx] Cons.prems(2)
  obtain s1 where 1: "layer_nodes l c strat backs g ho idx L (s\<lparr>ss_busy := busy_start l c backs\<rparr>) = Inr s1"
    "sched_ok l c backs s1" "slots s1 = slots s @ map (\<lambda>v. (v, idx)) L" by (auto simp: slots_def)
  let ?s2 = "s1\<lparr>ss_makespan := ss_makespan s1 + busiest (ss_busy s1)\<rparr>"
  have "sched_ok l c backs ?s2" "slots ?s2 = slots s1" using 1(2) by (simp_all add: sched_ok_def slots_def)
  from Cons.IH [OF this(1), of "idx + 1"] Cons.prems(2) this(2) 1 show ?case by (auto simp: numbered_Cons)
qed

lemma hash_nodes_ok: "block_chars c \<noteq> 0 \<Longrightarrow> \<exists>d. hash_nodes c g = Inr d \<and> dkeys d = dkeys g"
proof (induction g)
  case (Cons e g)
  obtain i n where e: "e = (i, n)" by force
  obtain hs where "block_hashes (dn_prompt n) (block_chars c) (hash_cutoff_blocks c) 0 = Inr hs"
    using Cons.prems by (simp add: block_hashes_def chain_blocks_def Let_def)
  then show ?case using Cons by (auto simp: e dkeys_def)
qed (simp add: dkeys_def)

text \<open>
  C28. Planning a workflow: for a graph that validates, at least one backend and a positive block
  size, the scheduler returns a plan under either strategy.  The plan places every node exactly
  once, on a backend of the list that is not saturated unless all are, in a later layer than all of
  its parents; the cache hits of a node are at most its blocks, and the totals are the sums over the
  nodes, so the hit rate is between 0 and 1.
\<close>

theorem dag_schedule_valid:
  assumes "RequestDag_init ns = Inr g" and "dag_validate g = Inr ()" and "backs \<noteq> []" and "block_chars c \<noteq> 0"
  shows "\<exists>s. dag_schedule g backs c l strat = Inr (Some s) \<and>
    distinct (map np_node (placements s)) \<and> set (map np_node (placements s)) = set (dkeys g) \<and>
    (\<forall>p \<in> set (placements s). np_backend p \<in> set backs \<and>
       ((\<exists>b \<in> set backs. \<not> dag_saturated l b c) \<longrightarrow> \<not> dag_saturated l (np_backend p) c) \<and>
       np_match p \<le> np_total p \<and>
       (\<forall>q \<in> set (placements s). np_node q \<in> set (parents_of g (np_node p)) \<longrightarrow> np_layer q < np_layer p)) \<and>
    cache_hit_blocks s = sum_list (map np_match (placements s)) \<and>
    total_blocks s = sum_list (map np_total (placements s)) \<and> 0 \<le> cache_hit_rate s \<and> cache_hit_rate s \<le> 1"
proof -
  have ok: "dag_ok g" by (rule dag_ok_init [OF assms(1)])
  have cn: "check_nodes g (map snd g) = Inr ()" and kn: "\<exists>ls. kahn g = Inr ls" using assms(2) by (auto simp: dag_validate_def)
  from ok have "closed g" using cn check_nodes_closed by blast
  from ok this obtain layers where L: "kahn g = Inr layers" "distinct (concat layers)" "set (concat layers) = set (dkeys g)"
    and par: "\<forall>xs L ys. layers = xs @ L # ys \<longrightarrow> (\<forall>v \<in> set L. set (parents_of g v) \<subseteq> set (concat xs))"
    by (rule kahn_result) (use kn in auto)
  obtain ho where ho: "hash_nodes c g = Inr ho" "dkeys ho = dkeys g" using hash_nodes_ok [OF assms(4)] by blast
  have "sched_ok l c backs (sched_start c)" by (simp add: sched_ok_def sched_start_def tree_ok_init)
  from sched_layers_ok [OF assms(3) this, of layers g ho strat 0] L(3) ho(2)
  obtain s where s: "sched_layers l c strat backs g ho 0 layers (sched_start c) = Inr s" "sched_ok l c backs s"
    "slots s = numbered 0 layers" by (auto simp: slots_def sched_start_def)
  let ?S = "\<lparr>placements = ss_placements s, est_makespan_ms = ss_makespan s,
    cache_hit_blocks = ss_hit s, total_blocks = ss_total s, sched_strategy = strat\<rparr>"
  have res: "dag_schedule g backs c l strat = Inr (Some ?S)"
    using assms(2,3) ho(1) L(1) s(1) by (simp add: dag_schedule_def dag_layers_def)
  have nodes: "map np_node (ss_placements s) = concat layers"
    using arg_cong [OF s(3), of "map fst"] by (simp add: slots_def fst_numbered comp_def)
  have lt: "np_layer q < np_layer p"
    if pq: "p \<in> set (ss_placements s)" "q \<in> set (ss_placements s)" "np_node q \<in> set (parents_of g (np_node p))" for p q
  proof -
    have m: "(np_node x, np_layer x) \<in> set (numbered 0 layers)" if "x \<in> set (ss_placements s)" for x
      using that unfolding s(3) [symmetric] slots_def by auto
    have i: "np_layer p < length layers" "np_node p \<in> set (layers ! np_layer p)"
      and j: "np_layer q < length layers" "np_node q \<in> set (layers ! np_layer q)"
      using m pq(1,2) by (simp_all add: numbered_mem)
    have "layers = take (np_layer p) layers @ layers ! np_layer p # drop (Suc (np_layer p)) layers"
      using i(1) by (rule id_take_nth_drop)
    then have e: "np_node q \<in> set (concat (take (np_layer p) layers))" using par i(2) pq(3) by blast
    show ?thesis
    proof (rule ccontr)
      assume "\<not> ?thesis"
      then have le: "np_layer p \<le> np_layer q" by simp
      then have "drop (np_layer p) layers ! (np_layer q - np_layer p) = layers ! np_layer q"
        "np_layer q - np_layer p < length (drop (np_layer p) layers)" using j(1) by simp_all
      then have "layers ! np_layer q \<in> set (drop (np_layer p) layers)" by (metis nth_mem)
      then have "np_node q \<in> set (concat (drop (np_layer p) layers))" using j(2) by auto
      moreover have "concat layers = concat (take (np_layer p) layers) @ concat (drop (np_layer p) layers)"
        by (metis append_take_drop_id concat_append)
      ultimately show False using L(2) e by auto
    qed
  qed
  have pl: "\<forall>p \<in> set (ss_placements s). placed_ok l c backs p" and tot: "ss_hit s = sum_list (map np_match (ss_placements s))"
    "ss_total s = sum_list (map np_total (ss_placements s))" using s(2) by (simp_all add: sched_ok_def)
  have hit: "ss_hit s \<le> ss_total s" unfolding tot using pl by (intro sum_list_mono) (auto simp: placed_ok_def)
  have unsat: "\<not> dag_saturated l b c" if "b \<in> set (dag_eligible l c backs)" "\<exists>b \<in> set backs. \<not> dag_saturated l b c" for b
    using that by (auto simp: dag_eligible_def Let_def filter_empty_conv split: if_splits)
  have each: "np_backend p \<in> set backs \<and>
       ((\<exists>b \<in> set backs. \<not> dag_saturated l b c) \<longrightarrow> \<not> dag_saturated l (np_backend p) c) \<and> np_match p \<le> np_total p \<and>
       (\<forall>q \<in> set (ss_placements s). np_node q \<in> set (parents_of g (np_node p)) \<longrightarrow> np_layer q < np_layer p)"
    if p: "p \<in> set (ss_placements s)" for p
  proof -
    have "placed_ok l c backs p" using pl p by blast
    then have "np_backend p \<in> set (dag_eligible l c backs)" "np_match p \<le> np_total p" by (simp_all add: placed_ok_def)
    then show ?thesis using dag_eligible_sub unsat lt [OF p] by blast
  qed
  have rate: "0 \<le> cache_hit_rate ?S" "cache_hit_rate ?S \<le> 1" using hit by (simp_all add: cache_hit_rate_def)
  show ?thesis
    by (rule exI [of _ ?S]) (use res nodes L(2,3) tot rate each in simp)
qed

lemma demo_block_chars: "block_chars (DagSchedConfig_of DagSchedConfig_fields) = 64"
  by code_simp

theorem dag_schedule_valid_witness:
  "\<exists>s. dag_schedule demo_dag [''b0'', ''b1''] (DagSchedConfig_of DagSchedConfig_fields) None ''locality'' = Inr (Some s) \<and>
     set (map np_node (placements s)) = set (dkeys demo_dag)"
  using dag_schedule_valid [OF demo_dag_layers(1,2), of "[''b0'', ''b1'']" "DagSchedConfig_of DagSchedConfig_fields" None "''locality''"]
    demo_block_chars by auto

end
