(* ===== verification/Disagg.thy ===== *)
theory Disagg
  imports Admission Load_Tracker
begin

section \<open>Disaggregated prefill and decode\<close>

text \<open>
  \<^verbatim>\<open>gateway/disagg\<close>: the roles of the backends, the cost of moving a key-value cache between two of
  them, and the decision whether to run the two phases of a request on different backends.
  \<open>simulate_handoff\<close> only sleeps for the modelled duration.
\<close>


subsection \<open>Configuration\<close>

record DisaggConfig =
  pools :: string
  prefill_ms_per_token :: pyfloat
  decode_ms_per_token :: pyfloat
  prefill_service_ms :: pyfloat
  decode_service_ms :: pyfloat
  block_tokens :: int
  kv_bytes_per_token :: pyfloat
  link_gbps :: pyfloat
  max_inflight :: int
  kv_pressure_cutoff :: pyfloat
  disagg_margin_ms :: pyfloat
  default_output_tokens :: int

definition DisaggConfig_fields :: fields where
  "DisaggConfig_fields =
     [(''pools'', CStr ''''),
      (''prefill_ms_per_token'', CRat 0.05),
      (''decode_ms_per_token'', CRat 0.2),
      (''prefill_service_ms'', CRat 80),
      (''decode_service_ms'', CRat 40),
      (''block_tokens'', CInt 16),
      (''kv_bytes_per_token'', CRat 200000),
      (''link_gbps'', CRat 100),
      (''max_inflight'', CInt 64),
      (''kv_pressure_cutoff'', CRat 0.9),
      (''disagg_margin_ms'', CRat 1),
      (''default_output_tokens'', CInt 256)]"

definition DisaggConfig_of :: "fields \<Rightarrow> DisaggConfig" where
  "DisaggConfig_of d =
     \<lparr>pools = str_field d ''pools'',
      prefill_ms_per_token = float_field d ''prefill_ms_per_token'',
      decode_ms_per_token = float_field d ''decode_ms_per_token'',
      prefill_service_ms = float_field d ''prefill_service_ms'',
      decode_service_ms = float_field d ''decode_service_ms'',
      block_tokens = int_field d ''block_tokens'',
      kv_bytes_per_token = float_field d ''kv_bytes_per_token'',
      link_gbps = float_field d ''link_gbps'',
      max_inflight = int_field d ''max_inflight'',
      kv_pressure_cutoff = float_field d ''kv_pressure_cutoff'',
      disagg_margin_ms = float_field d ''disagg_margin_ms'',
      default_output_tokens = int_field d ''default_output_tokens''\<rparr>"

definition DisaggConfig_from_env :: "environ \<Rightarrow> DisaggConfig result" where
  "DisaggConfig_from_env env = load_config ''GW_DISAGG_'' DisaggConfig_fields DisaggConfig_of env"


subsection \<open>Pools\<close>

definition ROLE_PREFILL :: string where
  "ROLE_PREFILL = ''prefill''"

definition ROLE_DECODE :: string where
  "ROLE_DECODE = ''decode''"

definition VALID_ROLES :: "string set" where
  "VALID_ROLES = {ROLE_PREFILL, ROLE_DECODE}"

fun pool_loop :: "string list \<Rightarrow> (string, string set) dict \<Rightarrow> (string, string set) dict" where
  "pool_loop [] d = d"
| "pool_loop (sg # sgs) d =
     (let s = py_strip sg in
      if s = [] \<or> CHR '':'' \<notin> set s then pool_loop sgs d
      else let (b, _, rs) = py_partition (CHR '':'') s; bid = py_strip b in
        if bid = [] then pool_loop sgs d
        else let role_set = set (map (\<lambda>r. py_lower (py_strip r)) (py_split (CHR '','') rs)) \<inter> VALID_ROLES
             in pool_loop sgs (if role_set \<noteq> {} then AList.update bid role_set d else d))"

definition parse_pool_config :: "string \<Rightarrow> (string, string set) dict" where
  "parse_pool_config spec = (if spec = [] then [] else pool_loop (py_split (CHR '';'') spec) [])"

type_synonym PoolRegistry = "(string, string set) dict"

definition PoolRegistry_init :: "string list \<Rightarrow> (string, string set) dict \<Rightarrow> PoolRegistry" where
  "PoolRegistry_init bids roles =
     foldl (\<lambda>d b. AList.update b (case map_of roles b of
        Some r \<Rightarrow> if r = {} then VALID_ROLES else r | None \<Rightarrow> VALID_ROLES) d) [] bids"

definition from_spec :: "string list \<Rightarrow> string \<Rightarrow> PoolRegistry" where
  "from_spec bids spec = PoolRegistry_init bids (parse_pool_config spec)"

definition pool_roles :: "PoolRegistry \<Rightarrow> string \<Rightarrow> string set" where
  "pool_roles p b = dget p b {}"

definition is_prefill :: "PoolRegistry \<Rightarrow> string \<Rightarrow> bool" where
  "is_prefill p b \<longleftrightarrow> ROLE_PREFILL \<in> dget p b {}"

definition is_decode :: "PoolRegistry \<Rightarrow> string \<Rightarrow> bool" where
  "is_decode p b \<longleftrightarrow> ROLE_DECODE \<in> dget p b {}"

definition prefill_pool :: "PoolRegistry \<Rightarrow> string list" where
  "prefill_pool p = map fst (filter (\<lambda>(b, r). ROLE_PREFILL \<in> r) p)"

definition decode_pool :: "PoolRegistry \<Rightarrow> string list" where
  "decode_pool p = map fst (filter (\<lambda>(b, r). ROLE_DECODE \<in> r) p)"

definition colocatable :: "PoolRegistry \<Rightarrow> string list" where
  "colocatable p = map fst (filter (\<lambda>(b, r). VALID_ROLES \<subseteq> r) p)"


subsection \<open>Costs\<close>

definition kv_transfer_ms :: "int \<Rightarrow> pyfloat \<Rightarrow> pyfloat \<Rightarrow> pyfloat" where
  "kv_transfer_ms n bytes link =
     (if n \<le> 0 \<or> link \<le> 0 then 0 else (of_int n * bytes) / (link * 10 ^ 6))"

record DisaggDecision =
  prefill_backend :: string
  decode_backend :: string
  disaggregated :: bool
  est_prefill_ms :: pyfloat
  est_decode_ms :: pyfloat
  est_handoff_ms :: pyfloat
  est_total_ms :: pyfloat
  dd_reason :: string

definition prefill_ms :: "string \<Rightarrow> int \<Rightarrow> (string, int) dict \<Rightarrow> LoadTracker \<Rightarrow> DisaggConfig \<Rightarrow> pyfloat" where
  "prefill_ms b prompt_tokens pm l c =
     (let cached = dget pm b 0 * block_tokens c;
          uncached = max 0 (prompt_tokens - cached);
          compute = prefill_ms_per_token c * of_int uncached;
          queue = of_int (dget (inflight l) b 0) * prefill_service_ms c
      in compute + queue)"

definition decode_ms :: "string \<Rightarrow> int \<Rightarrow> LoadTracker \<Rightarrow> DisaggConfig \<Rightarrow> pyfloat" where
  "decode_ms b output_tokens l c =
     (let compute = decode_ms_per_token c * of_int output_tokens;
          queue = of_int (dget (inflight l) b 0) * decode_service_ms c
      in compute + queue)"

definition da_eligible :: "string \<Rightarrow> LoadTracker \<Rightarrow> DisaggConfig \<Rightarrow> bool" where
  "da_eligible b l c \<longleftrightarrow> dget (inflight l) b 0 \<le> max_inflight c \<and> dget (kv_usage l) b 0 \<le> kv_pressure_cutoff c"

definition da_candidates :: "string list \<Rightarrow> LoadTracker \<Rightarrow> DisaggConfig \<Rightarrow> string list" where
  "da_candidates pool l c = (let elig = filter (\<lambda>b. da_eligible b l c) pool in if elig = [] then pool else elig)"

text \<open>\<open>min(cands, key=f)\<close>: the first candidate with the least key.\<close>

definition min_by :: "('a \<Rightarrow> pyfloat) \<Rightarrow> 'a list \<Rightarrow> 'a result" where
  "min_by f xs = (case argmin_loop f xs None of None \<Rightarrow> Inl ValueError | Some (x, _) \<Rightarrow> Inr x)"

text \<open>The format \<open>:+.1f\<close>.\<close>

definition fmt_signed :: "pyfloat \<Rightarrow> string" where
  "fmt_signed x = (if x < 0 then [] else ''+'') @ fmt_fixed 1 x"


subsection \<open>The decision\<close>

text \<open>The second half: the comparison with the best co-located backend, and the result.\<close>

definition disagg_decide ::
  "(string \<Rightarrow> pyfloat) \<Rightarrow> (string \<Rightarrow> pyfloat) \<Rightarrow> string \<Rightarrow> string \<Rightarrow> pyfloat \<Rightarrow> pyfloat \<Rightarrow> string list \<Rightarrow> DisaggDecision"
where
  "disagg_decide P D best_pb best_db handoff margin coloc_cands =
     (let disagg_handoff = (if best_pb = best_db then 0 else handoff);
          disagg_total = P best_pb + disagg_handoff + D best_db;
          coloc = argmin_loop (\<lambda>b. P b + D b) coloc_cands None;
          (disaggregate, why) = (case coloc of
             None \<Rightarrow> (True, ''no co-locatable backend; pure prefill/decode split'')
           | Some (_, coloc_total) \<Rightarrow>
               if best_pb = best_db then (False, ''single node is best at both phases; handoff would add cost'')
               else if disagg_total + margin < coloc_total then
                 (True, ''split saves '' @ fmt_fixed 1 (coloc_total - disagg_total) @ ''ms vs co-location (handoff '' @
                        fmt_fixed 1 disagg_handoff @ ''ms)'')
               else (False, ''co-location wins; split would cost '' @ fmt_signed (disagg_total - coloc_total) @
                        ''ms incl. '' @ fmt_fixed 1 disagg_handoff @ ''ms handoff''));
          (pf, dcb, ho) = (if disaggregate then (best_pb, best_db, disagg_handoff)
             else let node = (case coloc of Some (b, _) \<Rightarrow> b | None \<Rightarrow> best_pb) in (node, node, 0))
      in \<lparr>prefill_backend = pf, decode_backend = dcb, disaggregated = (pf \<noteq> dcb),
          est_prefill_ms = P pf, est_decode_ms = D dcb, est_handoff_ms = ho,
          est_total_ms = P pf + ho + D dcb, dd_reason = why\<rparr>)"

definition coloc_pool :: "PoolRegistry \<Rightarrow> LoadTracker \<Rightarrow> DisaggConfig \<Rightarrow> string list" where
  "coloc_pool p l c = (if colocatable p = [] then [] else da_candidates (colocatable p) l c)"

definition choose_disaggregated ::
  "int \<Rightarrow> PoolRegistry \<Rightarrow> LoadTracker \<Rightarrow> DisaggConfig \<Rightarrow> int option \<Rightarrow> (string, int) dict \<Rightarrow> DisaggDecision option result"
where
  "choose_disaggregated prompt_tokens reg l c out pm =
     (let output_tokens = (case out of None \<Rightarrow> default_output_tokens c | Some n \<Rightarrow> n);
          pc0 = da_candidates (prefill_pool reg) l c;
          dc0 = da_candidates (decode_pool reg) l c in
      if pc0 = [] \<and> dc0 = [] then Inr None
      else
        let pc = (if pc0 = [] then dc0 else pc0);
            dc = (if dc0 = [] then pc else dc0);
            P = (\<lambda>b. prefill_ms b prompt_tokens pm l c);
            D = (\<lambda>b. decode_ms b output_tokens l c) in
        res_bind (min_by P pc) (\<lambda>best_pb. res_bind (min_by D dc) (\<lambda>best_db.
          Inr (Some (disagg_decide P D best_pb best_db
            (kv_transfer_ms prompt_tokens (kv_bytes_per_token c) (link_gbps c)) (disagg_margin_ms c) (coloc_pool reg l c))))))"


subsection \<open>Properties\<close>

lemma da_candidates_sub: "set (da_candidates pool l c) \<subseteq> set pool" and da_candidates_Nil [simp]: "da_candidates pool l c = [] \<longleftrightarrow> pool = []"
  by (auto simp: da_candidates_def Let_def)

lemma min_by_ok:
  assumes "xs \<noteq> []"
  obtains x where "min_by f xs = Inr x" "x \<in> set xs" "\<And>y. y \<in> set xs \<Longrightarrow> f x \<le> f y"
proof -
  obtain x k where a: "argmin_loop f xs None = Some (x, k)" using argmin_loop_ex [OF assms] by blast
  then show thesis using that [of x] argmin_loop_min [OF a] by (simp add: min_by_def)
qed

lemma coloc_pools:
  assumes "b \<in> set (colocatable p)"
  shows "b \<in> set (prefill_pool p) \<and> b \<in> set (decode_pool p)"
proof -
  obtain r where "(b, r) \<in> set p" "ROLE_PREFILL \<in> r" "ROLE_DECODE \<in> r" using assms by (auto simp: colocatable_def VALID_ROLES_def)
  then show ?thesis by (force simp: prefill_pool_def decode_pool_def)
qed

lemma disagg_decide_parts:
  fixes P D :: "string \<Rightarrow> pyfloat"
  assumes "d = disagg_decide P D pb db h m cp"
  shows "disaggregated d \<longleftrightarrow> prefill_backend d \<noteq> decode_backend d"
    and "est_total_ms d = P (prefill_backend d) + est_handoff_ms d + D (decode_backend d)"
  using assms by (simp_all add: disagg_decide_def Let_def split: prod.split)

text \<open>The two outcomes: the split of the two best backends, or the best co-located one.\<close>

lemma disagg_decide_cases:
  fixes P D :: "string \<Rightarrow> pyfloat" and h m :: pyfloat
  assumes d: "d = disagg_decide P D pb db h m cp"
  obtains (split) "cp = [] \<or> pb \<noteq> db" "\<And>x. x \<in> set cp \<Longrightarrow> P pb + h + D db + m < P x + D x"
      "prefill_backend d = pb" "decode_backend d = db" "est_handoff_ms d = (if pb = db then 0 else h)"
  | (one) b where "prefill_backend d = b" "decode_backend d = b" "b \<in> set cp" "est_handoff_ms d = 0"
      "\<And>x. x \<in> set cp \<Longrightarrow> P b + D b \<le> P x + D x"
proof (cases "argmin_loop (\<lambda>b. P b + D b) cp None")
  case None
  then have "cp = []" by simp
  then show thesis using d None by (intro split) (simp_all add: disagg_decide_def Let_def)
next
  case (Some p)
  obtain b k where p: "p = (b, k)" by force
  note a = Some [unfolded p] and min = argmin_loop_min [OF Some [unfolded p]]
  show thesis
  proof (cases "pb \<noteq> db \<and> P pb + h + D db + m < k")
    case True
    have "P pb + h + D db + m < P x + D x" if "x \<in> set cp" for x using min(1) min(3) [OF that] True by linarith
    then show thesis using d True a by (intro split) (simp_all add: disagg_decide_def Let_def)
  next
    case False
    then have "prefill_backend d = b" "decode_backend d = b" "est_handoff_ms d = 0"
      using d a by (auto simp: disagg_decide_def Let_def)
    then show thesis using one min(2,3) by blast
  qed
qed

text \<open>The backends considered for each phase, with the pools standing in for each other when one is empty.\<close>

definition prefill_cands :: "PoolRegistry \<Rightarrow> LoadTracker \<Rightarrow> DisaggConfig \<Rightarrow> string list" where
  "prefill_cands reg l c =
     (let p = da_candidates (prefill_pool reg) l c in if p = [] then da_candidates (decode_pool reg) l c else p)"

definition decode_cands :: "PoolRegistry \<Rightarrow> LoadTracker \<Rightarrow> DisaggConfig \<Rightarrow> string list" where
  "decode_cands reg l c =
     (let d = da_candidates (decode_pool reg) l c in if d = [] then prefill_cands reg l c else d)"

lemma choose_disaggregated_best:
  assumes "prefill_pool reg \<noteq> [] \<or> decode_pool reg \<noteq> []"
  obtains pb db where
    "choose_disaggregated n reg l c (Some k) pm = Inr (Some (disagg_decide (\<lambda>b. prefill_ms b n pm l c) (\<lambda>b. decode_ms b k l c)
       pb db (kv_transfer_ms n (kv_bytes_per_token c) (link_gbps c)) (disagg_margin_ms c) (coloc_pool reg l c)))"
    "prefill_pool reg \<noteq> [] \<Longrightarrow> pb \<in> set (prefill_pool reg)" "decode_pool reg \<noteq> [] \<Longrightarrow> db \<in> set (decode_pool reg)"
    "pb \<in> set (prefill_cands reg l c)" "\<And>b. b \<in> set (prefill_cands reg l c) \<Longrightarrow> prefill_ms pb n pm l c \<le> prefill_ms b n pm l c"
    "db \<in> set (decode_cands reg l c)" "\<And>b. b \<in> set (decode_cands reg l c) \<Longrightarrow> decode_ms db k l c \<le> decode_ms b k l c"
proof -
  let ?pcand = "da_candidates (prefill_pool reg) l c" and ?dcand = "da_candidates (decode_pool reg) l c"
  let ?pc = "if ?pcand = [] then ?dcand else ?pcand"
  let ?dc = "if ?dcand = [] then ?pc else ?dcand"
  have ne: "?pc \<noteq> []" "?dc \<noteq> []" "\<not> (?pcand = [] \<and> ?dcand = [])" using assms by auto
  obtain pb where pb: "min_by (\<lambda>b. prefill_ms b n pm l c) ?pc = Inr pb" "pb \<in> set ?pc"
    "\<And>b. b \<in> set ?pc \<Longrightarrow> prefill_ms pb n pm l c \<le> prefill_ms b n pm l c" using min_by_ok [OF ne(1)] by metis
  obtain db where db: "min_by (\<lambda>b. decode_ms b k l c) ?dc = Inr db" "db \<in> set ?dc"
    "\<And>b. b \<in> set ?dc \<Longrightarrow> decode_ms db k l c \<le> decode_ms b k l c" using min_by_ok [OF ne(2)] by metis
  have "pb \<in> set (prefill_pool reg)" if "prefill_pool reg \<noteq> []"
    using pb(2) that da_candidates_sub [of "prefill_pool reg" l c] by auto
  moreover have "db \<in> set (decode_pool reg)" if "decode_pool reg \<noteq> []"
    using db(2) that da_candidates_sub [of "decode_pool reg" l c] by auto
  moreover have "choose_disaggregated n reg l c (Some k) pm = Inr (Some (disagg_decide (\<lambda>b. prefill_ms b n pm l c)
       (\<lambda>b. decode_ms b k l c) pb db (kv_transfer_ms n (kv_bytes_per_token c) (link_gbps c)) (disagg_margin_ms c) (coloc_pool reg l c)))"
    unfolding choose_disaggregated_def Let_def option.case pb(1) db(1) res_bind.simps using ne(3) by (rule if_not_P)
  ultimately show thesis using that pb(2,3) db(2,3) unfolding prefill_cands_def decode_cands_def Let_def by blast
qed

lemma choose_disaggregated_run:
  assumes "prefill_pool reg \<noteq> [] \<or> decode_pool reg \<noteq> []"
  obtains pb db where
    "choose_disaggregated n reg l c (Some k) pm = Inr (Some (disagg_decide (\<lambda>b. prefill_ms b n pm l c) (\<lambda>b. decode_ms b k l c)
       pb db (kv_transfer_ms n (kv_bytes_per_token c) (link_gbps c)) (disagg_margin_ms c) (coloc_pool reg l c)))"
    "prefill_pool reg \<noteq> [] \<Longrightarrow> pb \<in> set (prefill_pool reg)" "decode_pool reg \<noteq> [] \<Longrightarrow> db \<in> set (decode_pool reg)"
  using choose_disaggregated_best [OF assms, of n l c k pm] that by metis

lemma kept_together:
  fixes P D :: "string \<Rightarrow> pyfloat" and h m :: pyfloat
  assumes "d = disagg_decide P D pb db h m cp" "prefill_backend d = b" "decode_backend d = b" "b \<in> set cp" "pb \<noteq> db"
  shows "\<not> (\<forall>x \<in> set cp. P pb + h + D db + m < P x + D x)"
proof
  assume all: "\<forall>x \<in> set cp. P pb + h + D db + m < P x + D x"
  obtain x t where a: "argmin_loop (\<lambda>b. P b + D b) cp None = Some (x, t)" using argmin_loop_ex [of cp] assms(4) by fastforce
  have "P pb + h + D db + m < t" using argmin_loop_min(1,2) [OF a] all by blast
  then have "prefill_backend d = pb" "decode_backend d = db" using assms(1,5) a by (simp_all add: disagg_decide_def Let_def)
  then show False using assms(2,3,5) by simp
qed

lemma kv_transfer_nonneg: "0 \<le> bytes \<Longrightarrow> 0 \<le> kv_transfer_ms n bytes link"
  by (simp add: kv_transfer_ms_def)

lemma pools_dict_ok: "dict_ok (from_spec bids spec)"
proof -
  have "dict_ok d \<Longrightarrow> dict_ok (foldl (\<lambda>d b. AList.update b (f b) d) d bids)" for f :: "string \<Rightarrow> string set" and d
    by (induction bids arbitrary: d) simp_all
  then show ?thesis by (simp add: from_spec_def PoolRegistry_init_def)
qed

lemma both_roles:
  assumes "dict_ok reg" "b \<in> set (prefill_pool reg)" "b \<in> set (decode_pool reg)"
  shows "b \<in> set (colocatable reg)"
proof -
  obtain r r' where r: "(b, r) \<in> set reg" "ROLE_PREFILL \<in> r" "(b, r') \<in> set reg" "ROLE_DECODE \<in> r'"
    using assms(2,3) by (auto simp: prefill_pool_def decode_pool_def)
  then have "r' = r" using assms(1) by (metis dict_ok_def eq_key_imp_eq_value)
  then show ?thesis using r by (force simp: colocatable_def VALID_ROLES_def)
qed

text \<open>A backend that is best for both phases can serve both.\<close>

lemma both_coloc:
  assumes "dict_ok reg" "b \<in> set (prefill_cands reg l c)" "b \<in> set (decode_cands reg l c)" "coloc_pool reg l c \<noteq> []"
  shows "b \<in> set (coloc_pool reg l c)"
proof -
  have co: "colocatable reg \<noteq> []" using assms(4) by (auto simp: coloc_pool_def)
  then obtain x where "x \<in> set (colocatable reg)" by (cases "colocatable reg") auto
  then have pools: "prefill_pool reg \<noteq> []" "decode_pool reg \<noteq> []" using coloc_pools [of x reg] by auto
  then have b: "b \<in> set (da_candidates (prefill_pool reg) l c)" "b \<in> set (da_candidates (decode_pool reg) l c)"
    using assms(2,3) by (simp_all add: prefill_cands_def decode_cands_def Let_def)
  have role: "b \<in> set (prefill_pool reg)" "b \<in> set (decode_pool reg)" using b da_candidates_sub by blast+
  show ?thesis
  proof (cases "da_eligible b l c")
    case True
    have "b \<in> set (colocatable reg)" by (rule both_roles [OF assms(1) role])
    then show ?thesis using True co by (auto simp: coloc_pool_def da_candidates_def Let_def)
  next
    case False
    then have none: "\<forall>x \<in> set (prefill_pool reg). \<not> da_eligible x l c"
      using b(1) by (auto simp: da_candidates_def Let_def filter_empty_conv split: if_splits)
    then have "filter (\<lambda>x. da_eligible x l c) (colocatable reg) = []" using coloc_pools by (auto simp: filter_empty_conv)
    then show ?thesis using both_roles [OF assms(1) role] co by (simp add: coloc_pool_def da_candidates_def)
  qed
qed

text \<open>
  C29. The cheapest split and when it is made: in a registry in which every backend is listed once, with a nonnegative margin and size of a cached
  token, whenever some backend has a role there is a decision; each phase runs on a backend with its role if there is one.  No eligible
  co-locatable backend would serve the whole request for less than the estimated total, and no split over the backends considered for the
  phases, with its handoff, is cheaper by more than the margin.  The phases are put on two backends only if there is no co-locatable
  one or the split beats every eligible one by more than the margin, and then each is the cheapest for its phase; the
  estimate is the sum of its parts, with the modelled transfer as the handoff.
\<close>

theorem disagg_choice:
  assumes "prefill_pool reg \<noteq> [] \<or> decode_pool reg \<noteq> []" and "0 \<le> disagg_margin_ms c" and "0 \<le> kv_bytes_per_token c" and "dict_ok reg"
  shows "\<exists>d. choose_disaggregated n reg l c (Some k) pm = Inr (Some d) \<and>
    (prefill_pool reg \<noteq> [] \<longrightarrow> prefill_backend d \<in> set (prefill_pool reg)) \<and>
    (decode_pool reg \<noteq> [] \<longrightarrow> decode_backend d \<in> set (decode_pool reg)) \<and>
    est_total_ms d = prefill_ms (prefill_backend d) n pm l c + est_handoff_ms d + decode_ms (decode_backend d) k l c \<and>
    est_handoff_ms d = (if disaggregated d then kv_transfer_ms n (kv_bytes_per_token c) (link_gbps c) else 0) \<and>
    (\<forall>b \<in> set (coloc_pool reg l c). est_total_ms d \<le> prefill_ms b n pm l c + decode_ms b k l c) \<and>
    (\<forall>p \<in> set (prefill_cands reg l c). \<forall>q \<in> set (decode_cands reg l c).
       est_total_ms d \<le> prefill_ms p n pm l c + kv_transfer_ms n (kv_bytes_per_token c) (link_gbps c) + decode_ms q k l c + disagg_margin_ms c) \<and>
    (disaggregated d \<longrightarrow> prefill_backend d \<noteq> decode_backend d \<and>
       (\<forall>p \<in> set (prefill_cands reg l c). prefill_ms (prefill_backend d) n pm l c \<le> prefill_ms p n pm l c) \<and>
       (\<forall>q \<in> set (decode_cands reg l c). decode_ms (decode_backend d) k l c \<le> decode_ms q k l c) \<and>
       (\<forall>b \<in> set (coloc_pool reg l c). est_total_ms d + disagg_margin_ms c < prefill_ms b n pm l c + decode_ms b k l c))"
proof -
  let ?P = "\<lambda>b. prefill_ms b n pm l c" and ?D = "\<lambda>b. decode_ms b k l c" and ?cp = "coloc_pool reg l c"
  let ?h = "kv_transfer_ms n (kv_bytes_per_token c) (link_gbps c)" and ?m = "disagg_margin_ms c"
  have h: "0 \<le> ?h" using assms(3) by (rule kv_transfer_nonneg)
  obtain pb db where run: "choose_disaggregated n reg l c (Some k) pm = Inr (Some (disagg_decide ?P ?D pb db ?h ?m ?cp))"
    and roles: "prefill_pool reg \<noteq> [] \<Longrightarrow> pb \<in> set (prefill_pool reg)" "decode_pool reg \<noteq> [] \<Longrightarrow> db \<in> set (decode_pool reg)"
    and best: "pb \<in> set (prefill_cands reg l c)" "\<And>b. b \<in> set (prefill_cands reg l c) \<Longrightarrow> ?P pb \<le> ?P b"
      "db \<in> set (decode_cands reg l c)" "\<And>b. b \<in> set (decode_cands reg l c) \<Longrightarrow> ?D db \<le> ?D b"
    using choose_disaggregated_best [OF assms(1), of n l c k pm] by metis
  define d where "d = disagg_decide ?P ?D pb db ?h ?m ?cp"
  note parts = disagg_decide_parts [OF d_def]
  have cp: "x \<in> set (prefill_pool reg) \<and> x \<in> set (decode_pool reg)" if "x \<in> set ?cp" for x
    using that coloc_pools [of x reg] da_candidates_sub [of "colocatable reg" l c] by (auto simp: coloc_pool_def split: if_splits)
  have split_cost: "?P pb + ?h + ?D db \<le> ?P p + ?h + ?D q" if "p \<in> set (prefill_cands reg l c)" "q \<in> set (decode_cands reg l c)" for p q
    using best(2) [OF that(1)] best(4) [OF that(2)] by simp
  let ?goal = "\<lambda>d. (prefill_pool reg \<noteq> [] \<longrightarrow> prefill_backend d \<in> set (prefill_pool reg)) \<and>
    (decode_pool reg \<noteq> [] \<longrightarrow> decode_backend d \<in> set (decode_pool reg)) \<and>
    est_handoff_ms d = (if disaggregated d then ?h else 0) \<and>
    (\<forall>b \<in> set ?cp. est_total_ms d \<le> ?P b + ?D b) \<and>
    (\<forall>p \<in> set (prefill_cands reg l c). \<forall>q \<in> set (decode_cands reg l c). est_total_ms d \<le> ?P p + ?h + ?D q + ?m) \<and>
    (disaggregated d \<longrightarrow> (\<forall>p \<in> set (prefill_cands reg l c). ?P (prefill_backend d) \<le> ?P p) \<and>
       (\<forall>q \<in> set (decode_cands reg l c). ?D (decode_backend d) \<le> ?D q) \<and> (\<forall>b \<in> set ?cp. est_total_ms d + ?m < ?P b + ?D b))"
  from d_def have goal: "?goal d"
  proof (cases rule: disagg_decide_cases)
    case split
    have less: "est_total_ms d + ?m < ?P b + ?D b" if "b \<in> set ?cp" for b
      using split(1,3-5) split(2) [OF that] that by (auto simp: parts)
    moreover have "est_total_ms d \<le> ?P p + ?h + ?D q + ?m"
      if "p \<in> set (prefill_cands reg l c)" "q \<in> set (decode_cands reg l c)" for p q
      using split_cost [OF that] assms(2) h by (auto simp: parts split)
    moreover have "est_total_ms d \<le> ?P b + ?D b" if "b \<in> set ?cp" for b using less [OF that] assms(2) by linarith
    ultimately show ?thesis using split(3-5) roles best(2,4) by (simp add: parts(1))
  next
    case (one b)
    have "?P b + ?D b \<le> ?P p + ?h + ?D q + ?m" if "p \<in> set (prefill_cands reg l c)" "q \<in> set (decode_cands reg l c)" for p q
    proof (cases "pb = db")
      case True
      then have "pb \<in> set ?cp" using both_coloc [OF assms(4) best(1)] best(3) one(3) by (metis list.set(1) empty_iff)
      then show ?thesis using one(5) [of pb] split_cost [OF that] True assms(2) h by fastforce
    next
      case False
      have "\<not> (\<forall>x \<in> set ?cp. ?P pb + ?h + ?D db + ?m < ?P x + ?D x)" by (rule kept_together [OF d_def one(1,2,3) False])
      then obtain x where "x \<in> set ?cp" "?P x + ?D x \<le> ?P pb + ?h + ?D db + ?m" by (auto simp: not_less)
      then show ?thesis using one(5) [of x] split_cost [OF that] by linarith
    qed
    then show ?thesis using one cp [OF one(3)] by (simp add: parts)
  qed
  have res: "choose_disaggregated n reg l c (Some k) pm = Inr (Some d)" using run by (simp add: d_def)
  show ?thesis by (intro exI [of _ d] conjI; use res goal parts in blast)
qed

text \<open>
  An idle fleet is not split: if no backend has requests in flight, no prefix is cached and the
  costs of a handoff are not negative, a request runs on one backend whenever some backend can
  serve both phases.
\<close>

theorem idle_colocates:
  assumes "colocatable reg \<noteq> []" and "\<forall>b. dget (inflight l) b 0 = 0"
    and "0 \<le> kv_bytes_per_token c" and "0 \<le> disagg_margin_ms c"
  shows "\<exists>d. choose_disaggregated n reg l c (Some k) [] = Inr (Some d) \<and> \<not> disaggregated d"
proof -
  obtain b where b: "b \<in> set (colocatable reg)" using assms(1) by (metis list.set_sel(1))
  then have pools: "prefill_pool reg \<noteq> [] \<or> decode_pool reg \<noteq> []" using coloc_pools [of b reg] by auto
  have P: "prefill_ms x n [] l c = prefill_ms y n [] l c" and D: "decode_ms x k l c = decode_ms y k l c" for x y
    using assms(2) by (simp_all add: prefill_ms_def decode_ms_def)
  have "coloc_pool reg l c \<noteq> []" using assms(1) by (simp add: coloc_pool_def)
  then obtain y where y: "y \<in> set (coloc_pool reg l c)" by (metis list.set_sel(1))
  have ho: "0 \<le> kv_transfer_ms n (kv_bytes_per_token c) (link_gbps c)"
    using assms(3) by (simp add: kv_transfer_ms_def)
  obtain pb db where run: "choose_disaggregated n reg l c (Some k) [] = Inr (Some (disagg_decide (\<lambda>b. prefill_ms b n [] l c)
       (\<lambda>b. decode_ms b k l c) pb db (kv_transfer_ms n (kv_bytes_per_token c) (link_gbps c)) (disagg_margin_ms c) (coloc_pool reg l c)))"
    using choose_disaggregated_run [OF pools] by metis
  define d where "d = disagg_decide (\<lambda>b. prefill_ms b n [] l c) (\<lambda>b. decode_ms b k l c) pb db
    (kv_transfer_ms n (kv_bytes_per_token c) (link_gbps c)) (disagg_margin_ms c) (coloc_pool reg l c)"
  from d_def have "\<not> disaggregated d"
  proof (cases rule: disagg_decide_cases)
    case split
    from split(2) [OF y] show ?thesis using P [of pb y] D [of db y] ho assms(4) by linarith
  next
    case one
    then show ?thesis using disagg_decide_parts(1) [OF d_def] by simp
  qed
  then show ?thesis using run unfolding d_def [symmetric] by blast
qed

definition demo_pools :: PoolRegistry where
  "demo_pools = from_spec [''b0'', ''b1'', ''b2''] ''b0:prefill;b1:decode''"

lemma demo_pools_coloc: "colocatable demo_pools = [''b2'']" "prefill_pool demo_pools = [''b0'', ''b2'']"
  by code_simp+

lemma demo_disagg_cfg:
  "disagg_margin_ms (DisaggConfig_of DisaggConfig_fields) = 1" "kv_bytes_per_token (DisaggConfig_of DisaggConfig_fields) = 200000"
proof -
  have "float_field DisaggConfig_fields ''disagg_margin_ms'' = 1" "float_field DisaggConfig_fields ''kv_bytes_per_token'' = 200000"
    by code_simp+
  then show "disagg_margin_ms (DisaggConfig_of DisaggConfig_fields) = 1"
    "kv_bytes_per_token (DisaggConfig_of DisaggConfig_fields) = 200000" by (simp_all add: DisaggConfig_of_def)
qed

theorem disagg_choice_witness:
  "\<exists>d. choose_disaggregated 1000 demo_pools LoadTracker_init (DisaggConfig_of DisaggConfig_fields) (Some 256) [] = Inr (Some d) \<and>
    prefill_backend d \<in> {''b0'', ''b2''}"
proof -
  have "prefill_pool demo_pools \<noteq> [] \<or> decode_pool demo_pools \<noteq> []"
    "0 \<le> disagg_margin_ms (DisaggConfig_of DisaggConfig_fields)" "0 \<le> kv_bytes_per_token (DisaggConfig_of DisaggConfig_fields)"
    "dict_ok demo_pools" by (simp_all add: demo_pools_coloc demo_disagg_cfg) (simp add: demo_pools_def pools_dict_ok)
  from disagg_choice [OF this, of 1000 LoadTracker_init 256 "[]"] show ?thesis by (auto simp: demo_pools_coloc)
qed

theorem idle_colocates_witness:
  "\<exists>d. choose_disaggregated 1000 demo_pools LoadTracker_init (DisaggConfig_of DisaggConfig_fields) (Some 256) [] = Inr (Some d) \<and>
    \<not> disaggregated d"
  by (rule idle_colocates) (simp_all add: demo_pools_coloc demo_disagg_cfg LoadTracker_init_def)

end
