(* ===== verification/Semantic_Cache.thy ===== *)
theory Semantic_Cache
  imports Lru
begin

section \<open>The semantic cache\<close>

text \<open>
  \<^verbatim>\<open>gateway/extensions/semantic_cache.py\<close>: responses by the embedding of their prompt, one table
  per tenant.  The embedder is a parameter: a vector, or \<open>None\<close> when it raises.  Vectors are
  lists of exact numbers (the rounding to 32 bits is not modelled), a product of vectors of
  different lengths raises \<open>ValueError\<close> as numpy does.  The timestamps of the order table are only
  stored, so the table keeps the order of its keys.  When a comparison raises, the step leaves the
  state as it was: the source has then already created the tenant's empty table, which only the
  number of tenants reported by \<open>stats\<close> can tell.
\<close>

type_synonym vec = "pyfloat list"
type_synonym embedder = "string \<Rightarrow> vec option"

record TenantCache =
  max_entries :: int
  embeddings :: "(int, vec) dict"
  responses :: "(int, string) dict"
  tc_order :: "(int, unit) dict"

definition TenantCache_init :: "int \<Rightarrow> TenantCache" where
  "TenantCache_init m = \<lparr>max_entries = m, embeddings = [], responses = [], tc_order = []\<rparr>"

definition dot :: "vec \<Rightarrow> vec \<Rightarrow> pyfloat" where
  "dot u v = sum_list (map2 (*) u v)"

text \<open>\<open>np.argmax\<close>: the first index of the largest value.\<close>

fun argmax_from :: "nat \<Rightarrow> pyfloat list \<Rightarrow> nat \<times> pyfloat \<Rightarrow> nat \<times> pyfloat" where
  "argmax_from i [] best = best"
| "argmax_from i (x # xs) best = argmax_from (i + 1) xs (if x > snd best then (i, x) else best)"

definition find_similar :: "TenantCache \<Rightarrow> vec \<Rightarrow> pyfloat \<Rightarrow> ((int \<times> string \<times> pyfloat) option \<times> TenantCache) result" where
  "find_similar t q threshold =
     (case embeddings t of
        [] \<Rightarrow> Inr (None, t)
      | e # es \<Rightarrow>
          if \<exists>x \<in> set (e # es). length (snd x) \<noteq> length q then Inl ValueError
          else
            let ids = map fst (e # es);
                sims = map (\<lambda>x. dot (snd x) q) (e # es);
                (best_idx, best_sim) = argmax_from 1 (tl sims) (0, hd sims)
            in if best_sim \<ge> threshold then
                 let i = ids ! best_idx in
                 (case map_of (responses t) i of
                    None \<Rightarrow> Inl KeyError
                  | Some r \<Rightarrow> Inr (Some (i, r, best_sim), t\<lparr>tc_order := move_to_end i (tc_order t)\<rparr>))
               else Inr (None, t))"

fun evict_entries :: "TenantCache \<Rightarrow> (int, unit) dict \<Rightarrow> TenantCache result" where
  "evict_entries t [] = (if 0 > max_entries t then Inl KeyError else Inr (t\<lparr>tc_order := []\<rparr>))"
| "evict_entries t ((i, u) # es) =
     (if int (length ((i, u) # es)) > max_entries t
      then evict_entries (t\<lparr>embeddings := AList.delete i (embeddings t), responses := AList.delete i (responses t)\<rparr>) es
      else Inr (t\<lparr>tc_order := (i, u) # es\<rparr>))"

definition cache_insert :: "TenantCache \<Rightarrow> vec \<Rightarrow> string \<Rightarrow> (int \<times> TenantCache) result" where
  "cache_insert t v r =
     (let i = (if tc_order t = [] then 1 else Max (set (dkeys (tc_order t))) + 1);
          t' = t\<lparr>embeddings := AList.update i v (embeddings t), responses := AList.update i r (responses t)\<rparr>
      in res_bind (evict_entries t' (AList.update i () (tc_order t))) (\<lambda>t''. Inr (i, t'')))"

record SemanticCache =
  sc_threshold :: pyfloat
  sc_max :: int
  sc_tenants :: "(string, TenantCache) dict"
  sc_hits :: nat
  sc_misses :: nat

definition SemanticCache_init :: "pyfloat \<Rightarrow> int \<Rightarrow> SemanticCache" where
  "SemanticCache_init th m = \<lparr>sc_threshold = th, sc_max = m, sc_tenants = [], sc_hits = 0, sc_misses = 0\<rparr>"

text \<open>\<open>_tenant\<close> creates an empty table on first use.\<close>

definition tenant_cache :: "SemanticCache \<Rightarrow> string \<Rightarrow> TenantCache \<times> SemanticCache" where
  "tenant_cache s tid =
     (case map_of (sc_tenants s) tid of
        Some t \<Rightarrow> (t, s)
      | None \<Rightarrow> let t = TenantCache_init (sc_max s) in (t, s\<lparr>sc_tenants := AList.update tid t (sc_tenants s)\<rparr>))"

definition sc_lookup :: "embedder \<Rightarrow> SemanticCache \<Rightarrow> string \<Rightarrow> string \<Rightarrow> ((string \<times> pyfloat) option \<times> SemanticCache) result" where
  "sc_lookup emb s tid prompt =
     (case emb prompt of
        None \<Rightarrow> Inr (None, s)
      | Some v \<Rightarrow>
          let (t, s') = tenant_cache s tid in
          res_bind (find_similar t v (sc_threshold s')) (\<lambda>(hit, t').
            let s'' = s'\<lparr>sc_tenants := AList.update tid t' (sc_tenants s')\<rparr> in
            case hit of
              None \<Rightarrow> Inr (None, s''\<lparr>sc_misses := sc_misses s'' + 1\<rparr>)
            | Some (_, resp, sim) \<Rightarrow> Inr (Some (resp, sim), s''\<lparr>sc_hits := sc_hits s'' + 1\<rparr>)))"

definition sc_store :: "embedder \<Rightarrow> SemanticCache \<Rightarrow> string \<Rightarrow> string \<Rightarrow> string \<Rightarrow> (bool \<times> SemanticCache) result" where
  "sc_store emb s tid prompt resp =
     (case emb prompt of
        None \<Rightarrow> Inr (False, s)
      | Some v \<Rightarrow>
          let (t, s') = tenant_cache s tid in
          res_bind (cache_insert t v resp) (\<lambda>(_, t').
            Inr (True, s'\<lparr>sc_tenants := AList.update tid t' (sc_tenants s')\<rparr>)))"

record sc_stats =
  st_hits :: nat
  st_misses :: nat
  st_hit_rate :: pyfloat
  st_tenants :: nat
  st_entries :: nat

definition stats :: "SemanticCache \<Rightarrow> sc_stats" where
  "stats s =
     (let total = sc_hits s + sc_misses s in
      \<lparr>st_hits = sc_hits s, st_misses = sc_misses s,
       st_hit_rate = (if total \<noteq> 0 then of_nat (sc_hits s) / of_nat total else 0),
       st_tenants = length (sc_tenants s),
       st_entries = sum_list (map (\<lambda>(_, t). length (tc_order t)) (sc_tenants s))\<rparr>)"

subsection \<open>Properties\<close>

lemma argmax_from_spec:
  "argmax_from i xs (j, b) = (k, y) \<Longrightarrow>
     (k = j \<and> y = b \<or> i \<le> k \<and> k - i < length xs \<and> xs ! (k - i) = y) \<and> b \<le> y \<and> (\<forall>x \<in> set xs. x \<le> y)"
proof (induction xs arbitrary: i j b)
  case (Cons x xs)
  show ?case
  proof (cases "x > b")
    case True
    with Cons.IH [of "i + 1" i x] Cons.prems show ?thesis by (auto simp: nth_Cons' Suc_le_eq)
  next
    case False
    with Cons.IH [of "i + 1" j b] Cons.prems show ?thesis by (auto simp: nth_Cons' Suc_le_eq)
  qed
qed simp

lemma argmax_list:
  assumes "xs \<noteq> []" "argmax_from 1 (tl xs) (0, hd xs) = (k, y)"
  shows "k < length xs" "xs ! k = y" "\<And>x. x \<in> set xs \<Longrightarrow> x \<le> y"
  using argmax_from_spec [OF assms(2)] assms(1) by (cases xs; auto simp: nth_Cons' less_Suc_eq_0_disj)+

text \<open>
  A tenant's table is consistent with what was stored: the three dictionaries have the same keys,
  there are at most the allowed number of entries, and every entry was stored.
\<close>

definition table_ok :: "int \<Rightarrow> (vec \<times> string) set \<Rightarrow> TenantCache \<Rightarrow> bool" where
  "table_ok m S t \<longleftrightarrow> max_entries t = m \<and> dict_ok (embeddings t) \<and> dict_ok (tc_order t) \<and>
     set (dkeys (embeddings t)) = set (dkeys (tc_order t)) \<and> set (dkeys (responses t)) = set (dkeys (tc_order t)) \<and>
     int (length (tc_order t)) \<le> m \<and>
     (\<forall>i v r. map_of (embeddings t) i = Some v \<longrightarrow> map_of (responses t) i = Some r \<longrightarrow> (v, r) \<in> S)"

lemma table_ok_init: "0 \<le> m \<Longrightarrow> table_ok m S (TenantCache_init m)"
  by (simp add: table_ok_def TenantCache_init_def dkeys_def)

lemma table_ok_mono: "table_ok m S t \<Longrightarrow> S \<subseteq> S' \<Longrightarrow> table_ok m S' t"
  unfolding table_ok_def by blast

lemma dkeys_move_to_end: "dict_ok d \<Longrightarrow> set (dkeys (move_to_end k d)) = set (dkeys d)"
  by (rule set_eqI) (metis dict_ok_move_to_end map_of_None_dkeys map_of_move_to_end)

lemma find_similar_result:
  assumes ok: "table_ok m S t" and r: "find_similar t q th = Inr (hit, t')"
  shows "table_ok m S t'"
    and "hit = Some (i, resp, sim) \<Longrightarrow> \<exists>u. (u, resp) \<in> S \<and> length u = length q \<and> sim = dot u q \<and> th \<le> sim \<and>
      (\<forall>(j, w) \<in> set (embeddings t). dot w q \<le> sim)"
proof -
  show "table_ok m S t'"
  proof -
    from r have "t' = t \<or> (\<exists>k. t' = t\<lparr>tc_order := move_to_end k (tc_order t)\<rparr>)"
      by (auto simp: find_similar_def Let_def split: list.splits if_splits prod.splits option.splits)
    then show ?thesis using ok by (auto simp: table_ok_def dkeys_move_to_end)
  qed
  assume h: "hit = Some (i, resp, sim)"
  let ?E = "embeddings t" and ?sims = "map (\<lambda>x. dot (snd x) q) (embeddings t)"
  have ne: "?E \<noteq> []" using r h by (auto simp: find_similar_def split: list.splits)
  obtain k y where a: "argmax_from 1 (tl ?sims) (0, hd ?sims) = (k, y)" by force
  have len: "\<forall>x \<in> set ?E. length (snd x) = length q" and y: "y = sim" "th \<le> y"
    and ii: "i = map fst ?E ! k" "map_of (responses t) i = Some resp"
    using r h a by (auto simp: find_similar_def Let_def split: list.splits if_splits option.splits)
  note am = argmax_list [OF _ a, simplified]
  have k: "k < length ?E" and yk: "y = dot (snd (?E ! k)) q" using am(1,2) ne by auto
  have "(i, snd (?E ! k)) \<in> set ?E" using k ii(1) by (simp add: nth_mem)
  then have lk: "map_of ?E i = Some (snd (?E ! k))" using ok by (simp add: table_ok_def dict_ok_def)
  then have "(snd (?E ! k), resp) \<in> S" using ok ii(2) unfolding table_ok_def by blast
  moreover have "length (snd (?E ! k)) = length q" using len k nth_mem by blast
  moreover have "\<forall>(j, w) \<in> set ?E. dot w q \<le> sim" using am(3) ne y(1) by fastforce
  ultimately show "\<exists>u. (u, resp) \<in> S \<and> length u = length q \<and> sim = dot u q \<and> th \<le> sim \<and> (\<forall>(j, w) \<in> set ?E. dot w q \<le> sim)"
    using yk y by blast
qed

lemma evict_entries_ok:
  assumes "0 \<le> m" "max_entries t = m" "dict_ok (embeddings t)" "dict_ok es"
    "set (dkeys (embeddings t)) = set (dkeys es)" "set (dkeys (responses t)) = set (dkeys es)"
    "\<forall>i v r. map_of (embeddings t) i = Some v \<longrightarrow> map_of (responses t) i = Some r \<longrightarrow> (v, r) \<in> S"
  shows "\<exists>t'. evict_entries t es = Inr t' \<and> table_ok m S t'"
  using assms
proof (induction t es rule: evict_entries.induct)
  case (1 t)
  then show ?case by (simp add: table_ok_def)
next
  case (2 t i u es)
  show ?case
  proof (cases "int (length ((i, u) # es)) > max_entries t")
    case True
    let ?t = "t\<lparr>embeddings := AList.delete i (embeddings t), responses := AList.delete i (responses t)\<rparr>"
    have i: "i \<notin> set (dkeys es)" "dict_ok es" using "2.prems"(4) by (auto simp: dict_ok_def dkeys_def)
    have keys: "set (dkeys ((i, u) # es)) = insert i (set (dkeys es))" by (simp add: dkeys_def)
    have "\<exists>t'. evict_entries ?t es = Inr t' \<and> table_ok m S t'"
      by (rule "2.IH" [OF True]) (use "2.prems" [unfolded keys] i in auto)
    then show ?thesis using True by simp
  next
    case False
    then show ?thesis using "2.prems" by (simp add: table_ok_def)
  qed
qed

lemma cache_insert_ok:
  assumes ok: "table_ok m S t" and m: "0 \<le> m" and new: "(v, r) \<in> S"
  shows "\<exists>i t'. cache_insert t v r = Inr (i, t') \<and> table_ok m S t'"
proof -
  let ?i = "if tc_order t = [] then 1 else Max (set (dkeys (tc_order t))) + 1"
  let ?t = "t\<lparr>embeddings := AList.update ?i v (embeddings t), responses := AList.update ?i r (responses t)\<rparr>"
  have "\<exists>t'. evict_entries ?t (AList.update ?i () (tc_order t)) = Inr t' \<and> table_ok m S t'"
    by (rule evict_entries_ok) (use ok m new in \<open>auto simp: table_ok_def\<close>)
  then show ?thesis by (auto simp: cache_insert_def Let_def)
qed

datatype sc_op = ScLookup string string | ScStore string string string

fun sc_step :: "embedder \<Rightarrow> SemanticCache \<Rightarrow> sc_op \<Rightarrow> SemanticCache" where
  "sc_step emb s (ScLookup tid p) = (case sc_lookup emb s tid p of Inr (_, s') \<Rightarrow> s' | Inl _ \<Rightarrow> s)"
| "sc_step emb s (ScStore tid p r) = (case sc_store emb s tid p r of Inr (_, s') \<Rightarrow> s' | Inl _ \<Rightarrow> s)"

definition sc_run :: "embedder \<Rightarrow> pyfloat \<Rightarrow> int \<Rightarrow> sc_op list \<Rightarrow> SemanticCache" where
  "sc_run emb th m ops = foldl (sc_step emb) (SemanticCache_init th m) ops"

definition stored :: "embedder \<Rightarrow> string \<Rightarrow> sc_op list \<Rightarrow> (vec \<times> string) set" where
  "stored emb tid ops = {(u, r). \<exists>p. ScStore tid p r \<in> set ops \<and> emb p = Some u}"

definition caches_ok :: "embedder \<Rightarrow> pyfloat \<Rightarrow> int \<Rightarrow> sc_op list \<Rightarrow> SemanticCache \<Rightarrow> bool" where
  "caches_ok emb th m ops s \<longleftrightarrow> sc_threshold s = th \<and> sc_max s = m \<and>
     (\<forall>tid t. map_of (sc_tenants s) tid = Some t \<longrightarrow> table_ok m (stored emb tid ops) t)"

lemma tenant_cache_ok:
  assumes "caches_ok emb th m ops s" "0 \<le> m" "tenant_cache s tid = (t, s')"
  shows "table_ok m (stored emb tid ops) t" "caches_ok emb th m ops s'"
  using assms table_ok_init [OF assms(2)]
  by (auto simp: tenant_cache_def caches_ok_def Let_def split: option.splits if_splits)

lemma stored_mono: "stored emb tid ops \<subseteq> stored emb tid (ops @ [x])"
  by (auto simp: stored_def)

lemma caches_ok_snoc: "caches_ok emb th m ops s \<Longrightarrow> caches_ok emb th m (ops @ [x]) s"
  unfolding caches_ok_def using table_ok_mono stored_mono by blast

lemma caches_ok_put:
  "caches_ok emb th m ops s \<Longrightarrow> table_ok m (stored emb tid ops) t \<Longrightarrow>
     caches_ok emb th m ops (s\<lparr>sc_tenants := AList.update tid t (sc_tenants s)\<rparr>)"
  by (auto simp: caches_ok_def)

lemma sc_step_ok:
  assumes ok: "caches_ok emb th m ops s" and m: "0 \<le> m"
  shows "caches_ok emb th m (ops @ [x]) (sc_step emb s x)"
proof (cases x)
  case (ScLookup tid p)
  have "caches_ok emb th m ops s'" if "sc_lookup emb s tid p = Inr (h, s')" for h s'
  proof (cases "emb p")
    case None
    then show ?thesis using that ok by (simp add: sc_lookup_def)
  next
    case (Some v)
    obtain t s1 where 1: "tenant_cache s tid = (t, s1)" by force
    note T = tenant_cache_ok [OF ok m 1]
    from that Some 1 obtain hit t' where f: "find_similar t v (sc_threshold s1) = Inr (hit, t')"
      by (cases "find_similar t v (sc_threshold s1)") (auto simp: sc_lookup_def)
    have s': "s' = (s1\<lparr>sc_tenants := AList.update tid t' (sc_tenants s1)\<rparr>)\<lparr>sc_misses := sc_misses s1 + 1\<rparr> \<or>
        s' = (s1\<lparr>sc_tenants := AList.update tid t' (sc_tenants s1)\<rparr>)\<lparr>sc_hits := sc_hits s1 + 1\<rparr>"
      using that Some 1 f by (auto simp: sc_lookup_def Let_def split: option.splits)
    have "caches_ok emb th m ops (s1\<lparr>sc_tenants := AList.update tid t' (sc_tenants s1)\<rparr>)"
      by (rule caches_ok_put [OF T(2) find_similar_result(1) [OF T(1) f]])
    then show ?thesis using s' by (auto simp: caches_ok_def)
  qed
  then show ?thesis using ok caches_ok_snoc ScLookup by (auto split: sum.split)
next
  case (ScStore tid p r)
  show ?thesis
  proof (cases "emb p")
    case None
    then show ?thesis using ok caches_ok_snoc ScStore by (simp add: sc_store_def)
  next
    case (Some v)
    obtain t s1 where 1: "tenant_cache s tid = (t, s1)" by force
    note T = tenant_cache_ok [OF caches_ok_snoc [OF ok] m 1, of x]
    have "(v, r) \<in> stored emb tid (ops @ [x])" using Some ScStore by (auto simp: stored_def)
    from cache_insert_ok [OF T(1) m this] obtain i t' where c: "cache_insert t v r = Inr (i, t')"
      "table_ok m (stored emb tid (ops @ [x])) t'" by blast
    then show ?thesis using Some ScStore 1 caches_ok_put [OF T(2) c(2)] by (simp add: sc_store_def)
  qed
qed

lemma sc_run_ok: "0 \<le> m \<Longrightarrow> caches_ok emb th m ops (sc_run emb th m ops)"
proof (induction ops rule: rev_induct)
  case Nil
  then show ?case by (simp add: sc_run_def caches_ok_def SemanticCache_init_def)
next
  case (snoc x ops)
  then show ?case using sc_step_ok [of emb th m ops "sc_run emb th m ops" x] by (simp add: sc_run_def)
qed

subsection \<open>A stored answer is found\<close>

text \<open>The entries a tenant's next lookup compares with.\<close>

definition entries_of :: "SemanticCache \<Rightarrow> string \<Rightarrow> (int, vec) dict" where
  "entries_of s tid = (case map_of (sc_tenants s) tid of None \<Rightarrow> [] | Some t \<Rightarrow> embeddings t)"

lemma entries_tenant_cache: "tenant_cache s tid = (t, s') \<Longrightarrow> embeddings t = entries_of s tid \<and> entries_of s' = entries_of s"
  by (auto simp: tenant_cache_def entries_of_def TenantCache_init_def Let_def fun_eq_iff split: option.splits if_splits)

lemma entries_put: "entries_of (s\<lparr>sc_tenants := AList.update tid t (sc_tenants s)\<rparr>) = (entries_of s)(tid := embeddings t)"
  by (auto simp: entries_of_def fun_eq_iff)

lemma entries_counters [simp]:
  "entries_of (s\<lparr>sc_misses := n\<rparr>) = entries_of s" "entries_of (s\<lparr>sc_hits := n\<rparr>) = entries_of s"
  by (simp_all add: entries_of_def fun_eq_iff)

lemma find_similar_keeps: "find_similar t q th = Inr (h, t') \<Longrightarrow> embeddings t' = embeddings t"
  by (auto simp: find_similar_def Let_def split: list.splits if_splits prod.splits option.splits)

lemma lookup_entries:
  assumes "sc_lookup emb s tid p = Inr (h, s')"
  shows "entries_of s' = entries_of s"
proof (cases "emb p")
  case None
  then show ?thesis using assms by (simp add: sc_lookup_def)
next
  case (Some v)
  obtain t s1 where 1: "tenant_cache s tid = (t, s1)" by force
  from assms Some 1 obtain hit t' where f: "find_similar t v (sc_threshold s1) = Inr (hit, t')"
    by (cases "find_similar t v (sc_threshold s1)") (auto simp: sc_lookup_def)
  have "entries_of s' = entries_of (s1\<lparr>sc_tenants := AList.update tid t' (sc_tenants s1)\<rparr>)"
    using assms Some 1 f by (auto simp: sc_lookup_def Let_def split: option.splits)
  then show ?thesis using entries_tenant_cache [OF 1] find_similar_keeps [OF f] by (simp add: entries_put)
qed

lemma store_entries:
  assumes "sc_store emb s tid p r = Inr (b, s')" and "tid' \<noteq> tid"
  shows "entries_of s' tid' = entries_of s tid'"
proof (cases "emb p")
  case None
  then show ?thesis using assms by (simp add: sc_store_def)
next
  case (Some v)
  obtain t s1 where 1: "tenant_cache s tid = (t, s1)" by force
  from assms(1) Some 1 obtain i t' where "cache_insert t v r = Inr (i, t')"
    by (cases "cache_insert t v r") (auto simp: sc_store_def)
  then have "s' = s1\<lparr>sc_tenants := AList.update tid t' (sc_tenants s1)\<rparr>"
    using assms(1) Some 1 by (simp add: sc_store_def)
  then show ?thesis using entries_tenant_cache [OF 1] assms(2) by (simp add: entries_put)
qed

lemma steps_entries:
  assumes "\<And>p r. ScStore tid p r \<notin> set ops"
  shows "entries_of (foldl (sc_step emb) s ops) tid = entries_of s tid"
  using assms
proof (induction ops arbitrary: s)
  case (Cons x ops)
  have "entries_of (sc_step emb s x) tid = entries_of s tid"
  proof (cases x)
    case (ScLookup tid' p)
    then show ?thesis using lookup_entries [of emb s tid' p] by (auto split: sum.split)
  next
    case (ScStore tid' p r)
    then have "tid \<noteq> tid'" using Cons.prems [of p r] by auto
    then show ?thesis using store_entries [of emb s tid' p r _ _ tid] ScStore by (auto split: sum.split)
  qed
  then show ?case using Cons by auto
qed simp

lemma lookup_misses:
  assumes "sc_lookup emb s tid p = Inr (None, s')" and "emb p = Some v"
  shows "\<forall>(i, w) \<in> set (entries_of s tid). length w = length v \<and> dot w v < sc_threshold s"
proof -
  obtain t s1 where 1: "tenant_cache s tid = (t, s1)" by force
  have th: "sc_threshold s1 = sc_threshold s" using 1 by (auto simp: tenant_cache_def Let_def split: option.splits)
  obtain hit t' where h: "find_similar t v (sc_threshold s) = Inr (hit, t')"
    using assms 1 th by (cases "find_similar t v (sc_threshold s1)") (auto simp: sc_lookup_def)
  have "hit = None"
    using assms 1 th h by (cases hit) (auto simp: sc_lookup_def Let_def)
  with h have f: "find_similar t v (sc_threshold s) = Inr (None, t')" by simp
  let ?E = "embeddings t" and ?sims = "map (\<lambda>x. dot (snd x) v) (embeddings t)"
  obtain k y where a: "argmax_from 1 (tl ?sims) (0, hd ?sims) = (k, y)" by force
  have "length (snd x) = length v \<and> dot (snd x) v < sc_threshold s" if x: "x \<in> set ?E" for x
  proof -
    have ne: "?E \<noteq> []" using x by auto
    have "length (snd x) = length v" "y < sc_threshold s"
      using f a x by (auto simp: find_similar_def Let_def split: list.splits if_splits option.splits)
    moreover have "dot (snd x) v \<le> y" using argmax_list(3) [OF _ a] ne x by auto
    ultimately show ?thesis by simp
  qed
  then show ?thesis using entries_tenant_cache [OF 1] by fastforce
qed

text \<open>The newest entry survives the eviction.\<close>

lemma update_appends: "k \<notin> fst ` set d \<Longrightarrow> AList.update k v d = d @ [(k, v)]"
  by (induction d) auto

lemma delete_subset: "set (AList.delete k d) \<subseteq> set d"
  by (auto simp: AList.delete_eq)

lemma evict_keeps_last:
  assumes "evict_entries t (es @ [(i, u)]) = Inr t'" "0 < max_entries t" "i \<notin> fst ` set es"
  shows "map_of (embeddings t') i = map_of (embeddings t) i" "map_of (responses t') i = map_of (responses t) i"
    "set (embeddings t') \<subseteq> set (embeddings t)"
proof -
  have "map_of (embeddings t') i = map_of (embeddings t) i \<and> map_of (responses t') i = map_of (responses t) i \<and>
    set (embeddings t') \<subseteq> set (embeddings t)"
    using assms
  proof (induction es arbitrary: t)
    case Nil
    then show ?case by auto
  next
    case (Cons e es)
    obtain j w where e: "e = (j, w)" by (cases e)
    show ?case
    proof (cases "int (length (e # es @ [(i, u)])) > max_entries t")
      case True
      let ?t = "t\<lparr>embeddings := AList.delete j (embeddings t), responses := AList.delete j (responses t)\<rparr>"
      have "evict_entries ?t (es @ [(i, u)]) = Inr t'" using Cons.prems(1) True e by simp
      from Cons.IH [OF this] Cons.prems e show ?thesis
        using delete_subset [of j "embeddings t"] by (auto simp: delete_conv')
    next
      case False
      then show ?thesis using Cons.prems(1) e by auto
    qed
  qed
  then show "map_of (embeddings t') i = map_of (embeddings t) i" "map_of (responses t') i = map_of (responses t) i"
    "set (embeddings t') \<subseteq> set (embeddings t)" by auto
qed

lemma insert_keeps_new:
  assumes ok: "table_ok m S t" and m: "0 < m" and c: "cache_insert t v r = Inr (i, t')"
  shows "map_of (embeddings t') i = Some v" "map_of (responses t') i = Some r"
    "set (embeddings t') \<subseteq> insert (i, v) (set (embeddings t))"
proof -
  let ?i = "if tc_order t = [] then 1 else Max (set (dkeys (tc_order t))) + 1"
  let ?t = "t\<lparr>embeddings := AList.update ?i v (embeddings t), responses := AList.update ?i r (responses t)\<rparr>"
  have e: "evict_entries ?t (AList.update ?i () (tc_order t)) = Inr t'" and i: "i = ?i"
    using c by (auto simp: cache_insert_def Let_def)
  have "Max K + 1 \<notin> K" if "finite K" for K :: "int set" using Max_ge [OF that] by fastforce
  then have fresh: "?i \<notin> set (dkeys (tc_order t))" by (simp add: dkeys_def)
  then have new: "?i \<notin> fst ` set (tc_order t)" "?i \<notin> fst ` set (embeddings t)"
    using ok by (auto simp: table_ok_def dkeys_def)
  have u: "AList.update ?i () (tc_order t) = tc_order t @ [(?i, ())]"
    "AList.update ?i v (embeddings t) = embeddings t @ [(?i, v)]"
    using new by (simp_all add: update_appends)
  have "max_entries ?t = m" using ok by (simp add: table_ok_def)
  note k = evict_keeps_last [OF e [unfolded u(1)] _ new(1)]
  show "map_of (embeddings t') i = Some v" "map_of (responses t') i = Some r"
    using k(1,2) m ok i by (auto simp: table_ok_def)
  have "set (embeddings t') \<subseteq> set (AList.update ?i v (embeddings t))" using k(3) m ok by (simp add: table_ok_def)
  then show "set (embeddings t') \<subseteq> insert (i, v) (set (embeddings t))" unfolding u(2) i by simp
qed

lemma find_newest:
  assumes ok: "table_ok m S t" and new: "map_of (embeddings t) i = Some v" "map_of (responses t) i = Some r"
    and others: "\<forall>(j, w) \<in> set (embeddings t). (j, w) = (i, v) \<or> length w = length v \<and> dot w v < th" and th: "th \<le> dot v v"
  shows "\<exists>t'. find_similar t v th = Inr (Some (i, r, dot v v), t')"
proof -
  let ?E = "embeddings t" and ?sims = "map (\<lambda>x. dot (snd x) v) (embeddings t)"
  obtain k y where a: "argmax_from 1 (tl ?sims) (0, hd ?sims) = (k, y)" by force
  have iv: "(i, v) \<in> set ?E" by (rule map_of_SomeD [OF new(1)])
  then have ne: "?E \<noteq> []" by auto
  note am = argmax_list [OF _ a, simplified]
  have k: "k < length ?E" "y = dot (snd (?E ! k)) v" using am(1,2) ne by auto
  have "dot v v \<le> y" using am(3) ne iv by force
  then have "?E ! k = (i, v)" using others nth_mem [OF k(1)] k(2) th by fastforce
  moreover have "\<forall>x \<in> set ?E. length (snd x) = length v" using others by fastforce
  moreover have "map fst ?E ! k = i" using calculation(1) k(1) by simp
  ultimately show ?thesis using a k new(2) th ne
    by (cases ?E) (auto simp: find_similar_def Let_def simp del: nth_Cons')
qed

text \<open>
  After a lookup that missed, whatever lookups and stores of other tenants came in between, a
  stored response is what the next lookup of the prompt returns.
\<close>

lemma stored_is_found:
  assumes m: "0 < m" and v: "emb p = Some v" "th \<le> dot v v"
    and miss: "sc_lookup emb (sc_run emb th m ops) tid p = Inr (None, s1)"
    and rest: "\<And>q r. ScStore tid q r \<notin> set rest"
  shows "\<exists>s2 s3. sc_store emb (foldl (sc_step emb) s1 rest) tid p r = Inr (True, s2) \<and>
    sc_lookup emb s2 tid p = Inr (Some (r, dot v v), s3)"
proof -
  let ?ops = "ops @ ScLookup tid p # rest"
  let ?s = "foldl (sc_step emb) s1 rest" and ?S = "stored emb tid (?ops @ [ScStore tid p r])"
  have run: "?s = sc_run emb th m ?ops" using miss by (simp add: sc_run_def)
  have m0: "0 \<le> m" using m by simp
  have ok: "caches_ok emb th m (?ops @ [ScStore tid p r]) ?s" unfolding run by (rule caches_ok_snoc [OF sc_run_ok [OF m0]])
  have th0: "sc_threshold (sc_run emb th m ops) = th" using sc_run_ok [OF m0] by (simp add: caches_ok_def)
  have low: "\<forall>(i, w) \<in> set (entries_of ?s tid). length w = length v \<and> dot w v < th"
    using lookup_misses [OF miss v(1)] steps_entries [of tid rest emb s1] rest lookup_entries [OF miss] by (simp add: th0)
  obtain t s' where t: "tenant_cache ?s tid = (t, s')" by force
  note T = tenant_cache_ok [OF ok m0 t]
  have "(v, r) \<in> ?S" using v(1) by (auto simp: stored_def)
  from cache_insert_ok [OF T(1) m0 this] obtain i t' where c: "cache_insert t v r = Inr (i, t')" "table_ok m ?S t'" by blast
  note new = insert_keeps_new [OF T(1) m c(1)]
  have "\<forall>(j, w) \<in> set (embeddings t'). (j, w) = (i, v) \<or> length w = length v \<and> dot w v < th"
    using new(3) low entries_tenant_cache [OF t] by fastforce
  from find_newest [OF c(2) new(1,2) this v(2)] obtain t'' where f: "find_similar t' v th = Inr (Some (i, r, dot v v), t'')" by blast
  have "sc_threshold s' = th" using T(2) by (simp add: caches_ok_def)
  then show ?thesis using v t c f by (simp add: sc_store_def sc_lookup_def tenant_cache_def update_conv' Let_def)
qed

subsection \<open>Hits are genuine\<close>

text \<open>
  C31. A cache hit is genuine and stays with its tenant: after any history, a response returned
  for a tenant's prompt was stored earlier by the same tenant for a prompt whose embedding has the
  reported similarity to this one, which reaches the threshold; and no tenant's table ever holds
  more entries than allowed.
\<close>

theorem semantic_hit_sound:
  assumes "0 \<le> m" and "sc_lookup emb (sc_run emb th m ops) tid p = Inr (Some (resp, sim), s')"
  shows "(\<exists>p' u v. ScStore tid p' resp \<in> set ops \<and> emb p' = Some u \<and> emb p = Some v \<and> sim = dot u v \<and> th \<le> sim) \<and>
    (\<forall>tid' t. map_of (sc_tenants s') tid' = Some t \<longrightarrow> int (length (tc_order t)) \<le> m)"
proof -
  let ?s = "sc_run emb th m ops"
  have ok: "caches_ok emb th m ops ?s" by (rule sc_run_ok [OF assms(1)])
  obtain v where v: "emb p = Some v" using assms(2) by (auto simp: sc_lookup_def split: option.splits)
  obtain t s1 where 1: "tenant_cache ?s tid = (t, s1)" by force
  note T = tenant_cache_ok [OF ok assms(1) 1]
  have th: "sc_threshold s1 = th" using T(2) by (simp add: caches_ok_def)
  obtain i t' where f: "find_similar t v th = Inr (Some (i, resp, sim), t')"
    using assms(2) v 1 th by (auto simp: sc_lookup_def Let_def split: option.splits)
  from find_similar_result(2) [OF T(1) f refl] obtain u where u: "(u, resp) \<in> stored emb tid ops" "sim = dot u v" "th \<le> sim"
    by blast
  have "sc_step emb ?s (ScLookup tid p) = s'" using assms(2) by simp
  then have "caches_ok emb th m (ops @ [ScLookup tid p]) s'" using sc_step_ok [OF ok assms(1)] by metis
  then have "\<forall>tid' t. map_of (sc_tenants s') tid' = Some t \<longrightarrow> int (length (tc_order t)) \<le> m"
    by (auto simp: caches_ok_def table_ok_def)
  moreover have "\<exists>p'. ScStore tid p' resp \<in> set ops \<and> emb p' = Some u" using u(1) by (auto simp: stored_def)
  ultimately show ?thesis using u(2,3) v by blast
qed

definition demo_embed :: embedder where
  "demo_embed p = (if p = ''bad'' then None else Some [if p = ''hello'' then 1 else 99 / 100, 0])"

theorem semantic_hit_sound_witness:
  "\<exists>p' u v. ScStore ''t'' p' ''hi!'' \<in> set [ScStore ''t'' ''hello'' ''hi!''] \<and> demo_embed p' = Some u \<and>
     demo_embed ''hallo'' = Some v \<and> 99 / 100 = dot u v \<and> 97 / 100 \<le> (99 / 100 :: pyfloat)"
proof -
  let ?t = "\<lparr>max_entries = 8, embeddings = [(1, [1, 0])], responses = [(1, ''hi!'')], tc_order = [(1, ())]\<rparr>"
  let ?s = "\<lparr>sc_threshold = 97 / 100, sc_max = 8, sc_tenants = [(''t'', ?t)], sc_hits = 0, sc_misses = 0\<rparr>"
  have s: "sc_run demo_embed (97 / 100) 8 [ScStore ''t'' ''hello'' ''hi!''] = ?s"
    by (simp add: sc_run_def SemanticCache_init_def sc_store_def demo_embed_def tenant_cache_def TenantCache_init_def
        cache_insert_def Let_def)
  have "sc_lookup demo_embed ?s ''t'' ''hallo'' = Inr (Some (''hi!'', 99 / 100), ?s\<lparr>sc_hits := 1\<rparr>)"
    by (simp add: demo_embed_def tenant_cache_def sc_lookup_def find_similar_def dot_def move_to_end_def Let_def)
  from semantic_hit_sound [OF _ this [folded s]] show ?thesis by simp
qed

end
