(* ===== verification/Metrics.thy ===== *)
theory Metrics
  imports Json "HOL-Library.Multiset" "HOL-Library.List_Lexorder" "HOL-Library.Char_ord" "HOL-Library.Product_Lexorder"
begin

section \<open>The metrics collector\<close>

text \<open>
  \<^verbatim>\<open>gateway/metrics.py\<close>: counters, gauges and histograms by name and labels, and the Prometheus
  text rendering.  Labels are strings, as at every call of the gateway.  The digits of a floating
  point number, \<open>str(x)\<close> and \<open>f"{x:g}"\<close>, are parameters of the rendering.
\<close>

definition LATENCY_BUCKETS :: "xfloat list" where
  "LATENCY_BUCKETS = map Fin [5 / 10000, 1 / 1000, 25 / 10000, 5 / 1000, 1 / 100, 25 / 1000, 5 / 100, 1 / 10, 25 / 100]"

definition BLOCK_BUCKETS :: "xfloat list" where
  "BLOCK_BUCKETS = map Fin [0, 1, 2, 4, 8, 16, 32, 64, 128, 256, 512]"

type_synonym labels = "(string, string) dict"
type_synonym mkey = "string \<times> (string \<times> string) list"

definition fmt_labels :: "labels \<Rightarrow> labels \<Rightarrow> string" where
  "fmt_labels ls extra =
     (let items = ls @ extra in
      if items = [] then ''''
      else ''{'' @ py_join (CHR '','') (map (\<lambda>(k, v). k @ ''=\"'' @ v @ ''\"'') items) @ ''}'')"

fun le_str :: "(pyfloat \<Rightarrow> string) \<Rightarrow> xfloat \<Rightarrow> string" where
  "le_str fmt_g PInf = ''+Inf''"
| "le_str fmt_g (Fin x) = fmt_g x"

record histogram =
  h_buckets :: "xfloat list"
  h_counts :: "nat list"
  h_sum :: pyfloat
  h_count :: nat

record MetricsCollector =
  counters :: "(mkey, pyfloat) dict"
  gauges :: "(mkey, pyfloat) dict"
  hists :: "(mkey, histogram) dict"
  meta :: "(string, string \<times> string) dict"

definition MetricsCollector_init :: MetricsCollector where
  "MetricsCollector_init = \<lparr>counters = [], gauges = [], hists = [], meta = []\<rparr>"

definition metric_key :: "string \<Rightarrow> labels \<Rightarrow> mkey" where
  "metric_key name ls = (name, sort ls)"

definition inc_counter :: "MetricsCollector \<Rightarrow> string \<Rightarrow> pyfloat \<Rightarrow> string \<Rightarrow> labels \<Rightarrow> MetricsCollector" where
  "inc_counter c name v help ls =
     (let k = metric_key name ls in
      c\<lparr>meta := AList.update name (''counter'', help) (meta c),
        counters := AList.update k (dget (counters c) k 0 + v) (counters c)\<rparr>)"

definition set_gauge :: "MetricsCollector \<Rightarrow> string \<Rightarrow> pyfloat \<Rightarrow> string \<Rightarrow> labels \<Rightarrow> MetricsCollector" where
  "set_gauge c name v help ls =
     c\<lparr>meta := AList.update name (''gauge'', help) (meta c),
       gauges := AList.update (metric_key name ls) v (gauges c)\<rparr>"

definition new_hist :: "xfloat list option \<Rightarrow> histogram" where
  "new_hist bs =
     (let b = (case bs of None \<Rightarrow> LATENCY_BUCKETS | Some [] \<Rightarrow> LATENCY_BUCKETS | Some b \<Rightarrow> b) in
      \<lparr>h_buckets = b, h_counts = replicate (length b) 0, h_sum = 0, h_count = 0\<rparr>)"

definition hist_add :: "histogram \<Rightarrow> pyfloat \<Rightarrow> histogram" where
  "hist_add h v =
     h\<lparr>h_counts := map2 (\<lambda>ub n. if xle (Fin v) ub then n + 1 else n) (h_buckets h) (h_counts h),
       h_sum := h_sum h + v, h_count := h_count h + 1\<rparr>"

definition observe ::
  "MetricsCollector \<Rightarrow> string \<Rightarrow> pyfloat \<Rightarrow> xfloat list option \<Rightarrow> string \<Rightarrow> labels \<Rightarrow> MetricsCollector" where
  "observe c name v bs help ls =
     (let k = metric_key name ls;
          h = (case map_of (hists c) k of None \<Rightarrow> new_hist bs | Some h \<Rightarrow> h)
      in c\<lparr>meta := AList.update name (''histogram'', help) (meta c),
           hists := AList.update k (hist_add h v) (hists c)\<rparr>)"

text \<open>\<open>header\<close> appends the two comment lines of a metric the first time the metric is met.\<close>

definition header :: "MetricsCollector \<Rightarrow> string \<Rightarrow> string list \<times> string set \<Rightarrow> string list \<times> string set" where
  "header c name st =
     (let (lines, emitted) = st in
      if name \<in> emitted then (lines, emitted)
      else let (typ, hlp) = dget (meta c) name (''untyped'', '''') in
        (lines @ (if hlp \<noteq> '''' then [''# HELP '' @ name @ '' '' @ hlp] else []) @ [''# TYPE '' @ name @ '' '' @ typ],
         insert name emitted))"

fun sample_lines ::
  "(pyfloat \<Rightarrow> string) \<Rightarrow> MetricsCollector \<Rightarrow> (mkey \<times> pyfloat) list \<Rightarrow> string list \<times> string set \<Rightarrow> string list \<times> string set" where
  "sample_lines str c [] st = st"
| "sample_lines str c (((name, ls), v) # xs) st =
     (let (lines, emitted) = header c name st in
      sample_lines str c xs (lines @ [name @ fmt_labels ls [] @ '' '' @ str v], emitted))"

definition bucket_line :: "(pyfloat \<Rightarrow> string) \<Rightarrow> string \<Rightarrow> labels \<Rightarrow> xfloat \<Rightarrow> nat \<Rightarrow> string" where
  "bucket_line fmt_g name ls ub n =
     name @ ''_bucket'' @ fmt_labels ls [(''le'', le_str fmt_g ub)] @ '' '' @ show_nat n"

fun hist_lines ::
  "(pyfloat \<Rightarrow> string) \<Rightarrow> (pyfloat \<Rightarrow> string) \<Rightarrow> MetricsCollector \<Rightarrow> (mkey \<times> histogram) list \<Rightarrow>
     string list \<times> string set \<Rightarrow> string list \<times> string set" where
  "hist_lines str fmt_g c [] st = st"
| "hist_lines str fmt_g c (((name, ls), h) # xs) st =
     (let (lines, emitted) = header c name st in
      hist_lines str fmt_g c xs
        (lines @ map2 (bucket_line fmt_g name ls) (h_buckets h) (h_counts h) @
           [name @ ''_bucket'' @ fmt_labels ls [(''le'', ''+Inf'')] @ '' '' @ show_nat (h_count h),
            name @ ''_sum'' @ fmt_labels ls [] @ '' '' @ str (h_sum h),
            name @ ''_count'' @ fmt_labels ls [] @ '' '' @ show_nat (h_count h)],
         emitted))"

definition render_lines :: "(pyfloat \<Rightarrow> string) \<Rightarrow> (pyfloat \<Rightarrow> string) \<Rightarrow> MetricsCollector \<Rightarrow> string list" where
  "render_lines str fmt_g c =
     fst (hist_lines str fmt_g c (sort_key fst (hists c))
       (sample_lines str c (sort_key fst (gauges c)) (sample_lines str c (sort_key fst (counters c)) ([], {}))))"

definition render :: "(pyfloat \<Rightarrow> string) \<Rightarrow> (pyfloat \<Rightarrow> string) \<Rightarrow> MetricsCollector \<Rightarrow> string" where
  "render str fmt_g c = py_join (CHR 0x0A) (render_lines str fmt_g c) @ [CHR 0x0A]"

subsection \<open>What the collector holds\<close>

datatype metric_op =
    Inc string pyfloat string labels
  | SetG string pyfloat string labels
  | Obs string pyfloat "xfloat list option" string labels

fun metric_step :: "MetricsCollector \<Rightarrow> metric_op \<Rightarrow> MetricsCollector" where
  "metric_step c (Inc n v h ls) = inc_counter c n v h ls"
| "metric_step c (SetG n v h ls) = set_gauge c n v h ls"
| "metric_step c (Obs n v bs h ls) = observe c n v bs h ls"

definition metric_run :: "metric_op list \<Rightarrow> MetricsCollector" where
  "metric_run ops = foldl metric_step MetricsCollector_init ops"

text \<open>The increments, the settings and the observations a history makes under one key.\<close>

fun incs :: "mkey \<Rightarrow> metric_op \<Rightarrow> pyfloat list" where
  "incs k (Inc n v h ls) = (if metric_key n ls = k then [v] else [])"
| "incs k _ = []"

fun settings :: "mkey \<Rightarrow> metric_op \<Rightarrow> pyfloat list" where
  "settings k (SetG n v h ls) = (if metric_key n ls = k then [v] else [])"
| "settings k _ = []"

fun observations :: "mkey \<Rightarrow> metric_op \<Rightarrow> (pyfloat \<times> xfloat list option) list" where
  "observations k (Obs n v bs h ls) = (if metric_key n ls = k then [(v, bs)] else [])"
| "observations k _ = []"

text \<open>The histogram of a list of values: per bound, how many values are at most the bound.\<close>

definition hist_of :: "xfloat list \<Rightarrow> pyfloat list \<Rightarrow> histogram" where
  "hist_of b vs = \<lparr>h_buckets = b, h_counts = map (\<lambda>ub. length (filter (\<lambda>v. xle (Fin v) ub) vs)) b,
     h_sum = sum_list vs, h_count = length vs\<rparr>"

lemma map2_map_right: "map2 f xs (map g xs) = map (\<lambda>x. f x (g x)) xs"
  by (induction xs) auto

lemma hist_add_of: "hist_add (hist_of b vs) v = hist_of b (vs @ [v])"
  by (simp add: hist_add_def hist_of_def map2_map_right)

lemma new_hist_of: "new_hist bs = hist_of (h_buckets (new_hist bs)) []"
  by (simp add: new_hist_def hist_of_def Let_def map_replicate_const)

lemma metric_run_snoc: "metric_run (ops @ [x]) = metric_step (metric_run ops) x"
  by (simp add: metric_run_def)

lemmas metric_ops = inc_counter_def set_gauge_def observe_def Let_def

lemma counters_run: "dget (counters (metric_run ops)) k 0 = sum_list (concat (map (incs k) ops))"
proof (induction ops rule: rev_induct)
  case Nil
  show ?case by (simp add: metric_run_def MetricsCollector_init_def)
next
  case (snoc x ops)
  then show ?case by (cases x) (auto simp: metric_run_snoc metric_ops)
qed

lemma gauges_run:
  "map_of (gauges (metric_run ops)) k =
     (let vs = concat (map (settings k) ops) in if vs = [] then None else Some (last vs))"
proof (induction ops rule: rev_induct)
  case Nil
  show ?case by (simp add: metric_run_def MetricsCollector_init_def)
next
  case (snoc x ops)
  then show ?case by (cases x) (auto simp: metric_run_snoc metric_ops)
qed

lemma hists_run:
  "map_of (hists (metric_run ops)) k =
     (case concat (map (observations k) ops) of
        [] \<Rightarrow> None
      | (v, bs) # os \<Rightarrow> Some (hist_of (h_buckets (new_hist bs)) (v # map fst os)))"
proof (induction ops rule: rev_induct)
  case Nil
  show ?case by (simp add: metric_run_def MetricsCollector_init_def)
next
  case (snoc x ops)
  show ?case
  proof (cases x)
    case (Obs n v bs h ls)
    show ?thesis
    proof (cases "metric_key n ls = k")
      case True
      have first: "hist_add (new_hist bs) v = hist_of (h_buckets (new_hist bs)) [v]"
        using hist_add_of [of "h_buckets (new_hist bs)" "[]" v] by (simp flip: new_hist_of)
      show ?thesis
      proof (cases "concat (map (observations k) ops)")
        case Nil
        with True Obs snoc.IH show ?thesis by (simp add: metric_run_snoc metric_ops first del: concat_eq_Nil_conv)
      next
        case (Cons o1 os)
        with True Obs snoc.IH show ?thesis by (cases o1) (simp add: metric_run_snoc metric_ops hist_add_of)
      qed
    next
      case False
      with Obs snoc.IH show ?thesis by (simp add: metric_run_snoc metric_ops)
    qed
  qed (use snoc.IH in \<open>simp_all add: metric_run_snoc metric_ops\<close>)
qed

lemma metric_key_order_free:
  "mset ls = mset ls' \<Longrightarrow> metric_key n ls = metric_key n ls'"
  unfolding metric_key_def using properties_for_sort [of "sort ls'" ls] by simp

text \<open>
  What the collector holds after any sequence of calls, for every name and set of labels: the
  counter is the sum of its increments, the gauge the last value it was set to, and the histogram
  counts, for each bound of its first observation, the observations at most that bound, with their
  sum and their number.
\<close>

theorem metrics_history:
  "dget (counters (metric_run ops)) k 0 = sum_list (concat (map (incs k) ops)) \<and>
   map_of (gauges (metric_run ops)) k =
     (let vs = concat (map (settings k) ops) in if vs = [] then None else Some (last vs)) \<and>
   map_of (hists (metric_run ops)) k =
     (case concat (map (observations k) ops) of
        [] \<Rightarrow> None
      | (v, bs) # os \<Rightarrow> Some (hist_of (h_buckets (new_hist bs)) (v # map fst os)))"
  by (intro conjI counters_run gauges_run hists_run)

end
