(* ===== verification/Cluster_Bus.thy ===== *)
theory Cluster_Bus
  imports Events
begin

section \<open>Transports between the replicas\<close>

text \<open>
  \<^verbatim>\<open>gateway/cluster/config.py\<close>, \<^verbatim>\<open>gateway/cluster/bus.py\<close> and \<^verbatim>\<open>gateway/cluster/snapshot.py\<close>: the settings of
  a replica, the three transports of replication events (a broker in the process, Redis
  publish/subscribe, HTTP gossip) and the two stores of drained backends.

  The broker in the process is shared by the buses registered on it, so it is a value of its own,
  which every operation on such a bus takes and returns.  The Redis client and the HTTP client are
  parameters, the record \<open>net\<close> of functions on the state \<open>'n\<close> of the network; \<open>None\<close> is an
  exception.
\<close>

subsection \<open>Settings\<close>

record ClusterConfig =
  enabled :: bool
  replica_id :: string
  transport :: string
  redis_url :: string
  channel :: string
  peers :: string
  secret :: string
  sync_interval_ms :: int

definition ClusterConfig_fields :: fields where
  "ClusterConfig_fields =
     [(''enabled'', CBool False),
      (''replica_id'', CStr ''''),
      (''transport'', CStr ''memory''),
      (''redis_url'', CStr ''redis://localhost:6379/0''),
      (''channel'', CStr ''gw:prefix''),
      (''peers'', CStr ''''),
      (''secret'', CStr ''''),
      (''sync_interval_ms'', CInt 250)]"

definition ClusterConfig_of :: "fields \<Rightarrow> ClusterConfig" where
  "ClusterConfig_of d =
     \<lparr>enabled = bool_field d ''enabled'',
      replica_id = str_field d ''replica_id'',
      transport = str_field d ''transport'',
      redis_url = str_field d ''redis_url'',
      channel = str_field d ''channel'',
      peers = str_field d ''peers'',
      secret = str_field d ''secret'',
      sync_interval_ms = int_field d ''sync_interval_ms''\<rparr>"

definition default_replica_id :: "string \<Rightarrow> nat \<Rightarrow> string" where
  "default_replica_id hostname pid = hostname @ ''-'' @ show_nat pid"

text \<open>The host name and the process id come from the operating system.\<close>

definition ClusterConfig_from_env :: "string \<Rightarrow> nat \<Rightarrow> environ \<Rightarrow> ClusterConfig result" where
  "ClusterConfig_from_env hostname pid env =
     res_bind (load_config ''GW_CLUSTER_'' ClusterConfig_fields ClusterConfig_of env) (\<lambda>c.
       Inr (if replica_id c = [] then c\<lparr>replica_id := default_replica_id hostname pid\<rparr> else c))"


subsection \<open>The broker in the process\<close>

record InMemoryBroker =
  inboxes :: "(replica, event list) dict"

definition InMemoryBroker_init :: InMemoryBroker where
  "InMemoryBroker_init = \<lparr>inboxes = []\<rparr>"

definition broker_register :: "InMemoryBroker \<Rightarrow> replica \<Rightarrow> InMemoryBroker" where
  "broker_register k r =
     (if map_of (inboxes k) r = None then k\<lparr>inboxes := AList.update r [] (inboxes k)\<rparr> else k)"

definition broadcast :: "InMemoryBroker \<Rightarrow> event \<Rightarrow> InMemoryBroker" where
  "broadcast k ev =
     k\<lparr>inboxes := map (\<lambda>(r, box). (r, if r \<noteq> ev_origin ev then box @ [ev] else box)) (inboxes k)\<rparr>"

definition broker_drain :: "InMemoryBroker \<Rightarrow> replica \<Rightarrow> event list \<times> InMemoryBroker" where
  "broker_drain k r = (dget (inboxes k) r [], k\<lparr>inboxes := AList.update r [] (inboxes k)\<rparr>)"


subsection \<open>The network\<close>

text \<open>
  \<open>pub\<close> is the publication of a message on a channel, \<open>get_messages\<close> the data of the messages
  that \<open>get_message\<close> returns until it returns nothing, \<open>http_send\<close> the request that pushes a batch
  to a peer, \<open>sadd\<close>, \<open>srem\<close> and \<open>smembers\<close> the operations on a Redis set.
\<close>

record 'n net =
  pub :: "'n \<Rightarrow> string \<Rightarrow> string \<Rightarrow> 'n option"
  get_messages :: "'n \<Rightarrow> string \<Rightarrow> string option list \<times> 'n"
  http_send :: "'n \<Rightarrow> string \<Rightarrow> string list \<Rightarrow> string \<Rightarrow> 'n"
  sadd :: "'n \<Rightarrow> string \<Rightarrow> string \<Rightarrow> 'n option"
  srem :: "'n \<Rightarrow> string \<Rightarrow> string \<Rightarrow> 'n option"
  smembers :: "'n \<Rightarrow> string \<Rightarrow> string list option"


subsection \<open>Redis\<close>

record RedisBus =
  rb_channel :: string
  rb_replica :: replica
  rb_outbox :: "event list"

text \<open>The event that fails to be published has left the outbox and is lost; those behind it stay.\<close>

fun redis_flush :: "'n net \<Rightarrow> string \<Rightarrow> 'n \<Rightarrow> event list \<Rightarrow> 'n \<times> event list" where
  "redis_flush N ch n [] = (n, [])"
| "redis_flush N ch n (ev # evs) =
     (case to_json ev of
        Inl _ \<Rightarrow> (n, evs)
      | Inr raw \<Rightarrow> (case pub N n ch raw of None \<Rightarrow> (n, evs) | Some n' \<Rightarrow> redis_flush N ch n' evs))"

text \<open>
  Reading raw messages: those that do not decode are skipped.  A message that decodes to an event
  outside the model is reported as such.
\<close>

fun decode_all :: "string list \<Rightarrow> event list result" where
  "decode_all [] = Inr []"
| "decode_all (raw # raws) =
     (case decode_event raw of
        Inl err \<Rightarrow> if err = NotModelled then Inl NotModelled else decode_all raws
      | Inr ev \<Rightarrow> res_bind (decode_all raws) (\<lambda>evs. Inr (ev # evs)))"

definition redis_inbound :: "replica \<Rightarrow> string option list \<Rightarrow> event list result" where
  "redis_inbound r msgs =
     res_bind (decode_all (filter (\<lambda>raw. raw \<noteq> []) (map the (filter (\<lambda>m. m \<noteq> None) msgs)))) (\<lambda>evs.
       Inr (filter (\<lambda>ev. ev_origin ev \<noteq> r) evs))"

definition redis_poll :: "'n net \<Rightarrow> 'n \<Rightarrow> RedisBus \<Rightarrow> (event list \<times> 'n \<times> RedisBus) result" where
  "redis_poll N n b =
     (let (n1, out) = redis_flush N (rb_channel b) n (rb_outbox b);
          (msgs, n2) = get_messages N n1 (rb_channel b)
      in res_bind (redis_inbound (rb_replica b) msgs) (\<lambda>evs. Inr (evs, n2, b\<lparr>rb_outbox := out\<rparr>)))"


subsection \<open>Gossip\<close>

record HttpGossipBus =
  gb_peers :: "string list"
  gb_channel :: string
  gb_replica :: replica
  gb_secret :: string
  gb_outbox :: "event list"
  gb_inbox :: "event list"

definition rstrip_slash :: "string \<Rightarrow> string" where
  "rstrip_slash s = rev (dropWhile (\<lambda>c. c = CHR ''/'') (rev s))"

definition HttpGossipBus_init :: "string list \<Rightarrow> string \<Rightarrow> replica \<Rightarrow> string \<Rightarrow> HttpGossipBus" where
  "HttpGossipBus_init ps ch r sec =
     \<lparr>gb_peers = map rstrip_slash (filter (\<lambda>p. py_strip p \<noteq> []) ps), gb_channel = ch, gb_replica = r,
      gb_secret = sec, gb_outbox = [], gb_inbox = []\<rparr>"

definition ingest :: "HttpGossipBus \<Rightarrow> event list \<Rightarrow> HttpGossipBus" where
  "ingest b evs = b\<lparr>gb_inbox := gb_inbox b @ filter (\<lambda>ev. ev_origin ev \<noteq> gb_replica b) evs\<rparr>"

definition gossip_poll :: "'n net \<Rightarrow> 'n \<Rightarrow> HttpGossipBus \<Rightarrow> (event list \<times> 'n \<times> HttpGossipBus) result" where
  "gossip_poll N n b =
     res_bind
       (if gb_outbox b \<noteq> [] \<and> gb_peers b \<noteq> []
        then res_bind (res_map to_json (gb_outbox b)) (\<lambda>batch.
               Inr (foldl (\<lambda>n p. http_send N n p batch (gb_secret b)) n (gb_peers b)))
        else Inr n)
       (\<lambda>n'. Inr (gb_inbox b, n', b\<lparr>gb_outbox := [], gb_inbox := []\<rparr>))"


subsection \<open>A transport\<close>

datatype bus = MemBus replica | Redis RedisBus | Gossip HttpGossipBus

fun publish :: "InMemoryBroker \<Rightarrow> bus \<Rightarrow> event \<Rightarrow> InMemoryBroker \<times> bus" where
  "publish k (MemBus r) ev = (broadcast k ev, MemBus r)"
| "publish k (Redis b) ev = (k, Redis (b\<lparr>rb_outbox := rb_outbox b @ [ev]\<rparr>))"
| "publish k (Gossip b) ev = (k, Gossip (b\<lparr>gb_outbox := gb_outbox b @ [ev]\<rparr>))"

fun poll :: "'n net \<Rightarrow> 'n \<Rightarrow> InMemoryBroker \<Rightarrow> bus \<Rightarrow> (event list \<times> 'n \<times> InMemoryBroker \<times> bus) result" where
  "poll N n k (MemBus r) = (let (evs, k') = broker_drain k r in Inr (evs, n, k', MemBus r))"
| "poll N n k (Redis b) = res_bind (redis_poll N n b) (\<lambda>(evs, n', b'). Inr (evs, n', k, Redis b'))"
| "poll N n k (Gossip b) = res_bind (gossip_poll N n b) (\<lambda>(evs, n', b'). Inr (evs, n', k, Gossip b'))"

text \<open>\<open>make_bus\<close>; a bus in the process registers on the broker it is given.\<close>

definition make_bus :: "ClusterConfig \<Rightarrow> InMemoryBroker \<Rightarrow> InMemoryBroker \<times> bus" where
  "make_bus c k =
     (if transport c = ''redis''
      then (k, Redis \<lparr>rb_channel = channel c, rb_replica = replica_id c, rb_outbox = []\<rparr>)
      else if transport c = ''gossip''
      then (k, Gossip (HttpGossipBus_init (filter (\<lambda>p. p \<noteq> []) (map py_strip (py_split (CHR '','') (peers c))))
                  (channel c) (replica_id c) (secret c)))
      else (broker_register k (replica_id c), MemBus (replica_id c)))"


subsection \<open>The store of drained backends\<close>

datatype store = MemStore "(string, unit) dict" | RedisStore string

fun record_drain :: "'n net \<Rightarrow> 'n \<Rightarrow> store \<Rightarrow> string \<Rightarrow> bool \<Rightarrow> 'n \<times> store" where
  "record_drain N n (MemStore d) b draining = (n, MemStore (if draining then AList.update b () d else AList.delete b d))"
| "record_drain N n (RedisStore key) b draining =
     (case (if draining then sadd N n key b else srem N n key b) of
        None \<Rightarrow> (n, RedisStore key)
      | Some n' \<Rightarrow> (n', RedisStore key))"

fun stored_drains :: "'n net \<Rightarrow> 'n \<Rightarrow> store \<Rightarrow> string set" where
  "stored_drains N n (MemStore d) = set (dkeys d)"
| "stored_drains N n (RedisStore key) = (case smembers N n key of None \<Rightarrow> {} | Some xs \<Rightarrow> set xs)"

definition make_store :: "ClusterConfig \<Rightarrow> store" where
  "make_store c = (if transport c = ''redis'' then RedisStore (channel c @ '':drained'') else MemStore [])"

end
