(* ===== verification/Coordinator.thy ===== *)
theory Coordinator
  imports Cluster_Bus Lww_State Fleet Radix_Tree Backends
begin

section \<open>The cluster coordinator\<close>

text \<open>
  \<^verbatim>\<open>gateway/cluster/coordinator.py\<close>: what a replica tells its peers and how it applies what they
  tell it.  The radix tree, the backend registry and the view of the fleet's load are objects the
  coordinator shares with the rest of the gateway, and the broker and the network are shared with
  its peers; together they are the \<open>world\<close> that every operation takes and returns.  Where the code
  iterates over a set, the order is the parameter \<open>enum\<close>.
\<close>

record 'n world =
  w_net :: 'n
  w_broker :: InMemoryBroker
  w_tree :: RadixTree
  w_registry :: BackendRegistry
  w_fleet :: FleetLoadView

record ClusterCoordinator =
  co_bus :: bus
  co_replica :: replica
  co_has_registry :: bool
  co_store :: "store option"
  co_drain :: DrainState
  co_members :: MembershipState
  co_seq :: int
  published :: nat
  applied_remote :: nat

definition ClusterCoordinator_init :: "bus \<Rightarrow> replica \<Rightarrow> bool \<Rightarrow> store option \<Rightarrow> ClusterCoordinator" where
  "ClusterCoordinator_init b r reg st =
     \<lparr>co_bus = b, co_replica = r, co_has_registry = reg, co_store = st, co_drain = DrainState_init,
      co_members = MembershipState_init, co_seq = 0, published = 0, applied_remote = 0\<rparr>"

text \<open>What every \<open>publish_\<close> method does: number the event and hand it to the bus.\<close>

definition emit :: "ClusterCoordinator \<Rightarrow> 'n world \<Rightarrow> (int \<Rightarrow> event) \<Rightarrow> ClusterCoordinator \<times> 'n world" where
  "emit c w mk =
     (let s = co_seq c + 1; (k, b) = publish (w_broker w) (co_bus c) (mk s)
      in (c\<lparr>co_seq := s, co_bus := b, published := published c + 1\<rparr>, w\<lparr>w_broker := k\<rparr>))"

definition publish_insert :: "ClusterCoordinator \<Rightarrow> 'n world \<Rightarrow> block_hash list \<Rightarrow> string \<Rightarrow> ClusterCoordinator \<times> 'n world" where
  "publish_insert c w hs b =
     (if hs = [] then (c, w) else emit c w (\<lambda>s. PrefixEvent INSERT b (co_replica c) s hs))"

definition publish_remove :: "ClusterCoordinator \<Rightarrow> 'n world \<Rightarrow> string \<Rightarrow> ClusterCoordinator \<times> 'n world" where
  "publish_remove c w b = emit c w (\<lambda>s. PrefixEvent REMOVE_BACKEND b (co_replica c) s [])"

definition publish_load :: "ClusterCoordinator \<Rightarrow> 'n world \<Rightarrow> (string, int) dict \<Rightarrow> string list \<Rightarrow> ClusterCoordinator \<times> 'n world" where
  "publish_load c w inflight unhealthy =
     emit c w (\<lambda>s. LoadEvent (co_replica c) s (filter (\<lambda>(_, v). v \<noteq> 0) inflight) unhealthy)"

definition reconcile_drains :: "ClusterCoordinator \<Rightarrow> 'n world \<Rightarrow> 'n world" where
  "reconcile_drains c w =
     (if \<not> co_has_registry c then w
      else w\<lparr>w_registry :=
        foldl (\<lambda>r b. snd (set_draining r (backend_id b) (backend_id b \<in> drained (co_drain c))))
          (w_registry w) (all_backends (w_registry w))\<rparr>)"

definition publish_drain ::
  "'n net \<Rightarrow> ClusterCoordinator \<Rightarrow> 'n world \<Rightarrow> string \<Rightarrow> bool \<Rightarrow> ClusterCoordinator \<times> 'n world" where
  "publish_drain N c w b d =
     (let (ts, ds) = drain_set_local (co_drain c) b d (co_replica c);
          (c1, w1) = emit (c\<lparr>co_drain := ds\<rparr>) w (\<lambda>s. DrainEvent (co_replica c) s ts b d);
          (c2, w2) = (case co_store c1 of
                        None \<Rightarrow> (c1, w1)
                      | Some st \<Rightarrow> let (n, st') = record_drain N (w_net w1) st b d
                                   in (c1\<lparr>co_store := Some st'\<rparr>, w1\<lparr>w_net := n\<rparr>))
      in (c2, reconcile_drains c2 w2))"

definition publish_member_add ::
  "ClusterCoordinator \<Rightarrow> 'n world \<Rightarrow> string \<Rightarrow> string \<Rightarrow> string \<Rightarrow> ClusterCoordinator \<times> 'n world" where
  "publish_member_add c w b u m =
     (let (ts, ms) = member_set_local (co_members c) b (True, u, m) (co_replica c)
      in emit (c\<lparr>co_members := ms\<rparr>) w (\<lambda>s. MemberEvent (co_replica c) s MEMBER_ADD b u m ts))"

definition publish_member_remove :: "ClusterCoordinator \<Rightarrow> 'n world \<Rightarrow> string \<Rightarrow> ClusterCoordinator \<times> 'n world" where
  "publish_member_remove c w b =
     (let (ts, ms) = member_set_local (co_members c) b (False, [], []) (co_replica c)
      in emit (c\<lparr>co_members := ms\<rparr>) w (\<lambda>s. MemberEvent (co_replica c) s ''member_remove'' b [] [] ts))"

definition publish_membership_digest :: "ClusterCoordinator \<Rightarrow> 'n world \<Rightarrow> ClusterCoordinator \<times> 'n world" where
  "publish_membership_digest c w =
     (if member_len (co_members c) = 0 then (c, w)
      else emit c w (\<lambda>s. MembershipDigest (co_replica c) s (member_digest (co_members c))))"

definition publish_drain_digest :: "ClusterCoordinator \<Rightarrow> 'n world \<Rightarrow> ClusterCoordinator \<times> 'n world" where
  "publish_drain_digest c w =
     (if drain_len (co_drain c) = 0 then (c, w)
      else emit c w (\<lambda>s. DrainDigest (co_replica c) s (drain_digest (co_drain c))))"

definition add_member :: "BackendRegistry \<Rightarrow> string \<times> string \<times> string \<Rightarrow> BackendRegistry" where
  "add_member r x = (case x of (b, u, m) \<Rightarrow> snd (add_backend r b u (none_if_empty m)))"

definition drop_member :: "'n world \<Rightarrow> string \<Rightarrow> 'n world" where
  "drop_member w b =
     (let (found, r) = remove_from (w_registry w) b
      in w\<lparr>w_registry := r, w_tree := (if found then remove_backend (w_tree w) b else w_tree w)\<rparr>)"

definition reconcile_membership :: "(string set \<Rightarrow> string list) \<Rightarrow> ClusterCoordinator \<Rightarrow> 'n world \<Rightarrow> 'n world" where
  "reconcile_membership enum c w =
     (if \<not> co_has_registry c then w
      else foldl drop_member
             (w\<lparr>w_registry := foldl add_member (w_registry w) (member_present (co_members c))\<rparr>)
             (enum (member_removed (co_members c))))"

definition warm_start ::
  "'n net \<Rightarrow> (string set \<Rightarrow> string list) \<Rightarrow> ClusterCoordinator \<Rightarrow> 'n world \<Rightarrow> string set \<times> ClusterCoordinator \<times> 'n world" where
  "warm_start N enum c w =
     (case co_store c of
        None \<Rightarrow> ({}, c, w)
      | Some st \<Rightarrow>
          let ids = stored_drains N (w_net w) st;
              c' = c\<lparr>co_drain := foldl (\<lambda>d b. snd (drain_set_local d b True (co_replica c))) (co_drain c) (enum ids)\<rparr>
          in (ids, c', reconcile_drains c' w))"


subsection \<open>Applying what the peers sent\<close>

text \<open>One event of the loop of \<open>sync\<close>; the flags say whether the drains and the members changed.\<close>

fun apply_event ::
  "ClusterCoordinator \<times> 'n world \<times> bool \<times> bool \<Rightarrow> event \<Rightarrow> ClusterCoordinator \<times> 'n world \<times> bool \<times> bool" where
  "apply_event (c, w, dc, mc) ev =
     (let c' = c\<lparr>applied_remote := applied_remote c + 1\<rparr> in
      case ev of
        LoadEvent o' s l u \<Rightarrow> (c', w\<lparr>w_fleet := fleet_apply (w_fleet w) o' l u\<rparr>, dc, mc)
      | DrainEvent o' s t b d \<Rightarrow>
          let (ch, ds) = drain_apply (co_drain c) b (d, t, o') in (c'\<lparr>co_drain := ds\<rparr>, w, dc \<or> ch, mc)
      | DrainDigest o' s es \<Rightarrow>
          let (ch, ds) = drain_merge (co_drain c) es in (c'\<lparr>co_drain := ds\<rparr>, w, dc \<or> ch, mc)
      | MemberEvent o' s a b u m t \<Rightarrow>
          let (ch, ms) = member_apply (co_members c) b (a = MEMBER_ADD, u, m, t, o')
          in (c'\<lparr>co_members := ms\<rparr>, w, dc, mc \<or> ch)
      | MembershipDigest o' s es \<Rightarrow>
          let (ch, ms) = member_merge (co_members c) es in (c'\<lparr>co_members := ms\<rparr>, w, dc, mc \<or> ch)
      | PrefixEvent k b o' s hs \<Rightarrow>
          if k = INSERT then (c', w\<lparr>w_tree := radix_insert (w_tree w) hs b\<rparr>, dc, mc)
          else if k = REMOVE_BACKEND then (c', w\<lparr>w_tree := remove_backend (w_tree w) b\<rparr>, dc, mc)
          else (c', w, dc, mc))"

definition apply_events ::
  "(string set \<Rightarrow> string list) \<Rightarrow> ClusterCoordinator \<Rightarrow> 'n world \<Rightarrow> event list \<Rightarrow> ClusterCoordinator \<times> 'n world" where
  "apply_events enum c w evs =
     (let (c', w', dc, mc) = foldl apply_event (c, w, False, False) evs;
          w1 = (if dc then reconcile_drains c' w' else w');
          w2 = (if mc then reconcile_membership enum c' w1 else w1)
      in (c', w2))"

definition sync ::
  "'n net \<Rightarrow> (string set \<Rightarrow> string list) \<Rightarrow> ClusterCoordinator \<Rightarrow> 'n world \<Rightarrow> (nat \<times> ClusterCoordinator \<times> 'n world) result" where
  "sync N enum c w =
     res_bind (poll N (w_net w) (w_broker w) (co_bus c)) (\<lambda>(evs, n, k, b).
       let (c', w') = apply_events enum (c\<lparr>co_bus := b\<rparr>) (w\<lparr>w_net := n, w_broker := k\<rparr>) evs
       in Inr (length evs, c', w'))"

text \<open>Iterating over the \<open>events\<close> field of a request body; a falsy value counts as empty.\<close>

fun json_iter :: "json \<Rightarrow> json list result" where
  "json_iter (JArr vs) = Inr vs"
| "json_iter (JStr s) = Inr (map (\<lambda>ch. JStr [ch]) s)"
| "json_iter (JObj kvs) = Inr (map (\<lambda>(k, _). JStr k) kvs)"
| "json_iter v = (if json_truthy v then Inl TypeError else Inr [])"

text \<open>Only strings can be decoded; \<open>json.loads\<close> raises on the other values, which are skipped.\<close>

fun json_strings :: "json list \<Rightarrow> string list" where
  "json_strings [] = []"
| "json_strings (JStr s # vs) = s # json_strings vs"
| "json_strings (_ # vs) = json_strings vs"

definition receive_gossip :: "ClusterCoordinator \<Rightarrow> json \<Rightarrow> (nat \<times> ClusterCoordinator) result" where
  "receive_gossip c raws =
     (case co_bus c of
        Gossip b \<Rightarrow>
          res_bind (json_iter raws) (\<lambda>vs. res_bind (decode_all (json_strings vs)) (\<lambda>evs.
            Inr (length evs, c\<lparr>co_bus := Gossip (ingest b evs)\<rparr>)))
      | _ \<Rightarrow> Inr (0, c))"

subsection \<open>The draining flags follow the drain map\<close>

definition flags_ok :: "string set \<Rightarrow> BackendRegistry \<Rightarrow> bool" where
  "flags_ok D r \<longleftrightarrow> (\<forall>b be. map_of (by_id r) b = Some be \<longrightarrow> draining be = (b \<in> D))"

text \<open>What a replica keeps: a well-formed registry and drain map, the flags in agreement with the map.\<close>

definition replica_ok :: "ClusterCoordinator \<Rightarrow> 'n world \<Rightarrow> bool" where
  "replica_ok c w \<longleftrightarrow> co_has_registry c \<and> registry_ok (w_registry w) \<and> dict_ok (ds_map (co_drain c)) \<and>
     flags_ok (drained (co_drain c)) (w_registry w)"

lemma set_draining_lookup:
  "map_of (by_id (snd (set_draining r b d))) x =
     map_option (\<lambda>be. if x = b then be\<lparr>draining := d\<rparr> else be) (map_of (by_id r) x)"
  by (cases "map_of (by_id r) x") (auto simp: set_draining_def split: option.split)

lemma reconcile_lookup:
  "map_of (by_id (foldl (\<lambda>r b. snd (set_draining r (backend_id b) (backend_id b \<in> D))) r bs)) x =
     map_option (\<lambda>be. if x \<in> backend_id ` set bs then be\<lparr>draining := (x \<in> D)\<rparr> else be) (map_of (by_id r) x)"
  by (induction bs arbitrary: r)
     (auto simp: set_draining_lookup option.map_comp comp_def option.map_ident intro!: option.map_cong)

lemma reconcile_registry_ok:
  "registry_ok r \<Longrightarrow> registry_ok (foldl (\<lambda>r b. snd (set_draining r (backend_id b) (backend_id b \<in> D))) r bs)"
  by (induction bs arbitrary: r) (auto intro: registry_ok_set_draining)

lemma known_ids: "registry_ok r \<Longrightarrow> map_of (by_id r) x = Some be \<Longrightarrow> x \<in> backend_id ` set (all_backends r)"
  using registry_ok_get [of r x be] by (force simp: all_backends_def dest: map_of_SomeD)

lemma reconcile_flags:
  assumes "registry_ok (w_registry w)" "co_has_registry c"
  shows "flags_ok (drained (co_drain c)) (w_registry (reconcile_drains c w))"
    "registry_ok (w_registry (reconcile_drains c w))"
proof -
  show "registry_ok (w_registry (reconcile_drains c w))"
    using assms by (simp add: reconcile_drains_def reconcile_registry_ok)
  have "draining be = (b \<in> drained (co_drain c))"
    if "map_of (by_id (w_registry (reconcile_drains c w))) b = Some be" for b be
  proof -
    from that assms(2) obtain be' where "map_of (by_id (w_registry w)) b = Some be'"
      by (auto simp: reconcile_drains_def reconcile_lookup)
    with that assms(2) known_ids [OF assms(1) this] show ?thesis by (auto simp: reconcile_drains_def reconcile_lookup)
  qed
  then show "flags_ok (drained (co_drain c)) (w_registry (reconcile_drains c w))" unfolding flags_ok_def by blast
qed

text \<open>An operation that reports no change leaves the drained backends as they were.\<close>

lemma drain_apply_keeps:
  assumes "dict_ok (ds_map s)" "drain_apply s b e = (ch, s')"
  shows "dict_ok (ds_map s')" "\<not> ch \<Longrightarrow> drained s' = drained s"
proof -
  show ok: "dict_ok (ds_map s')" using drains.entries_ok [OF assms(1), of b e] assms(2) by simp
  assume "\<not> ch"
  then have "x \<in> drained s' \<longleftrightarrow> x \<in> drained s" for x
    unfolding drained_map [OF ok] drained_map [OF assms(1)]
    using assms(2) by (auto simp: drain_apply_def drain_observe_def Let_def split: option.splits if_splits prod.splits)
  then show "drained s' = drained s" by blast
qed

lemma drain_merge_keeps:
  "dict_ok (ds_map s) \<Longrightarrow> drain_merge s es = (ch, s') \<Longrightarrow> \<not> ch \<Longrightarrow> drained s' = drained s"
proof (induction es arbitrary: s ch)
  case (Cons p es)
  obtain b e where p: "p = (b, e)" by (cases p)
  obtain ch1 s1 where 1: "drain_apply s b e = (ch1, s1)" by force
  obtain ch2 where 2: "drain_merge s1 es = (ch2, s')" and "\<not> ch1" "\<not> ch2"
    using Cons.prems(2,3) p 1 by (auto split: prod.splits)
  then show ?case
    using Cons.IH [OF drain_apply_keeps(1) [OF Cons.prems(1) 1] 2] drain_apply_keeps(2) [OF Cons.prems(1) 1] by simp
qed simp

fun member_event :: "event \<Rightarrow> bool" where
  "member_event (MemberEvent o' s a b u m t) = True"
| "member_event (MembershipDigest o' s es) = True"
| "member_event _ = False"

lemma apply_event_keeps:
  assumes "apply_event (c, w, dc, mc) ev = (c', w', dc', mc')" "dict_ok (ds_map (co_drain c))"
  shows "w_registry w' = w_registry w \<and> co_has_registry c' = co_has_registry c \<and> dict_ok (ds_map (co_drain c')) \<and>
     (dc \<longrightarrow> dc') \<and> (\<not> dc' \<longrightarrow> drained (co_drain c') = drained (co_drain c)) \<and> (\<not> member_event ev \<longrightarrow> mc' = mc)"
proof (cases ev)
  case (DrainEvent o' s t b d)
  obtain ch ds where 1: "drain_apply (co_drain c) b (d, t, o') = (ch, ds)" by force
  with assms(1) DrainEvent have "c' = c\<lparr>applied_remote := applied_remote c + 1, co_drain := ds\<rparr>" "w' = w" "dc' = (dc \<or> ch)" "mc' = mc"
    by (auto simp: Let_def)
  then show ?thesis using drain_apply_keeps [OF assms(2) 1] by auto
next
  case (DrainDigest o' s es)
  obtain ch ds where 1: "drain_merge (co_drain c) es = (ch, ds)" by force
  with assms(1) DrainDigest have "c' = c\<lparr>applied_remote := applied_remote c + 1, co_drain := ds\<rparr>" "w' = w" "dc' = (dc \<or> ch)" "mc' = mc"
    by (auto simp: Let_def)
  then show ?thesis using drain_merge_keeps [OF assms(2) 1] drain_merge_ok [OF assms(2), of es] 1 by auto
qed (use assms in \<open>auto simp: Let_def split: if_splits prod.splits\<close>)

lemma apply_events_keep:
  assumes "foldl apply_event (c, w, dc, mc) evs = (c', w', dc', mc')" "dict_ok (ds_map (co_drain c))"
  shows "w_registry w' = w_registry w \<and> co_has_registry c' = co_has_registry c \<and> dict_ok (ds_map (co_drain c')) \<and>
     (dc \<longrightarrow> dc') \<and> (\<not> dc' \<longrightarrow> drained (co_drain c') = drained (co_drain c)) \<and> ((\<forall>ev \<in> set evs. \<not> member_event ev) \<longrightarrow> mc' = mc)"
  using assms
proof (induction evs arbitrary: c w dc mc)
  case (Cons ev evs)
  obtain c1 w1 dc1 mc1 where 1: "apply_event (c, w, dc, mc) ev = (c1, w1, dc1, mc1)" by (metis prod_cases4)
  note k = apply_event_keeps [OF 1 Cons.prems(2)]
  have "foldl apply_event (c1, w1, dc1, mc1) evs = (c', w', dc', mc')" using Cons.prems(1) 1 by simp
  from Cons.IH [OF this] k show ?case by auto
qed simp

lemma apply_events_flags:
  assumes ok: "replica_ok c w" and nm: "\<forall>ev \<in> set evs. \<not> member_event ev"
    and r: "apply_events enum c w evs = (c', w')"
  shows "replica_ok c' w'"
proof -
  obtain c1 w1 dc mc where f: "foldl apply_event (c, w, False, False) evs = (c1, w1, dc, mc)" by (metis prod_cases4)
  have ok': "co_has_registry c" "registry_ok (w_registry w)" "dict_ok (ds_map (co_drain c))"
    "flags_ok (drained (co_drain c)) (w_registry w)" using ok by (auto simp: replica_ok_def)
  note k = apply_events_keep [OF f ok'(3)]
  have mc: "\<not> mc" using k nm by simp
  then have c': "c' = c1" and w': "w' = (if dc then reconcile_drains c1 w1 else w1)"
    using r f by (auto simp: apply_events_def Let_def)
  show ?thesis
  proof (cases dc)
    case True
    with k c' w' ok' reconcile_flags [of w1 c1] show ?thesis by (simp add: replica_ok_def)
  next
    case False
    with k c' w' ok' show ?thesis by (simp add: replica_ok_def)
  qed
qed

lemma replica_ok_net [simp]: "replica_ok (c\<lparr>co_bus := b\<rparr>) (w\<lparr>w_net := n, w_broker := k\<rparr>) = replica_ok c w"
  by (simp add: replica_ok_def)

lemma replica_ok_candidates:
  "replica_ok c w \<Longrightarrow> set (ids_for (w_registry w) m) \<inter> drained (co_drain c) = {}"
  by (auto simp: replica_ok_def set_ids_for flags_ok_def routable_def)

text \<open>
  C15. Synchronising keeps every replica's routing in step with the drain map: whatever a poll
  brings, load reports, prefix changes, drain operations and digests in any order, afterwards the
  draining flag of every registered backend is the entry of the map, so no backend drained
  anywhere in the fleet is a candidate.  Membership events in the same poll are excluded (the next
  property shows why).
\<close>

theorem sync_follows_drains:
  assumes "replica_ok c w" and "poll N (w_net w) (w_broker w) (co_bus c) = Inr (evs, n, k, b)"
    and "\<forall>ev \<in> set evs. \<not> member_event ev"
  shows "\<exists>c' w'. sync N enum c w = Inr (length evs, c', w') \<and> replica_ok c' w' \<and>
    set (ids_for (w_registry w') m) \<inter> drained (co_drain c') = {}"
proof -
  obtain c' w' where r: "apply_events enum (c\<lparr>co_bus := b\<rparr>) (w\<lparr>w_net := n, w_broker := k\<rparr>) evs = (c', w')" by force
  have "replica_ok c' w'" by (rule apply_events_flags [OF _ assms(3) r]) (simp add: assms(1))
  then show ?thesis using assms(2) r replica_ok_candidates by (auto simp: sync_def)
qed

text \<open>A network on which nothing is reachable, and two fresh replicas on one broker.\<close>

definition demo_net :: "unit net" where
  "demo_net = \<lparr>pub = \<lambda>_ _ _. None, get_messages = \<lambda>n _. ([], n), http_send = \<lambda>n _ _ _. n,
     sadd = \<lambda>_ _ _. None, srem = \<lambda>_ _ _. None, smembers = \<lambda>_ _. None\<rparr>"

definition demo_replica :: "string \<Rightarrow> ClusterCoordinator" where
  "demo_replica r = ClusterCoordinator_init (MemBus r) r True None"

definition demo_world :: "event list \<Rightarrow> unit world" where
  "demo_world box =
     \<lparr>w_net = (), w_broker = \<lparr>inboxes = [(''A'', []), (''B'', box)]\<rparr>, w_tree = RadixTree_init 8,
      w_registry = \<lparr>by_id = [(''b0'', new_Backend ''b0'' ''u0'' ''m'')], default_model = ''m''\<rparr>,
      w_fleet = FleetLoadView_init\<rparr>"

lemma demo_replica_ok: "replica_ok (demo_replica ''B'') (demo_world box)"
  by (simp add: replica_ok_def demo_replica_def ClusterCoordinator_init_def demo_world_def registry_ok_def
      new_Backend_def DrainState_init_def flags_ok_def drained_def dict_ok_def)

theorem sync_follows_drains_witness:
  "\<exists>c' w'. sync demo_net sorted_list_of_set (demo_replica ''B'') (demo_world [DrainEvent ''A'' 1 1 ''b0'' True]) = Inr (1, c', w') \<and>
     set (ids_for (w_registry w') None) \<inter> drained (co_drain c') = {}"
proof -
  let ?w = "demo_world [DrainEvent ''A'' 1 1 ''b0'' True]" and ?c = "demo_replica ''B''"
  have "poll demo_net (w_net ?w) (w_broker ?w) (co_bus ?c) =
      Inr ([DrainEvent ''A'' 1 1 ''b0'' True], (), \<lparr>inboxes = [(''A'', []), (''B'', [])]\<rparr>, MemBus ''B'')"
    by (simp add: demo_replica_def ClusterCoordinator_init_def demo_world_def broker_drain_def dget_def)
  from sync_follows_drains [OF demo_replica_ok this, of sorted_list_of_set None] show ?thesis by auto
qed

text \<open>
  C16. Why membership events are excluded: \<open>sync\<close> reconciles the drains before the members, and
  each only when it changed.  Replica A adds a backend at run time and drains it before B's next
  poll.  After that poll B's drain map has the backend drained, yet B's registry holds it without
  the draining flag, so it is a candidate as soon as a health check passes; and A's drain digests,
  the anti-entropy meant for late replicas, change nothing in B's registry any more.
\<close>

theorem sync_loses_drain:
  "let (a1, w1) = publish_member_add (demo_replica ''A'') (demo_world []) ''b9'' ''u9'' [];
       (a2, w2) = publish_drain demo_net a1 w1 ''b9'' True
   in \<exists>c' w'. sync demo_net sorted_list_of_set (demo_replica ''B'') ((demo_world [])\<lparr>w_broker := w_broker w2\<rparr>) = Inr (2, c', w') \<and>
        ''b9'' \<in> drained (co_drain c') \<and> ''b9'' \<in> set (ids_for (set_health (w_registry w') ''b9'' True) None) \<and>
        w_registry (snd (apply_events sorted_list_of_set c' w' [DrainDigest ''A'' s (drain_digest (co_drain a2))])) = w_registry w'"
proof -
  let ?reg = "\<lparr>by_id = [(''b0'', new_Backend ''b0'' ''u0'' ''m''), (''b9'', new_Backend ''b9'' ''u9'' ''m''\<lparr>healthy := False\<rparr>)],
    default_model = ''m''\<rparr>"
  let ?evs = "[MemberEvent ''A'' 1 MEMBER_ADD ''b9'' ''u9'' [] 1, DrainEvent ''A'' 2 1 ''b9'' True]"
  let ?c = "(demo_replica ''B'')\<lparr>applied_remote := 2, co_members := \<lparr>ms_map = [(''b9'', True, ''u9'', [], 1, ''A'')], ms_clock = 1\<rparr>,
    co_drain := \<lparr>ds_map = [(''b9'', True, 1, ''A'')], ds_clock = 1\<rparr>\<rparr>"
  let ?w = "(demo_world [])\<lparr>w_registry := ?reg\<rparr>"
  obtain a1 w1 where 1: "publish_member_add (demo_replica ''A'') (demo_world []) ''b9'' ''u9'' [] = (a1, w1)" by force
  obtain a2 w2 where 2: "publish_drain demo_net a1 w1 ''b9'' True = (a2, w2)" by force
  have w2: "w_broker w2 = \<lparr>inboxes = [(''A'', []), (''B'', ?evs)]\<rparr>" and a2: "ds_map (co_drain a2) = [(''b9'', True, 1, ''A'')]"
    using 1 2 by (auto simp: publish_member_add_def publish_drain_def demo_replica_def ClusterCoordinator_init_def demo_world_def
        member_set_local_def member_tick_def drain_set_local_def drain_tick_def emit_def broadcast_def Let_def
        reconcile_drains_def DrainState_init_def MembershipState_init_def)
  have applied: "foldl apply_event (demo_replica ''B'', demo_world [], False, False) ?evs = (?c, demo_world [], True, True)"
    by (simp add: demo_replica_def ClusterCoordinator_init_def drain_apply_def drain_observe_def member_apply_def
        member_observe_def DrainState_init_def MembershipState_init_def MEMBER_ADD_def Let_def)
  have r1: "reconcile_drains ?c (demo_world []) = demo_world []"
    by (simp add: reconcile_drains_def demo_replica_def ClusterCoordinator_init_def demo_world_def all_backends_def
        new_Backend_def set_draining_def drained_def)
  have r2: "reconcile_membership sorted_list_of_set ?c (demo_world []) = ?w"
    by (simp add: reconcile_membership_def demo_replica_def ClusterCoordinator_init_def demo_world_def member_present_def
        member_removed_def add_member_def add_backend_def none_if_empty_def new_Backend_def Let_def)
  have "sync demo_net sorted_list_of_set (demo_replica ''B'') ((demo_world [])\<lparr>w_broker := w_broker w2\<rparr>) = Inr (2, ?c, ?w)"
    using applied r1 r2
    by (simp add: sync_def w2 broker_drain_def dget_def apply_events_def demo_replica_def ClusterCoordinator_init_def
        demo_world_def Let_def)
  moreover have "''b9'' \<in> drained (co_drain ?c)" by (simp add: drained_def)
  moreover have "''b9'' \<in> set (ids_for (set_health (w_registry ?w) ''b9'' True) None)"
    by (simp add: ids_for_def set_health_def all_backends_def new_Backend_def)
  moreover have "w_registry (snd (apply_events sorted_list_of_set ?c ?w [DrainDigest ''A'' s (drain_digest (co_drain a2))])) = w_registry ?w"
    by (simp add: apply_events_def a2 drain_apply_def drain_observe_def Let_def)
  ultimately show ?thesis using 1 2 by auto
qed

subsection \<open>From an operator on one replica to the routing of another\<close>

lemma broadcast_lookup:
  "map_of (inboxes (broadcast k ev)) r =
     map_option (\<lambda>box. if r \<noteq> ev_origin ev then box @ [ev] else box) (map_of (inboxes k) r)"
proof -
  have "map_of (map (\<lambda>(r, box). (r, if r \<noteq> ev_origin ev then box @ [ev] else box)) d) r =
      map_option (\<lambda>box. if r \<noteq> ev_origin ev then box @ [ev] else box) (map_of d r)" for d
    by (induction d) auto
  then show ?thesis by (simp add: broadcast_def)
qed

lemma publish_drain_result:
  assumes "publish_drain N a w b d = (a', w')"
  shows "co_drain a' = snd (drain_set_local (co_drain a) b d (co_replica a))"
    and "w_broker w' = fst (publish (w_broker w) (co_bus a)
      (DrainEvent (co_replica a) (co_seq a + 1) (ds_clock (co_drain a) + 1) b d))"
    and "co_has_registry a' = co_has_registry a"
    and "co_has_registry a \<Longrightarrow> registry_ok (w_registry w) \<Longrightarrow> registry_ok (w_registry w') \<and> flags_ok (drained (co_drain a')) (w_registry w')"
proof -
  obtain ds where ds: "drain_set_local (co_drain a) b d (co_replica a) = (ds_clock (co_drain a) + 1, ds)"
    by (simp add: drain_set_local_def drain_tick_def)
  obtain k bs where p: "publish (w_broker w) (co_bus a)
      (DrainEvent (co_replica a) (co_seq a + 1) (ds_clock (co_drain a) + 1) b d) = (k, bs)" by force
  obtain c2 w2 where e: "a' = c2" "w' = reconcile_drains c2 w2" "co_drain c2 = ds" "w_broker w2 = k"
    "co_has_registry c2 = co_has_registry a" "w_registry w2 = w_registry w"
    using assms ds p by (cases "co_store a") (auto simp: publish_drain_def emit_def Let_def split: prod.splits)
  show "co_drain a' = snd (drain_set_local (co_drain a) b d (co_replica a))" using e ds by simp
  show "w_broker w' = fst (publish (w_broker w) (co_bus a)
      (DrainEvent (co_replica a) (co_seq a + 1) (ds_clock (co_drain a) + 1) b d))"
    using e p by (simp add: reconcile_drains_def)
  show "co_has_registry a' = co_has_registry a" using e by simp
  assume "co_has_registry a" "registry_ok (w_registry w)"
  then show "registry_ok (w_registry w') \<and> flags_ok (drained (co_drain a')) (w_registry w')"
    using reconcile_flags [of w2 c2] e by simp
qed

lemma publish_drain_ok:
  assumes "replica_ok a w" "publish_drain N a w b d = (a', w')"
  shows "replica_ok a' w'" "b \<in> drained (co_drain a') \<longleftrightarrow> d"
proof -
  note r = publish_drain_result [OF assms(2)]
  have ok: "dict_ok (ds_map (co_drain a))" using assms(1) by (simp add: replica_ok_def)
  have m: "ds_map (co_drain a') = AList.update b (d, ds_clock (co_drain a) + 1, co_replica a) (ds_map (co_drain a))"
    by (simp add: r(1) drain_set_local_def drain_tick_def)
  then show "replica_ok a' w'" using r(3,4) assms(1) ok by (simp add: replica_ok_def)
  show "b \<in> drained (co_drain a') \<longleftrightarrow> d" using ok by (simp add: drained_map m)
qed

lemma drain_apply_newer:
  assumes "dict_ok (ds_map s)" "\<And>cd v. map_of (ds_map s) b = Some (cd, v) \<Longrightarrow> v < (ts, o')"
  shows "b \<in> drained (snd (drain_apply s b (d, ts, o'))) \<longleftrightarrow> d"
proof -
  obtain ch s' where a: "drain_apply s b (d, ts, o') = (ch, s')" by force
  have "map_of (ds_map s') b = Some (d, ts, o')"
    using assms(2) a by (force simp: drain_apply_def drain_observe_def Let_def split: option.splits if_splits prod.splits)
  then show ?thesis using a drained_map [OF drain_apply_keeps(1) [OF assms(1) a]] by simp
qed

text \<open>
  C14. A drain decided on one replica reaches another: when replica A drains or restores a backend
  and peer B, on the same broker with an empty inbox and no newer operation on the backend, polls
  next, then both drain maps have the decision, and on both the draining flag of the backend is
  the decision wherever the backend is registered.
\<close>

theorem drain_reaches_peer:
  assumes "replica_ok a wa" "replica_ok c wb" "co_bus a = MemBus (co_replica a)" "co_bus c = MemBus r"
    "r \<noteq> co_replica a" "map_of (inboxes (w_broker wa)) r = Some []"
    "\<And>d' v. map_of (ds_map (co_drain c)) b = Some (d', v) \<Longrightarrow> v < (ds_clock (co_drain a) + 1, co_replica a)"
    and pub: "publish_drain N a wa b d = (a', wa')"
  shows "\<exists>c' wb'. sync N enum c (wb\<lparr>w_broker := w_broker wa'\<rparr>) = Inr (1, c', wb') \<and>
     (b \<in> drained (co_drain a') \<longleftrightarrow> d) \<and> (b \<in> drained (co_drain c') \<longleftrightarrow> d) \<and>
     (\<forall>be. map_of (by_id (w_registry wa')) b = Some be \<longrightarrow> draining be = d) \<and>
     (\<forall>be. map_of (by_id (w_registry wb')) b = Some be \<longrightarrow> draining be = d)"
proof -
  let ?t = "ds_clock (co_drain a) + 1"
  let ?ev = "DrainEvent (co_replica a) (co_seq a + 1) ?t b d"
  have k: "map_of (inboxes (w_broker wa')) r = Some [?ev]"
    using assms(3,5,6) by (simp add: publish_drain_result(2) [OF pub] broadcast_lookup)
  have dok: "dict_ok (ds_map (co_drain c))" using assms(2) by (simp add: replica_ok_def)
  obtain k' where p: "poll N (w_net wb) (w_broker wa') (co_bus c) = Inr ([?ev], w_net wb, k', MemBus r)"
    using k assms(4) by (simp add: broker_drain_def dget_def)
  let ?c = "c\<lparr>co_bus := MemBus r\<rparr>" and ?w = "wb\<lparr>w_net := w_net wb, w_broker := k'\<rparr>"
  obtain c' wb' where r: "apply_events enum ?c ?w [?ev] = (c', wb')" by force
  have "replica_ok ?c ?w" using assms(2) by (simp add: replica_ok_def)
  then have ok': "replica_ok c' wb'" by (rule apply_events_flags [OF _ _ r]) simp
  have "co_drain c' = snd (drain_apply (co_drain c) b (d, ?t, co_replica a))"
    using r by (auto simp: apply_events_def Let_def split: prod.splits)
  then have bc: "b \<in> drained (co_drain c') \<longleftrightarrow> d" using drain_apply_newer [OF dok assms(7)] by simp
  note A = publish_drain_ok [OF assms(1) pub]
  have "sync N enum c (wb\<lparr>w_broker := w_broker wa'\<rparr>) = Inr (1, c', wb')" using p r by (simp add: sync_def)
  moreover have "\<forall>be. map_of (by_id (w_registry wa')) b = Some be \<longrightarrow> draining be = d"
    using A by (simp add: replica_ok_def flags_ok_def)
  moreover have "\<forall>be. map_of (by_id (w_registry wb')) b = Some be \<longrightarrow> draining be = d"
    using ok' bc by (simp add: replica_ok_def flags_ok_def)
  ultimately show ?thesis using A(2) bc by blast
qed

lemma demo_replica_ok_A: "replica_ok (demo_replica ''A'') (demo_world [])"
  by (simp add: replica_ok_def demo_replica_def ClusterCoordinator_init_def demo_world_def registry_ok_def
      new_Backend_def DrainState_init_def flags_ok_def drained_def dict_ok_def)

theorem drain_reaches_peer_witness:
  "\<exists>a' wa' c' wb'. publish_drain demo_net (demo_replica ''A'') (demo_world []) ''b0'' True = (a', wa') \<and>
     sync demo_net sorted_list_of_set (demo_replica ''B'') ((demo_world [])\<lparr>w_broker := w_broker wa'\<rparr>) = Inr (1, c', wb') \<and>
     ''b0'' \<in> drained (co_drain c')"
proof -
  obtain a' wa' where p: "publish_drain demo_net (demo_replica ''A'') (demo_world []) ''b0'' True = (a', wa')" by force
  have "\<exists>c' wb'. sync demo_net sorted_list_of_set (demo_replica ''B'') ((demo_world [])\<lparr>w_broker := w_broker wa'\<rparr>) = Inr (1, c', wb') \<and>
     (''b0'' \<in> drained (co_drain a') \<longleftrightarrow> True) \<and> (''b0'' \<in> drained (co_drain c') \<longleftrightarrow> True) \<and>
     (\<forall>be. map_of (by_id (w_registry wa')) ''b0'' = Some be \<longrightarrow> draining be = True) \<and>
     (\<forall>be. map_of (by_id (w_registry wb')) ''b0'' = Some be \<longrightarrow> draining be = True)"
    by (rule drain_reaches_peer [OF demo_replica_ok_A demo_replica_ok, where r = "''B''"])
       (use p in \<open>simp_all add: demo_replica_def ClusterCoordinator_init_def demo_world_def DrainState_init_def\<close>)
  then show ?thesis using p by auto
qed

subsection \<open>Gossip end to end\<close>

lemma decode_batch:
  "\<forall>ev \<in> set evs. wf_event ev \<Longrightarrow> \<exists>batch. res_map to_json evs = Inr batch \<and> decode_all batch = Inr evs"
proof (induction evs)
  case (Cons ev evs)
  then obtain batch where "res_map to_json evs = Inr batch" "decode_all batch = Inr evs" by auto
  with to_json_decode [of ev] Cons.prems show ?case by simp
qed simp

lemma json_strings_JStr [simp]: "json_strings (map JStr ss) = ss"
  by (induction ss) auto

text \<open>
  Gossip delivers what was published: polling serialises the outbox into one batch, pushes it
  to every peer and empties the outbox; a peer that receives the batch accepts all of it, and its
  next poll returns exactly the published events, in order, behind what was already waiting, less
  its own echoes.
\<close>

theorem gossip_delivers:
  assumes "\<forall>ev \<in> set (gb_outbox g). wf_event ev" "gb_outbox g \<noteq> []" "gb_peers g \<noteq> []"
    and "co_bus c = Gossip h"
  shows "\<exists>batch c' h'.
     gossip_poll N n g = Inr (gb_inbox g, foldl (\<lambda>n p. http_send N n p batch (gb_secret g)) n (gb_peers g),
       g\<lparr>gb_outbox := [], gb_inbox := []\<rparr>) \<and>
     receive_gossip c (JArr (map JStr batch)) = Inr (length (gb_outbox g), c') \<and> co_bus c' = Gossip h' \<and>
     gb_inbox h' = gb_inbox h @ filter (\<lambda>ev. ev_origin ev \<noteq> gb_replica h) (gb_outbox g)"
proof -
  from decode_batch [OF assms(1)] obtain batch where b: "res_map to_json (gb_outbox g) = Inr batch"
    "decode_all batch = Inr (gb_outbox g)" by blast
  have "gossip_poll N n g = Inr (gb_inbox g, foldl (\<lambda>n p. http_send N n p batch (gb_secret g)) n (gb_peers g),
      g\<lparr>gb_outbox := [], gb_inbox := []\<rparr>)"
    using assms(2,3) b(1) by (simp add: gossip_poll_def)
  moreover have "receive_gossip c (JArr (map JStr batch)) =
      Inr (length (gb_outbox g), c\<lparr>co_bus := Gossip (ingest h (gb_outbox g))\<rparr>)"
    using assms(4) b(2) by (simp add: receive_gossip_def)
  ultimately show ?thesis by (auto simp: ingest_def)
qed

theorem gossip_delivers_witness:
  "\<exists>batch c'. receive_gossip ((demo_replica ''B'')\<lparr>co_bus := Gossip (HttpGossipBus_init [] ''gw'' ''B'' [])\<rparr>) (JArr (map JStr batch)) =
     Inr (1, c')"
  using gossip_delivers [of "(HttpGossipBus_init [''http://b/''] ''gw'' ''A'' [])\<lparr>gb_outbox := [DrainEvent ''A'' 1 1 ''b0'' True]\<rparr>"
      "(demo_replica ''B'')\<lparr>co_bus := Gossip (HttpGossipBus_init [] ''gw'' ''B'' [])\<rparr>" "HttpGossipBus_init [] ''gw'' ''B'' []" demo_net "()"]
  by (auto simp: HttpGossipBus_init_def py_strip_def py_isspace_def)

end
