(* ===== verification/Gateway.thy ===== *)
theory Gateway
  imports Coordinator Router Speculative Fair_Sched Auth Session_Affinity Rag Multimodal Admission Autoscale
    Dag_Sched Disagg Semantic_Cache Metrics
begin

section \<open>The gateway process: state, start and control plane\<close>

text \<open>
  \<^verbatim>\<open>gateway/server.py\<close> without the chat endpoint: the module's state, its construction from the
  environment, the two background loops, and the metrics, autoscale, gossip, admin and DAG
  endpoints.  What the code keeps in module variables is the record \<open>gateway\<close>; what it never
  changes after start is the record \<open>settings\<close>.  Objects outside the repository (tokenizer, file
  system, embedding model, Redis and HTTP clients) and what is left open of Python itself (the
  order of a set, the digits of a float, the text of an exception, UTF-8 decoding) are the record \<open>ext\<close>.

  A handler maps the state before to its outcome and the state after; an exception keeps the
  changes made before it was raised.  The clocks are read once per span between two awaits.
  Logging and tracing are left out.
\<close>

subsection \<open>Outcomes\<close>

datatype response =
    JSONResponse int json "(string, string) dict"
  | PlainText string
  | StreamingResponse int string "(string, string) dict"

fun status_of :: "response \<Rightarrow> int" where
  "status_of (JSONResponse s b h) = s"
| "status_of (PlainText t) = 200"
| "status_of (StreamingResponse s b h) = s"

text \<open>Sequencing two spans of code that may raise.\<close>

definition st_bind :: "'a result \<times> 'g \<Rightarrow> ('a \<Rightarrow> 'g \<Rightarrow> 'b result \<times> 'g) \<Rightarrow> 'b result \<times> 'g" where
  "st_bind r f = (case r of (Inl err, g) \<Rightarrow> (Inl err, g) | (Inr x, g) \<Rightarrow> f x g)"

lemma st_bind_simps [simp]: "st_bind (Inl err, g) f = (Inl err, g)" "st_bind (Inr x, g) f = f x g"
  by (simp_all add: st_bind_def)

lemma st_bind_Inr: "st_bind r f = (Inr y, g') \<longleftrightarrow> (\<exists>x g. r = (Inr x, g) \<and> f x g = (Inr y, g'))"
  by (cases r; cases "fst r") (auto simp: st_bind_def)


subsection \<open>State\<close>

record 'n ext =
  x_tok :: "string \<Rightarrow> tokenizer option"
  x_files :: model_files
  x_embed :: "string \<Rightarrow> embedder option"
  x_net :: "'n net"
  x_redis :: bool
  x_enum :: "string set \<Rightarrow> string list"
  x_host :: string
  x_pid :: nat
  x_exc :: "py_error \<Rightarrow> string"
  x_decode :: "string \<Rightarrow> string"
  x_str :: "pyfloat \<Rightarrow> string"
  x_fmt_g :: "pyfloat \<Rightarrow> string"

record settings =
  s_cfg :: Config
  s_tenants :: TenantRegistry
  s_auth :: Authenticator
  s_embed :: embedder
  s_rag :: RagConfig
  s_adm :: AdmissionConfig
  s_disagg :: DisaggConfig
  s_pools :: "PoolRegistry option"
  s_mm :: MultiModalConfig
  s_caps :: "(string, string set) dict"
  s_dag :: DagSchedConfig
  s_auto :: AutoscaleConfig
  s_cluster :: ClusterConfig

record Observation =
  ob_ts :: pyfloat
  ob_backend :: string
  ob_prompt_tokens :: int
  ob_match :: nat
  ob_uncached :: int
  ob_inflight :: int
  ob_kv :: pyfloat
  ob_ttft_ms :: pyfloat
  ob_mode :: hash_mode

record 'n gateway =
  g_world :: "'n world"
  g_fleet_on :: bool
  g_load :: LoadTracker
  g_rr :: nat
  g_predictor :: "TTFTPredictor option"
  g_obs :: "Observation list option"
  g_tok :: tok_cache
  g_metrics :: MetricsCollector
  g_breaker :: CircuitBreaker
  g_limiter :: RateLimiter
  g_sessions :: SessionAffinity
  g_sched :: "AsyncFairScheduler option"
  g_sem :: "SemanticCache option"
  g_rag :: ChunkAffinityIndex
  g_mm :: MediaAffinityIndex
  g_cluster :: "ClusterCoordinator option"
  g_requests :: nat
  g_snapshot :: "pyfloat \<times> nat"
  g_decision :: "ScalingDecision option"
  g_last_up :: "pyfloat option"
  g_last_down :: "pyfloat option"

abbreviation g_registry :: "'n gateway \<Rightarrow> BackendRegistry" where
  "g_registry g \<equiv> w_registry (g_world g)"

abbreviation g_tree :: "'n gateway \<Rightarrow> RadixTree" where
  "g_tree g \<equiv> w_tree (g_world g)"

abbreviation set_registry :: "BackendRegistry \<Rightarrow> 'n gateway \<Rightarrow> 'n gateway" where
  "set_registry r g \<equiv> g\<lparr>g_world := (g_world g)\<lparr>w_registry := r\<rparr>\<rparr>"

abbreviation set_tree :: "RadixTree \<Rightarrow> 'n gateway \<Rightarrow> 'n gateway" where
  "set_tree t g \<equiv> g\<lparr>g_world := (g_world g)\<lparr>w_tree := t\<rparr>\<rparr>"

text \<open>The router's view: it holds the shared tree, load and fleet objects and a counter of its own.\<close>

definition router_of :: "settings \<Rightarrow> 'n gateway \<Rightarrow> Router" where
  "router_of S g =
     \<lparr>cfg = s_cfg S, tree = g_tree g, load = g_load g, rr = g_rr g, predictor = g_predictor g,
      fleet = (if g_fleet_on g then Some (w_fleet (g_world g)) else None)\<rparr>"

text \<open>The metric calls, with the label order of the call.\<close>

definition count :: "string \<Rightarrow> pyfloat \<Rightarrow> string \<Rightarrow> labels \<Rightarrow> 'n gateway \<Rightarrow> 'n gateway" where
  "count name v help ls g = g\<lparr>g_metrics := inc_counter (g_metrics g) name v help ls\<rparr>"

definition gauge :: "string \<Rightarrow> pyfloat \<Rightarrow> string \<Rightarrow> labels \<Rightarrow> 'n gateway \<Rightarrow> 'n gateway" where
  "gauge name v help ls g = g\<lparr>g_metrics := set_gauge (g_metrics g) name v help ls\<rparr>"

definition observed :: "string \<Rightarrow> pyfloat \<Rightarrow> xfloat list option \<Rightarrow> string \<Rightarrow> labels \<Rightarrow> 'n gateway \<Rightarrow> 'n gateway" where
  "observed name v bs help ls g = g\<lparr>g_metrics := observe (g_metrics g) name v bs help ls\<rparr>"

text \<open>A call of a cluster method, when the gateway has a cluster.\<close>

definition on_cluster ::
  "(ClusterCoordinator \<Rightarrow> 'n world \<Rightarrow> ClusterCoordinator \<times> 'n world) \<Rightarrow> 'n gateway \<Rightarrow> 'n gateway" where
  "on_cluster f g =
     (case g_cluster g of
        None \<Rightarrow> g
      | Some c \<Rightarrow> let (c', w) = f c (g_world g) in g\<lparr>g_cluster := Some c', g_world := w\<rparr>)"


subsection \<open>Start\<close>

text \<open>
  \<^verbatim>\<open>server.py\<close> at import: every object from the environment.  A failure to build the embedder
  or the transport leaves the feature off.
\<close>

definition start_sched :: "Config \<Rightarrow> AsyncFairScheduler option result" where
  "start_sched c =
     (if wfq_enabled c
      then res_bind (parse_weights (wfq_weights c)) (\<lambda>ws.
             Inr (Some (AsyncFairScheduler_init (wfq_max_concurrency c) ws (wfq_default_weight c) (wfq_cost c))))
      else Inr None)"

definition start_registry :: "Config \<Rightarrow> BackendRegistry" where
  "start_registry c =
     (let r = BackendRegistry_init (backends c) (Config.default_model c)
      in if backend_adapters c \<noteq> [] then apply_adapter_config r (backend_adapters c) else r)"

definition start_cluster :: "'n ext \<Rightarrow> ClusterConfig \<Rightarrow> 'n gateway \<Rightarrow> 'n gateway" where
  "start_cluster X cc g =
     (if \<not> ClusterConfig.enabled cc \<or> transport cc = ''redis'' \<and> \<not> x_redis X then g
      else let (k, b) = make_bus cc (w_broker (g_world g));
               c = ClusterCoordinator_init b (replica_id cc) True (Some (make_store cc));
               (_, c', w) = warm_start (x_net X) (x_enum X) c ((g_world g)\<lparr>w_broker := k\<rparr>)
           in g\<lparr>g_cluster := Some c', g_world := w, g_fleet_on := True\<rparr>)"

definition start_settings :: "'n ext \<Rightarrow> environ \<Rightarrow> settings result" where
  "start_settings X env =
     res_bind (Config_from_env env) (\<lambda>c.
     res_bind (TenantRegistry_init (tenants c) []) (\<lambda>tr.
     res_bind (RagConfig_from_env env) (\<lambda>rc.
     res_bind (AdmissionConfig_from_env env) (\<lambda>ac.
     res_bind (DisaggConfig_from_env env) (\<lambda>dc.
     res_bind (MultiModalConfig_from_env env) (\<lambda>mc.
     res_bind (DagSchedConfig_from_env env) (\<lambda>gc.
     res_bind (AutoscaleConfig_from_env env) (\<lambda>sc.
     res_bind (ClusterConfig_from_env (x_host X) (x_pid X) env) (\<lambda>cc.
       Inr \<lparr>s_cfg = c, s_tenants = tr,
            s_auth = Authenticator_init (dkeys (by_key tr) @ parse_api_keys (api_keys c)) (require_auth c)
                       (parse_api_keys (api_key_hashes c)),
            s_embed = (case x_embed X (semantic_cache_model c) of Some emb \<Rightarrow> emb | None \<Rightarrow> (\<lambda>_. None)),
            s_rag = rc, s_adm = ac, s_disagg = dc,
            s_pools = (if Disagg.pools dc \<noteq> []
                       then Some (from_spec (map backend_id (all_backends (start_registry c))) (Disagg.pools dc)) else None),
            s_mm = mc, s_caps = (if MultiModalConfig.enabled mc then parse_capabilities (capabilities mc) else []),
            s_dag = gc, s_auto = sc, s_cluster = cc\<rparr>)))))))))"

definition start :: "'n ext \<Rightarrow> environ \<Rightarrow> 'n \<Rightarrow> (settings \<times> 'n gateway) result" where
  "start X env n =
     res_bind (start_settings X env) (\<lambda>S.
     let c = s_cfg S in
     res_bind (start_sched c) (\<lambda>sch.
       let g = \<lparr>g_world = \<lparr>w_net = n, w_broker = InMemoryBroker_init, w_tree = RadixTree_init (Config.backend_cache_blocks c),
                            w_registry = start_registry c, w_fleet = FleetLoadView_init\<rparr>,
                g_fleet_on = False, g_load = LoadTracker_init, g_rr = 0,
                g_predictor = (if ttft_model_path c \<noteq> [] then Some (TTFTPredictor_init (x_files X) (Some (ttft_model_path c))) else None),
                g_obs = (if ttft_observations_path c \<noteq> [] then Some [] else None), g_tok = None,
                g_metrics = MetricsCollector_init,
                g_breaker = CircuitBreaker_init (circuit_fail_threshold c) (circuit_cooldown_s c),
                g_limiter = RateLimiter_init,
                g_sessions = SessionAffinity_init (session_affinity_capacity c) (session_affinity_ttl_s c),
                g_sched = sch,
                g_sem = (if semantic_cache_enabled c \<and> x_embed X (semantic_cache_model c) \<noteq> None
                         then Some (SemanticCache_init (semantic_cache_threshold c) (semantic_cache_max_entries_per_tenant c))
                         else None),
                g_rag = ChunkAffinityIndex_init (cache_capacity_chunks (s_rag S)),
                g_mm = MediaAffinityIndex_init (cache_capacity_media (s_mm S)),
                g_cluster = None, g_requests = 0, g_snapshot = (0, 0), g_decision = None,
                g_last_up = None, g_last_down = None\<rparr>
       in Inr (S, start_cluster X (s_cluster S) g)))"

subsection \<open>Helpers of the handlers\<close>

fun py_joins :: "string \<Rightarrow> string list \<Rightarrow> string" where
  "py_joins sep [] = []"
| "py_joins sep [s] = s"
| "py_joins sep (s # ss) = s @ sep @ py_joins sep ss"

text \<open>\<open>repr\<close> and \<open>str\<close> of a decoded value; \<open>str\<close> of a float is the parameter \<open>fl\<close>.\<close>

fun json_repr :: "(pyfloat \<Rightarrow> string) \<Rightarrow> json \<Rightarrow> string" where
  "json_repr fl JNull = ''None''"
| "json_repr fl (JBool b) = (if b then ''True'' else ''False'')"
| "json_repr fl (JInt i) = show_int i"
| "json_repr fl (JFloat x) = fl x"
| "json_repr fl (JStr s) = py_repr s"
| "json_repr fl (JArr vs) = ''['' @ py_joins '', '' (map (json_repr fl) vs) @ '']''"
| "json_repr fl (JObj kvs) =
     ''{'' @ py_joins '', '' (map (\<lambda>kv. py_repr (fst kv) @ '': '' @ json_repr fl (snd kv)) kvs) @ ''}''"

definition json_str :: "(pyfloat \<Rightarrow> string) \<Rightarrow> json \<Rightarrow> string" where
  "json_str fl v = (case v of JStr s \<Rightarrow> s | _ \<Rightarrow> json_repr fl v)"

fun py_iter :: "json \<Rightarrow> json list result" where
  "py_iter (JArr vs) = Inr vs"
| "py_iter (JStr s) = Inr (map (\<lambda>ch. JStr [ch]) s)"
| "py_iter (JObj kvs) = Inr (map (\<lambda>(k, _). JStr k) kvs)"
| "py_iter _ = Inl TypeError"

definition body_get :: "jobj \<Rightarrow> string \<Rightarrow> json \<Rightarrow> json" where
  "body_get d k v = (case map_of d k of None \<Rightarrow> v | Some w \<Rightarrow> w)"

fun message_line :: "(pyfloat \<Rightarrow> string) \<Rightarrow> json \<Rightarrow> string result" where
  "message_line fl (JObj m) =
     Inr (json_str fl (body_get m ''role'' (JStr [])) @ '': '' @ json_str fl (body_get m ''content'' (JStr [])))"
| "message_line fl _ = Inl AttributeError"

definition extract_prompt :: "(pyfloat \<Rightarrow> string) \<Rightarrow> json \<Rightarrow> string result" where
  "extract_prompt fl msgs =
     res_bind (py_iter msgs) (\<lambda>ms. res_bind (res_map (message_line fl) ms) (\<lambda>ls. Inr (py_join (CHR 0x0A) ls)))"

definition estimate_prompt_tokens :: "'n ext \<Rightarrow> settings \<Rightarrow> string \<Rightarrow> 'n gateway \<Rightarrow> nat \<times> 'n gateway" where
  "estimate_prompt_tokens X S prompt g =
     (let c = s_cfg S;
          ((n, _), tc) = count_tokens_with_fallback (x_tok X) (g_tok g) prompt (Config.chars_per_token c)
                           (tokenizer_model c) (token_accurate_accounting c)
      in (n, g\<lparr>g_tok := tc\<rparr>))"

definition ratelimit_headers :: "Tenant \<Rightarrow> Admission \<Rightarrow> (string, string) dict" where
  "ratelimit_headers t a =
     [(''X-RateLimit-Limit-Requests'', show_int (rat_trunc (rps t))),
      (''X-RateLimit-Limit-Tokens'', show_int (rat_trunc (tps t))),
      (''X-RateLimit-Remaining-Requests'', show_int (max 0 (rat_trunc (remaining_rps a)))),
      (''X-RateLimit-Remaining-Tokens'', show_int (max 0 (rat_trunc (remaining_tps a))))] @
     (case Tenancy.Admission.retry_after a of
        Fin r \<Rightarrow> if r \<noteq> 0 then [(''Retry-After'', show_int (max 1 \<lceil>r\<rceil>))] else []
      | PInf \<Rightarrow> [])"


subsection \<open>The background loops\<close>

text \<open>
  One probe of \<open>scrape_loop\<close>: the status code of \<^verbatim>\<open>/health\<close>, or \<open>None\<close> when the request raises.
\<close>

definition scrape_one :: "string \<times> int option \<times> pyfloat \<Rightarrow> 'n gateway \<Rightarrow> 'n gateway" where
  "scrape_one p g =
     (case p of (b, outcome, now) \<Rightarrow>
        case outcome of
          Some code \<Rightarrow>
            if code = 200
            then (set_registry (set_health (g_registry g) b True) g)\<lparr>g_breaker := record_success (g_breaker g) b\<rparr>
            else (set_registry (set_health (g_registry g) b False) g)\<lparr>g_breaker := record_failure (g_breaker g) b now\<rparr>
        | None \<Rightarrow>
            let g1 = (set_registry (set_health (g_registry g) b False) g)\<lparr>g_breaker := record_failure (g_breaker g) b now\<rparr>
            in on_cluster (\<lambda>c w. publish_remove c w b) (set_tree (remove_backend (g_tree g1) b) g1))"

definition autoscale_tick :: "settings \<Rightarrow> pyfloat \<Rightarrow> 'n gateway \<Rightarrow> unit result \<times> 'n gateway" where
  "autoscale_tick S now g =
     (if \<not> AutoscaleConfig.enabled (s_auto S) then (Inr (), g)
      else
        let (prev_t, prev_c) = g_snapshot g;
            elapsed = (if prev_t > 0 then now - prev_t else 0);
            offered = (if elapsed > 5 / 10 then (of_nat (g_requests g) - of_nat prev_c) / elapsed else 0);
            g1 = g\<lparr>g_snapshot := (now, g_requests g)\<rparr>;
            n = int (length (filter healthy (all_backends (g_registry g))));
            signal = \<lparr>offered_rps = offered, sig_replicas = max 1 n, now_s = now,
                      last_scale_up_s = g_last_up g, last_scale_down_s = g_last_down g\<rparr>
        in case plan signal (s_auto S) of
             Inl err \<Rightarrow> (Inl err, g1)
           | Inr d \<Rightarrow>
               let g2 = g1\<lparr>g_decision := Some d\<rparr>;
                   g3 = (if direction d = ''up'' then g2\<lparr>g_last_up := Some now\<rparr>
                         else if direction d = ''down'' then g2\<lparr>g_last_down := Some now\<rparr> else g2)
               in (Inr (),
                   count ''gateway_autoscale_decisions_total'' 1 ''Autoscaler decisions'' [(''direction'', direction d)]
                     (gauge ''gateway_autoscale_desired_replicas'' (of_int (desired_replicas d))
                       ''Autoscaler recommended replica count'' [] g3)))"

text \<open>One pass of \<open>scrape_loop\<close>, with the answers to its probes.\<close>

definition scrape_pass :: "settings \<Rightarrow> (string \<times> int option \<times> pyfloat) list \<Rightarrow> pyfloat \<Rightarrow> 'n gateway \<Rightarrow> unit result \<times> 'n gateway" where
  "scrape_pass S probes now g = autoscale_tick S now (foldl (\<lambda>g p. scrape_one p g) g probes)"

text \<open>One turn of \<open>cluster_sync_loop\<close>; an exception of the transport ends the turn.\<close>

definition cluster_tick :: "'n ext \<Rightarrow> nat \<Rightarrow> pyfloat \<Rightarrow> 'n gateway \<Rightarrow> 'n gateway" where
  "cluster_tick X tick now g =
     (let bad = map backend_id (filter (\<lambda>b. state_code (g_breaker g) (backend_id b) now = 2 \<or> \<not> healthy b)
                  (all_backends (g_registry g)));
          g1 = on_cluster (\<lambda>c w. publish_load c w (inflight (g_load g)) bad) g;
          g2 = (if tick mod 8 = 0 then on_cluster publish_membership_digest (on_cluster publish_drain_digest g1) else g1)
      in case g_cluster g2 of
           None \<Rightarrow> g2
         | Some c \<Rightarrow>
             (case sync (x_net X) (x_enum X) c (g_world g2) of
                Inl _ \<Rightarrow> g2
              | Inr (applied, c', w) \<Rightarrow>
                  let g3 = gauge ''gateway_cluster_peers'' (of_nat (fleet_peers (w_fleet w)))
                             ''Number of peer gateway replicas seen'' [] (g2\<lparr>g_cluster := Some c', g_world := w\<rparr>)
                  in if applied \<noteq> 0
                     then count ''gateway_cluster_events_applied_total'' (of_nat applied)
                            ''Remote mutations applied from peers'' [] g3
                     else g3))"

subsection \<open>Health, metrics and autoscale endpoints\<close>

text \<open>
  Reading a missing counter of a \<open>defaultdict\<close> creates a zero entry, which \<open>healthz\<close> would show;
  the model keeps only the entries that were written.
\<close>

definition healthz :: "'n gateway \<Rightarrow> json" where
  "healthz g =
     JObj [(''backends'', JObj (map (\<lambda>b. (backend_id b, JBool (healthy b))) (all_backends (g_registry g)))),
           (''inflight'', JObj (map (\<lambda>(b, n). (b, JInt n)) (inflight (g_load g))))]"

definition refresh_backend :: "pyfloat \<Rightarrow> 'n gateway \<Rightarrow> Backend \<Rightarrow> 'n gateway" where
  "refresh_backend now g b =
     (let ls = [(''backend'', backend_id b)] in
      gauge ''gateway_circuit_state'' (of_nat (state_code (g_breaker g) (backend_id b) now))
        ''Circuit state (0 closed, 1 half_open, 2 open)'' ls
      (gauge ''gateway_kv_usage'' (dget (kv_usage (g_load g)) (backend_id b) 0) ''Reconciled KV-cache usage (0..1)'' ls
      (gauge ''gateway_inflight'' (of_int (dget (inflight (g_load g)) (backend_id b) 0)) ''In-flight requests per backend'' ls
      (gauge ''gateway_backend_up'' (if healthy b then 1 else 0) ''1 if backend is healthy else 0'' ls g))))"

definition metrics_endpoint :: "'n ext \<Rightarrow> pyfloat \<Rightarrow> 'n gateway \<Rightarrow> response \<times> 'n gateway" where
  "metrics_endpoint X now g =
     (let g1 = foldl (refresh_backend now) g (all_backends (g_registry g));
          g2 = foldl (\<lambda>g (tid, n). gauge ''gateway_tenant_inflight'' (of_int n) ''In-flight requests per tenant''
                                     [(''tenant'', tid)] g) g1 (rl_inflight (g_limiter g1));
          g3 = (case g_sched g2 of
                  None \<Rightarrow> g2
                | Some s \<Rightarrow>
                    gauge ''gateway_wfq_queue_depth'' (of_nat (queue_depth s)) ''Requests waiting in the WFQ for a dispatch slot'' []
                    (gauge ''gateway_wfq_active'' (of_int (active s)) ''Requests holding a WFQ dispatch slot'' [] g2))
      in (PlainText (render (x_str X) (x_fmt_g X) (g_metrics g3)), g3))"

text \<open>\<open>JSONResponse\<close> serialises with \<open>allow_nan=False\<close>: an infinite number raises \<open>ValueError\<close>.\<close>

fun json_float :: "nat \<Rightarrow> xfloat \<Rightarrow> json result" where
  "json_float d (Fin x) = Inr (JFloat (py_round d x))"
| "json_float d PInf = Inl ValueError"

definition autoscale_endpoint :: "settings \<Rightarrow> 'n gateway \<Rightarrow> response result" where
  "autoscale_endpoint S g =
     (if \<not> AutoscaleConfig.enabled (s_auto S) then Inr (JSONResponse 200 (JObj [(''enabled'', JBool False)]) [])
      else case g_decision g of
        None \<Rightarrow> Inr (JSONResponse 200 (JObj [(''enabled'', JBool True), (''status'', JStr ''warming_up'')]) [])
      | Some d \<Rightarrow>
          res_bind (json_float 2 (est_wait_ms d)) (\<lambda>w.
            Inr (JSONResponse 200 (JObj [(''enabled'', JBool True), (''current_replicas'', JInt (current_replicas d)),
              (''desired_replicas'', JInt (desired_replicas d)), (''direction'', JStr (direction d)),
              (''reason'', JStr (sc_reason d)), (''est_wait_ms'', w),
              (''blocked_by_cooldown'', JBool (blocked_by_cooldown d))]) [])))"


subsection \<open>Gossip endpoint\<close>

definition error_json :: "string \<Rightarrow> json" where
  "error_json m = JObj [(''error'', JStr m)]"

definition header_or_empty :: "headers \<Rightarrow> string \<Rightarrow> string" where
  "header_or_empty hdr k = (case hdr k of None \<Rightarrow> [] | Some v \<Rightarrow> v)"

definition cluster_gossip :: "settings \<Rightarrow> headers \<Rightarrow> json \<Rightarrow> 'n gateway \<Rightarrow> response result \<times> 'n gateway" where
  "cluster_gossip S hdr body g =
     (case g_cluster g of
        None \<Rightarrow> (Inr (JSONResponse 404 (error_json ''cluster disabled'') []), g)
      | Some c \<Rightarrow>
          (case (if secret (s_cluster S) = [] then Inr True
                 else compare_digest (header_or_empty hdr ''x-cluster-secret'') (secret (s_cluster S))) of
             Inl err \<Rightarrow> (Inl err, g)
           | Inr ok \<Rightarrow>
               if \<not> ok then (Inr (JSONResponse 403 (error_json ''invalid cluster secret'') []), g)
               else case body of
                 JObj d \<Rightarrow>
                   (let evs = body_get d ''events'' JNull in
                    case receive_gossip c (if json_truthy evs then evs else JArr []) of
                      Inl err \<Rightarrow> (Inl err, g)
                    | Inr (n, c') \<Rightarrow>
                        (Inr (JSONResponse 200 (JObj [(''accepted'', JInt (int n))]) []), g\<lparr>g_cluster := Some c'\<rparr>))
               | _ \<Rightarrow> (Inl AttributeError, g)))"


subsection \<open>Admin endpoints\<close>

definition admin_authorized :: "Config \<Rightarrow> headers \<Rightarrow> bool result" where
  "admin_authorized c hdr =
     (if admin_token c = [] then Inr False
      else let p = header_or_empty hdr ''x-admin-token'';
               presented = (if p = [] then (case extract_bearer hdr of None \<Rightarrow> [] | Some k \<Rightarrow> k) else p)
           in if presented = [] then Inr False else compare_digest presented (admin_token c))"

definition admin_guard :: "Config \<Rightarrow> headers \<Rightarrow> response option result" where
  "admin_guard c hdr =
     res_bind (admin_authorized c hdr) (\<lambda>ok.
       if ok then Inr None
       else Inr (Some (JSONResponse 403 (JObj [(''error'', JObj
         [(''message'', JStr (if admin_token c = [] then ''admin disabled (set GW_ADMIN_TOKEN)'' else ''invalid or missing admin token'')),
          (''type'', JStr ''forbidden'')])]) [])))"

text \<open>Every admin handler starts with the guard.\<close>

definition guarded :: "settings \<Rightarrow> headers \<Rightarrow> ('n gateway \<Rightarrow> response result \<times> 'n gateway) \<Rightarrow> 'n gateway \<Rightarrow> response result \<times> 'n gateway" where
  "guarded S hdr f g =
     (case admin_guard (s_cfg S) hdr of
        Inl err \<Rightarrow> (Inl err, g)
      | Inr (Some r) \<Rightarrow> (Inr r, g)
      | Inr None \<Rightarrow> f g)"

fun circuit_name :: "cb_state \<Rightarrow> string" where
  "circuit_name CLOSED = ''closed''"
| "circuit_name HALF_OPEN = ''half_open''"
| "circuit_name OPEN = ''open''"

definition backend_view :: "pyfloat \<Rightarrow> 'n gateway \<Rightarrow> Backend \<Rightarrow> json" where
  "backend_view now g b =
     JObj [(''id'', JStr (backend_id b)), (''url'', JStr (url b)), (''healthy'', JBool (healthy b)),
           (''draining'', JBool (draining b)), (''inflight'', JInt (dget (inflight (g_load g)) (backend_id b) 0)),
           (''kv_usage'', JFloat (py_round 4 (dget (kv_usage (g_load g)) (backend_id b) 0))),
           (''circuit'', JStr (circuit_name (circuit_state (g_breaker g) (backend_id b) now))),
           (''held_blocks'', JInt (held_blocks (g_tree g) (backend_id b)))]"

definition ok_json :: "json \<Rightarrow> response" where
  "ok_json v = JSONResponse 200 v []"

definition admin_list_backends :: "settings \<Rightarrow> headers \<Rightarrow> pyfloat \<Rightarrow> 'n gateway \<Rightarrow> response result \<times> 'n gateway" where
  "admin_list_backends S hdr now =
     guarded S hdr (\<lambda>g. (Inr (ok_json (JObj [(''backends'', JArr (map (backend_view now g) (all_backends (g_registry g))))])), g))"

text \<open>Ids, URLs and models that are not strings are outside the model.\<close>

definition admin_add_backend :: "settings \<Rightarrow> headers \<Rightarrow> json \<Rightarrow> 'n gateway \<Rightarrow> response result \<times> 'n gateway" where
  "admin_add_backend S hdr body =
     guarded S hdr (\<lambda>g. case body of
        JObj d \<Rightarrow>
          (let bid = body_get d ''id'' JNull; u = body_get d ''url'' JNull in
           if \<not> json_truthy bid \<or> \<not> json_truthy u
           then (Inr (JSONResponse 400 (error_json ''id and url are required'') []), g)
           else case (bid, u, body_get d ''model'' JNull) of
             (JStr b, JStr us, mj) \<Rightarrow>
               (case (case mj of JNull \<Rightarrow> Some None | JStr m \<Rightarrow> Some (Some m) | _ \<Rightarrow> None) of
                  None \<Rightarrow> (Inl NotModelled, g)
                | Some m \<Rightarrow>
                    let (new, r) = add_backend (g_registry g) b us m;
                        g1 = on_cluster (\<lambda>c w. publish_member_add c w b us (case m of None \<Rightarrow> [] | Some s \<Rightarrow> s)) (set_registry r g)
                    in (Inr (ok_json (JObj [(''backend'', JStr b), (''url'', JStr us), (''created'', JBool new)])),
                        count ''gateway_admin_membership_total'' 1 ''Admin membership changes''
                          [(''backend'', b), (''action'', ''add'')] g1))
           | _ \<Rightarrow> (Inl NotModelled, g))
      | _ \<Rightarrow> (Inl AttributeError, g))"

definition unknown_backend :: "string \<Rightarrow> response" where
  "unknown_backend b = JSONResponse 404 (error_json (''unknown backend '' @ py_repr b)) []"

definition admin_remove_backend :: "settings \<Rightarrow> headers \<Rightarrow> string \<Rightarrow> 'n gateway \<Rightarrow> response result \<times> 'n gateway" where
  "admin_remove_backend S hdr b =
     guarded S hdr (\<lambda>g.
       let (found, r) = remove_from (g_registry g) b in
       if \<not> found then (Inr (unknown_backend b), set_registry r g)
       else
         let g1 = set_tree (remove_backend (g_tree g) b) (set_registry r g);
             l = g_load g1;
             g2 = g1\<lparr>g_load := l\<lparr>inflight := AList.delete b (inflight l), kv_usage := AList.delete b (kv_usage l)\<rparr>,
                     g_sessions := snd (forget_backend (g_sessions g1) b)\<rparr>
         in (Inr (ok_json (JObj [(''backend'', JStr b), (''removed'', JBool True)])),
             count ''gateway_admin_membership_total'' 1 ''Admin membership changes''
               [(''backend'', b), (''action'', ''remove'')] (on_cluster (\<lambda>c w. publish_member_remove c w b) g2)))"

definition admin_set_drain :: "'n ext \<Rightarrow> settings \<Rightarrow> headers \<Rightarrow> string \<Rightarrow> bool \<Rightarrow> 'n gateway \<Rightarrow> response result \<times> 'n gateway" where
  "admin_set_drain X S hdr b d =
     guarded S hdr (\<lambda>g.
       let (found, r) = set_draining (g_registry g) b d in
       if \<not> found then (Inr (unknown_backend b), g)
       else (Inr (ok_json (JObj [(''backend'', JStr b), (''draining'', JBool d)])),
             count ''gateway_admin_drain_total'' 1 ''Admin drain actions''
               [(''backend'', b), (''action'', if d then ''drain'' else ''undrain'')]
               (on_cluster (\<lambda>c w. publish_drain (x_net X) c w b d) (set_registry r g))))"

definition admin_drain :: "'n ext \<Rightarrow> settings \<Rightarrow> headers \<Rightarrow> string \<Rightarrow> 'n gateway \<Rightarrow> response result \<times> 'n gateway" where
  "admin_drain X S hdr b = admin_set_drain X S hdr b True"

definition admin_undrain :: "'n ext \<Rightarrow> settings \<Rightarrow> headers \<Rightarrow> string \<Rightarrow> 'n gateway \<Rightarrow> response result \<times> 'n gateway" where
  "admin_undrain X S hdr b = admin_set_drain X S hdr b False"

definition admin_state :: "settings \<Rightarrow> headers \<Rightarrow> pyfloat \<Rightarrow> 'n gateway \<Rightarrow> response result \<times> 'n gateway" where
  "admin_state S hdr now =
     guarded S hdr (\<lambda>g.
       (Inr (ok_json (JObj ([(''strategy'', JStr (Config.strategy (s_cfg S))),
          (''backends'', JArr (map (backend_view now g) (all_backends (g_registry g)))),
          (''routable'', JArr (map JStr (ids_for (g_registry g) (Some (Config.default_model (s_cfg S))))))] @
          (case g_cluster g of
             None \<Rightarrow> []
           | Some c \<Rightarrow> [(''cluster'', JObj [(''replica_id'', JStr (co_replica c)),
               (''peers'', JInt (int (fleet_peers (w_fleet (g_world g))))), (''published'', JInt (int (published c))),
               (''applied_remote'', JInt (int (applied_remote c)))])])))), g))"


subsection \<open>DAG endpoint\<close>

fun json_node :: "json \<Rightarrow> DagNode result" where
  "json_node (JObj d) =
     (case map_of d ''id'' of
        None \<Rightarrow> Inl KeyError
      | Some i \<Rightarrow>
          res_bind (as_str i) (\<lambda>nid. res_bind (as_str (body_get d ''prompt'' (JStr []))) (\<lambda>pr.
          res_bind (py_iter (body_get d ''parents'' (JArr []))) (\<lambda>ps. res_bind (res_map as_str ps) (\<lambda>parents.
            Inr \<lparr>dn_id = nid, dn_prompt = pr, dn_parents = parents\<rparr>)))))"
| "json_node _ = Inl TypeError"

definition dag_backends :: "BackendRegistry \<Rightarrow> string list" where
  "dag_backends r =
     (let up = map backend_id (filter healthy (all_backends r))
      in if up \<noteq> [] then up else map backend_id (all_backends r))"

definition schedule_json :: "Schedule \<Rightarrow> json" where
  "schedule_json s =
     JObj [(''strategy'', JStr (sched_strategy s)), (''est_makespan_ms'', JFloat (py_round 2 (est_makespan_ms s))),
           (''cache_hit_rate'', JFloat (py_round 4 (cache_hit_rate s))), (''cache_hit_blocks'', JInt (int (cache_hit_blocks s))),
           (''total_blocks'', JInt (int (total_blocks s))),
           (''placements'', JArr (map (\<lambda>p. JObj [(''node_id'', JStr (np_node p)), (''backend_id'', JStr (np_backend p)),
              (''layer'', JInt (int (np_layer p))), (''match_blocks'', JInt (int (np_match p))),
              (''total_blocks'', JInt (int (np_total p))), (''est_ms'', JFloat (py_round 2 (np_est p)))]) (placements s)))]"

fun dag_caught :: "py_error \<Rightarrow> bool" where
  "dag_caught (DagError m) = True"
| "dag_caught KeyError = True"
| "dag_caught TypeError = True"
| "dag_caught _ = False"

definition dag_schedule_endpoint :: "'n ext \<Rightarrow> settings \<Rightarrow> json \<Rightarrow> 'n gateway \<Rightarrow> response result \<times> 'n gateway" where
  "dag_schedule_endpoint X S body g =
     (if \<not> DagSchedConfig.enabled (s_dag S)
      then (Inr (JSONResponse 400 (error_json ''DAG scheduler is disabled (set GW_DAG_ENABLED=true)'') []), g)
      else case body of
        JObj d \<Rightarrow>
          (case as_str (body_get d ''strategy'' (JStr ''locality'')) of
             Inl err \<Rightarrow> (Inl err, g)
           | Inr strat \<Rightarrow>
               (case res_bind (py_iter (body_get d ''nodes'' (JArr []))) (\<lambda>vs. res_bind (res_map json_node vs) (\<lambda>ns.
                       res_bind (RequestDag_init ns) (\<lambda>dag.
                         dag_schedule dag (dag_backends (g_registry g)) (s_dag S) (Some (g_load g)) strat))) of
                  Inl err \<Rightarrow> if dag_caught err then (Inr (JSONResponse 400 (error_json (x_exc X err)) []), g) else (Inl err, g)
                | Inr None \<Rightarrow> (Inr (JSONResponse 503 (error_json ''no backends available'') []), g)
                | Inr (Some s) \<Rightarrow>
                    (Inr (JSONResponse 200 (schedule_json s) []),
                     count ''gateway_dag_schedules_total'' 1 ''DAG schedules computed'' [(''strategy'', strat)] g)))
      | _ \<Rightarrow> (Inl AttributeError, g))"

end
