(* ===== verification/Chat.thy ===== *)
theory Chat
  imports Gateway
begin

section \<open>The chat endpoint\<close>

text \<open>
  \<open>chat_completions\<close> of \<^verbatim>\<open>gateway/server.py\<close>.  The handler suspends at the fair scheduler, at every
  attempt to connect to a backend (or at the race), and while the answer streams; between two
  suspensions it runs alone.  Each such span is a definition here: \<open>chat_begin\<close> up to the
  scheduler, \<open>attempt\<close> and \<open>attempt_failed\<close> for the failover loop, \<open>race_begin\<close> and \<open>race_won\<close> for
  the speculative strategy, \<open>chat_connected\<close> up to the streaming response, \<open>chat_unreachable\<close> for
  the 502, and \<open>stream_finish\<close> for the \<open>finally\<close> block.  What the handler keeps in local variables
  is the record \<open>chat\<close>.
\<close>

record chat =
  c_model :: json
  c_prompt :: string
  c_strategy :: "string option"
  c_session :: "string option"
  c_body :: jobj
  c_chunks :: "block_hash list option"
  c_overlap :: nat
  c_rid :: string
  c_tenant :: Tenant
  c_input :: nat
  c_reserved :: int
  c_seed :: int
  c_remaining :: "string list"
  c_disagg :: "DisaggDecision option"
  c_mm :: "MultiModalRouteResult option"
  c_slot :: bool
  c_retries :: nat
  c_routed :: bool

text \<open>What the handler reads of a backend's response: its status and one of its headers.\<close>

record upstream =
  up_status :: int
  up_cache_hit :: "string option"

text \<open>How a span ends: with a response, or going on with the request.\<close>

datatype step = Reply response | Go chat

text \<open>\<open>strategy or cfg.strategy\<close>, and the request id: the header's or a generated one.\<close>

definition eff_strategy :: "settings \<Rightarrow> string option \<Rightarrow> string" where
  "eff_strategy S s =
     (case s of None \<Rightarrow> Config.strategy (s_cfg S) | Some v \<Rightarrow> if v = [] then Config.strategy (s_cfg S) else v)"

definition request_id :: "headers \<Rightarrow> string \<Rightarrow> string" where
  "request_id hdr uuid = (let h = header_or_empty hdr ''x-request-id'' in if h = [] then uuid else h)"


subsection \<open>Reading the request\<close>

text \<open>A structured RAG payload replaces the messages by the canonical ones.\<close>

definition rag_rewrite :: "(pyfloat \<Rightarrow> string) \<Rightarrow> settings \<Rightarrow> jobj \<Rightarrow> (jobj \<times> string \<times> block_hash list) option result" where
  "rag_rewrite fl S body =
     (if \<not> RagConfig.enabled (s_rag S) then Inr None
      else res_bind (parse_rag_request body (request_field (s_rag S))) (\<lambda>p.
        case p of
          None \<Rightarrow> Inr None
        | Some rag \<Rightarrow>
            let ordered = (if canonicalize (s_rag S) then canonicalize_chunks (rag_chunks rag) else rag_chunks rag);
                msgs = JArr (build_messages rag ordered)
            in res_bind (extract_prompt fl msgs) (\<lambda>prompt.
                 Inr (Some (AList.update ''messages'' msgs body, prompt, chunk_ids ordered)))))"

definition parse_request :: "(pyfloat \<Rightarrow> string) \<Rightarrow> settings \<Rightarrow> headers \<Rightarrow> json \<Rightarrow> chat result" where
  "parse_request fl S hdr body =
     (case body of
        JObj d \<Rightarrow>
          res_bind (extract_prompt fl (body_get d ''messages'' (JArr []))) (\<lambda>prompt.
          res_bind (if session_affinity_enabled (s_cfg S) then extract_session_id hdr (Some body) else Inr None) (\<lambda>sid.
          res_bind (rag_rewrite fl S d) (\<lambda>rw.
            let (d', prompt', chunks) =
                  (case rw of None \<Rightarrow> (d, prompt, None) | Some (d', p, cs) \<Rightarrow> (d', p, Some cs))
            in Inr \<lparr>c_model = body_get d ''model'' JNull, c_prompt = prompt', c_strategy = hdr ''x-routing-strategy'',
                    c_session = sid, c_body = d', c_chunks = chunks, c_overlap = 0, c_rid = [], c_tenant = anon (s_tenants S),
                    c_input = 0, c_reserved = 0, c_seed = 0, c_remaining = [], c_disagg = None, c_mm = None,
                    c_slot = False, c_retries = 0, c_routed = False\<rparr>)))
      | _ \<Rightarrow> Inl AttributeError)"


subsection \<open>Authentication and rate limit\<close>

definition unauthorized :: "string \<Rightarrow> response" where
  "unauthorized rid =
     JSONResponse 401 (JObj [(''error'', JObj [(''message'', JStr ''missing or invalid API key''),
       (''type'', JStr ''invalid_request_error''), (''code'', JStr ''unauthorized'')])])
       [(''WWW-Authenticate'', ''Bearer''), (''x-request-id'', rid)]"

definition authenticate :: "settings \<Rightarrow> headers \<Rightarrow> string \<Rightarrow> chat \<Rightarrow> 'n gateway \<Rightarrow> step result \<times> 'n gateway" where
  "authenticate S hdr uuid c g0 =
     (let g = g0\<lparr>g_requests := g_requests g0 + 1\<rparr> in
      case check (s_auth S) hdr of
        Inl err \<Rightarrow> (Inl err, g)
      | Inr (ok, why) \<Rightarrow>
          if \<not> ok
          then (Inr (Reply (unauthorized (request_id hdr uuid))),
                count ''gateway_auth_rejected_total'' 1 ''Requests rejected by API-key auth''
                  [(''reason'', case why of None \<Rightarrow> ''None'' | Some w \<Rightarrow> w)] g)
          else let t = Tenancy.resolve (s_tenants S) hdr
               in (Inr (Go (c\<lparr>c_tenant := t, c_rid := request_id hdr uuid\<rparr>)),
                   count ''gateway_tenant_requests_total'' 1 ''Requests per tenant'' [(''tenant'', tenant_id t)] g))"

text \<open>\<open>body.get("max_tokens") or cfg.default_output_tokens\<close>\<close>

definition requested_output :: "Config \<Rightarrow> jobj \<Rightarrow> int result" where
  "requested_output cf body =
     (let v = body_get body ''max_tokens'' JNull
      in if json_truthy v then json_int v else Inr (Config.default_output_tokens cf))"

definition throttled :: "Tenant \<Rightarrow> Admission \<Rightarrow> string \<Rightarrow> response" where
  "throttled t a rid =
     JSONResponse 429 (JObj [(''error'', JObj
       [(''message'', JStr (''rate limit exceeded ('' @ (case adm_reason a of None \<Rightarrow> ''None'' | Some w \<Rightarrow> w) @ '')'')),
        (''type'', JStr ''rate_limit_exceeded'')])]) (AList.update ''x-request-id'' rid (ratelimit_headers t a))"

definition rate_limit :: "'n ext \<Rightarrow> settings \<Rightarrow> pyfloat \<Rightarrow> chat \<Rightarrow> 'n gateway \<Rightarrow> step result \<times> 'n gateway" where
  "rate_limit X S now c g0 =
     (let (input, g) = estimate_prompt_tokens X S (c_prompt c) g0 in
      case requested_output (s_cfg S) (c_body c) of
        Inl err \<Rightarrow> (Inl err, g)
      | Inr out \<Rightarrow>
          let reserved = min out (max_output_tokens (s_cfg S));
              c' = c\<lparr>c_input := input, c_reserved := reserved\<rparr>
          in if \<not> rate_limit_enabled (s_cfg S) then (Inr (Go c'), g)
             else
               let (a, l) = admit (g_limiter g) (c_tenant c) (of_int (int input + reserved)) now;
                   g1 = g\<lparr>g_limiter := l\<rparr>
               in if allowed a then (Inr (Go c'), g1)
                  else (Inr (Reply (throttled (c_tenant c) a (c_rid c))),
                        count ''gateway_tenant_throttled_total'' 1 ''Rate-limited requests per tenant''
                          [(''tenant'', tenant_id (c_tenant c)), (''reason'', case adm_reason a of None \<Rightarrow> ''None'' | Some w \<Rightarrow> w)] g1))"

text \<open>The closure \<open>release\<close>.\<close>

definition release_quota :: "settings \<Rightarrow> chat \<Rightarrow> int \<Rightarrow> 'n gateway \<Rightarrow> 'n gateway" where
  "release_quota S c actual g =
     (if rate_limit_enabled (s_cfg S)
      then g\<lparr>g_limiter := rl_release (g_limiter g) (c_tenant c) (of_int (c_reserved c)) (of_int actual)\<rparr>
      else g)"


subsection \<open>Candidates\<close>

text \<open>The backends for a \<open>model\<close> field: any backend without one, none for a value that is no string.\<close>

definition model_ids :: "BackendRegistry \<Rightarrow> json \<Rightarrow> string list" where
  "model_ids r m = (case m of JNull \<Rightarrow> ids_for r None | JStr s \<Rightarrow> ids_for r (Some s) | _ \<Rightarrow> [])"

definition candidate_ids :: "settings \<Rightarrow> BackendRegistry \<Rightarrow> json \<Rightarrow> string list result" where
  "candidate_ids S r m =
     (if backend_adapters (s_cfg S) = [] then Inr (model_ids r m)
      else case (case m of JStr s \<Rightarrow> Some (Some s) | _ \<Rightarrow> if json_truthy m then None else Some None) of
        None \<Rightarrow> Inl NotModelled
      | Some spec \<Rightarrow>
          let (base, adapter) = parse_model_spec spec
          in Inr (lora_filter r base adapter (lora_fallback_to_base (s_cfg S))))"

definition no_backend :: "(pyfloat \<Rightarrow> string) \<Rightarrow> json \<Rightarrow> string \<Rightarrow> response" where
  "no_backend fl m rid = JSONResponse 503 (error_json (''no healthy backend for model '' @ json_repr fl m)) [(''x-request-id'', rid)]"

definition select_candidates :: "'n ext \<Rightarrow> settings \<Rightarrow> chat \<Rightarrow> 'n gateway \<Rightarrow> step result \<times> 'n gateway" where
  "select_candidates X S c g =
     (case candidate_ids S (g_registry g) (c_model c) of
        Inl err \<Rightarrow> (Inl err, g)
      | Inr ids \<Rightarrow>
          if ids = [] then
            (Inr (Reply (no_backend (x_str X) (c_model c) (c_rid c))),
             count ''gateway_errors_total'' 1 ''Gateway-side errors'' [(''code'', ''503'')] (release_quota S c 0 g))
          else
            let c' = c\<lparr>c_remaining := ids\<rparr>
            in (Inr (Go (if prefix_isolation (s_cfg S) = ''tenant''
                         then c'\<lparr>c_seed := uint (tenant_seed (tenant_id (c_tenant c))),
                                 c_body := AList.update ''cache_salt'' (JStr (tenant_id (c_tenant c))) (c_body c)\<rparr>
                         else c')), g))"


subsection \<open>Semantic cache, circuits, session\<close>

definition cached_reply :: "string \<Rightarrow> pyfloat \<Rightarrow> string \<Rightarrow> response" where
  "cached_reply text sim rid =
     StreamingResponse 200 text [(''x-gw-semantic-cache'', ''hit''), (''x-gw-semantic-sim'', fmt_fixed 4 sim), (''x-request-id'', rid)]"

definition semantic_stage :: "settings \<Rightarrow> chat \<Rightarrow> 'n gateway \<Rightarrow> step result \<times> 'n gateway" where
  "semantic_stage S c g =
     (case g_sem g of
        None \<Rightarrow> (Inr (Go c), g)
      | Some sc \<Rightarrow>
          (case sc_lookup (s_embed S) sc (tenant_id (c_tenant c)) (c_prompt c) of
             Inl err \<Rightarrow> (Inl err, g)
           | Inr (Some (text, sim), sc') \<Rightarrow>
               (Inr (Reply (cached_reply text sim (c_rid c))),
                count ''gateway_semantic_cache_hits_total'' 1 ''Semantic cache hits (paraphrase reuse)''
                  [(''tenant'', tenant_id (c_tenant c))] (release_quota S c 0 (g\<lparr>g_sem := Some sc'\<rparr>)))
           | Inr (None, sc') \<Rightarrow>
               (Inr (Go c), count ''gateway_semantic_cache_misses_total'' 1 ''Semantic cache misses''
                  [(''tenant'', tenant_id (c_tenant c))] (g\<lparr>g_sem := Some sc'\<rparr>))))"

definition closed_circuits :: "CircuitBreaker \<Rightarrow> pyfloat \<Rightarrow> string list \<Rightarrow> string list" where
  "closed_circuits cb now ids =
     (let ok = filter (\<lambda>b. allow cb b now) ids in if ok \<noteq> [] then ok else ids)"

definition pin_stage :: "pyfloat \<Rightarrow> chat \<Rightarrow> 'n gateway \<Rightarrow> chat \<times> 'n gateway" where
  "pin_stage now c g =
     (let remaining = closed_circuits (g_breaker g) now (c_remaining c) in
      case c_session c of
        None \<Rightarrow> (c\<lparr>c_remaining := remaining\<rparr>, g)
      | Some sid \<Rightarrow>
          let (pinned, ss) = pick_session (g_sessions g) (Some sid) remaining now
          in (c\<lparr>c_remaining := (case pinned of None \<Rightarrow> remaining | Some b \<Rightarrow> [b])\<rparr>, g\<lparr>g_sessions := ss\<rparr>))"

definition rag_stage :: "settings \<Rightarrow> chat \<Rightarrow> 'n gateway \<Rightarrow> chat \<times> 'n gateway" where
  "rag_stage S c g =
     (case c_chunks c of
        None \<Rightarrow> (c, g)
      | Some cs \<Rightarrow>
          if c_remaining c = [] then (c, g)
          else case choose_rag_backend cs (c_remaining c) (g_rag g) (g_load g) (s_rag S) of
            None \<Rightarrow> (c, g)
          | Some hit \<Rightarrow>
              (c\<lparr>c_remaining := [rr_backend hit], c_overlap := rr_overlap hit\<rparr>,
               count ''gateway_rag_requests_total'' 1 ''RAG requests routed by chunk affinity'' [(''backend'', rr_backend hit)] g))"

subsection \<open>Admission, disaggregation, media\<close>

text \<open>\<open>router.choose\<close> on the gateway's state: the counter and the tokenizer cache may change.\<close>

definition choose_backend :: "'n ext \<Rightarrow> settings \<Rightarrow> chat \<Rightarrow> 'n gateway \<Rightarrow> RouteResult result \<times> 'n gateway" where
  "choose_backend X S c g =
     (case router_choose (x_tok X) (g_tok g) (router_of S g) (c_prompt c) (c_remaining c) (c_strategy c) (c_seed c) of
        (Inl err, tc) \<Rightarrow> (Inl err, g\<lparr>g_tok := tc\<rparr>)
      | (Inr (r, ro), tc) \<Rightarrow> (Inr r, g\<lparr>g_tok := tc, g_rr := rr ro\<rparr>))"

definition uncached_tokens :: "settings \<Rightarrow> RouteResult \<Rightarrow> int" where
  "uncached_tokens S r = max 0 (res_tokens r - int (res_match r) * Config.block_tokens (s_cfg S))"

definition shed :: "AdmissionDecision \<Rightarrow> string \<Rightarrow> response" where
  "shed d rid =
     JSONResponse 503 (JObj [(''error'', JObj [(''message'', JStr (''admission '' @ action d @ '': '' @ reason d)),
         (''type'', JStr ''service_unavailable'')])])
       [(''x-request-id'', rid), (''Retry-After'', show_int (max 1 \<lceil>retry_after_ms d / 1000\<rceil>)),
        (''x-gw-admission'', action d), (''x-gw-admission-pressure'', fmt_fixed 3 (pressure d))]"

definition admission_stage :: "'n ext \<Rightarrow> settings \<Rightarrow> chat \<Rightarrow> 'n gateway \<Rightarrow> step result \<times> 'n gateway" where
  "admission_stage X S c g =
     (if \<not> AdmissionConfig.enabled (s_adm S) \<or> c_remaining c = [] then (Inr (Go c), g)
      else st_bind (choose_backend X S c g) (\<lambda>probe g.
        let l = g_load g;
            fl = \<lparr>backend_inflight = map (\<lambda>b. (b, dget (inflight l) b 0)) (c_remaining c),
                  backend_kv_usage = map (\<lambda>b. (b, dget (kv_usage l) b 0)) (c_remaining c), fs_queue_depth = 0\<rparr>;
            d = decide \<lparr>est_ttft_ms = Config.prefill_ms_per_token (s_cfg S) * of_int (uncached_tokens S probe),
                        req_tier = tier (c_tenant c), est_output_tokens = c_reserved c\<rparr> fl (s_adm S);
            g1 = count ''gateway_admission_total'' 1 ''Admission decisions'' [(''action'', action d), (''tier'', tier (c_tenant c))] g
        in if action d = ADMIT then (Inr (Go c), g1)
           else (Inr (Reply (shed d (c_rid c))), release_quota S c 0 g1)))"

definition disagg_stage :: "settings \<Rightarrow> chat \<Rightarrow> 'n gateway \<Rightarrow> step result \<times> 'n gateway" where
  "disagg_stage S c g =
     (case s_pools S of
        None \<Rightarrow> (Inr (Go c), g)
      | Some reg \<Rightarrow>
          if c_remaining c = [] then (Inr (Go c), g)
          else case res_bind (block_hashes (c_prompt c) (Config.block_chars (s_cfg S)) (Config.hash_cutoff_blocks (s_cfg S)) (c_seed c)) (\<lambda>hs.
                      let mt = radix_match (g_tree g) hs
                      in choose_disaggregated (int (c_input c)) reg (g_load g) (s_disagg S) (Some (c_reserved c))
                           (map (\<lambda>b. (b, int (match_get mt b))) (c_remaining c))) of
            Inl err \<Rightarrow> (Inl err, g)
          | Inr None \<Rightarrow> (Inr (Go c), g)
          | Inr (Some d) \<Rightarrow>
              (Inr (Go (c\<lparr>c_disagg := Some d, c_remaining := [prefill_backend d]\<rparr>)),
               count ''gateway_disagg_requests_total'' 1 ''Disaggregated routing decisions''
                 [(''disaggregated'', if disaggregated d then ''true'' else ''false''), (''prefill'', prefill_backend d),
                  (''decode'', decode_backend d)] g))"

definition unsupported_media :: "string \<Rightarrow> response" where
  "unsupported_media rid =
     JSONResponse 415 (JObj [(''error'', JObj [(''message'', JStr ''no backend supports the request's modalities''),
       (''type'', JStr ''unsupported_media_type'')])]) [(''x-request-id'', rid)]"

definition media_stage :: "settings \<Rightarrow> chat \<Rightarrow> 'n gateway \<Rightarrow> step result \<times> 'n gateway" where
  "media_stage S c g =
     (if \<not> MultiModalConfig.enabled (s_mm S) \<or> c_remaining c = [] then (Inr (Go c), g)
      else case parse_multimodal_request (c_body c) (s_mm S) of
        Inl err \<Rightarrow> (Inl err, g)
      | Inr None \<Rightarrow> (Inr (Go c), g)
      | Inr (Some req) \<Rightarrow>
          (case choose_multimodal_backend req (c_remaining c) (s_caps S) (g_mm g) (g_load g) (s_mm S) of
             Inl err \<Rightarrow> (Inl err, g)
           | Inr (Some m) \<Rightarrow>
               (Inr (Go (c\<lparr>c_mm := Some m, c_remaining := [mm_backend m]\<rparr>)),
                count ''gateway_multimodal_requests_total'' 1 ''Multi-modal requests routed by capability + affinity''
                  [(''backend'', mm_backend m)] g)
           | Inr None \<Rightarrow> (Inr (Reply (unsupported_media (c_rid c))), release_quota S c 0 g)))"


subsection \<open>Up to the scheduler\<close>

definition on_go :: "step result \<times> 'n gateway \<Rightarrow> (chat \<Rightarrow> 'n gateway \<Rightarrow> step result \<times> 'n gateway) \<Rightarrow> step result \<times> 'n gateway" where
  "on_go r f = st_bind r (\<lambda>s g. case s of Reply p \<Rightarrow> (Inr (Reply p), g) | Go c \<Rightarrow> f c g)"

text \<open>Everything after the rate limiter has admitted the request.\<close>

definition route_stages :: "'n ext \<Rightarrow> settings \<Rightarrow> pyfloat \<Rightarrow> chat \<Rightarrow> 'n gateway \<Rightarrow> step result \<times> 'n gateway" where
  "route_stages X S now c g =
     on_go (on_go (on_go (on_go (select_candidates X S c g) (semantic_stage S))
       (\<lambda>c g. let (c1, g1) = pin_stage now c g; (c2, g2) = rag_stage S c1 g1 in admission_stage X S c2 g2))
       (disagg_stage S)) (media_stage S)"

text \<open>Authentication, accounting and the rate limiter.\<close>

definition front_stages :: "'n ext \<Rightarrow> settings \<Rightarrow> headers \<Rightarrow> string \<Rightarrow> pyfloat \<Rightarrow> chat \<Rightarrow> 'n gateway \<Rightarrow> step result \<times> 'n gateway" where
  "front_stages X S hdr uuid now c g = on_go (authenticate S hdr uuid c g) (rate_limit X S now)"

definition chat_begin :: "'n ext \<Rightarrow> settings \<Rightarrow> headers \<Rightarrow> json \<Rightarrow> string \<Rightarrow> pyfloat \<Rightarrow> 'n gateway \<Rightarrow> step result \<times> 'n gateway" where
  "chat_begin X S hdr body uuid now g =
     (case parse_request (x_str X) S hdr body of
        Inl err \<Rightarrow> (Inl err, g)
      | Inr c \<Rightarrow> on_go (front_stages X S hdr uuid now c g) (route_stages X S now))"


subsection \<open>The fair scheduler\<close>

definition SLO_BUCKETS :: "xfloat list" where
  "SLO_BUCKETS = map Fin [5 / 1000, 1 / 100, 25 / 1000, 5 / 100, 1 / 10, 25 / 100, 5 / 10, 1, 25 / 10, 5, 10]"

definition slot_taken :: "pyfloat \<Rightarrow> chat \<Rightarrow> 'n gateway \<Rightarrow> chat \<times> 'n gateway" where
  "slot_taken waited c g =
     (c\<lparr>c_slot := True\<rparr>,
      observed ''gateway_wfq_wait_seconds'' waited (Some SLO_BUCKETS) ''Time queued in WFQ before dispatch (s) per tier''
        [(''tier'', tier (c_tenant c))] g)"

text \<open>\<open>Some f\<close>: the request is parked on future \<open>f\<close>.\<close>

definition enter_scheduler :: "pyfloat \<Rightarrow> chat \<Rightarrow> 'n gateway \<Rightarrow> nat option \<times> chat \<times> 'n gateway" where
  "enter_scheduler waited c g =
     (case g_sched g of
        None \<Rightarrow> (None, c, g)
      | Some s \<Rightarrow>
          (case acquire s (tier (c_tenant c)) of
             (None, s') \<Rightarrow> (None, slot_taken waited c (g\<lparr>g_sched := Some s'\<rparr>))
           | (Some f, s') \<Rightarrow> (Some f, c, g\<lparr>g_sched := Some s'\<rparr>)))"

text \<open>The parked request goes on with its grant.\<close>

definition wake :: "pyfloat \<Rightarrow> nat \<Rightarrow> chat \<Rightarrow> 'n gateway \<Rightarrow> chat \<times> 'n gateway" where
  "wake waited f c g = slot_taken waited c (g\<lparr>g_sched := map_option (\<lambda>s. resume_waiter s f) (g_sched g)\<rparr>)"

definition release_slot :: "chat \<Rightarrow> 'n gateway \<Rightarrow> 'n gateway" where
  "release_slot c g = (if c_slot c then g\<lparr>g_sched := map_option release (g_sched g)\<rparr> else g)"

subsection \<open>Dispatch\<close>

definition record_routing :: "pyfloat \<Rightarrow> 'n gateway \<Rightarrow> 'n gateway" where
  "record_routing s g =
     observed ''gateway_routing_seconds'' s None ''Time spent in the routing decision (gateway added latency)'' [] g"

text \<open>The decision enters the tree, the peers' trees and the load before the connection is opened.\<close>

definition commit :: "RouteResult \<Rightarrow> 'n gateway \<Rightarrow> 'n gateway" where
  "commit r g =
     (let g1 = set_tree (radix_insert (g_tree g) (res_hashes r) (res_backend r)) g;
          g2 = on_cluster (\<lambda>c w. publish_insert c w (res_hashes r) (res_backend r)) g1
      in g2\<lparr>g_load := on_dispatch (g_load g2) (res_backend r) (res_tokens r)\<rparr>)"

text \<open>Whether the failover loop makes another turn.\<close>

definition can_attempt :: "settings \<Rightarrow> chat \<Rightarrow> bool" where
  "can_attempt S c \<longleftrightarrow> c_remaining c \<noteq> [] \<and> int (c_retries c) < max_retries (s_cfg S) + 1"

text \<open>A turn of the loop up to the await of the connection: the decision and the URL to connect to.\<close>

definition attempt :: "'n ext \<Rightarrow> settings \<Rightarrow> pyfloat \<Rightarrow> chat \<Rightarrow> 'n gateway \<Rightarrow> (RouteResult \<times> string \<times> chat) result \<times> 'n gateway" where
  "attempt X S route_s c g =
     st_bind (choose_backend X S c g) (\<lambda>r g.
       let g1 = (if c_routed c then g else record_routing route_s g);
           g2 = commit r g1
       in case url_of (g_registry g2) (res_backend r) of
            Inl err \<Rightarrow> (Inl err, g2)
          | Inr u \<Rightarrow> (Inr (r, u @ ''/v1/chat/completions'', c\<lparr>c_routed := True\<rparr>), g2))"

text \<open>The connection raises: undo the load, blame the backend, leave it out.\<close>

definition attempt_failed :: "pyfloat \<Rightarrow> RouteResult \<Rightarrow> chat \<Rightarrow> 'n gateway \<Rightarrow> chat \<times> 'n gateway" where
  "attempt_failed now r c g =
     (let b = res_backend r;
          g1 = (set_registry (set_health (g_registry g) b False) g)
                 \<lparr>g_load := on_complete (g_load g) b (res_tokens r), g_breaker := record_failure (g_breaker g) b now\<rparr>
      in (c\<lparr>c_remaining := remove1 b (c_remaining c), c_retries := c_retries c + 1\<rparr>,
          count ''gateway_retries_total'' 1 ''Failover attempts after a backend connect failure'' [] g1))"

text \<open>
  The whole failover loop for one request: \<open>conn\<close> says what opening a connection to a URL gives,
  \<open>others\<close> what the rest of the process does to the state while the \<open>i\<close>-th connection is awaited,
  \<open>now\<close> and \<open>route_s\<close> are the clock readings.  The result is the request with the decision and the
  upstream response, if a backend answered.
\<close>

function failover ::
  "'n ext \<Rightarrow> settings \<Rightarrow> (string \<Rightarrow> upstream option) \<Rightarrow> (nat \<Rightarrow> 'n gateway \<Rightarrow> 'n gateway) \<Rightarrow> (nat \<Rightarrow> pyfloat) \<Rightarrow> pyfloat \<Rightarrow>
   chat \<Rightarrow> 'n gateway \<Rightarrow> (chat \<times> (RouteResult \<times> upstream) option) result \<times> 'n gateway"
where
  "failover X S conn others now route_s c g =
     (if \<not> can_attempt S c then (Inr (c, None), g)
      else case attempt X S route_s c g of
        (Inl err, g1) \<Rightarrow> (Inl err, g1)
      | (Inr (r, u, c1), g1) \<Rightarrow>
          let g2 = others (c_retries c) g1 in
          (case conn u of
             Some up \<Rightarrow> (Inr (c1, Some (r, up)), g2)
           | None \<Rightarrow>
               let (c2, g3) = attempt_failed (now (c_retries c)) r (c\<lparr>c_routed := True\<rparr>) g2
               in failover X S conn others now route_s c2 g3))"
  by pat_completeness auto
termination
  by (relation "measure (\<lambda>(X, S, conn, others, now, route_s, c, g). nat (max_retries (s_cfg S) + 1 - int (c_retries c)))")
    (auto simp: can_attempt_def attempt_failed_def Let_def)

declare failover.simps [simp del]

text \<open>The speculative strategy: the candidates of the race, and what its winner does to the state.\<close>

definition speculative :: "settings \<Rightarrow> chat \<Rightarrow> bool" where
  "speculative S c \<longleftrightarrow> eff_strategy S (c_strategy c) = ''speculative'' \<and> length (c_remaining c) > 1"

definition race_begin :: "'n ext \<Rightarrow> settings \<Rightarrow> pyfloat \<Rightarrow> chat \<Rightarrow> 'n gateway \<Rightarrow> (TopKResult \<times> (string \<times> string) list) result \<times> 'n gateway" where
  "race_begin X S route_s c g =
     (case top_k_backends (x_tok X) (g_tok g) (router_of S g) (c_prompt c) (c_remaining c) (speculative_k (s_cfg S)) (c_seed c) of
        (Inl err, tc) \<Rightarrow> (Inl err, g\<lparr>g_tok := tc\<rparr>)
      | (Inr tk, tc) \<Rightarrow>
          let g1 = record_routing route_s (g\<lparr>g_tok := tc\<rparr>)
          in (res_bind (res_map (\<lambda>b. res_bind (url_of (g_registry g1) b) (\<lambda>u. Inr (b, u))) (tk_backends tk)) (\<lambda>cands.
                Inr (tk, cands)), g1))"

definition race_won :: "TopKResult \<Rightarrow> nat \<Rightarrow> string \<Rightarrow> 'n gateway \<Rightarrow> RouteResult \<times> 'n gateway" where
  "race_won tk n w g =
     (let r = \<lparr>res_backend = w, res_hashes = tk_hashes tk, res_tokens = tk_tokens tk,
               res_match = dget (tk_match tk) w 0, res_mode = tk_mode tk\<rparr>
      in (r, count ''gateway_speculative_races_total'' 1 ''Speculative races dispatched'' [(''k'', show_nat n)] (commit r g)))"

definition unreachable :: "string \<Rightarrow> response" where
  "unreachable rid = JSONResponse 502 (error_json ''all candidate backends unreachable'') [(''x-request-id'', rid)]"

definition chat_unreachable :: "settings \<Rightarrow> chat \<Rightarrow> 'n gateway \<Rightarrow> response \<times> 'n gateway" where
  "chat_unreachable S c g =
     (unreachable (c_rid c),
      count ''gateway_errors_total'' 1 ''Gateway-side errors'' [(''code'', ''502'')] (release_slot c (release_quota S c 0 g)))"


subsection \<open>Streaming\<close>

text \<open>What the generator of the body closes over.\<close>

record stream =
  st_chat :: chat
  st_route :: RouteResult
  st_up :: upstream
  st_inflight :: int
  st_kv :: pyfloat

definition chat_headers :: "chat \<Rightarrow> RouteResult \<Rightarrow> upstream \<Rightarrow> (string, string) dict" where
  "chat_headers c r up =
     [(''x-gw-backend'', res_backend r), (''x-gw-match-blocks'', show_nat (res_match r)), (''x-request-id'', c_rid c)] @
     (case c_chunks c of
        None \<Rightarrow> []
      | Some cs \<Rightarrow> [(''x-gw-rag'', ''true''), (''x-gw-rag-overlap'', show_nat (c_overlap c)), (''x-gw-rag-chunks'', show_nat (length cs))]) @
     (case c_disagg c of
        None \<Rightarrow> []
      | Some d \<Rightarrow> [(''x-gw-disagg'', if disaggregated d then ''true'' else ''false''),
                     (''x-gw-disagg-prefill'', prefill_backend d), (''x-gw-disagg-decode'', decode_backend d)]) @
     (case c_mm c of
        None \<Rightarrow> []
      | Some m \<Rightarrow> [(''x-gw-multimodal'', ''true''), (''x-gw-multimodal-media'', show_nat (mm_total_media m)),
                     (''x-gw-multimodal-overlap'', show_nat (mm_overlap m))]) @
     (case up_cache_hit up of None \<Rightarrow> [] | Some v \<Rightarrow> [(''x-prefix-cache-hit'', v)])"

definition chat_connected :: "settings \<Rightarrow> chat \<Rightarrow> RouteResult \<Rightarrow> upstream \<Rightarrow> 'n gateway \<Rightarrow> (string, string) dict \<times> stream \<times> 'n gateway" where
  "chat_connected S c r up g =
     (let b = res_backend r;
          g1 = g\<lparr>g_breaker := record_success (g_breaker g) b\<rparr>;
          g2 = count ''gateway_requests_total'' 1 ''Total routed requests''
                 [(''strategy'', eff_strategy S (c_strategy c)), (''backend'', b)] g1;
          g3 = count ''gateway_tenant_tokens_total'' (of_nat (c_input c)) ''Input tokens accounted per tenant''
                 [(''tenant'', tenant_id (c_tenant c))] g2;
          g4 = observed ''gateway_prefix_match_blocks'' (of_nat (res_match r)) (Some BLOCK_BUCKETS)
                 ''Prefix blocks reused (cache affinity) per request'' [] g3;
          g5 = (case up_cache_hit up of
                  None \<Rightarrow> g4
                | Some v \<Rightarrow> count (if v = ''true'' then ''gateway_cache_hits_total'' else ''gateway_cache_misses_total'') 1
                              ''Backend prefix-cache outcomes'' [(''backend'', b)] g4)
      in (chat_headers c r up,
          \<lparr>st_chat = c, st_route = r, st_up = up, st_inflight = dget (inflight (g_load g)) b 0,
           st_kv = dget (kv_usage (g_load g)) b 0\<rparr>, g5))"

text \<open>\<open>chunk.count(b"data:")\<close>: occurrences that do not overlap.\<close>

fun count_data :: "string \<Rightarrow> nat" where
  "count_data s =
     (if s = [] then 0
      else if take 5 s = ''data:'' then Suc (count_data (drop 5 s)) else count_data (tl s))"

declare count_data.simps [simp del]

text \<open>The output tokens of a stream: its events but the final \<open>[DONE]\<close>.\<close>

definition actual_output :: "string list \<Rightarrow> int" where
  "actual_output chunks = max 0 (int (sum_list (map count_data chunks)) - 1)"

definition store_answer :: "'n ext \<Rightarrow> settings \<Rightarrow> stream \<Rightarrow> string list \<Rightarrow> 'n gateway \<Rightarrow> 'n gateway" where
  "store_answer X S st chunks g =
     (case g_sem g of
        None \<Rightarrow> g
      | Some sc \<Rightarrow>
          if up_status (st_up st) \<noteq> 200 then g
          else case sc_store (s_embed S) sc (tenant_id (c_tenant (st_chat st))) (c_prompt (st_chat st)) (x_decode X (concat chunks)) of
            Inl _ \<Rightarrow> g
          | Inr (_, sc') \<Rightarrow> g\<lparr>g_sem := Some sc'\<rparr>)"

definition log_observation :: "settings \<Rightarrow> pyfloat \<Rightarrow> pyfloat option \<Rightarrow> stream \<Rightarrow> 'n gateway \<Rightarrow> 'n gateway" where
  "log_observation S wall first st g =
     (case (g_obs g, first) of
        (Some obs, Some ms) \<Rightarrow>
          (let r = st_route st in
           g\<lparr>g_obs := Some (obs @ [\<lparr>ob_ts = wall, ob_backend = res_backend r, ob_prompt_tokens = res_tokens r, ob_match = res_match r,
               ob_uncached = uncached_tokens S r, ob_inflight = st_inflight st, ob_kv = st_kv st, ob_ttft_ms = ms,
               ob_mode = res_mode r\<rparr>])\<rparr>)
      | _ \<Rightarrow> g)"

text \<open>The affinity indexes learn only from a successful answer.\<close>

definition learn_chunks :: "stream \<Rightarrow> 'n gateway \<Rightarrow> unit result \<times> 'n gateway" where
  "learn_chunks st g =
     (case c_chunks (st_chat st) of
        None \<Rightarrow> (Inr (), g)
      | Some cs \<Rightarrow>
          if up_status (st_up st) \<noteq> 200 then (Inr (), g)
          else case chunk_record (g_rag g) (res_backend (st_route st)) cs of
            Inl err \<Rightarrow> (Inl err, g)
          | Inr x \<Rightarrow> (Inr (), g\<lparr>g_rag := x\<rparr>))"

definition learn_media :: "settings \<Rightarrow> stream \<Rightarrow> 'n gateway \<Rightarrow> unit result \<times> 'n gateway" where
  "learn_media S st g =
     (if c_mm (st_chat st) = None \<or> up_status (st_up st) \<noteq> 200 then (Inr (), g)
      else case parse_multimodal_request (c_body (st_chat st)) (s_mm S) of
        Inl err \<Rightarrow> (Inl err, g)
      | Inr None \<Rightarrow> (Inr (), g)
      | Inr (Some req) \<Rightarrow>
          (case media_record (g_mm g) (res_backend (st_route st)) (media_ids req) of
             Inl err \<Rightarrow> (Inl err, g)
           | Inr x \<Rightarrow> (Inr (), g\<lparr>g_mm := x\<rparr>)))"

definition learn_session :: "pyfloat \<Rightarrow> stream \<Rightarrow> 'n gateway \<Rightarrow> unit result \<times> 'n gateway" where
  "learn_session now st g =
     (if c_session (st_chat st) = None \<or> up_status (st_up st) \<noteq> 200 then (Inr (), g)
      else case remember (g_sessions g) (c_session (st_chat st)) (res_backend (st_route st)) now of
        Inl err \<Rightarrow> (Inl err, g)
      | Inr ss \<Rightarrow> (Inr (), g\<lparr>g_sessions := ss\<rparr>))"

definition slo_metrics :: "'n ext \<Rightarrow> settings \<Rightarrow> stream \<Rightarrow> pyfloat option \<Rightarrow> pyfloat \<Rightarrow> 'n gateway \<Rightarrow> 'n gateway" where
  "slo_metrics X S st first total_s g =
     (let ls = [(''model'', json_str (x_str X) (c_model (st_chat st)))];
          g1 = (case first of
                  None \<Rightarrow> g
                | Some ms \<Rightarrow>
                    let g' = observed ''gateway_ttft_seconds'' (ms / 1000) (Some SLO_BUCKETS) ''Time-to-first-token (s) per model'' ls g
                    in if slo_ttft_ms (s_cfg S) > 0 \<and> ms > slo_ttft_ms (s_cfg S)
                       then count ''gateway_slo_violations_total'' 1 ''Requests exceeding the TTFT SLO'' ls g' else g')
      in observed ''gateway_request_duration_seconds'' total_s (Some SLO_BUCKETS) ''Total request duration (s) per model'' ls g1)"

text \<open>
  The \<open>finally\<close> of the body generator, which runs when the stream ends and when it is broken off:
  \<open>chunks\<close> is what was passed on until then, \<open>first\<close> the time to the first of them.
\<close>

definition stream_finish ::
  "'n ext \<Rightarrow> settings \<Rightarrow> pyfloat \<Rightarrow> pyfloat \<Rightarrow> pyfloat option \<Rightarrow> pyfloat \<Rightarrow> string list \<Rightarrow> stream \<Rightarrow> 'n gateway \<Rightarrow> unit result \<times> 'n gateway"
where
  "stream_finish X S now wall first total_s chunks st g =
     (let r = st_route st;
          g1 = release_slot (st_chat st) (g\<lparr>g_load := on_complete (g_load g) (res_backend r) (res_tokens r)\<rparr>);
          g2 = store_answer X S st chunks (log_observation S wall first st g1);
          actual = actual_output chunks
      in st_bind (learn_chunks st g2) (\<lambda>_ g. st_bind (learn_media S st g) (\<lambda>_ g. st_bind (learn_session now st g) (\<lambda>_ g.
           (Inr (), slo_metrics X S st first total_s (release_quota S (st_chat st) actual g))))))"

end
