(* ===== verification/Chat_Runs.thy ===== *)
theory Chat_Runs
  imports Chat
begin

section \<open>Many requests at once\<close>

text \<open>
  The gateway as a transition system: any number of chat requests, each suspended in one of its
  spans, interleaved with the background loops and the control endpoints.  The invariants tie the
  three counters that requests take and give back (the tenant's in-flight quota, the backend's
  load and the scheduler's slots) to the requests that hold them.
\<close>

subsection \<open>What each span does to the counters\<close>

text \<open>The parts of the state that hold the counters.\<close>

definition kept :: "'n gateway \<Rightarrow> 'n gateway \<Rightarrow> bool" where
  "kept g g' \<longleftrightarrow> g_limiter g' = g_limiter g \<and> g_load g' = g_load g \<and> g_sched g' = g_sched g"

lemma kept_refl [simp]: "kept g g"
  by (simp add: kept_def)

lemma kept_trans: "kept g g1 \<Longrightarrow> kept g1 g2 \<Longrightarrow> kept g g2"
  by (simp add: kept_def)

lemma metric_sel [simp]:
  "g_limiter (count n v h ls g) = g_limiter g" "g_load (count n v h ls g) = g_load g" "g_sched (count n v h ls g) = g_sched g"
  "g_world (count n v h ls g) = g_world g" "g_sem (count n v h ls g) = g_sem g"
  "g_limiter (gauge n v h ls g) = g_limiter g" "g_load (gauge n v h ls g) = g_load g" "g_sched (gauge n v h ls g) = g_sched g"
  "g_world (gauge n v h ls g) = g_world g"
  "g_limiter (observed n v bs h ls g) = g_limiter g" "g_load (observed n v bs h ls g) = g_load g"
  "g_sched (observed n v bs h ls g) = g_sched g" "g_world (observed n v bs h ls g) = g_world g"
  by (simp_all add: count_def gauge_def observed_def)

lemma on_cluster_sel [simp]:
  "g_limiter (on_cluster f g) = g_limiter g" "g_load (on_cluster f g) = g_load g" "g_sched (on_cluster f g) = g_sched g"
  by (simp_all add: on_cluster_def split: option.split prod.split)

lemma release_quota_sel [simp]:
  "g_load (release_quota S c n g) = g_load g" "g_sched (release_quota S c n g) = g_sched g" "g_world (release_quota S c n g) = g_world g"
  by (simp_all add: release_quota_def)

text \<open>The request keeps its tenant, its reservation and its slot.\<close>

definition same_req :: "chat \<Rightarrow> chat \<Rightarrow> bool" where
  "same_req c c' \<longleftrightarrow> c_tenant c' = c_tenant c \<and> c_reserved c' = c_reserved c \<and> c_slot c' = c_slot c"

text \<open>
  What a stage behind the rate limiter may do: go on or raise with the counters untouched, or
  answer after giving the quota back.
\<close>

definition stage_ok :: "settings \<Rightarrow> chat \<Rightarrow> 'n gateway \<Rightarrow> step result \<times> 'n gateway \<Rightarrow> bool" where
  "stage_ok S c g r \<longleftrightarrow> g_load (snd r) = g_load g \<and> g_sched (snd r) = g_sched g \<and>
     (case fst r of
        Inl _ \<Rightarrow> g_limiter (snd r) = g_limiter g
      | Inr (Go c') \<Rightarrow> g_limiter (snd r) = g_limiter g \<and> same_req c c'
      | Inr (Reply _) \<Rightarrow> g_limiter (snd r) = g_limiter (release_quota S c 0 g))"

lemma stage_ok_Go: "kept g g' \<Longrightarrow> same_req c c' \<Longrightarrow> stage_ok S c g (Inr (Go c'), g')"
  by (simp add: stage_ok_def kept_def)

lemma stage_ok_Inl: "kept g g' \<Longrightarrow> stage_ok S c g (Inl err, g')"
  by (simp add: stage_ok_def kept_def)

lemma release_quota_limiter:
  "g_limiter g = g_limiter g' \<Longrightarrow> same_req c c' \<Longrightarrow>
     g_limiter (release_quota S c n g) = g_limiter (release_quota S c' n g')"
  by (simp add: release_quota_def same_req_def)

lemma stage_ok_on_go:
  assumes "stage_ok S c g r" and "\<And>c' g'. same_req c c' \<Longrightarrow> kept g g' \<Longrightarrow> stage_ok S c' g' (f c' g')"
  shows "stage_ok S c g (on_go r f)"
proof -
  obtain s g1 where r: "r = (s, g1)" by (cases r)
  consider (err) e where "s = Inl e" | (rep) p where "s = Inr (Reply p)" | (go) c1 where "s = Inr (Go c1)"
    by (cases s) (auto intro: step.exhaust)
  then show ?thesis
  proof cases
    case go
    have k: "same_req c c1" "kept g g1" using assms(1) by (simp_all add: r go stage_ok_def kept_def)
    have "g_limiter (release_quota S c1 0 g1) = g_limiter (release_quota S c 0 g)"
      using k by (simp add: release_quota_def same_req_def kept_def)
    with assms(2) [OF k] k show ?thesis
      by (auto simp: r go on_go_def stage_ok_def kept_def same_req_def split: sum.splits step.splits)
  qed (use assms(1) in \<open>simp_all add: r on_go_def stage_ok_def\<close>)
qed

lemma choose_backend_kept: "kept g (snd (choose_backend X S c g))"
  by (auto simp: choose_backend_def kept_def split: sum.splits prod.splits)

lemma select_candidates_ok: "stage_ok S c g (select_candidates X S c g)"
  by (simp add: select_candidates_def stage_ok_def same_req_def Let_def split: sum.splits)

lemma semantic_stage_ok: "stage_ok S c g (semantic_stage S c g)"
  by (auto simp: semantic_stage_def stage_ok_def same_req_def release_quota_def split: sum.splits option.splits prod.splits)

lemma pin_stage_ok: "pin_stage now c g = (c', g') \<Longrightarrow> same_req c c' \<and> kept g g'"
  by (auto simp: pin_stage_def same_req_def kept_def Let_def split: option.splits prod.splits)

lemma rag_stage_ok: "rag_stage S c g = (c', g') \<Longrightarrow> same_req c c' \<and> kept g g'"
  by (auto simp: rag_stage_def same_req_def kept_def split: option.splits if_splits)

lemma admission_stage_ok: "stage_ok S c g (admission_stage X S c g)"
proof -
  obtain x g1 where x: "choose_backend X S c g = (x, g1)" by (cases "choose_backend X S c g")
  have "kept g g1" using choose_backend_kept [of g X S c] by (simp add: x)
  then show ?thesis
    by (cases x) (auto simp: admission_stage_def x stage_ok_def same_req_def kept_def release_quota_def Let_def)
qed

lemma disagg_stage_ok: "stage_ok S c g (disagg_stage S c g)"
  by (auto simp: disagg_stage_def stage_ok_def same_req_def Let_def split: sum.splits option.splits)

lemma media_stage_ok: "stage_ok S c g (media_stage S c g)"
  by (auto simp: media_stage_def stage_ok_def same_req_def split: sum.splits option.splits)

lemma same_req_trans: "same_req c c1 \<Longrightarrow> same_req c1 c2 \<Longrightarrow> same_req c c2"
  by (simp add: same_req_def)

lemma stage_ok_weaken:
  "same_req c c1 \<Longrightarrow> kept g g1 \<Longrightarrow> stage_ok S c1 g1 r \<Longrightarrow> stage_ok S c g r"
  by (auto simp: stage_ok_def kept_def same_req_def release_quota_def split: sum.splits step.splits)

lemma route_stages_ok: "stage_ok S c g (route_stages X S now c g)"
proof -
  have "stage_ok S c g (let (c1, g1) = pin_stage now c g; (c2, g2) = rag_stage S c1 g1 in admission_stage X S c2 g2)"
    for c and g :: "'a gateway"
  proof -
    obtain c1 g1 where 1: "pin_stage now c g = (c1, g1)" by force
    obtain c2 g2 where 2: "rag_stage S c1 g1 = (c2, g2)" by force
    have "same_req c c2" "kept g g2" using pin_stage_ok [OF 1] rag_stage_ok [OF 2] same_req_trans kept_trans by blast+
    then show ?thesis using stage_ok_weaken admission_stage_ok by (simp add: 1 2) blast
  qed
  then show ?thesis unfolding route_stages_def
    by (intro stage_ok_on_go select_candidates_ok semantic_stage_ok disagg_stage_ok media_stage_ok)
qed

lemma buckets_inflight [simp]: "rl_inflight (snd (buckets l t)) = rl_inflight l"
  by (simp add: buckets_def Let_def)

lemma put_buckets_inflight [simp]: "rl_inflight (put_buckets l t r p) = rl_inflight l"
  by (simp add: put_buckets_def)

lemma admit_inflight:
  assumes "admit l t cost now = (a, l')"
  shows "dget (rl_inflight l') x 0 = dget (rl_inflight l) x 0 + (if allowed a \<and> x = tenant_id t then 1 else 0)"
proof -
  obtain r p l1 where b: "buckets l t = ((r, p), l1)" by (metis prod.collapse)
  have "rl_inflight l1 = rl_inflight l" using buckets_inflight [of l t] by (simp add: b)
  then show ?thesis using assms
    by (auto simp: admit_def b deny_def Let_def split: if_splits prod.splits)
qed

lemma release_inflight:
  "dget (rl_inflight (rl_release l t r a)) x 0 =
     (if x = tenant_id t then max 0 (dget (rl_inflight l) x 0 - 1) else dget (rl_inflight l) x 0)"
proof -
  define l1 where "l1 = l\<lparr>rl_inflight := AList.update (tenant_id t) (max 0 (dget (rl_inflight l) (tenant_id t) 0 - 1)) (rl_inflight l)\<rparr>"
  obtain rb pb l2 where b: "buckets l1 t = ((rb, pb), l2)" by (metis prod.collapse)
  have "rl_inflight l2 = rl_inflight l1" using buckets_inflight [of l1 t] by (simp add: b)
  then show ?thesis by (simp add: rl_release_def b Let_def flip: l1_def) (simp add: l1_def)
qed

abbreviation quota_used :: "'n gateway \<Rightarrow> string \<Rightarrow> int" where
  "quota_used g t \<equiv> dget (rl_inflight (g_limiter g)) t 0"

abbreviation load_on :: "'n gateway \<Rightarrow> string \<Rightarrow> int" where
  "load_on g b \<equiv> dget (inflight (g_load g)) b 0"

lemma quota_release:
  "quota_used (release_quota S c n g) t =
     (if rate_limit_enabled (s_cfg S) \<and> t = tenant_id (c_tenant c) then max 0 (quota_used g t - 1) else quota_used g t)"
  by (simp add: release_quota_def release_inflight)

text \<open>The stages up to the rate limiter take one unit of the tenant's quota exactly when the request goes on.\<close>

lemma front_stages_quota:
  assumes "front_stages X S hdr uuid now c g = (r, g')" "c_slot c = False"
  shows "g_load g' = g_load g" "g_sched g' = g_sched g"
    and "r = Inr (Go c') \<Longrightarrow> c_slot c' = False \<and>
      quota_used g' t = quota_used g t + (if rate_limit_enabled (s_cfg S) \<and> t = tenant_id (c_tenant c') then 1 else 0)"
    and "(\<And>c'. r \<noteq> Inr (Go c')) \<Longrightarrow> quota_used g' t = quota_used g t"
proof -
  obtain r1 g1 where a: "authenticate S hdr uuid c g = (r1, g1)" by force
  have k: "kept g g1" and slot: "\<And>c1. r1 = Inr (Go c1) \<Longrightarrow> c_slot c1 = False"
    using a assms(2) by (auto simp: authenticate_def kept_def Let_def split: sum.splits if_splits)
  have *: "g_load g' = g_load g \<and> g_sched g' = g_sched g \<and>
      (case r of Inr (Go c') \<Rightarrow> c_slot c' = False \<and>
          quota_used g' t = quota_used g t + (if rate_limit_enabled (s_cfg S) \<and> t = tenant_id (c_tenant c') then 1 else 0)
       | _ \<Rightarrow> quota_used g' t = quota_used g t)"
  proof (cases "\<exists>c1. r1 = Inr (Go c1)")
    case True
    then obtain c1 where c1: "r1 = Inr (Go c1)" by blast
    then have r: "rate_limit X S now c1 g1 = (r, g')" using assms(1) a by (simp add: front_stages_def on_go_def)
    obtain inp g2 where e: "estimate_prompt_tokens X S (c_prompt c1) g1 = (inp, g2)" by force
    have k2: "kept g g2" using e k by (auto simp: estimate_prompt_tokens_def kept_def Let_def split: prod.splits)
    obtain ad l where m: "admit (g_limiter g2) (c_tenant c1) (of_int (int inp + min (projr (requested_output (s_cfg S) (c_body c1))) (max_output_tokens (s_cfg S)))) now = (ad, l)"
      by force
    note q = admit_inflight [OF m, of t]
    show ?thesis
    proof (cases "requested_output (s_cfg S) (c_body c1)")
      case (Inl err)
      then show ?thesis using r k2 by (auto simp: rate_limit_def e kept_def)
    next
      case (Inr out)
      then show ?thesis using r k2 q m slot [OF c1] by (auto simp: rate_limit_def e kept_def Let_def split: if_splits)
    qed
  next
    case False
    then have "r = r1" "g' = g1" using assms(1) a by (auto simp: front_stages_def on_go_def st_bind_def split: sum.splits step.splits)
    then show ?thesis using False k by (auto simp: kept_def split: sum.splits step.splits)
  qed
  then show "g_load g' = g_load g" "g_sched g' = g_sched g" by simp_all
  show "r = Inr (Go c') \<Longrightarrow> c_slot c' = False \<and>
      quota_used g' t = quota_used g t + (if rate_limit_enabled (s_cfg S) \<and> t = tenant_id (c_tenant c') then 1 else 0)"
    using * by simp
  show "(\<And>c'. r \<noteq> Inr (Go c')) \<Longrightarrow> quota_used g' t = quota_used g t"
    using * by (auto split: sum.splits step.splits)
qed

lemma parse_request_slot: "parse_request fl S hdr body = Inr c \<Longrightarrow> c_slot c = False"
  by (auto simp: parse_request_def Let_def split: json.splits option.splits)

subsection \<open>Background work and control endpoints\<close>

inductive control :: "'n ext \<Rightarrow> settings \<Rightarrow> 'n gateway \<Rightarrow> 'n gateway \<Rightarrow> bool" for X S where
  scrape: "control X S g (scrape_one p g)"
| autoscale: "control X S g (snd (autoscale_tick S now g))"
| tick: "control X S g (cluster_tick X n now g)"
| metrics: "control X S g (snd (metrics_endpoint X now g))"
| gossip: "control X S g (snd (cluster_gossip S hdr body g))"
| list_backends: "control X S g (snd (admin_list_backends S hdr now g))"
| add_backend: "control X S g (snd (admin_add_backend S hdr body g))"
| remove_backend: "control X S g (snd (admin_remove_backend S hdr b g))"
| drain: "control X S g (snd (admin_drain X S hdr b g))"
| undrain: "control X S g (snd (admin_undrain X S hdr b g))"
| state: "control X S g (snd (admin_state S hdr now g))"
| dag: "control X S g (snd (dag_schedule_endpoint X S body g))"

lemma guarded_rule: "P g \<Longrightarrow> P (snd (f g)) \<Longrightarrow> P (snd (guarded S hdr f g))"
  by (auto simp: guarded_def split: sum.splits option.splits)

lemma foldl_kept: "(\<And>g x. kept g (f g x)) \<Longrightarrow> kept g (foldl f g xs)"
proof (induction xs arbitrary: g)
  case (Cons x xs)
  from kept_trans [OF Cons.prems Cons.IH [OF Cons.prems]] show ?case by simp
qed simp

lemma scrape_one_kept: "kept g (scrape_one p g)"
  by (cases p) (auto simp: scrape_one_def kept_def Let_def split: option.splits)

lemma autoscale_tick_kept: "kept g (snd (autoscale_tick S now g))"
  by (auto simp: autoscale_tick_def kept_def Let_def split: sum.splits prod.splits)

lemma cluster_tick_kept: "kept g (cluster_tick X n now g)"
  by (auto simp: cluster_tick_def kept_def Let_def split: sum.splits option.splits prod.splits)

lemma metrics_endpoint_kept: "kept g (snd (metrics_endpoint X now g))"
proof -
  define g1 where "g1 = foldl (refresh_backend now) g (all_backends (g_registry g))"
  define f where "f = (\<lambda>g (tid, n). gauge ''gateway_tenant_inflight'' (of_int n) ''In-flight requests per tenant'' [(''tenant'', tid)] (g :: 'a gateway))"
  define g2 where "g2 = foldl f g1 (rl_inflight (g_limiter g1))"
  have "kept g g1" unfolding g1_def by (rule foldl_kept) (simp add: refresh_backend_def kept_def Let_def)
  moreover have "kept g1 g2" unfolding g2_def by (rule foldl_kept) (simp add: f_def kept_def split: prod.split)
  ultimately have "kept g g2" by (rule kept_trans)
  then show ?thesis unfolding metrics_endpoint_def Let_def g1_def [symmetric] f_def [symmetric] g2_def [symmetric]
    by (simp add: kept_def split: option.split)
qed

lemma cluster_gossip_kept: "kept g (snd (cluster_gossip S hdr body g))"
  by (auto simp: cluster_gossip_def kept_def Let_def split: sum.splits option.splits json.splits prod.splits)

lemma admin_kept:
  "kept g (snd (admin_list_backends S hdr now g))" "kept g (snd (admin_state S hdr now g))"
  "kept g (snd (admin_add_backend S hdr body g))" "kept g (snd (admin_set_drain X S hdr b d g))"
proof -
  show "kept g (snd (admin_list_backends S hdr now g))"
    unfolding admin_list_backends_def by (rule guarded_rule) simp_all
  show "kept g (snd (admin_state S hdr now g))"
    unfolding admin_state_def by (rule guarded_rule) simp_all
  show "kept g (snd (admin_set_drain X S hdr b d g))"
    unfolding admin_set_drain_def
    by (rule guarded_rule) (auto simp: kept_def Let_def split: prod.splits)
  show "kept g (snd (admin_add_backend S hdr body g))"
    unfolding admin_add_backend_def
    by (rule guarded_rule) (auto simp: kept_def Let_def split: prod.splits json.splits option.splits)
qed

lemma dag_endpoint_kept: "kept g (snd (dag_schedule_endpoint X S body g))"
  by (auto simp: dag_schedule_endpoint_def kept_def Let_def split: sum.splits option.splits json.splits)

lemma admin_remove_counters:
  "g_limiter (snd (admin_remove_backend S hdr b g)) = g_limiter g \<and> g_sched (snd (admin_remove_backend S hdr b g)) = g_sched g \<and>
   load_on (snd (admin_remove_backend S hdr b g)) x \<in> {load_on g x, 0}"
proof -
  define P where "P g' \<longleftrightarrow> g_limiter g' = g_limiter g \<and> g_sched g' = g_sched g \<and>
    (g_load g' = g_load g \<or> inflight (g_load g') = AList.delete b (inflight (g_load g)))" for g' :: "'a gateway"
  have "P (snd (admin_remove_backend S hdr b g))"
    unfolding admin_remove_backend_def
    by (rule guarded_rule) (auto simp: P_def Let_def remove_from_def split: prod.splits)
  then show ?thesis by (auto simp: P_def)
qed

lemma control_counters:
  assumes "control X S g g'"
  shows "g_limiter g' = g_limiter g \<and> g_sched g' = g_sched g \<and> load_on g' x \<in> {load_on g x, 0}"
proof -
  from assms have "kept g g' \<or> (\<exists>hdr b. g' = snd (admin_remove_backend S hdr b g))"
  proof cases
    case (scrape p) show ?thesis unfolding scrape by (rule disjI1) (rule scrape_one_kept)
  next
    case (autoscale now) show ?thesis unfolding autoscale by (rule disjI1) (rule autoscale_tick_kept)
  next
    case (tick n now) show ?thesis unfolding tick by (rule disjI1) (rule cluster_tick_kept)
  next
    case (metrics now) show ?thesis unfolding metrics by (rule disjI1) (rule metrics_endpoint_kept)
  next
    case (gossip hdr body) show ?thesis unfolding gossip by (rule disjI1) (rule cluster_gossip_kept)
  next
    case (dag body) show ?thesis unfolding dag by (rule disjI1) (rule dag_endpoint_kept)
  next
    case (remove_backend hdr b) show ?thesis unfolding remove_backend by (rule disjI2) blast
  next
    case (list_backends hdr now) show ?thesis unfolding list_backends by (rule disjI1) (rule admin_kept(1))
  next
    case (state hdr now) show ?thesis unfolding state by (rule disjI1) (rule admin_kept(2))
  next
    case (add_backend hdr body) show ?thesis unfolding add_backend by (rule disjI1) (rule admin_kept(3))
  next
    case (drain hdr b) show ?thesis unfolding drain admin_drain_def by (rule disjI1) (rule admin_kept(4))
  next
    case (undrain hdr b) show ?thesis unfolding undrain admin_undrain_def by (rule disjI1) (rule admin_kept(4))
  qed
  then show ?thesis
  proof
    assume "kept g g'"
    then show ?thesis by (simp add: kept_def)
  next
    assume "\<exists>hdr b. g' = snd (admin_remove_backend S hdr b g)"
    then show ?thesis using admin_remove_counters by blast
  qed
qed

subsection \<open>Runs\<close>

text \<open>Where a request is suspended.\<close>

datatype phase =
    Ready chat
  | Parked nat chat
  | Connecting RouteResult chat
  | Racing TopKResult "(string \<times> string) list" chat
  | Streaming stream

fun chat_of :: "phase \<Rightarrow> chat" where
  "chat_of (Ready c) = c"
| "chat_of (Parked f c) = c"
| "chat_of (Connecting r c) = c"
| "chat_of (Racing tk cands c) = c"
| "chat_of (Streaming st) = st_chat st"

fun backend_of :: "phase \<Rightarrow> string option" where
  "backend_of (Connecting r c) = Some (res_backend r)"
| "backend_of (Streaming st) = Some (res_backend (st_route st))"
| "backend_of _ = None"

text \<open>
  A run of the gateway: its state and the requests in it, each with a mark whether it is alive.
  A request whose handler ended by an exception, or whose client went away while it was parked,
  connecting, racing, or before its body generator had started, is dead: nothing runs for it any
  more, and it stays in the collection with what it has not given back.
\<close>

inductive gw_run :: "'n ext \<Rightarrow> settings \<Rightarrow> 'n gateway \<Rightarrow> 'n gateway \<Rightarrow> (bool \<times> phase) multiset \<Rightarrow> bool" for X S g0 where
  start: "gw_run X S g0 g0 {#}"
| control: "gw_run X S g0 g M \<Longrightarrow> control X S g g' \<Longrightarrow> gw_run X S g0 g' M"
| refused: "gw_run X S g0 g M \<Longrightarrow> parse_request (x_str X) S hdr body = Inr c \<Longrightarrow>
    front_stages X S hdr uuid now c g = (r, g') \<Longrightarrow> (\<And>c'. r \<noteq> Inr (Go c')) \<Longrightarrow> gw_run X S g0 g' M"
| answered: "gw_run X S g0 g M \<Longrightarrow> parse_request (x_str X) S hdr body = Inr c \<Longrightarrow>
    front_stages X S hdr uuid now c g = (Inr (Go c1), g1) \<Longrightarrow>
    route_stages X S now c1 g1 = (Inr (Reply p), g') \<Longrightarrow> gw_run X S g0 g' M"
| broken: "gw_run X S g0 g M \<Longrightarrow> parse_request (x_str X) S hdr body = Inr c \<Longrightarrow>
    front_stages X S hdr uuid now c g = (Inr (Go c1), g1) \<Longrightarrow>
    route_stages X S now c1 g1 = (Inl err, g') \<Longrightarrow> gw_run X S g0 g' (add_mset (False, Ready c1) M)"
| admitted: "gw_run X S g0 g M \<Longrightarrow> parse_request (x_str X) S hdr body = Inr c \<Longrightarrow>
    front_stages X S hdr uuid now c g = (Inr (Go c1), g1) \<Longrightarrow>
    route_stages X S now c1 g1 = (Inr (Go c2), g2) \<Longrightarrow> enter_scheduler waited c2 g2 = (None, c3, g') \<Longrightarrow>
    gw_run X S g0 g' (add_mset (True, Ready c3) M)"
| parked: "gw_run X S g0 g M \<Longrightarrow> parse_request (x_str X) S hdr body = Inr c \<Longrightarrow>
    front_stages X S hdr uuid now c g = (Inr (Go c1), g1) \<Longrightarrow>
    route_stages X S now c1 g1 = (Inr (Go c2), g2) \<Longrightarrow> enter_scheduler waited c2 g2 = (Some f, c3, g') \<Longrightarrow>
    gw_run X S g0 g' (add_mset (True, Parked f c3) M)"
| woken: "gw_run X S g0 g (add_mset (True, Parked f c) M) \<Longrightarrow> g_sched g = Some s \<Longrightarrow>
    map_of (futs s) f = Some Granted \<Longrightarrow> wake waited f c g = (c', g') \<Longrightarrow>
    gw_run X S g0 g' (add_mset (True, Ready c') M)"
| left_queue: "gw_run X S g0 g (add_mset (True, Parked f c) M) \<Longrightarrow> g_sched g = Some s \<Longrightarrow>
    gw_run X S g0 (g\<lparr>g_sched := Some (cancel_waiter s f)\<rparr>) (add_mset (False, Ready c) M)"
| tried: "gw_run X S g0 g (add_mset (True, Ready c) M) \<Longrightarrow> \<not> speculative S c \<Longrightarrow> can_attempt S c \<Longrightarrow>
    attempt X S route_s c g = (Inr (r, u, c'), g') \<Longrightarrow> gw_run X S g0 g' (add_mset (True, Connecting r c') M)"
| unroutable: "gw_run X S g0 g (add_mset (True, Ready c) M) \<Longrightarrow> \<not> speculative S c \<Longrightarrow> can_attempt S c \<Longrightarrow>
    choose_backend X S c g = (Inl err, g') \<Longrightarrow> gw_run X S g0 g' (add_mset (False, Ready c) M)"
| vanished: "gw_run X S g0 g (add_mset (True, Ready c) M) \<Longrightarrow> \<not> speculative S c \<Longrightarrow> can_attempt S c \<Longrightarrow>
    choose_backend X S c g = (Inr r, g1) \<Longrightarrow> attempt X S route_s c g = (Inl err, g') \<Longrightarrow>
    gw_run X S g0 g' (add_mset (False, Connecting r c) M)"
| failed: "gw_run X S g0 g (add_mset (True, Connecting r c) M) \<Longrightarrow> attempt_failed now r c g = (c', g') \<Longrightarrow>
    gw_run X S g0 g' (add_mset (True, Ready c') M)"
| connected: "gw_run X S g0 g (add_mset (True, Connecting r c) M) \<Longrightarrow> chat_connected S c r up g = (hs, st, g') \<Longrightarrow>
    gw_run X S g0 g' (add_mset (True, Streaming st) M)"
| gone: "gw_run X S g0 g (add_mset (True, p) M) \<Longrightarrow>
    (\<exists>r c. p = Connecting r c) \<or> (\<exists>tk cands c. p = Racing tk cands c) \<or> (\<exists>st. p = Streaming st) \<Longrightarrow>
    gw_run X S g0 g (add_mset (False, p) M)"
| gave_up: "gw_run X S g0 g (add_mset (True, Ready c) M) \<Longrightarrow> \<not> speculative S c \<Longrightarrow> \<not> can_attempt S c \<Longrightarrow>
    chat_unreachable S c g = (resp, g') \<Longrightarrow> gw_run X S g0 g' M"
| raced: "gw_run X S g0 g (add_mset (True, Ready c) M) \<Longrightarrow> speculative S c \<Longrightarrow>
    race_begin X S route_s c g = (Inr (tk, cands), g') \<Longrightarrow> gw_run X S g0 g' (add_mset (True, Racing tk cands c) M)"
| no_race: "gw_run X S g0 g (add_mset (True, Ready c) M) \<Longrightarrow> speculative S c \<Longrightarrow>
    race_begin X S route_s c g = (Inl err, g') \<Longrightarrow> gw_run X S g0 g' (add_mset (False, Ready c) M)"
| won: "gw_run X S g0 g (add_mset (True, Racing tk cands c) M) \<Longrightarrow> race batches (map fst cands) = Some out \<Longrightarrow>
    race_won tk (length cands) (winner_id out) g = (r, g1) \<Longrightarrow>
    chat_connected S c r (winner_response out) g1 = (hs, st, g') \<Longrightarrow>
    gw_run X S g0 g' (add_mset (True, Streaming st) M)"
| lost: "gw_run X S g0 g (add_mset (True, Racing tk cands c) M) \<Longrightarrow>
    race (batches :: (string \<times> upstream option) list list) (map fst cands) = None \<Longrightarrow>
    chat_unreachable S c g = (resp, g') \<Longrightarrow> gw_run X S g0 g' M"
| finished: "gw_run X S g0 g (add_mset (True, Streaming st) M) \<Longrightarrow>
    stream_finish X S now wall first total_s chunks st g = (Inr (), g') \<Longrightarrow> gw_run X S g0 g' M"
| finish_broken: "gw_run X S g0 g (add_mset (True, Streaming st) M) \<Longrightarrow>
    stream_finish X S now wall first total_s chunks st g = (Inl err, g') \<Longrightarrow>
    gw_run X S g0 g' (add_mset (False, Ready ((st_chat st)\<lparr>c_slot := False\<rparr>)) M)"

subsection \<open>The counters are accounted for\<close>

definition of_tenant :: "string \<Rightarrow> bool \<times> phase \<Rightarrow> bool" where
  "of_tenant t p \<longleftrightarrow> tenant_id (c_tenant (chat_of (snd p))) = t"

definition at_backend :: "string \<Rightarrow> bool \<times> phase \<Rightarrow> bool" where
  "at_backend b p \<longleftrightarrow> backend_of (snd p) = Some b"

definition with_slot :: "bool \<times> phase \<Rightarrow> bool" where
  "with_slot p \<longleftrightarrow> c_slot (chat_of (snd p))"

definition cnt :: "('a \<Rightarrow> bool) \<Rightarrow> 'a multiset \<Rightarrow> nat" where
  "cnt P M = size (filter_mset P M)"

lemma cnt_simps [simp]: "cnt P {#} = 0" "cnt P (add_mset x M) = (if P x then 1 else 0) + cnt P M"
  by (simp_all add: cnt_def)

fun waits :: "phase \<Rightarrow> bool" where
  "waits (Parked f c) = True"
| "waits _ = False"

definition quota_ok :: "settings \<Rightarrow> 'n gateway \<Rightarrow> (bool \<times> phase) multiset \<Rightarrow> bool" where
  "quota_ok S g M \<longleftrightarrow> (\<forall>t. quota_used g t = (if rate_limit_enabled (s_cfg S) then int (cnt (of_tenant t) M) else 0))"

definition load_ok :: "'n gateway \<Rightarrow> (bool \<times> phase) multiset \<Rightarrow> bool" where
  "load_ok g M \<longleftrightarrow> (\<forall>b. 0 \<le> load_on g b \<and> load_on g b \<le> int (cnt (at_backend b) M))"

definition slots_ok :: "AsyncFairScheduler option \<Rightarrow> 'n gateway \<Rightarrow> (bool \<times> phase) multiset \<Rightarrow> bool" where
  "slots_ok s0 g M \<longleftrightarrow>
     (case g_sched g of
        None \<Rightarrow> s0 = None \<and> cnt with_slot M = 0
      | Some s \<Rightarrow> \<exists>s1. s0 = Some s1 \<and> sched_run s1 s (cnt with_slot M)) \<and>
     (\<forall>p \<in># M. waits (snd p) \<longrightarrow> \<not> with_slot p)"

definition accounted :: "settings \<Rightarrow> AsyncFairScheduler option \<Rightarrow> 'n gateway \<Rightarrow> (bool \<times> phase) multiset \<Rightarrow> bool" where
  "accounted S s0 g M \<longleftrightarrow> quota_ok S g M \<and> load_ok g M \<and> slots_ok s0 g M"

lemma accounted_kept: "accounted S s0 g M \<Longrightarrow> kept g g' \<Longrightarrow> accounted S s0 g' M"
  by (simp add: accounted_def quota_ok_def load_ok_def slots_ok_def kept_def)

text \<open>Replacing a request by another phase of it.\<close>

lemma accounted_replace:
  assumes "accounted S s0 g (add_mset p M)"
    and "chat_of (snd q) = chat_of (snd p) \<or> same_req (chat_of (snd p)) (chat_of (snd q))"
    and "backend_of (snd q) = backend_of (snd p)" "waits (snd q) \<longrightarrow> waits (snd p)"
  shows "accounted S s0 g (add_mset q M)"
proof -
  have "of_tenant t q = of_tenant t p" "at_backend b q = at_backend b p" "with_slot q = with_slot p" for t b
    using assms(2,3) by (auto simp: of_tenant_def at_backend_def with_slot_def same_req_def)
  then show ?thesis using assms(1,4)
    by (cases "g_sched g") (simp_all add: accounted_def quota_ok_def load_ok_def slots_ok_def)
qed

lemma quota_ok_drop:
  assumes "quota_ok S g (add_mset p M)"
  shows "quota_ok S (release_quota S (chat_of (snd p)) n g) M"
  using assms by (auto simp: quota_ok_def quota_release of_tenant_def split: if_splits)

lemma slots_ok_release:
  assumes "slots_ok s0 g (add_mset p M)"
  shows "slots_ok s0 (release_slot (chat_of (snd p)) g) M"
proof (cases "with_slot p")
  case True
  with assms obtain s s1 where s: "g_sched g = Some s" "s0 = Some s1" "sched_run s1 s (Suc (cnt with_slot M))"
    by (auto simp: slots_ok_def split: option.splits)
  have "sched_run s1 (release s) (cnt with_slot M)" by (rule sched_run.leave [OF s(3)])
  then show ?thesis using assms True s by (simp add: slots_ok_def release_slot_def with_slot_def)
next
  case False
  then show ?thesis using assms by (simp add: slots_ok_def release_slot_def with_slot_def split: option.splits)
qed

lemma release_slot_sel [simp]: "g_limiter (release_slot c g) = g_limiter g" "g_load (release_slot c g) = g_load g"
  by (simp_all add: release_slot_def)

lemma load_ok_add: "load_ok g M \<Longrightarrow> load_ok g (add_mset p M)"
  by (simp add: load_ok_def add_increasing)

lemma front_accounted:
  assumes "accounted S s0 g M" "parse_request fl S hdr body = Inr c" "front_stages X S hdr uuid now c g = (Inr (Go c1), g1)"
  shows "accounted S s0 g1 (add_mset (a, Ready c1) M)" "c_slot c1 = False"
proof -
  note f = front_stages_quota [OF assms(3) parse_request_slot [OF assms(2)]]
  show slot: "c_slot c1 = False" using f(3) by blast
  have "quota_ok S g1 (add_mset (a, Ready c1) M)"
    using assms(1) f(3) [OF refl] by (auto simp: accounted_def quota_ok_def of_tenant_def)
  moreover have "load_ok g1 (add_mset (a, Ready c1) M)"
    using assms(1) f(1) load_ok_add by (auto simp: accounted_def load_ok_def intro: add_increasing)
  moreover have "slots_ok s0 g1 (add_mset (a, Ready c1) M)"
    using assms(1) f(2) slot by (cases "g_sched g") (auto simp: accounted_def slots_ok_def with_slot_def)
  ultimately show "accounted S s0 g1 (add_mset (a, Ready c1) M)" by (simp add: accounted_def)
qed

text \<open>The request leaves, with its quota and its slot given back and its load, if any, already undone.\<close>

lemma accounted_leave:
  assumes "accounted S s0 g (add_mset p M)" "load_ok g M"
    and "g_limiter g' = g_limiter (release_quota S (chat_of (snd p)) n g)" "g_load g' = g_load g"
    and "g_sched g' = g_sched (release_slot (chat_of (snd p)) g)"
  shows "accounted S s0 g' M"
proof -
  have "quota_ok S (release_quota S (chat_of (snd p)) n g) M" "slots_ok s0 (release_slot (chat_of (snd p)) g) M"
    using assms(1) quota_ok_drop [of S g p M] slots_ok_release [of s0 g p M] by (simp_all add: accounted_def)
  then show ?thesis using assms(2-5) by (simp add: accounted_def quota_ok_def load_ok_def slots_ok_def)
qed

lemma load_ok_idle: "load_ok g (add_mset p M) \<Longrightarrow> backend_of (snd p) = None \<Longrightarrow> load_ok g M"
  by (simp add: load_ok_def at_backend_def)

lemma accounted_arrival:
  assumes "accounted S s0 g (add_mset (a, Ready c1) M)" "c_slot c1 = False" "route_stages X S now c1 g = (r, g')"
  shows "r = Inr (Reply p) \<Longrightarrow> accounted S s0 g' M"
    and "r = Inl err \<Longrightarrow> accounted S s0 g' (add_mset (a, Ready c1) M)"
    and "r = Inr (Go c2) \<Longrightarrow> accounted S s0 g' (add_mset (a, Ready c2) M) \<and> c_slot c2 = False"
proof -
  have s: "stage_ok S c1 g (r, g')" using route_stages_ok [of S c1 g X now] assms(3) by simp
  {
    assume r: "r = Inr (Reply p)"
    have "load_ok g M" using load_ok_idle [of g "(a, Ready c1)" M] assms(1) by (simp add: accounted_def)
    then show "accounted S s0 g' M"
      by (rule accounted_leave [OF assms(1)]) (use s r assms(2) in \<open>simp_all add: stage_ok_def release_slot_def\<close>)
  next
    assume "r = Inl err"
    then show "accounted S s0 g' (add_mset (a, Ready c1) M)" using s accounted_kept [OF assms(1)] by (simp add: stage_ok_def kept_def)
  next
    assume r: "r = Inr (Go c2)"
    have "kept g g'" "same_req c1 c2" using s r by (simp_all add: stage_ok_def kept_def)
    then show "accounted S s0 g' (add_mset (a, Ready c2) M) \<and> c_slot c2 = False"
      using accounted_replace [OF accounted_kept [OF assms(1)]] assms(2) by (auto simp: same_req_def)
  }
qed

lemma accounted_enter:
  assumes "accounted S s0 g (add_mset (a, Ready c) M)" "c_slot c = False" "enter_scheduler waited c g = (f, c', g')"
  shows "accounted S s0 g' (add_mset (a, case f of None \<Rightarrow> Ready c' | Some k \<Rightarrow> Parked k c') M)"
proof (cases "g_sched g")
  case None
  then show ?thesis using assms by (simp add: enter_scheduler_def)
next
  case (Some s)
  with assms(1,2) obtain s1 where s1: "s0 = Some s1" "sched_run s1 s (cnt with_slot M)"
    by (auto simp: accounted_def slots_ok_def with_slot_def)
  show ?thesis
  proof (cases "acquire s (tier (c_tenant c))")
    case (Pair k s')
    show ?thesis
    proof (cases k)
      case None
      then have e: "f = None" "c' = c\<lparr>c_slot := True\<rparr>" "g_limiter g' = g_limiter g" "g_load g' = g_load g" "g_sched g' = Some s'"
        using assms(3) Some Pair by (auto simp: enter_scheduler_def slot_taken_def)
      have "sched_run s1 s' (Suc (cnt with_slot M))" using sched_run.enter [OF s1(2)] Pair None by blast
      then show ?thesis using assms(1,2) s1(1) e
        by (simp add: accounted_def quota_ok_def load_ok_def slots_ok_def with_slot_def of_tenant_def at_backend_def)
    next
      case (Some m)
      then have e: "f = Some m" "c' = c" "g_limiter g' = g_limiter g" "g_load g' = g_load g" "g_sched g' = Some s'"
        using assms(3) \<open>g_sched g = Some s\<close> Pair by (auto simp: enter_scheduler_def)
      have "sched_run s1 s' (cnt with_slot M)" using sched_run.park [OF s1(2)] Pair Some by blast
      then show ?thesis using assms(1,2) s1(1) e
        by (simp add: accounted_def quota_ok_def load_ok_def slots_ok_def with_slot_def of_tenant_def at_backend_def)
    qed
  qed
qed

lemma accounted_wake:
  assumes "accounted S s0 g (add_mset (a, Parked f c) M)" "g_sched g = Some s" "map_of (futs s) f = Some Granted"
    and "wake waited f c g = (c', g')"
  shows "accounted S s0 g' (add_mset (a, Ready c') M)"
proof -
  have slot: "\<not> c_slot c" using assms(1) by (simp add: accounted_def slots_ok_def with_slot_def)
  with assms(1,2) obtain s1 where s1: "s0 = Some s1" "sched_run s1 s (cnt with_slot M)"
    by (auto simp: accounted_def slots_ok_def with_slot_def)
  have e: "c' = c\<lparr>c_slot := True\<rparr>" "g_limiter g' = g_limiter g" "g_load g' = g_load g" "g_sched g' = Some (resume_waiter s f)"
    using assms(2,4) by (auto simp: wake_def slot_taken_def)
  have "sched_run s1 (resume_waiter s f) (Suc (cnt with_slot M))" by (rule sched_run.resume [OF s1(2) assms(3)])
  then show ?thesis using assms(1) s1(1) e slot
    by (simp add: accounted_def quota_ok_def load_ok_def slots_ok_def with_slot_def of_tenant_def at_backend_def)
qed

lemma accounted_left_queue:
  assumes "accounted S s0 g (add_mset (a, Parked f c) M)" "g_sched g = Some s"
  shows "accounted S s0 (g\<lparr>g_sched := Some (cancel_waiter s f)\<rparr>) (add_mset (a', Ready c) M)"
proof -
  have slot: "\<not> c_slot c" using assms(1) by (simp add: accounted_def slots_ok_def with_slot_def)
  with assms obtain s1 where s1: "s0 = Some s1" "sched_run s1 s (cnt with_slot M)"
    by (auto simp: accounted_def slots_ok_def with_slot_def)
  have "sched_run s1 (cancel_waiter s f) (cnt with_slot M)" by (rule sched_run.disconnect [OF s1(2)])
  then show ?thesis using assms(1) s1(1) slot
    by (simp add: accounted_def quota_ok_def load_ok_def slots_ok_def with_slot_def of_tenant_def at_backend_def)
qed

text \<open>Taking and giving back the load of a backend.\<close>

lemma load_dispatch: "dget (inflight (on_dispatch l b n)) x 0 = dget (inflight l) x 0 + (if x = b then 1 else 0)"
  by (simp add: on_dispatch_def)

lemma load_complete: "dget (inflight (on_complete l b n)) x 0 = (if x = b then max 0 (dget (inflight l) x 0 - 1) else dget (inflight l) x 0)"
  by (simp add: on_complete_def)

lemma accounted_take_load:
  assumes "accounted S s0 g (add_mset p M)" "backend_of (snd p) = None" "\<not> waits (snd q)"
    and "backend_of (snd q) = Some b" "same_req (chat_of (snd p)) (chat_of (snd q))"
    and "g_limiter g' = g_limiter g" "g_sched g' = g_sched g" "g_load g' = on_dispatch (g_load g) b n"
  shows "accounted S s0 g' (add_mset q M)"
proof -
  have t: "of_tenant t q = of_tenant t p" "with_slot q = with_slot p" for t
    using assms(5) by (auto simp: of_tenant_def with_slot_def same_req_def)
  have "load_ok g' (add_mset q M)"
    using assms(1,2,4,8) by (auto simp: accounted_def load_ok_def load_dispatch at_backend_def)
  then show ?thesis using assms(1,3,6,7) t
    by (cases "g_sched g") (simp_all add: accounted_def quota_ok_def slots_ok_def)
qed

lemma load_ok_complete:
  assumes "load_ok g (add_mset p M)" "backend_of (snd p) = Some b" "g_load g' = on_complete (g_load g) b n"
  shows "load_ok g' M"
  unfolding load_ok_def
proof (intro allI)
  fix x
  have "0 \<le> load_on g x \<and> load_on g x \<le> int (cnt (at_backend x) (add_mset p M))" using assms(1) by (simp add: load_ok_def)
  then show "0 \<le> load_on g' x \<and> load_on g' x \<le> int (cnt (at_backend x) M)"
    using assms(2,3) by (auto simp: load_complete at_backend_def)
qed

lemma attempt_result:
  assumes "attempt X S route_s c g = (res, g')" "choose_backend X S c g = (Inr r, g1)"
  shows "g_limiter g' = g_limiter g" "g_sched g' = g_sched g" "g_load g' = on_dispatch (g_load g) (res_backend r) (res_tokens r)"
    and "res = Inr (r', u, c') \<Longrightarrow> r' = r \<and> c' = c\<lparr>c_routed := True\<rparr>"
proof -
  have "kept g g1" using choose_backend_kept [of g X S c] assms(2) by simp
  then show "g_limiter g' = g_limiter g" "g_sched g' = g_sched g" "g_load g' = on_dispatch (g_load g) (res_backend r) (res_tokens r)"
    "res = Inr (r', u, c') \<Longrightarrow> r' = r \<and> c' = c\<lparr>c_routed := True\<rparr>"
    using assms by (auto simp: attempt_def commit_def record_routing_def kept_def Let_def split: sum.splits if_splits)
qed

lemma attempt_Inr_choose:
  "attempt X S route_s c g = (Inr (r, u, c'), g') \<Longrightarrow> \<exists>g1. choose_backend X S c g = (Inr r, g1)"
  by (cases "choose_backend X S c g"; cases "fst (choose_backend X S c g)") (auto simp: attempt_def Let_def split: sum.splits)

lemma attempt_failed_result:
  assumes "attempt_failed now r c g = (c', g')"
  shows "g_limiter g' = g_limiter g" "g_sched g' = g_sched g" "g_load g' = on_complete (g_load g) (res_backend r) (res_tokens r)"
    "same_req c c'"
  using assms by (auto simp: attempt_failed_def same_req_def Let_def)

lemma chat_connected_result:
  assumes "chat_connected S c r up g = (hs, st, g')"
  shows "kept g g'" "st_chat st = c" "st_route st = r" "st_up st = up"
  using assms by (auto simp: chat_connected_def kept_def Let_def split: option.splits)

lemma learn_kept:
  "kept g (snd (learn_chunks st g))" "kept g (snd (learn_media S st g))" "kept g (snd (learn_session now st g))"
  "kept g (store_answer X S st chunks g)" "kept g (log_observation S wall first st g)" "kept g (slo_metrics X S st first total_s g)"
  by (auto simp: learn_chunks_def learn_media_def learn_session_def store_answer_def log_observation_def slo_metrics_def kept_def Let_def
      split: option.splits sum.splits prod.splits)

lemma slo_metrics_sel [simp]:
  "g_limiter (slo_metrics X S st first total_s g) = g_limiter g" "g_load (slo_metrics X S st first total_s g) = g_load g"
  "g_sched (slo_metrics X S st first total_s g) = g_sched g"
  using learn_kept(6) [of g X S st first total_s] by (simp_all add: kept_def)

text \<open>Sequencing spans that keep the counters.\<close>

lemma st_bind_unit_chain:
  assumes "st_bind r f = (y, g')" "kept g (snd r)"
  obtains (raised) err where "y = Inl err" "kept g g'" | (passed) g1 where "f () g1 = (y, g')" "kept g g1"
  using assms by (cases r; cases "fst r") (auto simp: st_bind_def)

lemma stream_finish_result:
  assumes "stream_finish X S now wall first total_s chunks st g = (y, g')"
  shows "g_load g' = on_complete (g_load g) (res_backend (st_route st)) (res_tokens (st_route st))"
    "g_sched g' = g_sched (release_slot (st_chat st) g)"
    "g_limiter g' = (if y = Inr () then g_limiter (release_quota S (st_chat st) (actual_output chunks) g)
                     else g_limiter g)"
proof -
  let ?n = "actual_output chunks"
  define g1 where "g1 = release_slot (st_chat st) (g\<lparr>g_load := on_complete (g_load g) (res_backend (st_route st)) (res_tokens (st_route st))\<rparr>)"
  define g2 where "g2 = store_answer X S st chunks (log_observation S wall first st g1)"
  have k2: "kept g1 g2" unfolding g2_def using learn_kept(4,5) kept_trans by blast
  have fin: "kept g1 g' \<and> y \<noteq> Inr () \<or> (\<exists>g3. kept g1 g3 \<and> y = Inr () \<and> g' = slo_metrics X S st first total_s (release_quota S (st_chat st) ?n g3))"
  proof -
    have s: "st_bind (learn_chunks st g2) (\<lambda>_ g. st_bind (learn_media S st g) (\<lambda>_ g. st_bind (learn_session now st g) (\<lambda>_ g.
        (Inr (), slo_metrics X S st first total_s (release_quota S (st_chat st) ?n g))))) = (y, g')"
      using assms unfolding stream_finish_def Let_def g1_def g2_def .
    from s learn_kept(1) show ?thesis
    proof (cases rule: st_bind_unit_chain)
      case (raised err)
      then show ?thesis using k2 kept_trans by blast
    next
      case (passed g3)
      note p1 = passed
      from p1(1) learn_kept(2) show ?thesis
      proof (cases rule: st_bind_unit_chain)
        case (raised err)
        then show ?thesis using k2 p1(2) kept_trans by blast
      next
        case (passed g4)
        note p2 = passed
        from p2(1) learn_kept(3) show ?thesis
        proof (cases rule: st_bind_unit_chain)
          case (raised err)
          then show ?thesis using k2 p1(2) p2(2) kept_trans by blast
        next
          case (passed g5)
          have "kept g1 g5" using k2 p1(2) p2(2) passed(2) kept_trans by blast
          then show ?thesis using passed(1) by auto
        qed
      qed
    qed
  qed
  have s1: "g_sched g1 = g_sched (release_slot (st_chat st) g)" "g_limiter g1 = g_limiter g"
    "g_load g1 = on_complete (g_load g) (res_backend (st_route st)) (res_tokens (st_route st))"
    by (simp_all add: g1_def release_slot_def)
  show "g_load g' = on_complete (g_load g) (res_backend (st_route st)) (res_tokens (st_route st))"
    "g_sched g' = g_sched (release_slot (st_chat st) g)"
    "g_limiter g' = (if y = Inr () then g_limiter (release_quota S (st_chat st) ?n g) else g_limiter g)"
    using fin s1 by (auto simp: kept_def release_quota_def)
qed

lemma accounted_unreachable:
  assumes "accounted S s0 g (add_mset p M)" "backend_of (snd p) = None" "chat_unreachable S (chat_of (snd p)) g = (resp, g')"
  shows "accounted S s0 g' M"
proof (rule accounted_leave [OF assms(1), where n = 0])
  show "load_ok g M" using load_ok_idle [of g p M] assms(1,2) by (simp add: accounted_def)
  show "g_limiter g' = g_limiter (release_quota S (chat_of (snd p)) 0 g)" "g_load g' = g_load g"
    "g_sched g' = g_sched (release_slot (chat_of (snd p)) g)"
    using assms(3) by (auto simp: chat_unreachable_def release_slot_def)
qed

lemma accounted_failed:
  assumes "accounted S s0 g (add_mset (a, Connecting r c) M)" "attempt_failed now r c g = (c', g')"
  shows "accounted S s0 g' (add_mset (a, Ready c') M)"
proof -
  note f = attempt_failed_result [OF assms(2)]
  have "load_ok g' M" by (rule load_ok_complete [OF _ _ f(3)]) (use assms(1) in \<open>auto simp: accounted_def\<close>)
  then have l: "load_ok g' (add_mset (a, Ready c') M)" by (rule load_ok_add)
  have t: "of_tenant t (a, Ready c') = of_tenant t (a, Connecting r c)" "with_slot (a, Ready c') = with_slot (a, Connecting r c)" for t
    using f(4) by (auto simp: of_tenant_def with_slot_def same_req_def)
  show ?thesis using assms(1) l f(1,2) t
    by (cases "g_sched g") (simp_all add: accounted_def quota_ok_def slots_ok_def)
qed

lemma accounted_finish:
  assumes "accounted S s0 g (add_mset (a, Streaming st) M)" "stream_finish X S now wall first total_s chunks st g = (y, g')"
  shows "y = Inr () \<Longrightarrow> accounted S s0 g' M"
    and "y \<noteq> Inr () \<Longrightarrow> accounted S s0 g' (add_mset (a', Ready ((st_chat st)\<lparr>c_slot := False\<rparr>)) M)"
proof -
  note f = stream_finish_result [OF assms(2)]
  have l: "load_ok g' M" by (rule load_ok_complete [OF _ _ f(1)]) (use assms(1) in \<open>auto simp: accounted_def\<close>)
  have s: "slots_ok s0 g' M"
    using slots_ok_release [of s0 g "(a, Streaming st)" M] assms(1) f(2) by (simp add: accounted_def slots_ok_def)
  {
    assume "y = Inr ()"
    then have "quota_ok S g' M"
      using quota_ok_drop [of S g "(a, Streaming st)" M] assms(1) f(3) by (simp add: accounted_def quota_ok_def)
    then show "accounted S s0 g' M" using l s by (simp add: accounted_def)
  next
    assume "y \<noteq> Inr ()"
    then have "g_limiter g' = g_limiter g" using f(3) by simp
    then have "quota_ok S g' (add_mset (a', Ready ((st_chat st)\<lparr>c_slot := False\<rparr>)) M)"
      using assms(1) by (simp add: accounted_def quota_ok_def of_tenant_def)
    moreover have "slots_ok s0 g' (add_mset (a', Ready ((st_chat st)\<lparr>c_slot := False\<rparr>)) M)"
      using s by (cases "g_sched g'") (simp_all add: slots_ok_def with_slot_def)
    ultimately show "accounted S s0 g' (add_mset (a', Ready ((st_chat st)\<lparr>c_slot := False\<rparr>)) M)"
      using load_ok_add [OF l] by (simp add: accounted_def)
  }
qed

lemma commit_sel: "g_limiter (commit r g) = g_limiter g" "g_sched (commit r g) = g_sched g"
  "g_load (commit r g) = on_dispatch (g_load g) (res_backend r) (res_tokens r)"
  by (simp_all add: commit_def Let_def)

lemma accounted_won:
  assumes "accounted S s0 g (add_mset (a, Racing tk cands c) M)" "race_won tk n w g = (r, g1)" "chat_connected S c r up g1 = (hs, st, g')"
  shows "accounted S s0 g' (add_mset (a, Streaming st) M)"
proof -
  note cc = chat_connected_result [OF assms(3)]
  have r: "g_limiter g1 = g_limiter g" "g_sched g1 = g_sched g" "g_load g1 = on_dispatch (g_load g) (res_backend r) (res_tokens r)"
    using assms(2) by (auto simp: race_won_def Let_def commit_sel)
  have "accounted S s0 g1 (add_mset (a, Streaming st) M)"
    by (rule accounted_take_load [OF assms(1) _ _ _ _ r]) (simp_all add: cc same_req_def)
  then show ?thesis using cc(1) by (rule accounted_kept)
qed

lemma control_accounted:
  assumes "control X S g g'" "accounted S s0 g M"
  shows "accounted S s0 g' M"
proof -
  have c: "g_limiter g' = g_limiter g" "g_sched g' = g_sched g" "\<And>x. load_on g' x \<in> {load_on g x, 0}"
    using control_counters [OF assms(1)] by auto
  have "load_ok g' M" unfolding load_ok_def
  proof (intro allI)
    fix b
    show "0 \<le> load_on g' b \<and> load_on g' b \<le> int (cnt (at_backend b) M)"
      using c(3) [of b] assms(2) by (auto simp: accounted_def load_ok_def)
  qed
  then show ?thesis using assms(2) c(1,2) by (simp add: accounted_def quota_ok_def slots_ok_def)
qed

lemma race_begin_kept: "kept g (snd (race_begin X S route_s c g))"
  by (auto simp: race_begin_def record_routing_def kept_def Let_def split: sum.splits prod.splits)

lemma gw_run_accounted:
  assumes "gw_run X S g0 g M" "accounted S s0 g0 {#}"
  shows "accounted S s0 g M"
  using assms(1)
proof (induction rule: gw_run.induct)
  case start
  show ?case by (rule assms(2))
next
  case (control g M g')
  then show ?case by (blast intro: control_accounted)
next
  case (refused g M hdr body c uuid now r g')
  note f = front_stages_quota [OF refused.hyps(3) parse_request_slot [OF refused.hyps(2)]]
  show ?case using refused.IH f(1,2) f(4) [OF refused.hyps(4)] by (simp add: accounted_def quota_ok_def load_ok_def slots_ok_def)
next
  case (answered g M hdr body c uuid now c1 g1 p g')
  note f = front_accounted(1) [OF answered.IH answered.hyps(2,3), where a = True] front_accounted(2) [OF answered.IH answered.hyps(2,3)]
  show ?case by (rule accounted_arrival(1) [OF f answered.hyps(4) refl])
next
  case (broken g M hdr body c uuid now c1 g1 err g')
  note f = front_accounted(1) [OF broken.IH broken.hyps(2,3), where a = False] front_accounted(2) [OF broken.IH broken.hyps(2,3)]
  show ?case by (rule accounted_arrival(2) [OF f broken.hyps(4) refl])
next
  case (admitted g M hdr body c uuid now c1 g1 c2 g2 waited c3 g')
  note f = front_accounted(1) [OF admitted.IH admitted.hyps(2,3), where a = True] front_accounted(2) [OF admitted.IH admitted.hyps(2,3)]
  note a = accounted_arrival(3) [OF f admitted.hyps(4) refl]
  show ?case using accounted_enter [OF a [THEN conjunct1] a [THEN conjunct2] admitted.hyps(5)] by simp
next
  case (parked g M hdr body c uuid now c1 g1 c2 g2 waited f c3 g')
  note fr = front_accounted(1) [OF parked.IH parked.hyps(2,3), where a = True] front_accounted(2) [OF parked.IH parked.hyps(2,3)]
  note a = accounted_arrival(3) [OF fr parked.hyps(4) refl]
  show ?case using accounted_enter [OF a [THEN conjunct1] a [THEN conjunct2] parked.hyps(5)] by simp
next
  case (woken g f c M s waited c' g')
  show ?case by (rule accounted_wake [OF woken.IH woken.hyps(2-4)])
next
  case (left_queue g f c M s)
  show ?case by (rule accounted_left_queue [OF left_queue.IH left_queue.hyps(2)])
next
  case (tried g c M route_s r u c' g')
  obtain g1 where ch: "choose_backend X S c g = (Inr r, g1)" using attempt_Inr_choose [OF tried.hyps(4)] by blast
  note a = attempt_result [OF tried.hyps(4) ch]
  show ?case by (rule accounted_take_load [OF tried.IH _ _ _ _ a(1-3)]) (use a(4) [OF refl] in \<open>simp_all add: same_req_def\<close>)
next
  case (unroutable g c M err g')
  have "kept g g'" using choose_backend_kept [of g X S c] unroutable.hyps(4) by simp
  then show ?case using accounted_kept [OF accounted_replace [OF unroutable.IH, of "(False, Ready c)"]] by simp
next
  case (vanished g c M r g1 route_s err g')
  note a = attempt_result [OF vanished.hyps(5,4)]
  show ?case by (rule accounted_take_load [OF vanished.IH _ _ _ _ a(1-3)]) (simp_all add: same_req_def)
next
  case (failed g r c M now c' g')
  show ?case by (rule accounted_failed [OF failed.IH failed.hyps(2)])
next
  case (connected g r c M up hs st g')
  note cc = chat_connected_result [OF connected.hyps(2)]
  show ?case by (rule accounted_kept [OF accounted_replace [OF connected.IH] cc(1)]) (simp_all add: cc)
next
  case (gone g p M)
  show ?case by (rule accounted_replace [OF gone.IH]) simp_all
next
  case (gave_up g c M resp g')
  show ?case by (rule accounted_unreachable [OF gave_up.IH]) (use gave_up.hyps(4) in simp_all)
next
  case (raced g c M route_s tk cands g')
  have "kept g g'" using race_begin_kept [of g X S route_s c] raced.hyps(3) by simp
  then show ?case using accounted_kept [OF accounted_replace [OF raced.IH, of "(True, Racing tk cands c)"]] by simp
next
  case (no_race g c M route_s err g')
  have "kept g g'" using race_begin_kept [of g X S route_s c] no_race.hyps(3) by simp
  then show ?case using accounted_kept [OF accounted_replace [OF no_race.IH, of "(False, Ready c)"]] by simp
next
  case (won g tk cands c M batches out r g1 hs st g')
  show ?case by (rule accounted_won [OF won.IH won.hyps(3,4)])
next
  case (lost g tk cands c M batches resp g')
  show ?case by (rule accounted_unreachable [OF lost.IH]) (use lost.hyps(3) in simp_all)
next
  case (finished g st M now wall first total_s chunks g')
  show ?case by (rule accounted_finish(1) [OF finished.IH finished.hyps(2) refl])
next
  case (finish_broken g st M now wall first total_s chunks err g')
  show ?case by (rule accounted_finish(2) [OF finish_broken.IH finish_broken.hyps(2)]) simp
qed

lemma start_sched_gateway:
  assumes "Gateway.start X env n = Inr (S, g0)"
  shows "g_limiter g0 = RateLimiter_init" "g_load g0 = LoadTracker_init"
    "g_sched g0 = None \<or> (\<exists>m ws dw c. g_sched g0 = Some (AsyncFairScheduler_init m ws dw c))"
proof -
  have *: "kept g (start_cluster X cc g)" for cc and g :: "'a gateway"
    by (auto simp: start_cluster_def kept_def Let_def split: prod.splits)
  obtain sch g where sch: "start_sched (s_cfg S) = Inr sch" and g: "g0 = start_cluster X (s_cluster S) g"
    "g_limiter g = RateLimiter_init" "g_load g = LoadTracker_init" "g_sched g = sch"
    using assms by (auto simp: Gateway.start_def Let_def)
  then have k: "g_limiter g0 = RateLimiter_init" "g_load g0 = LoadTracker_init" "g_sched g0 = sch"
    using * [of g "s_cluster S"] by (simp_all add: kept_def)
  have "sch = None \<or> (\<exists>m ws dw c. sch = Some (AsyncFairScheduler_init m ws dw c))"
    using sch by (auto simp: start_sched_def split: if_splits)
  then show "g_limiter g0 = RateLimiter_init" "g_load g0 = LoadTracker_init"
    "g_sched g0 = None \<or> (\<exists>m ws dw c. g_sched g0 = Some (AsyncFairScheduler_init m ws dw c))"
    by (simp_all add: k)
qed

lemma start_accounted:
  assumes "Gateway.start X env n = Inr (S, g0)"
  shows "accounted S (g_sched g0) g0 {#}"
proof -
  note s = start_sched_gateway [OF assms]
  have "slots_ok (g_sched g0) g0 {#}" by (auto simp: slots_ok_def sched_run.start split: option.split)
  then show ?thesis using s by (simp add: accounted_def quota_ok_def load_ok_def RateLimiter_init_def LoadTracker_init_def)
qed

text \<open>A gateway with rate limits and fair queuing on, on a machine where no package is installed.\<close>

definition demo_ext :: "unit ext" where
  "demo_ext = \<lparr>x_tok = \<lambda>_. None, x_files = \<lparr>path_exists = \<lambda>_. False, getmtime = \<lambda>_. None, has_joblib = False, joblib_load = \<lambda>_. None\<rparr>,
     x_embed = \<lambda>_. None, x_net = demo_net, x_redis = False, x_enum = sorted_list_of_set, x_host = ''h'', x_pid = 1,
     x_exc = \<lambda>_. [], x_decode = (\<lambda>s. s), x_str = \<lambda>_. [], x_fmt_g = \<lambda>_. []\<rparr>"

definition demo_env :: environ where
  "demo_env k = (if k = ''GW_RATE_LIMIT_ENABLED'' \<or> k = ''GW_WFQ_ENABLED'' then Some ''1'' else None)"

definition succeeds :: "'a result \<Rightarrow> bool" where
  "succeeds r = (case r of Inr _ \<Rightarrow> True | Inl _ \<Rightarrow> False)"

lemma succeedsD: "succeeds r \<Longrightarrow> \<exists>x. r = Inr x"
  by (cases r) (auto simp: succeeds_def)

lemma demo_config:
  "case Config_from_env demo_env of
     Inr c \<Rightarrow> tenants c = [] \<and> succeeds (parse_weights (wfq_weights c)) \<and> rate_limit_enabled c \<and> wfq_enabled c
   | Inl _ \<Rightarrow> False"
  by code_simp

lemma demo_parts: "succeeds (TenantRegistry_init [] [])" "succeeds (RagConfig_from_env demo_env)"
  "succeeds (AdmissionConfig_from_env demo_env)" "succeeds (DisaggConfig_from_env demo_env)"
  "succeeds (MultiModalConfig_from_env demo_env)" "succeeds (DagSchedConfig_from_env demo_env)"
  "succeeds (AutoscaleConfig_from_env demo_env)" "succeeds (ClusterConfig_from_env h p demo_env)"
  by code_simp+

lemma demo_start:
  "\<exists>S g0. Gateway.start demo_ext demo_env () = Inr (S, g0) \<and> rate_limit_enabled (s_cfg S) \<and> wfq_enabled (s_cfg S)"
proof -
  obtain c where c: "Config_from_env demo_env = Inr c" "tenants c = []" "succeeds (parse_weights (wfq_weights c))"
    "rate_limit_enabled c" "wfq_enabled c"
    using demo_config by (auto split: sum.splits)
  obtain ws where "parse_weights (wfq_weights c) = Inr ws" using succeedsD [OF c(3)] by blast
  then obtain sch where sch: "start_sched c = Inr sch" using c(5) by (simp add: start_sched_def)
  obtain tr rc ac dc mc gc sc cc where "TenantRegistry_init [] [] = Inr tr" "RagConfig_from_env demo_env = Inr rc"
    "AdmissionConfig_from_env demo_env = Inr ac" "DisaggConfig_from_env demo_env = Inr dc"
    "MultiModalConfig_from_env demo_env = Inr mc" "DagSchedConfig_from_env demo_env = Inr gc"
    "AutoscaleConfig_from_env demo_env = Inr sc" "ClusterConfig_from_env (x_host demo_ext) (x_pid demo_ext) demo_env = Inr cc"
    using demo_parts [THEN succeedsD] by meson
  then have "\<exists>S. start_settings demo_ext demo_env = Inr S \<and> s_cfg S = c" using c(1,2) by (simp add: start_settings_def)
  then obtain S where S: "start_settings demo_ext demo_env = Inr S" "s_cfg S = c" by blast
  then have "\<exists>g0. Gateway.start demo_ext demo_env () = Inr (S, g0)" using sch by (simp add: Gateway.start_def Let_def)
  then show ?thesis using c(4,5) S(2) by blast
qed

text \<open>
  C1. Accounting of the whole gateway: from start, under any interleaving of any number of chat
  requests (through every branch of the handler, its failover, its race and its \<open>finally\<close>) with
  health scrapes, cluster turns and control calls, a tenant's in-flight counter is exactly the
  number of its requests that have been admitted and not given their quota back, no backend is
  charged with more requests than are connecting to it or streaming from it, and the scheduler's
  counter is exactly the requests that hold a slot or have just been granted one, never above the
  limit.  Requests that died at an await or by an exception stay counted: what they held is never
  given back.
\<close>

theorem gateway_accounting:
  assumes "Gateway.start X env n = Inr (S, g0)" and "gw_run X S g0 g M"
  shows "(\<forall>t. dget (rl_inflight (g_limiter g)) t 0 = (if rate_limit_enabled (s_cfg S) then int (cnt (of_tenant t) M) else 0)) \<and>
    (\<forall>b. 0 \<le> dget (inflight (g_load g)) b 0 \<and> dget (inflight (g_load g)) b 0 \<le> int (cnt (at_backend b) M)) \<and>
    (case g_sched g of
       None \<Rightarrow> cnt with_slot M = 0
     | Some s \<Rightarrow> active s = int (cnt with_slot M) + int (card (granted s)) \<and> active s \<le> max_concurrency s)"
proof -
  have a: "accounted S (g_sched g0) g M" by (rule gw_run_accounted [OF assms(2) start_accounted [OF assms(1)]])
  have "case g_sched g of
       None \<Rightarrow> cnt with_slot M = 0
     | Some s \<Rightarrow> active s = int (cnt with_slot M) + int (card (granted s)) \<and> active s \<le> max_concurrency s"
  proof (cases "g_sched g")
    case None
    then show ?thesis using a by (simp add: accounted_def slots_ok_def)
  next
    case (Some s)
    then obtain s1 where "g_sched g0 = Some s1" "sched_run s1 s (cnt with_slot M)"
      using a by (auto simp: accounted_def slots_ok_def)
    moreover from this obtain m ws dw c where "s1 = AsyncFairScheduler_init m ws dw c"
      using start_sched_gateway(3) [OF assms(1)] by auto
    ultimately have "sched_inv s (cnt with_slot M)" using sched_inv_run by blast
    then show ?thesis using Some by (simp add: sched_inv_def)
  qed
  then show ?thesis using a by (simp add: accounted_def quota_ok_def load_ok_def)
qed

theorem gateway_accounting_witness:
  "\<exists>S g0 g. Gateway.start demo_ext demo_env () = Inr (S, g0) \<and> gw_run demo_ext S g0 g {#} \<and> rate_limit_enabled (s_cfg S) \<and>
     dget (rl_inflight (g_limiter g)) ''t'' 0 = 0 \<and> dget (inflight (g_load g)) ''b0'' 0 = 0"
proof -
  obtain S g0 where s: "Gateway.start demo_ext demo_env () = Inr (S, g0)" "rate_limit_enabled (s_cfg S)"
    using demo_start by blast
  have r: "gw_run demo_ext S g0 (scrape_one (''b0'', None, 0) g0) {#}"
    by (rule gw_run.control [OF gw_run.start control.scrape])
  note a = gateway_accounting [OF s(1) r]
  have "dget (rl_inflight (g_limiter (scrape_one (''b0'', None, 0) g0))) ''t'' 0 = 0" using a by simp
  moreover have "dget (inflight (g_load (scrape_one (''b0'', None, 0) g0))) ''b0'' 0 = 0"
    using a [THEN conjunct2, THEN conjunct1, rule_format, of "''b0''"] by simp
  ultimately show ?thesis using s r by blast
qed

text \<open>
  What the dead requests mean: a client that leaves the fair queue (the case the scheduler's own
  \<open>CancelledError\<close> branch handles) takes its tenant's quota with it.
\<close>

lemma disconnect_keeps_quota:
  assumes "gw_run X S g0 g (add_mset (True, Parked f c) M)" "g_sched g = Some s"
  shows "gw_run X S g0 (g\<lparr>g_sched := Some (cancel_waiter s f)\<rparr>) (add_mset (False, Ready c) M) \<and>
    g_limiter (g\<lparr>g_sched := Some (cancel_waiter s f)\<rparr>) = g_limiter g"
  using gw_run.left_queue [OF assms] by simp

end
