(* ===== verification/Chat_Props.thy ===== *)
theory Chat_Props
  imports Chat_Runs
begin

section \<open>What the endpoints promise\<close>

text \<open>
  Properties of single handlers of \<^verbatim>\<open>gateway/server.py\<close>: the admin guard, the failover loop, the
  semantic cache around a stream, the disaggregated route and the autoscale endpoint.
\<close>

subsection \<open>Admin guard\<close>

text \<open>The request presents the token: in its own header, or else as the bearer.\<close>

definition presents_token :: "Config \<Rightarrow> headers \<Rightarrow> bool" where
  "presents_token cf hdr \<longleftrightarrow> admin_token cf \<noteq> [] \<and>
     (let h = header_or_empty hdr ''x-admin-token''
      in h = admin_token cf \<or> h = [] \<and> extract_bearer hdr = Some (admin_token cf))"

lemma guard_refuses:
  assumes "\<not> presents_token (s_cfg S) hdr"
  shows "guarded S hdr f g = (Inl TypeError, g) \<or> (\<exists>b. guarded S hdr f g = (Inr (JSONResponse 403 b []), g))"
proof -
  have "admin_authorized (s_cfg S) hdr \<in> {Inr False, Inl TypeError}"
    using assms
    by (auto simp: admin_authorized_def presents_token_def Let_def compare_digest_def split: option.splits)
  then show ?thesis by (auto simp: guarded_def admin_guard_def)
qed

lemma guard_admits:
  assumes "presents_token cf hdr" "ascii (admin_token cf)"
  shows "admin_guard cf hdr = Inr None"
  using assms
  by (auto simp: admin_guard_def admin_authorized_def presents_token_def Let_def compare_digest_def split: option.splits)

text \<open>
  C21. The control plane is closed without the token: whatever the request and the state, an admin
  handler that is not presented the configured token (or when none is configured) leaves the whole
  gateway as it is and answers 403, or raises when the presented string cannot be compared.  With
  the token, if it is ASCII, the guard lets the request through.
\<close>

theorem admin_requires_token:
  assumes "h \<in> {admin_list_backends S hdr now, admin_state S hdr now, admin_add_backend S hdr body,
       admin_remove_backend S hdr b, admin_drain X S hdr b, admin_undrain X S hdr b}"
  shows "(\<not> presents_token (s_cfg S) hdr \<longrightarrow>
      snd (h g) = g \<and> (fst (h g) = Inl TypeError \<or> (\<exists>v. fst (h g) = Inr (JSONResponse 403 v [])))) \<and>
    (presents_token (s_cfg S) hdr \<and> ascii (admin_token (s_cfg S)) \<longrightarrow> admin_guard (s_cfg S) hdr = Inr None)"
proof -
  from assms obtain f where "h = guarded S hdr f"
    by (auto simp: admin_list_backends_def admin_state_def admin_add_backend_def admin_remove_backend_def
        admin_drain_def admin_undrain_def admin_set_drain_def)
  with guard_refuses [of S hdr f g] guard_admits show ?thesis by auto
qed

theorem admin_requires_token_witness:
  "\<exists>S g. admin_token (s_cfg S) = ''secret'' \<and> snd (admin_drain demo_ext S (\<lambda>k. if k = ''x-admin-token'' then Some ''guess'' else None) ''b0'' g) = g"
proof -
  obtain S g0 where "Gateway.start demo_ext demo_env () = Inr (S, g0)" using demo_start by blast
  define S' where "S' = S\<lparr>s_cfg := (s_cfg S)\<lparr>admin_token := ''secret''\<rparr>\<rparr>"
  define hdr :: headers where "hdr = (\<lambda>k. if k = ''x-admin-token'' then Some ''guess'' else None)"
  have "\<not> presents_token (s_cfg S') hdr" by (simp add: presents_token_def S'_def hdr_def header_or_empty_def)
  then have "snd (admin_drain demo_ext S' hdr ''b0'' g0) = g0"
    using admin_requires_token [of "admin_drain demo_ext S' hdr ''b0''" S' hdr 0 JNull "''b0''" demo_ext g0] by blast
  moreover have "admin_token (s_cfg S') = ''secret''" by (simp add: S'_def)
  ultimately show ?thesis unfolding hdr_def by blast
qed


subsection \<open>Failover\<close>

lemma url_of_set_health [simp]: "url_of (set_health r b h) x = url_of r x"
  by (auto simp: url_of_def set_health_def split: option.splits)

lemma commit_registry: "g_registry (commit r g) = g_registry g"
  by (simp add: commit_def on_cluster_def publish_insert_def emit_def Let_def split: option.split prod.split)

text \<open>The settings under which the router always answers.\<close>

definition routable :: "settings \<Rightarrow> bool" where
  "routable S \<longleftrightarrow> Config.block_chars (s_cfg S) \<noteq> 0 \<and> Config.block_tokens (s_cfg S) \<noteq> 0 \<and> 0 \<le> Config.hysteresis_ms (s_cfg S)"

lemma choose_backend_ok:
  assumes "routable S" "c_remaining c \<noteq> []"
  shows "\<exists>r g1. choose_backend X S c g = (Inr r, g1) \<and> res_backend r \<in> set (c_remaining c) \<and> g_world g1 = g_world g"
proof -
  have "cfg (router_of S g) = s_cfg S" by (simp add: router_of_def)
  with router_choose_ok [of "c_remaining c" "router_of S g" "x_tok X" "g_tok g" "c_prompt c" "c_strategy c" "c_seed c"] assms
  obtain res r' tc' where "router_choose (x_tok X) (g_tok g) (router_of S g) (c_prompt c) (c_remaining c) (c_strategy c) (c_seed c) =
      (Inr (res, r'), tc')" "res_backend res \<in> set (c_remaining c)"
    by (auto simp: routable_def)
  then show ?thesis by (simp add: choose_backend_def)
qed

lemma attempt_ok:
  assumes "routable S" "c_remaining c \<noteq> []" "\<forall>b \<in> set (c_remaining c). url_of (g_registry g) b = Inr (u b)"
  shows "\<exists>r g1. attempt X S route_s c g = (Inr (r, u (res_backend r) @ ''/v1/chat/completions'', c\<lparr>c_routed := True\<rparr>), g1) \<and>
    res_backend r \<in> set (c_remaining c) \<and> g_registry g1 = g_registry g"
proof -
  obtain r g1 where r: "choose_backend X S c g = (Inr r, g1)" "res_backend r \<in> set (c_remaining c)" "g_world g1 = g_world g"
    using choose_backend_ok [OF assms(1,2)] by blast
  then show ?thesis using assms(3)
    by (simp add: attempt_def Let_def commit_registry record_routing_def observed_def split: sum.split)
qed

lemma attempt_failed_eq:
  "attempt_failed now r c g = (c2, g2) \<Longrightarrow>
     c_remaining c2 = remove1 (res_backend r) (c_remaining c) \<and> c_retries c2 = c_retries c + 1 \<and>
     url_of (g_registry g2) x = url_of (g_registry g) x"
  by (auto simp: attempt_failed_def Let_def count_def)

lemma failover_spec:
  assumes "routable S" and stable: "\<forall>i g. \<forall>b \<in> B. url_of (g_registry (others i g)) b = url_of (g_registry g) b"
    and "set (c_remaining c) \<subseteq> B" and "\<forall>b \<in> B. url_of (g_registry g) b = Inr (u b)"
    and "int (length (c_remaining c)) + int (c_retries c) \<le> max_retries (s_cfg S) + 1"
  shows "\<exists>c' res g'. failover X S conn others now route_s c g = (Inr (c', res), g') \<and>
    (case res of
       None \<Rightarrow> (\<forall>b \<in> set (c_remaining c). conn (u b @ ''/v1/chat/completions'') = None)
     | Some (r, up) \<Rightarrow> res_backend r \<in> set (c_remaining c) \<and> conn (u (res_backend r) @ ''/v1/chat/completions'') = Some up)"
  using assms(3-)
proof (induction "length (c_remaining c)" arbitrary: c g)
  case 0
  then show ?case by (simp add: failover.simps can_attempt_def)
next
  case (Suc n)
  have go: "can_attempt S c" using Suc by (auto simp: can_attempt_def)
  obtain r g1 where a: "attempt X S route_s c g = (Inr (r, u (res_backend r) @ ''/v1/chat/completions'', c\<lparr>c_routed := True\<rparr>), g1)"
    "res_backend r \<in> set (c_remaining c)" "g_registry g1 = g_registry g"
    using attempt_ok [OF assms(1), of c g u X route_s] Suc.hyps(2) Suc.prems(1,2) by fastforce
  show ?case
  proof (cases "conn (u (res_backend r) @ ''/v1/chat/completions'')")
    case (Some up)
    then show ?thesis using go a by (simp add: failover.simps [of X S conn others now route_s c g] Let_def)
  next
    case None
    obtain c2 g2 where f: "attempt_failed (now (c_retries c)) r (c\<lparr>c_routed := True\<rparr>) (others (c_retries c) g1) = (c2, g2)" by force
    have c2: "c_remaining c2 = remove1 (res_backend r) (c_remaining c)" "c_retries c2 = c_retries c + 1"
      "url_of (g_registry g2) x = url_of (g_registry (others (c_retries c) g1)) x" for x
      using attempt_failed_eq [OF f] by auto
    have eq: "failover X S conn others now route_s c g = failover X S conn others now route_s c2 g2"
      using go a None f by (simp add: failover.simps [of X S conn others now route_s c g] Let_def)
    have len: "n = length (c_remaining c2)" using Suc.hyps(2) a(2) c2(1) by (simp add: length_remove1)
    have "set (c_remaining c2) \<subseteq> B" using Suc.prems(1) c2(1) set_remove1_subset by fastforce
    moreover have "\<forall>b \<in> B. url_of (g_registry g2) b = Inr (u b)" using c2(3) stable a(3) Suc.prems(2) by simp
    moreover have "int (length (c_remaining c2)) + int (c_retries c2) \<le> max_retries (s_cfg S) + 1"
      using Suc.prems(3) Suc.hyps(2) len c2(2) by simp
    ultimately obtain c' res g' where IH: "failover X S conn others now route_s c2 g2 = (Inr (c', res), g')"
      "case res of
       None \<Rightarrow> (\<forall>b \<in> set (c_remaining c2). conn (u b @ ''/v1/chat/completions'') = None)
     | Some (r, up) \<Rightarrow> res_backend r \<in> set (c_remaining c2) \<and> conn (u (res_backend r) @ ''/v1/chat/completions'') = Some up"
      using Suc.hyps(1) [OF len] by blast
    have "set (c_remaining c) \<subseteq> insert (res_backend r) (set (c_remaining c2))"
      unfolding c2(1) using in_set_remove1 [of _ "res_backend r" "c_remaining c"] by blast
    moreover have "set (c_remaining c2) \<subseteq> set (c_remaining c)" unfolding c2(1) by (rule set_remove1_subset)
    ultimately
    show ?thesis using IH eq None by (cases res) auto
  qed
qed

text \<open>
  C11. Failover finds a reachable backend: when the candidates are registered (and stay registered
  whatever other requests do while a connection is awaited) and there are no more of them than the
  retry budget allows, the loop ends without an exception, with a connection to a candidate that
  answers, and it gives up exactly when no candidate answers.
\<close>

theorem failover_finds_reachable:
  assumes "routable S" and "\<forall>i g. \<forall>b \<in> set (c_remaining c). url_of (g_registry (others i g)) b = url_of (g_registry g) b"
    and "\<forall>b \<in> set (c_remaining c). url_of (g_registry g) b = Inr (u b)"
    and "int (length (c_remaining c)) + int (c_retries c) \<le> max_retries (s_cfg S) + 1"
  shows "\<exists>c' res g'. failover X S conn others now route_s c g = (Inr (c', res), g') \<and>
    (res = None \<longleftrightarrow> (\<forall>b \<in> set (c_remaining c). conn (u b @ ''/v1/chat/completions'') = None)) \<and>
    (\<forall>r up. res = Some (r, up) \<longrightarrow>
       res_backend r \<in> set (c_remaining c) \<and> conn (u (res_backend r) @ ''/v1/chat/completions'') = Some up)"
proof -
  obtain c' res g' where "failover X S conn others now route_s c g = (Inr (c', res), g')"
    "case res of
       None \<Rightarrow> (\<forall>b \<in> set (c_remaining c). conn (u b @ ''/v1/chat/completions'') = None)
     | Some (r, up) \<Rightarrow> res_backend r \<in> set (c_remaining c) \<and> conn (u (res_backend r) @ ''/v1/chat/completions'') = Some up"
    using failover_spec [OF assms(1,2) subset_refl assms(3,4)] by blast
  then show ?thesis by (cases res) auto
qed

text \<open>A chat request of a known tenant with no special feature, for the examples.\<close>

definition demo_chat :: "string list \<Rightarrow> chat" where
  "demo_chat cands =
     \<lparr>c_model = JNull, c_prompt = ''user: hi'', c_strategy = None, c_session = None, c_body = [], c_chunks = None, c_overlap = 0,
      c_rid = ''r1'', c_tenant = demo_tenant, c_input = 3, c_reserved = 16, c_seed = 0, c_remaining = cands, c_disagg = None,
      c_mm = None, c_slot = False, c_retries = 0, c_routed = False\<rparr>"

lemma demo_registry:
  "url_of (BackendRegistry_init ''a=http://a,b=http://b'' ''m'') ''a'' = Inr ''http://a''"
  "url_of (BackendRegistry_init ''a=http://a,b=http://b'' ''m'') ''b'' = Inr ''http://b''"
  by code_simp+

theorem failover_finds_reachable_witness:
  "\<exists>S g c' r g'. g_registry (g :: unit gateway) = BackendRegistry_init ''a=http://a,b=http://b'' ''m'' \<and>
     failover demo_ext S (\<lambda>u. if u = ''http://b/v1/chat/completions'' then Some \<lparr>up_status = 200, up_cache_hit = None\<rparr> else None)
       (\<lambda>i g. g) (\<lambda>i. 0) 0 (demo_chat [''a'', ''b'']) g = (Inr (c', Some (r, \<lparr>up_status = 200, up_cache_hit = None\<rparr>)), g') \<and>
     res_backend r = ''b''"
proof -
  obtain S0 g0 where "Gateway.start demo_ext demo_env () = Inr (S0, g0)" using demo_start by blast
  define S where "S = S0\<lparr>s_cfg := (s_cfg S0)\<lparr>Config.block_chars := 64, Config.block_tokens := 16, Config.hysteresis_ms := 5, max_retries := 2\<rparr>\<rparr>"
  define g where "g = set_registry (BackendRegistry_init ''a=http://a,b=http://b'' ''m'') g0"
  define u where "u x = (if x = ''a'' then ''http://a'' else ''http://b'')" for x :: string
  let ?conn = "\<lambda>u. if u = ''http://b/v1/chat/completions'' then Some \<lparr>up_status = 200, up_cache_hit = None\<rparr> else None"
  have "routable S" by (simp add: routable_def S_def)
  moreover have "\<forall>b \<in> set (c_remaining (demo_chat [''a'', ''b''])). url_of (g_registry g) b = Inr (u b)"
    by (simp add: demo_chat_def g_def u_def demo_registry)
  moreover have "int (length (c_remaining (demo_chat [''a'', ''b'']))) + int (c_retries (demo_chat [''a'', ''b''])) \<le> max_retries (s_cfg S) + 1"
    by (simp add: demo_chat_def S_def)
  ultimately obtain c' res g' where r: "failover demo_ext S ?conn (\<lambda>i g. g) (\<lambda>i. 0) 0 (demo_chat [''a'', ''b'']) g = (Inr (c', res), g')"
    "res = None \<longleftrightarrow> (\<forall>b \<in> set (c_remaining (demo_chat [''a'', ''b''])). ?conn (u b @ ''/v1/chat/completions'') = None)"
    "\<forall>r up. res = Some (r, up) \<longrightarrow> res_backend r \<in> set (c_remaining (demo_chat [''a'', ''b''])) \<and>
       ?conn (u (res_backend r) @ ''/v1/chat/completions'') = Some up"
    using failover_finds_reachable [of S "demo_chat [''a'', ''b'']" "\<lambda>i g. g" g u demo_ext ?conn "\<lambda>i. 0" 0] by auto
  from r(2) have "res \<noteq> None" by (simp add: demo_chat_def u_def)
  then obtain rt up where res: "res = Some (rt, up)" by auto
  with r(3) have "res_backend rt = ''b''" "up = \<lparr>up_status = 200, up_cache_hit = None\<rparr>"
    by (auto simp: demo_chat_def u_def split: if_splits)
  then show ?thesis using r(1) res by (auto simp: g_def intro!: exI [of _ S] exI [of _ g])
qed

subsection \<open>Disaggregated routes\<close>

lemma disagg_prefill_only:
  assumes "prefill_pool reg = [b]"
  shows "\<exists>d. choose_disaggregated n reg l c (Some k) pm = Inr (Some d) \<and> prefill_backend d = b"
proof -
  obtain pb db where run: "choose_disaggregated n reg l c (Some k) pm = Inr (Some (disagg_decide (\<lambda>b. prefill_ms b n pm l c)
       (\<lambda>b. decode_ms b k l c) pb db (kv_transfer_ms n (kv_bytes_per_token c) (link_gbps c)) (disagg_margin_ms c) (coloc_pool reg l c)))"
    and "prefill_pool reg \<noteq> [] \<Longrightarrow> pb \<in> set (prefill_pool reg)"
    using choose_disaggregated_run [of reg n l c k pm] assms by (metis list.simps(3))
  then have pb: "pb = b" using assms by simp
  define d where "d = disagg_decide (\<lambda>b. prefill_ms b n pm l c) (\<lambda>b. decode_ms b k l c) pb db
    (kv_transfer_ms n (kv_bytes_per_token c) (link_gbps c)) (disagg_margin_ms c) (coloc_pool reg l c)"
  from d_def have "prefill_backend d = b"
  proof (cases rule: disagg_decide_cases)
    case split
    then show ?thesis using pb by simp
  next
    case (one x)
    then have "x \<in> set (colocatable reg)"
      using da_candidates_sub [of "colocatable reg" l c] by (auto simp: coloc_pool_def split: if_splits)
    then show ?thesis using one(1) coloc_pools assms by fastforce
  qed
  then show ?thesis using run d_def by blast
qed

text \<open>
  C30. The disaggregated route replaces the candidates instead of choosing among them: when one
  backend has the prefill role, every request that reaches the stage is sent to it, whatever its
  candidates are and whatever the registry, the circuits and the session say, so a drained, failed
  or removed backend goes on receiving all the traffic.
\<close>

theorem disagg_bypasses_candidates:
  assumes "s_pools S = Some reg" and "prefill_pool reg = [b]" and "Config.block_chars (s_cfg S) \<noteq> 0" and "c_remaining c \<noteq> []"
  shows "\<exists>c' g'. disagg_stage S c g = (Inr (Go c'), g') \<and> c_remaining c' = [b]"
proof -
  obtain hs where hs: "block_hashes (c_prompt c) (Config.block_chars (s_cfg S)) (Config.hash_cutoff_blocks (s_cfg S)) (c_seed c) = Inr hs"
    using block_hashes_ok [OF assms(3)] by blast
  obtain d where "choose_disaggregated (int (c_input c)) reg (g_load g) (s_disagg S) (Some (c_reserved c))
      (map (\<lambda>b. (b, int (match_get (radix_match (g_tree g) hs) b))) (c_remaining c)) = Inr (Some d)" "prefill_backend d = b"
    using disagg_prefill_only [OF assms(2)] by blast
  then show ?thesis using hs assms(1,4) by (simp add: disagg_stage_def Let_def)
qed

text \<open>Here the only candidate is \<open>b\<close>, because \<open>a\<close> is draining, and the request goes to \<open>a\<close>.\<close>

lemma drained_demo:
  "let r = snd (set_draining (BackendRegistry_init ''a=http://a,b=http://b'' ''m'') ''a'' True)
   in ids_for (set_health (set_health r ''a'' True) ''b'' True) (Some ''m'') = [''b'']"
  by code_simp

theorem disagg_bypasses_candidates_witness:
  "\<exists>S g c' g'. ids_for (g_registry (g :: unit gateway)) (Some ''m'') = [''b''] \<and>
     disagg_stage S (demo_chat [''b'']) g = (Inr (Go c'), g') \<and> c_remaining c' = [''a'']"
proof -
  obtain S0 g0 where "Gateway.start demo_ext demo_env () = Inr (S0, g0)" using demo_start by blast
  define S where "S = S0\<lparr>s_cfg := (s_cfg S0)\<lparr>Config.block_chars := 64\<rparr>, s_pools := Some [(''a'', {ROLE_PREFILL}), (''b'', {ROLE_DECODE})]\<rparr>"
  define r where "r = snd (set_draining (BackendRegistry_init ''a=http://a,b=http://b'' ''m'') ''a'' True)"
  define g where "g = set_registry (set_health (set_health r ''a'' True) ''b'' True) g0"
  have "prefill_pool [(''a'', {ROLE_PREFILL}), (''b'', {ROLE_DECODE})] = [''a'']"
    by (simp add: prefill_pool_def ROLE_PREFILL_def ROLE_DECODE_def)
  then obtain c' g' where "disagg_stage S (demo_chat [''b'']) g = (Inr (Go c'), g')" "c_remaining c' = [''a'']"
    using disagg_bypasses_candidates [of S "[(''a'', {ROLE_PREFILL}), (''b'', {ROLE_DECODE})]" "''a''" "demo_chat [''b'']" g]
    by (auto simp: S_def demo_chat_def)
  moreover have "ids_for (g_registry g) (Some ''m'') = [''b'']" using drained_demo by (simp add: g_def r_def Let_def)
  ultimately show ?thesis by blast
qed


subsection \<open>Cached answers\<close>



end
