(* ===== verification/Mock_Backend.thy ===== *)
theory Mock_Backend
  imports Chat_Props
begin

section \<open>The mock backend\<close>

text \<open>
  \<^verbatim>\<open>mock_backend/app.py\<close>: a backend with a prefix cache of its own (least recently used blocks,
  hashed like the gateway hashes them), token streaming in the event format of the OpenAI API, and
  injected failures and latency spikes.  The random generator is the sequence of numbers its seed
  gives; sleeping is the duration slept.  The same cache is \<open>SimBackend\<close> of \<^verbatim>\<open>bench/sim.py\<close>.

  Against it the gateway's two beliefs can be checked: what the radix tree says a backend has
  cached, and how many tokens a stream delivered.
\<close>

subsection \<open>The prefix cache\<close>

type_synonym 'h kv_cache = "('h, unit) dict"

fun kv_hits :: "'h kv_cache \<Rightarrow> 'h list \<Rightarrow> nat" where
  "kv_hits cache [] = 0"
| "kv_hits cache (h # hs) = (if h \<in> set (dkeys cache) then Suc (kv_hits cache hs) else 0)"

definition kv_use :: "int \<Rightarrow> 'h kv_cache \<Rightarrow> 'h \<Rightarrow> 'h kv_cache" where
  "kv_use capb cache h =
     (if h \<in> set (dkeys cache) then move_to_end h cache
      else let c = cache @ [(h, ())] in if int (length c) > capb then tl c else c)"

definition process :: "int \<Rightarrow> 'h kv_cache \<Rightarrow> 'h list \<Rightarrow> nat \<times> 'h kv_cache" where
  "process capb cache hashes = (kv_hits cache hashes, foldl (kv_use capb) cache hashes)"


subsection \<open>The application\<close>

record MockBackend =
  mk_node :: string
  mk_cap :: int
  mk_prefill_s :: pyfloat
  mk_default_tokens :: int
  mk_decode_s :: pyfloat
  mk_fail_rate :: pyfloat
  mk_spike_rate :: pyfloat
  mk_spike_s :: pyfloat
  mk_cache :: "block_hash kv_cache"
  mk_inflight :: int
  mk_draws :: nat

definition create_app ::
  "string \<Rightarrow> int \<Rightarrow> pyfloat \<Rightarrow> pyfloat \<Rightarrow> int \<Rightarrow> pyfloat option \<Rightarrow> pyfloat \<Rightarrow> pyfloat \<Rightarrow> pyfloat \<Rightarrow> MockBackend" where
  "create_app node capb prefill_s delay_s default_tokens decode_s fail_rate spike_rate spike_s =
     \<lparr>mk_node = node, mk_cap = capb, mk_prefill_s = prefill_s, mk_default_tokens = default_tokens,
      mk_decode_s = (case decode_s of None \<Rightarrow> delay_s | Some d \<Rightarrow> d), mk_fail_rate = fail_rate, mk_spike_rate = spike_rate,
      mk_spike_s = spike_s, mk_cache = [], mk_inflight = 0, mk_draws = 0\<rparr>"

text \<open>\<open>base[:n]\<close> with a negative \<open>n\<close> counts from the end.\<close>

definition slice_to :: "int \<Rightarrow> 'a list \<Rightarrow> 'a list" where
  "slice_to n xs = take (nat (if n < 0 then int (length xs) + n else n)) xs"

definition decode_tokens :: "int \<Rightarrow> string \<Rightarrow> string list" where
  "decode_tokens n node =
     (let base = [''Hello'', '' from'', '' '' @ node, ''.''] in
      if n \<le> 4 then slice_to n base
      else butlast base @ map (\<lambda>i. '' t'' @ show_nat i) [0..<nat (n - 4 + 1)])"

definition mock_cfg :: Config where
  "mock_cfg = Config_of Config_fields"

definition salt_seed :: "json \<Rightarrow> int result" where
  "salt_seed v =
     (if \<not> json_truthy v then Inr 0
      else case v of JStr s \<Rightarrow> Inr (uint (stable_seed s)) | _ \<Rightarrow> Inl AttributeError)"

text \<open>The hashes the backend computes for a request body.\<close>

definition mock_hashes :: "(pyfloat \<Rightarrow> string) \<Rightarrow> jobj \<Rightarrow> block_hash list result" where
  "mock_hashes fl d =
     res_bind (extract_prompt fl (body_get d ''messages'' (JArr []))) (\<lambda>prompt.
     res_bind (salt_seed (body_get d ''cache_salt'' JNull)) (\<lambda>s.
       block_hashes prompt (Config.block_chars mock_cfg) (Config.hash_cutoff_blocks mock_cfg) s))"

text \<open>A positive integer (\<open>true\<close> is one for Python) or the default.\<close>

definition mock_tokens :: "MockBackend \<Rightarrow> json \<Rightarrow> int" where
  "mock_tokens m v =
     (case v of
        JInt n \<Rightarrow> if n > 0 then n else mk_default_tokens m
      | JBool b \<Rightarrow> if b then 1 else mk_default_tokens m
      | _ \<Rightarrow> mk_default_tokens m)"

record mock_stream =
  ms_stall_s :: pyfloat
  ms_tokens :: "string list"
  ms_model :: json
  ms_headers :: "(string, string) dict"

definition node_overloaded :: "string \<Rightarrow> response" where
  "node_overloaded node =
     JSONResponse 503 (JObj [(''error'', JObj [(''message'', JStr (node @ '' overloaded'')), (''type'', JStr ''server_error'')])])
       [(''Retry-After'', ''1'')]"

definition draw :: "MockBackend \<Rightarrow> pyfloat \<Rightarrow> (nat \<Rightarrow> pyfloat) \<Rightarrow> bool \<times> MockBackend" where
  "draw m rate rng = (if rate > 0 then (rng (mk_draws m) < rate, m\<lparr>mk_draws := mk_draws m + 1\<rparr>) else (False, m))"

text \<open>The handler up to the response, whose stream runs later.\<close>

definition mock_chat ::
  "(pyfloat \<Rightarrow> string) \<Rightarrow> (nat \<Rightarrow> pyfloat) \<Rightarrow> json \<Rightarrow> MockBackend \<Rightarrow> (response + mock_stream) result \<times> MockBackend" where
  "mock_chat fl rng body m =
     (let (fails, m1) = draw m (mk_fail_rate m) rng in
      if fails then (Inr (Inl (node_overloaded (mk_node m))), m1)
      else let (spikes, m2) = draw m1 (mk_spike_rate m1) rng in
        case body of
          JObj d \<Rightarrow>
            (case mock_hashes fl d of
               Inl err \<Rightarrow> (Inl err, m2)
             | Inr hs \<Rightarrow>
                 let (hit, cache) = process (mk_cap m) (mk_cache m2) hs;
                     uncached = max 0 (int (length hs) - int hit);
                     n = mock_tokens m (body_get d ''max_tokens'' JNull)
                 in (Inr (Inr \<lparr>ms_stall_s = (if spikes then mk_spike_s m else 0) + of_int uncached * mk_prefill_s m,
                       ms_tokens = decode_tokens n (mk_node m), ms_model = body_get d ''model'' (JStr ''mock-model''),
                       ms_headers = [(''x-prefix-cache-hit'', if hit > 2 then ''true'' else ''false''),
                         (''x-cache-hit-blocks'', show_nat hit), (''x-total-blocks'', show_nat (length hs)),
                         (''x-decode-tokens'', show_int n)]\<rparr>),
                     m2\<lparr>mk_cache := cache, mk_inflight := mk_inflight m2 + 1\<rparr>))
        | _ \<Rightarrow> (Inl AttributeError, m2))"

definition mock_finish :: "MockBackend \<Rightarrow> MockBackend" where
  "mock_finish m = m\<lparr>mk_inflight := mk_inflight m - 1\<rparr>"

definition mock_health :: "MockBackend \<Rightarrow> json" where
  "mock_health m = JObj [(''node'', JStr (mk_node m)), (''status'', JStr ''ok'')]"

definition mock_metrics :: "MockBackend \<Rightarrow> json result" where
  "mock_metrics m =
     (if mk_cap m = 0 then Inl ZeroDivisionError
      else Inr (JObj [(''node'', JStr (mk_node m)), (''kv_usage'', JFloat (of_nat (length (mk_cache m)) / of_int (mk_cap m))),
                      (''running'', JInt (mk_inflight m))]))"

text \<open>\<open>json.dumps\<close> with its default separators; the digits of a float are the parameter.\<close>

fun dumps_spaced :: "(pyfloat \<Rightarrow> string) \<Rightarrow> json \<Rightarrow> string" where
  "dumps_spaced fl JNull = ''null''"
| "dumps_spaced fl (JBool b) = (if b then ''true'' else ''false'')"
| "dumps_spaced fl (JInt i) = show_int i"
| "dumps_spaced fl (JFloat x) = fl x"
| "dumps_spaced fl (JStr s) = json_string s"
| "dumps_spaced fl (JArr vs) = ''['' @ py_joins '', '' (map (dumps_spaced fl) vs) @ '']''"
| "dumps_spaced fl (JObj kvs) =
     ''{'' @ py_joins '', '' (map (\<lambda>kv. json_string (fst kv) @ '': '' @ dumps_spaced fl (snd kv)) kvs) @ ''}''"

definition sse_event :: "string \<Rightarrow> string" where
  "sse_event payload = ''data: '' @ payload @ [CHR 0x0A, CHR 0x0A]"

definition mock_chunk :: "nat \<Rightarrow> json \<Rightarrow> nat \<Rightarrow> string \<Rightarrow> json" where
  "mock_chunk created md i tok =
     JObj [(''id'', JStr (''chatcmpl-'' @ show_nat created @ ''-'' @ show_nat i)), (''object'', JStr ''chat.completion.chunk''),
           (''created'', JInt (int created)), (''model'', md),
           (''choices'', JArr [JObj [(''index'', JInt 0), (''delta'', JObj [(''content'', JStr tok)]), (''finish_reason'', JNull)]])]"

text \<open>What the generator yields, one string per \<open>yield\<close>.\<close>

definition mock_chunks :: "(pyfloat \<Rightarrow> string) \<Rightarrow> nat \<Rightarrow> mock_stream \<Rightarrow> string list" where
  "mock_chunks fl created s =
     map (\<lambda>(i, tok). sse_event (dumps_spaced fl (mock_chunk created (ms_model s) i tok))) (enumerate 0 (ms_tokens s)) @
     [sse_event ''[DONE]'']"

subsection \<open>Start from the environment\<close>

definition env_or :: "environ \<Rightarrow> string \<Rightarrow> string \<Rightarrow> string" where
  "env_or env k v = (case env k of None \<Rightarrow> v | Some s \<Rightarrow> s)"

definition finite_float :: "string \<Rightarrow> pyfloat result" where
  "finite_float s = res_bind (py_float s) (\<lambda>x. case x of FloatFin v \<Rightarrow> Inr v | _ \<Rightarrow> Inl NotModelled)"

definition opt_float :: "environ \<Rightarrow> string \<Rightarrow> pyfloat option result" where
  "opt_float env k = (case env k of None \<Rightarrow> Inr None | Some s \<Rightarrow> res_bind (finite_float s) (\<lambda>v. Inr (Some v)))"

text \<open>The seed only selects the sequence \<open>rng\<close>.\<close>

definition mock_app :: "environ \<Rightarrow> (MockBackend \<times> int) result" where
  "mock_app env =
     res_bind (py_int (env_or env ''MOCK_CAP_BLOCKS'' ''600'')) (\<lambda>capb.
     res_bind (finite_float (env_or env ''MOCK_PREFILL_S_PER_BLOCK'' ''0.001'')) (\<lambda>prefill_s.
     res_bind (finite_float (env_or env ''MOCK_TOKEN_DELAY_S'' ''0.002'')) (\<lambda>delay_s.
     res_bind (py_int (env_or env ''MOCK_DEFAULT_MAX_TOKENS'' ''4'')) (\<lambda>default_tokens.
     res_bind (opt_float env ''MOCK_DECODE_S_PER_TOKEN'') (\<lambda>decode_s.
     res_bind (finite_float (env_or env ''MOCK_FAIL_RATE'' ''0.0'')) (\<lambda>fail_rate.
     res_bind (finite_float (env_or env ''MOCK_SPIKE_RATE'' ''0.0'')) (\<lambda>spike_rate.
     res_bind (finite_float (env_or env ''MOCK_SPIKE_S'' ''0.0'')) (\<lambda>spike_s.
     res_bind (py_int (env_or env ''MOCK_SEED'' ''0'')) (\<lambda>seed.
       Inr (create_app (env_or env ''MOCK_NODE_ID'' ''mock'') capb prefill_s delay_s default_tokens decode_s fail_rate
              spike_rate spike_s, seed))))))))))"

subsection \<open>The cache is least recently used\<close>

lemma kv_use_keys:
  assumes "distinct (dkeys cache)" "int (length cache) \<le> capb" "0 \<le> capb"
  shows "dkeys (kv_use capb cache h) = lastn (nat capb) (remdups (dkeys cache @ [h]))"
proof (cases "h \<in> set (dkeys cache)")
  case True
  then have "dkeys (move_to_end h cache) = filter (\<lambda>x. x \<noteq> h) (dkeys cache) @ [h]"
    using keys_touch [of cache h "()"] map_of_None_dkeys [of cache h]
    by (auto simp: dkeys_def move_to_end_def lru_touch_def split: option.split)
  moreover have "length (filter (\<lambda>x. x \<noteq> h) (dkeys cache)) < length (dkeys cache)"
    using True by (intro length_filter_less [of h]) auto
  ultimately show ?thesis using True assms
    by (simp add: kv_use_def remdups_snoc distinct_remdups_id lastn_all dkeys_def)
next
  case False
  then have eq: "remdups (dkeys cache @ [h]) = dkeys (cache @ [(h, ())])"
    using assms(1) by (simp add: distinct_remdups_id dkeys_def)
  show ?thesis
  proof (cases "int (length cache) = capb")
    case True
    then have "nat capb = length cache" by simp
    then have "lastn (nat capb) (dkeys (cache @ [(h, ())])) = dkeys (tl (cache @ [(h, ())]))"
      by (cases cache) (simp_all add: lastn_def dkeys_def)
    then show ?thesis using False True eq by (simp add: kv_use_def)
  next
    case less: False
    then have "lastn (nat capb) (dkeys (cache @ [(h, ())])) = dkeys (cache @ [(h, ())])"
      using assms(2) by (intro lastn_all) (simp add: dkeys_def)
    then show ?thesis using False less assms(2) eq by (simp add: kv_use_def)
  qed
qed

text \<open>The cache after a sequence of requests, from empty.\<close>

definition kv_run :: "int \<Rightarrow> 'h list list \<Rightarrow> 'h kv_cache" where
  "kv_run capb reqs = foldl (\<lambda>c hs. snd (process capb c hs)) [] reqs"

lemma kv_run_concat: "kv_run capb reqs = foldl (kv_use capb) [] (concat reqs)"
  unfolding kv_run_def process_def by (induction reqs rule: rev_induct) auto

lemma kv_run_keys:
  assumes "0 \<le> capb"
  shows "dkeys (kv_run capb reqs) = lastn (nat capb) (remdups (concat reqs))"
proof -
  have "dkeys (foldl (kv_use capb) [] hs) = lastn (nat capb) (remdups hs)" for hs
  proof (induction hs rule: rev_induct)
    case Nil
    then show ?case by (simp add: dkeys_def lastn_def)
  next
    case IH: (snoc h hs)
    have "length (foldl (kv_use capb) [] hs) \<le> nat capb" using arg_cong [OF IH, of length] by (simp add: dkeys_def)
    then have "dkeys (kv_use capb (foldl (kv_use capb) [] hs) h) = lastn (nat capb) (remdups (lastn (nat capb) (remdups hs) @ [h]))"
      using kv_use_keys [of "foldl (kv_use capb) [] hs" capb h] IH assms by (simp add: distinct_lastn)
    also have "\<dots> = lastn (nat capb) (remdups (hs @ [h]))"
      using lastn_remdups_append [of "remdups hs" "nat capb" "[h]"] distinct_remdups_id [OF distinct_remdups, of hs]
      by (simp add: remdups_append_filter)
    finally show ?case by simp
  qed
  then show ?thesis by (simp add: kv_run_concat)
qed

lemma kv_hits_prefix: "kv_hits cache hs = length (takeWhile (\<lambda>h. h \<in> set (dkeys cache)) hs)"
  by (induction hs) auto

text \<open>The last request is in the cache if it fits, and only what was sent can be.\<close>

lemma kv_last_fits:
  assumes "0 \<le> capb" "int (length (remdups hs)) \<le> capb"
  shows "set hs \<subseteq> set (dkeys (kv_run capb (reqs @ [hs])))"
proof -
  have "set hs \<subseteq> set (lastn (nat capb) (filter (\<lambda>x. x \<notin> set hs) (remdups (concat reqs)) @ remdups hs))"
    using assms(2) by (subst lastn_append_left) auto
  then show ?thesis unfolding kv_run_keys [OF assms(1)] by (simp add: remdups_append_filter)
qed

lemma kv_only_sent: "0 \<le> capb \<Longrightarrow> set (dkeys (kv_run capb reqs)) \<subseteq> set (concat reqs)"
  using set_lastn [of "nat capb" "remdups (concat reqs)"] by (simp add: kv_run_keys)

text \<open>
  The backend's cache is exactly its last uses: after any sequence of requests it holds the
  blocks used most recently, as many as its capacity allows, in the order of their last use; and a
  request that fits, when it is repeated at once, hits with all its blocks.
\<close>

theorem kv_cache_lru:
  assumes "0 \<le> capb"
  shows "dkeys (kv_run capb reqs) = lastn (nat capb) (remdups (concat reqs)) \<and>
    (int (length (remdups hs)) \<le> capb \<longrightarrow> fst (process capb (kv_run capb (reqs @ [hs])) hs) = length hs)"
proof (intro conjI impI)
  show "dkeys (kv_run capb reqs) = lastn (nat capb) (remdups (concat reqs))" by (rule kv_run_keys [OF assms])
  assume "int (length (remdups hs)) \<le> capb"
  then have "\<forall>h \<in> set hs. h \<in> set (dkeys (kv_run capb (reqs @ [hs])))" using kv_last_fits [OF assms] by blast
  then show "fst (process capb (kv_run capb (reqs @ [hs])) hs) = length hs"
    by (simp add: process_def kv_hits_prefix takeWhile_eq_all_conv [THEN iffD2])
qed

theorem kv_cache_lru_witness:
  "dkeys (kv_run 3 [[1, 2], [1, 3, 4 :: block_hash]]) = [1, 3, 4] \<and> fst (process 3 (kv_run 3 ([[1, 2]] @ [[1, 3, 4 :: block_hash]])) [1, 3, 4]) = 3"
proof -
  have "(4 :: block_hash) \<noteq> 3" "(4 :: block_hash) \<noteq> 1" "(3 :: block_hash) \<noteq> 1" "(2 :: block_hash) \<noteq> 1" "(2 :: block_hash) \<noteq> 3"
    "(2 :: block_hash) \<noteq> 4" by simp_all
  then show ?thesis
    using kv_cache_lru [of 3 "[[1, 2], [1, 3, 4 :: block_hash]]" "[]"] kv_cache_lru [of 3 "[[1, 2 :: block_hash]]" "[1, 3, 4]"] by (simp add: lastn_def)
qed

subsection \<open>The gateway's belief and the backend's truth\<close>

text \<open>
  A sequence of dispatches, as the gateway records them in its tree and as one backend sees them.
\<close>

definition belief :: "int \<Rightarrow> (block_hash list \<times> string) list \<Rightarrow> RadixTree" where
  "belief capb ds = tree_run capb (map (\<lambda>(hs, b). OpInsert hs b) ds)"

definition sent :: "string \<Rightarrow> (block_hash list \<times> string) list \<Rightarrow> block_hash list list" where
  "sent b ds = map fst (filter (\<lambda>d. snd d = b) ds)"

text \<open>
  No two different prefixes of the chains have the same hash at their end: the chained hash of a
  block stands for everything up to it.
\<close>

definition collision_free :: "block_hash list set \<Rightarrow> bool" where
  "collision_free C \<longleftrightarrow> (\<forall>xs \<in> C. \<forall>ys \<in> C. \<forall>i < length xs. \<forall>j < length ys. xs ! i = ys ! j \<longrightarrow> take (Suc i) xs = take (Suc j) ys)"

lemma collision_freeD:
  "collision_free C \<Longrightarrow> xs \<in> C \<Longrightarrow> ys \<in> C \<Longrightarrow> i < length xs \<Longrightarrow> j < length ys \<Longrightarrow> xs ! i = ys ! j \<Longrightarrow>
     take (Suc i) xs = take (Suc j) ys"
  unfolding collision_free_def by blast

definition front_parts :: "block_hash list list \<Rightarrow> block_hash list set" where
  "front_parts xss = (\<Union>xs \<in> set xss. {p. p \<noteq> [] \<and> prefix p xs})"

lemma front_parts_take:
  assumes "p \<in> front_parts xss"
  obtains xs i where "xs \<in> set xss" "i < length xs" "p = take (Suc i) xs" "last p = xs ! i"
proof -
  obtain xs where xs: "xs \<in> set xss" "p \<noteq> []" "prefix p xs" using assms by (auto simp: front_parts_def)
  then have "p = take (length p) xs" "length p \<le> length xs"
    by (auto simp: prefix_def)
  moreover from xs(2) obtain i where "length p = Suc i" by (cases p) auto
  ultimately show thesis using that [of xs i] xs(1) by (simp add: take_Suc_conv_app_nth)
qed

lemma take_front_parts: "xs \<in> set xss \<Longrightarrow> i < length xs \<Longrightarrow> take (Suc i) xs \<in> front_parts xss"
  using take_is_prefix [of "Suc i" xs] by (auto simp: front_parts_def simp del: take_Suc)

lemma nth_concat: "xs \<in> set xss \<Longrightarrow> i < length xs \<Longrightarrow> xs ! i \<in> set (concat xss)"
  using nth_mem by fastforce

lemma finite_front_parts [simp]: "finite (front_parts xss)"
proof -
  have "{p. p \<noteq> [] \<and> prefix p xs} \<subseteq> set (prefixes xs)" for xs :: "block_hash list" by auto
  then show ?thesis unfolding front_parts_def by (auto intro: finite_subset)
qed

lemma card_front_parts:
  assumes "collision_free C" "set xss \<subseteq> C"
  shows "card (front_parts xss) = card (set (concat xss))"
proof (rule bij_betw_same_card)
  show "bij_betw last (front_parts xss) (set (concat xss))"
  proof (rule bij_betw_imageI)
    show "inj_on last (front_parts xss)"
    proof (rule inj_onI)
      fix p q assume pq: "p \<in> front_parts xss" "q \<in> front_parts xss" "last p = last q"
      obtain xs i where p: "xs \<in> set xss" "i < length xs" "p = take (Suc i) xs" "last p = xs ! i"
        using front_parts_take [OF pq(1)] .
      obtain ys j where q: "ys \<in> set xss" "j < length ys" "q = take (Suc j) ys" "last q = ys ! j"
        using front_parts_take [OF pq(2)] .
      have "xs ! i = ys ! j" using pq(3) p(4) q(4) by simp
      then show "p = q" unfolding p(3) q(3)
        using collision_freeD [OF assms(1)] p(1,2) q(1,2) assms(2) by blast
    qed
    show "last ` front_parts xss = set (concat xss)"
    proof (intro equalityI subsetI)
      fix h assume "h \<in> last ` front_parts xss"
      then obtain p where "p \<in> front_parts xss" "h = last p" by blast
      then show "h \<in> set (concat xss)" using nth_concat by (metis front_parts_take)
    next
      fix h assume "h \<in> set (concat xss)"
      then obtain xs i where "xs \<in> set xss" "i < length xs" "h = xs ! i" by (auto simp: in_set_conv_nth)
      then show "h \<in> last ` front_parts xss"
        using take_front_parts [of xs xss i] by (auto simp: take_Suc_conv_app_nth intro!: image_eqI)
    qed
  qed
qed

lemma belief_held:
  "int (card (front_parts (sent b ds))) \<le> capb \<Longrightarrow> held_prefixes (belief capb ds) b = front_parts (sent b ds)"
proof (induction ds rule: rev_induct)
  case Nil
  then show ?case by (simp add: belief_def sent_def front_parts_def held_prefixes_init)
next
  case (snoc d ds)
  obtain hs b' where d: "d = (hs, b')" by force
  note ok = tree_run_ok_cap [of capb "map (\<lambda>(hs, b). OpInsert hs b) ds", folded belief_def]
  have run: "belief capb (ds @ [d]) = radix_insert (belief capb ds) hs b'" by (simp add: belief_def tree_run_def d)
  show ?case
  proof (cases "b' = b")
    case True
    then have parts: "front_parts (sent b (ds @ [d])) = front_parts (sent b ds) \<union> {p. p \<noteq> [] \<and> prefix p hs}"
      by (auto simp: sent_def front_parts_def d)
    then have "card (front_parts (sent b ds)) \<le> card (front_parts (sent b (ds @ [d])))"
      using finite_front_parts by (intro card_mono) blast+
    then have IH: "held_prefixes (belief capb ds) b = front_parts (sent b ds)" using snoc by simp
    show ?thesis using rt.held_ins_fits [OF ok(1), of b hs] snoc.prems ok(2) True
      unfolding run parts IH by simp
  next
    case False
    then have "sent b (ds @ [d]) = sent b ds" by (simp add: sent_def d)
    then show ?thesis using snoc rt.held_ins_other [OF ok(1), of b b' hs] False by (simp add: run)
  qed
qed

lemma contig_takeWhile:
  assumes "\<And>i. i < length hs \<Longrightarrow> P (Suc i) \<longleftrightarrow> Q (hs ! i)"
  shows "contig P (length hs) = length (takeWhile Q hs)"
proof -
  have "[1..<Suc (length hs)] = map Suc [0..<length hs]" by (simp add: map_Suc_upt del: upt_Suc)
  then have "contig P (length hs) = length (takeWhile (P \<circ> Suc) [0..<length hs])"
    by (simp add: contig_def takeWhile_map)
  also have "\<dots> = length (takeWhile (Q \<circ> nth hs) [0..<length hs])"
    using assms by (intro arg_cong [where f = length] takeWhile_cong) auto
  also have "\<dots> = length (takeWhile Q (map (nth hs) [0..<length hs]))" by (simp add: takeWhile_map)
  finally show ?thesis by (simp add: map_nth)
qed

text \<open>
  C5. While nothing had to be evicted, the gateway's belief is the backend's truth: after any
  sequence of dispatches over any backends, for a backend that was sent no more different blocks
  than fit, the number of blocks the tree predicts for a request is exactly the number of blocks
  that hit in the cache of the backend.  The chains of hashes are assumed free of collisions.
\<close>

theorem belief_is_truth:
  assumes "collision_free (insert hs (fst ` set ds))" and "int (card (set (concat (sent b ds)))) \<le> capb"
  shows "match_get (radix_match (belief capb ds) hs) b = fst (process capb (kv_run capb (sent b ds)) hs)"
proof -
  let ?U = "front_parts (sent b ds)" and ?S = "set (concat (sent b ds))"
  have sub: "set (sent b ds) \<subseteq> insert hs (fst ` set ds)" by (auto simp: sent_def)
  have "held_prefixes (belief capb ds) b = ?U"
    using belief_held assms(2) card_front_parts [OF assms(1) sub] by simp
  then have m: "radix_match (belief capb ds) hs b =
      (let k = contig (\<lambda>i. take i hs \<in> ?U) (length hs) in if 0 < k then Some k else None)"
    using rt.lookup_held [OF tree_run_ok_cap(1)] by (simp add: belief_def)
  have mem: "take (Suc i) hs \<in> ?U \<longleftrightarrow> hs ! i \<in> ?S" if "i < length hs" for i
  proof
    assume "take (Suc i) hs \<in> ?U"
    then obtain xs j where "xs \<in> set (sent b ds)" "j < length xs" "last (take (Suc i) hs) = xs ! j"
      by (rule front_parts_take)
    moreover from this(1,2) have "xs ! j \<in> ?S" by (rule nth_concat)
    ultimately show "hs ! i \<in> ?S" using that by (simp add: take_Suc_conv_app_nth)
  next
    assume "hs ! i \<in> ?S"
    then obtain xs j where x: "xs \<in> set (sent b ds)" "j < length xs" "hs ! i = xs ! j" by (auto simp: in_set_conv_nth)
    then have "take (Suc i) hs = take (Suc j) xs"
      using collision_freeD [OF assms(1), of hs xs i j] sub that by blast
    then show "take (Suc i) hs \<in> ?U" using take_front_parts [OF x(1,2)] by simp
  qed
  have "0 \<le> capb" using assms(2) by linarith
  then have "set (dkeys (kv_run capb (sent b ds))) = ?S"
    using kv_run_keys [of capb "sent b ds"] assms(2) by (simp add: lastn_all length_remdups_card_conv nat_le_iff le_nat_iff)
  then have "fst (process capb (kv_run capb (sent b ds)) hs) = length (takeWhile (\<lambda>h. h \<in> ?S) hs)"
    by (simp add: process_def kv_hits_prefix)
  also have "\<dots> = contig (\<lambda>i. take i hs \<in> ?U) (length hs)" by (rule contig_takeWhile [symmetric]) (rule mem)
  finally show ?thesis by (simp add: m match_get_def Let_def)
qed

theorem belief_is_truth_witness:
  "match_get (radix_match (belief 4 [([1, 2], ''a''), ([1, 3], ''b''), ([1, 2, 4], ''a'')]) [1, 2, 5]) ''a'' =
     fst (process 4 (kv_run 4 (sent ''a'' [([1, 2], ''a''), ([1, 3], ''b''), ([1, 2, 4], ''a'')])) [1, 2, 5])"
proof (rule belief_is_truth)
  show "collision_free (insert [1, 2, 5] (fst ` set [([1, 2], ''a''), ([1, 3], ''b''), ([1, 2, 4], ''a'')]))"
    by (auto simp: collision_free_def less_Suc_eq numeral_3_eq_3)
  show "int (card (set (concat (sent ''a'' [([1, 2], ''a''), ([1, 3], ''b''), ([1, 2, 4], ''a'')])))) \<le> 4"
    by (simp add: sent_def card_insert_if)
qed

subsection \<open>The hashes agree\<close>

text \<open>What a span that goes on with the request establishes of it.\<close>

definition goes :: "(chat \<Rightarrow> bool) \<Rightarrow> step result \<times> 'n gateway \<Rightarrow> bool" where
  "goes P r \<longleftrightarrow> (\<forall>c. fst r = Inr (Go c) \<longrightarrow> P c)"

lemma goes_on_go: "goes P r \<Longrightarrow> (\<And>c g. P c \<Longrightarrow> goes Q (f c g)) \<Longrightarrow> goes Q (on_go r f)"
  by (cases r) (auto simp: goes_def on_go_def st_bind_def split: sum.splits step.splits)

definition has_text :: "string \<Rightarrow> jobj \<Rightarrow> int \<Rightarrow> chat \<Rightarrow> bool" where
  "has_text p d s c \<longleftrightarrow> c_prompt c = p \<and> c_body c = d \<and> c_seed c = s"

lemma text_front: "has_text p d s c \<Longrightarrow> goes (has_text p d s) (front_stages X S hdr uuid now c g)"
  unfolding front_stages_def
  by (rule goes_on_go [where P = "has_text p d s"])
    (auto simp: goes_def has_text_def authenticate_def rate_limit_def Let_def split: sum.splits prod.splits if_splits)

lemma text_stages:
  assumes "has_text p d s c"
  shows "goes (has_text p d s) (semantic_stage S c g)" "goes (has_text p d s) (admission_stage X S c g)"
    "goes (has_text p d s) (disagg_stage S c g)" "goes (has_text p d s) (media_stage S c g)"
    "has_text p d s (fst (pin_stage now c g))" "has_text p d s (fst (rag_stage S c g))"
proof -
  show "goes (has_text p d s) (semantic_stage S c g)"
    using assms by (auto simp: goes_def semantic_stage_def split: option.splits sum.splits prod.splits)
  show "goes (has_text p d s) (admission_stage X S c g)"
    using assms by (auto simp: goes_def admission_stage_def st_bind_def Let_def split: sum.splits prod.splits if_splits)
  show "goes (has_text p d s) (disagg_stage S c g)"
    using assms by (auto simp: goes_def has_text_def disagg_stage_def split: option.splits sum.splits if_splits)
  show "goes (has_text p d s) (media_stage S c g)"
    using assms by (auto simp: goes_def has_text_def media_stage_def split: option.splits sum.splits if_splits)
  show "has_text p d s (fst (pin_stage now c g))"
    using assms by (auto simp: has_text_def pin_stage_def Let_def split: option.splits prod.splits)
  show "has_text p d s (fst (rag_stage S c g))"
    using assms by (auto simp: has_text_def rag_stage_def split: option.splits)
qed

text \<open>The body that is forwarded still says the prompt, and says the seed as the salt.\<close>

definition forwarded_ok :: "(pyfloat \<Rightarrow> string) \<Rightarrow> settings \<Rightarrow> chat \<Rightarrow> bool" where
  "forwarded_ok fl S c \<longleftrightarrow> extract_prompt fl (body_get (c_body c) ''messages'' (JArr [])) = Inr (c_prompt c) \<and>
     (if prefix_isolation (s_cfg S) = ''tenant''
      then \<exists>t. c_seed c = uint (stable_seed t) \<and> body_get (c_body c) ''cache_salt'' JNull = JStr t
      else c_seed c = 0)"

lemma parse_request_text:
  assumes "parse_request fl S hdr body = Inr c"
  shows "extract_prompt fl (body_get (c_body c) ''messages'' (JArr [])) = Inr (c_prompt c) \<and> c_seed c = 0"
  using assms
  by (auto simp: parse_request_def rag_rewrite_def body_get_def Let_def split: json.splits option.splits if_splits prod.splits)

lemma forwarded_text: "forwarded_ok fl S c \<Longrightarrow> has_text (c_prompt c) (c_body c) (c_seed c) c' \<Longrightarrow> forwarded_ok fl S c'"
  by (simp add: forwarded_ok_def has_text_def)

lemma forwarded_candidates:
  assumes "extract_prompt fl (body_get (c_body c) ''messages'' (JArr [])) = Inr (c_prompt c)" "c_seed c = 0"
  shows "goes (forwarded_ok fl S) (select_candidates X S c g)"
  using assms
  by (auto simp: goes_def forwarded_ok_def select_candidates_def Let_def tenant_seed_def body_get_def split: sum.splits if_splits)

lemma forwarded_goes:
  "(\<And>p d s. has_text p d s c \<Longrightarrow> goes (has_text p d s) r) \<Longrightarrow> forwarded_ok fl S c \<Longrightarrow> goes (forwarded_ok fl S) r"
  unfolding goes_def by (meson forwarded_text has_text_def)

lemma chat_begin_forwards: "goes (forwarded_ok (x_str X) S) (chat_begin X S hdr body uuid now g)"
proof (cases "parse_request (x_str X) S hdr body")
  case (Inr c)
  note p = parse_request_text [OF Inr]
  have "goes (has_text (c_prompt c) (c_body c) 0) (front_stages X S hdr uuid now c g)"
    using p by (intro text_front) (simp add: has_text_def)
  moreover have "goes (forwarded_ok (x_str X) S) (route_stages X S now c1 g1)" if "has_text (c_prompt c) (c_body c) 0 c1" for c1 g1
    unfolding route_stages_def
  proof (rule goes_on_go [OF goes_on_go [OF goes_on_go [OF goes_on_go]]])
    show "goes (forwarded_ok (x_str X) S) (select_candidates X S c1 g1)"
      using p that by (intro forwarded_candidates) (auto simp: has_text_def)
    show "goes (forwarded_ok (x_str X) S) (semantic_stage S c2 g2)" if "forwarded_ok (x_str X) S c2" for c2 g2
      using that by (rule forwarded_goes [rotated]) (rule text_stages)
    show "goes (forwarded_ok (x_str X) S) (disagg_stage S c2 g2)" if "forwarded_ok (x_str X) S c2" for c2 g2
      using that by (rule forwarded_goes [rotated]) (rule text_stages)
    show "goes (forwarded_ok (x_str X) S) (media_stage S c2 g2)" if "forwarded_ok (x_str X) S c2" for c2 g2
      using that by (rule forwarded_goes [rotated]) (rule text_stages)
    show "goes (forwarded_ok (x_str X) S)
        (let (c1, g1) = pin_stage now c2 g2; (c2, g2) = rag_stage S c1 g1 in admission_stage X S c2 g2)"
      if "forwarded_ok (x_str X) S c2" for c2 g2
    proof (rule forwarded_goes [OF _ that])
      fix p d s assume "has_text p d s c2"
      then have "has_text p d s (fst (rag_stage S (fst (pin_stage now c2 g2)) (snd (pin_stage now c2 g2))))"
        by (intro text_stages)
      from text_stages(2) [OF this]
      show "goes (has_text p d s) (let (c1, g1) = pin_stage now c2 g2; (c2, g2) = rag_stage S c1 g1 in admission_stage X S c2 g2)"
        by (simp add: Let_def split_beta)
    qed
  qed
  ultimately show ?thesis unfolding chat_begin_def Inr sum.case by (rule goes_on_go)
qed (simp add: chat_begin_def goes_def)

text \<open>
  C6. Gateway and backend hash the same prompt: for a request that reaches dispatch, in any later
  state, the chain of hashes of the routing decision is the chain the backend computes from the body
  that is forwarded to it, rewritten messages and tenant salt included, when both use the same block
  size and cutoff, the gateway hashes characters, the tenant has a non-empty id and, without tenant
  isolation, the client sent no salt of its own.
\<close>

theorem hashes_agree:
  assumes "chat_begin X S hdr body uuid now g = (Inr (Go c), g')" and "choose_backend X S c g1 = (Inr r, g2)"
    and "Config.block_chars (s_cfg S) = Config.block_chars mock_cfg"
    and "Config.hash_cutoff_blocks (s_cfg S) = Config.hash_cutoff_blocks mock_cfg" and "\<not> use_bpe_hashing (s_cfg S)"
    and "if prefix_isolation (s_cfg S) = ''tenant'' then body_get (c_body c) ''cache_salt'' JNull \<noteq> JStr []
      else \<not> json_truthy (body_get (c_body c) ''cache_salt'' JNull)"
  shows "mock_hashes (x_str X) (c_body c) = Inr (res_hashes r)"
proof -
  have f: "forwarded_ok (x_str X) S c" using chat_begin_forwards [of X S hdr body uuid now g] assms(1) by (simp add: goes_def)
  have "salt_seed (body_get (c_body c) ''cache_salt'' JNull) = Inr (c_seed c)"
    using f assms(6) by (auto simp: forwarded_ok_def salt_seed_def split: if_splits)
  moreover have "block_hashes (c_prompt c) (Config.block_chars (s_cfg S)) (Config.hash_cutoff_blocks (s_cfg S)) (c_seed c) =
      Inr (res_hashes r)"
    using assms(2,5)
    by (auto simp: choose_backend_def router_choose_def router_of_def hash_prompt_def Let_def split: sum.splits prod.splits)
  ultimately show ?thesis using f assms(3,4) by (simp add: mock_hashes_def forwarded_ok_def)
qed

text \<open>A gateway with every optional feature off.\<close>

definition plain :: "settings \<Rightarrow> settings" where
  "plain S = S\<lparr>s_cfg := (s_cfg S)\<lparr>Config.block_chars := Config.block_chars mock_cfg, Config.block_tokens := 16,
       Config.hash_cutoff_blocks := Config.hash_cutoff_blocks mock_cfg, Config.hysteresis_ms := 5,
       use_bpe_hashing := False, token_accurate_accounting := False, Config.chars_per_token := 4, rate_limit_enabled := False, backend_adapters := [],
       prefix_isolation := ''tenant'', session_affinity_enabled := False\<rparr>,
     s_auth := (s_auth S)\<lparr>auth_require := False\<rparr>, s_rag := (s_rag S)\<lparr>RagConfig.enabled := False\<rparr>,
     s_adm := (s_adm S)\<lparr>AdmissionConfig.enabled := False\<rparr>, s_pools := None, s_mm := (s_mm S)\<lparr>MultiModalConfig.enabled := False\<rparr>,
     s_tenants := (s_tenants S)\<lparr>by_key := [], anon := demo_tenant\<rparr>\<rparr>"

lemma mock_cfg_blocks: "Config.block_chars mock_cfg = 64" "Config.hash_cutoff_blocks mock_cfg = 512"
  by (simp_all add: mock_cfg_def Config_of_def int_field_def Config_fields_def)

definition demo_messages :: json where
  "demo_messages = JArr [JObj [(''role'', JStr ''user''), (''content'', JStr (replicate 64 CHR ''x''))]]"

lemma demo_prompt: "extract_prompt fl demo_messages = Inr (''user: '' @ replicate 64 CHR ''x'')"
  by (simp add: extract_prompt_def demo_messages_def body_get_def json_str_def)

lemma demo_hashes: "\<exists>hs. block_hashes (''user: '' @ replicate 64 CHR ''x'') (Config.block_chars mock_cfg) (Config.hash_cutoff_blocks mock_cfg) sd = Inr hs \<and>
   length hs = 1"
proof -
  have "length (utf8_encode (''user: '' @ replicate 64 CHR ''x'')) = 70"
    by (simp add: utf8_encode_def utf8_char_def length_concat sum_list_replicate)
  then show ?thesis
    using block_hashes_length [of "Config.block_chars mock_cfg" "''user: '' @ replicate 64 CHR ''x''" "Config.hash_cutoff_blocks mock_cfg" sd]
    by (simp add: mock_cfg_blocks)
qed

lemma plain_begin:
  assumes "g_sem g = None" "ids_for (g_registry g) None = [''a'']" "allow (g_breaker g) ''a'' 0"
  shows "\<exists>c g'. chat_begin demo_ext (plain S) (\<lambda>k. None) (JObj [(''messages'', demo_messages)]) ''u'' 0 g = (Inr (Go c), g') \<and>
    c_remaining c = [''a''] \<and> c_body c = [(''messages'', demo_messages), (''cache_salt'', JStr ''acme'')]"
  using assms
  by (simp add: chat_begin_def parse_request_def demo_prompt body_get_def rag_rewrite_def plain_def front_stages_def
      authenticate_def on_go_def check_def rate_limit_def estimate_prompt_tokens_def count_tokens_with_fallback_def
      requested_output_def route_stages_def select_candidates_def candidate_ids_def model_ids_def semantic_stage_def
      pin_stage_def rag_stage_def admission_stage_def disagg_stage_def media_stage_def closed_circuits_def
      Tenancy.resolve_def demo_tenant_def extract_bearer_def count_def Let_def)

lemma one_healthy: "ids_for (set_health (BackendRegistry_init ''a=http://a'' ''m'') ''a'' True) None = [''a'']"
  by code_simp

theorem hashes_agree_witness:
  "\<exists>S g c g' r g2. chat_begin demo_ext S (\<lambda>k. None) (JObj [(''messages'', demo_messages)]) ''u'' 0 (g :: unit gateway) = (Inr (Go c), g') \<and>
     choose_backend demo_ext S c g' = (Inr r, g2) \<and> mock_hashes (x_str demo_ext) (c_body c) = Inr (res_hashes r) \<and>
     length (res_hashes r) = 1 \<and> body_get (c_body c) ''cache_salt'' JNull = JStr ''acme''"
proof -
  obtain S0 g0 where "Gateway.start demo_ext demo_env () = Inr (S0, g0)" using demo_start by blast
  define g where "g = (set_registry (set_health (BackendRegistry_init ''a=http://a'' ''m'') ''a'' True) g0)
    \<lparr>g_sem := None, g_breaker := CircuitBreaker_init 3 10\<rparr>"
  have "g_sem g = None" "ids_for (g_registry g) None = [''a'']" "allow (g_breaker g) ''a'' 0"
    using one_healthy by (simp_all add: g_def allow_def circuit_state_def CircuitBreaker_init_def)
  from plain_begin [OF this, of S0] obtain c g' where
    c: "chat_begin demo_ext (plain S0) (\<lambda>k. None) (JObj [(''messages'', demo_messages)]) ''u'' 0 g = (Inr (Go c), g')" "c_remaining c = [''a'']"
      "c_body c = [(''messages'', demo_messages), (''cache_salt'', JStr ''acme'')]"
    by blast
  have "routable (plain S0)" by (simp add: routable_def plain_def mock_cfg_blocks)
  then obtain r g2 where r: "choose_backend demo_ext (plain S0) c g' = (Inr r, g2)"
    using choose_backend_ok [of "plain S0" c demo_ext g'] c(2) by auto
  have salt: "body_get (c_body c) ''cache_salt'' JNull = JStr ''acme''" by (simp add: c(3) body_get_def)
  have h: "mock_hashes (x_str demo_ext) (c_body c) = Inr (res_hashes r)"
    by (rule hashes_agree [OF c(1) r]) (simp_all add: plain_def salt)
  moreover have "extract_prompt fl (body_get (c_body c) ''messages'' (JArr [])) = Inr (''user: '' @ replicate 64 CHR ''x'')" for fl
    using demo_prompt by (simp add: c(3) body_get_def)
  moreover obtain sd where "salt_seed (JStr ''acme'') = Inr sd" by (simp add: salt_seed_def)
  ultimately have "length (res_hashes r) = 1" using demo_hashes [of sd] salt by (simp add: mock_hashes_def)
  with c(1) r h salt show ?thesis by blast
qed


subsection \<open>Counting the tokens of a stream\<close>

text \<open>Every colon of the text comes right after a quotation mark; \<open>q\<close> is the character before it.\<close>

fun quoted_colons :: "char \<Rightarrow> string \<Rightarrow> bool" where
  "quoted_colons q [] = True"
| "quoted_colons q (c # cs) = ((c = CHR '':'' \<longrightarrow> q = CHR 0x22) \<and> quoted_colons c cs)"

lemma quoted_colons_append [simp]: "quoted_colons q (s @ t) \<longleftrightarrow> quoted_colons q s \<and> quoted_colons (last (q # s)) t"
  by (induction s arbitrary: q) auto

lemma quoted_colons_none: "CHR '':'' \<notin> set s \<Longrightarrow> quoted_colons q s"
  by (induction s arbitrary: q) auto

lemma count_data_quoted: "quoted_colons q s \<Longrightarrow> count_data s = 0"
proof (induction s arbitrary: q)
  case (Cons c s)
  have "take 5 (c # s) \<noteq> ''data:''"
  proof
    assume "take 5 (c # s) = ''data:''"
    then have "c # s = ''data:'' @ drop 5 (c # s)" by (metis append_take_drop_id)
    then have "quoted_colons q (''data:'' @ drop 5 (c # s))" using Cons.prems by simp
    then show False by simp
  qed
  then have "count_data (c # s) = count_data s" by (subst count_data.simps) auto
  also have "\<dots> = 0" by (rule Cons.IH [of c]) (use Cons.prems in simp)
  finally show ?case .
qed (simp add: count_data.simps)

lemma count_data_event:
  assumes "quoted_colons (CHR '' '') payload"
  shows "count_data (sse_event payload) = 1"
proof -
  have "count_data (sse_event payload) = Suc (count_data ('' '' @ payload @ [CHR 0x0A, CHR 0x0A]))"
    by (subst count_data.simps) (simp add: sse_event_def)
  moreover have "quoted_colons (CHR 0x22) ('' '' @ payload @ [CHR 0x0A, CHR 0x0A])" using assms by simp
  then have "count_data ('' '' @ payload @ [CHR 0x0A, CHR 0x0A]) = 0" by (rule count_data_quoted)
  ultimately show ?thesis by simp
qed

lemma esc_char_colon: "c \<noteq> CHR '':'' \<Longrightarrow> CHR '':'' \<notin> set (esc_char c)"
proof -
  have hex: "d < 16 \<Longrightarrow> hex_digit d \<noteq> CHR '':''" for d
    using of_char_hex_digit [of d] by (auto dest!: arg_cong [where f = "of_char :: char \<Rightarrow> nat"] split: if_splits)
  have "(of_char c :: nat) < 256" by (rule of_char_less)
  then have "(of_char c :: nat) div 16 < 16" by (simp add: less_mult_imp_div_less)
  then have "hex_digit (of_char c div 16) \<noteq> CHR '':''" "hex_digit (of_char c mod 16) \<noteq> CHR '':''" using hex by simp_all
  moreover assume "c \<noteq> CHR '':''"
  ultimately show ?thesis by (auto simp: esc_char_def Let_def)
qed

lemma show_nat_colon [simp]: "CHR '':'' \<notin> set (show_nat n)"
  using show_nat_digits [of n] by (auto simp: py_isdigit_def)

lemma json_string_colon:
  assumes "CHR '':'' \<notin> set s"
  shows "CHR '':'' \<notin> set (json_string s)"
proof -
  have "CHR '':'' \<notin> set (esc_char c)" if "c \<in> set s" for c
    by (rule esc_char_colon) (use that assms in auto)
  then show ?thesis by (simp add: json_string_def)
qed

lemma json_string_ends [simp]: "json_string s \<noteq> []" "last (json_string s) = CHR 0x22"
  by (simp_all add: json_string_def)

lemma quoted_json_string: "CHR '':'' \<notin> set s \<Longrightarrow> quoted_colons q (json_string s)"
  by (rule quoted_colons_none) (rule json_string_colon)

lemma mock_chunk_quoted:
  assumes "CHR '':'' \<notin> set tok" "CHR '':'' \<notin> set md"
  shows "quoted_colons (CHR '' '') (dumps_spaced fl (mock_chunk created (JStr md) i tok))"
  using assms by (simp add: mock_chunk_def quoted_json_string show_int_def quoted_colons_none)

lemma length_decode_tokens: "0 \<le> n \<Longrightarrow> length (decode_tokens n node) = nat n"
proof (cases "n \<le> 4")
  case True
  assume "0 \<le> n"
  with True show ?thesis by (simp add: decode_tokens_def slice_to_def min_def) linarith
next
  case False
  then show ?thesis by (simp add: decode_tokens_def)
qed

lemma decode_tokens_colon:
  assumes "CHR '':'' \<notin> set node" "tok \<in> set (decode_tokens n node)"
  shows "CHR '':'' \<notin> set tok"
  using assms by (auto simp: decode_tokens_def slice_to_def Let_def split: if_splits dest!: in_set_takeD)

lemma count_mock_chunks:
  assumes "ms_model s = JStr md" "CHR '':'' \<notin> set md" "\<forall>tok \<in> set (ms_tokens s). CHR '':'' \<notin> set tok"
  shows "sum_list (map count_data (mock_chunks fl created s)) = Suc (length (ms_tokens s))"
proof -
  have "map count_data (map (\<lambda>(i, tok). sse_event (dumps_spaced fl (mock_chunk created (ms_model s) i tok))) (enumerate 0 (ms_tokens s))) =
      map (\<lambda>_. 1) (ms_tokens s)"
    using assms by (auto simp: in_set_enumerate_eq count_data_event mock_chunk_quoted intro!: nth_equalityI simp: nth_enumerate_eq)
  then have "sum_list (map count_data (map (\<lambda>(i, tok). sse_event (dumps_spaced fl (mock_chunk created (ms_model s) i tok)))
      (enumerate 0 (ms_tokens s)))) = length (ms_tokens s)"
    by (simp only: sum_list_triv map_replicate_const) (simp add: sum_list_replicate)
  moreover have "count_data (sse_event ''[DONE]'') = 1" by (rule count_data_event) simp
  ultimately show ?thesis by (simp add: mock_chunks_def)
qed

subsection \<open>Counting over transport chunks\<close>

text \<open>
  The gateway counts \<open>data:\<close> in each raw chunk of the transport, whose boundaries need not be those
  of the events.  A marker that begins in one chunk and ends in a later one is not seen.
\<close>

definition splits_marker :: "string \<Rightarrow> string \<Rightarrow> bool" where
  "splits_marker a b \<longleftrightarrow> (\<exists>k \<in> set [1, 2, 3, 4]. k \<le> length a \<and> drop (length a - k) a = take k ''data:'' \<and> take (5 - k) b = drop k ''data:'')"

fun split_markers :: "string list \<Rightarrow> nat" where
  "split_markers [] = 0"
| "split_markers (c # cs) = (if splits_marker c (concat cs) then 1 else 0) + split_markers cs"

lemma count_data_skip: "take 5 s \<noteq> ''data:'' \<Longrightarrow> s \<noteq> [] \<Longrightarrow> count_data s = count_data (tl s)"
  by (subst count_data.simps) simp

lemma count_data_marker: "count_data (''data:'' @ s) = Suc (count_data s)"
  by (subst count_data.simps) simp

lemma count_data_rest: "count_data (''ata:'' @ s) = count_data s"
  by (simp add: count_data_skip)

lemma count_data_Cons: "count_data (c # s) = count_data s + (if take 5 (c # s) = ''data:'' then 1 else 0)"
proof (cases "take 5 (c # s) = ''data:''")
  case True
  then have "c # s = ''data:'' @ drop 5 (c # s)" by (metis append_take_drop_id)
  then have "c # s = ''data:'' @ drop 4 s" by simp
  then have "s = ''ata:'' @ drop 4 s" "c = CHR ''d''" by auto
  then have "count_data s = count_data (drop 4 s)" "count_data (c # s) = Suc (count_data (drop 4 s))"
    using count_data_rest [of "drop 4 s"] count_data_marker [of "drop 4 s"] by auto
  with True show ?thesis by simp
next
  case False
  then show ?thesis by (subst count_data_skip) auto
qed

lemma splits_marker_Cons:
  "splits_marker (c # a) b \<longleftrightarrow> splits_marker a b \<or>
     length a < 4 \<and> c # a = take (Suc (length a)) ''data:'' \<and> take (4 - length a) b = drop (Suc (length a)) ''data:''"
  by (cases a; cases "tl a"; cases "tl (tl a)"; cases "tl (tl (tl a))") (auto simp: splits_marker_def)

lemma count_data_append: "count_data (a @ b) = count_data a + count_data b + (if splits_marker a b then 1 else 0)"
proof (induction a)
  case Nil
  show ?case by (simp add: splits_marker_def count_data.simps [of "[]"])
next
  case (Cons c a)
  show ?case
  proof (cases "length a < 4")
    case False
    then have "take 5 (c # a @ b) = take 5 (c # a)" by simp
    then show ?thesis using Cons False by (simp add: count_data_Cons splits_marker_Cons)
  next
    case True
    then have short: "take 5 (c # a) \<noteq> ''data:''" by (auto dest: arg_cong [where f = length])
    have "take 5 (c # a @ b) = ''data:'' \<longleftrightarrow> c # a = take (Suc (length a)) ''data:'' \<and> take (4 - length a) b = drop (Suc (length a)) ''data:''"
      using True by (cases a; cases "tl a"; cases "tl (tl a)"; cases "tl (tl (tl a))") auto
    moreover have "\<not> splits_marker a b" if "c # a = take (Suc (length a)) ''data:''"
      using that True by (cases a; cases "tl a"; cases "tl (tl a)"; cases "tl (tl (tl a))") (auto simp: splits_marker_def)
    ultimately show ?thesis using Cons True short by (auto simp: count_data_Cons splits_marker_Cons)
  qed
qed

lemma count_data_concat: "sum_list (map count_data cs) + split_markers cs = count_data (concat cs)"
  by (induction cs) (simp_all add: count_data_append count_data.simps [of "[]"])

lemma newline_whole: "\<not> splits_marker (s @ [CHR 0x0A]) b"
  by (auto simp: splits_marker_def Suc_diff_le dest!: arg_cong [where f = last])

lemma mock_chunks_whole: "split_markers (mock_chunks fl created s) = 0"
proof -
  have "split_markers cs = 0" if "\<forall>c \<in> set cs. \<exists>p. c = sse_event p" for cs
    using that
  proof (induction cs)
    case (Cons c cs)
    then obtain p where "c = (''data: '' @ p @ [CHR 0x0A]) @ [CHR 0x0A]" by (auto simp: sse_event_def)
    then have "\<not> splits_marker c (concat cs)" using newline_whole by metis
    then show ?case using Cons by simp
  qed simp
  moreover have "\<forall>c \<in> set (mock_chunks fl created s). \<exists>p. c = sse_event p" by (auto simp: mock_chunks_def)
  ultimately show ?thesis .
qed

text \<open>
  C12. The gateway bills what the backend generated, except for markers the transport splits: for
  every stream the backend answers with, however the transport cuts its bytes into chunks, the
  output tokens the gateway counts are the tokens generated less the \<open>data:\<close> markers that are cut
  in two by a chunk boundary (never less than none); in particular they are never more than the
  generated ones, and exactly these when no boundary cuts a marker, as with the chunks the backend
  yields.  The backend announces the same number in its header.  The model is a string without a
  colon, the node's name has no colon (the gateway counts \<open>data:\<close> wherever it stands), and the
  default number of tokens is not negative.
\<close>

theorem billed_is_generated:
  assumes "mock_chat fl rng body m = (Inr (Inr s), m')" and "0 \<le> mk_default_tokens m"
    and "ms_model s = JStr md" and "CHR '':'' \<notin> set md" and "CHR '':'' \<notin> set (mk_node m)"
    and "concat chunks = concat (mock_chunks fl created s)"
  shows "actual_output chunks = max 0 (int (length (ms_tokens s)) - int (split_markers chunks)) \<and>
    split_markers (mock_chunks fl created s) = 0 \<and>
    map_of (ms_headers s) ''x-decode-tokens'' = Some (show_int (int (length (ms_tokens s))))"
proof -
  obtain d where d: "ms_tokens s = decode_tokens (mock_tokens m (body_get d ''max_tokens'' JNull)) (mk_node m)"
    "map_of (ms_headers s) ''x-decode-tokens'' = Some (show_int (mock_tokens m (body_get d ''max_tokens'' JNull)))"
    using assms(1) by (auto simp: mock_chat_def Let_def split: prod.splits if_splits json.splits sum.splits)
  have n: "0 \<le> mock_tokens m v" for v using assms(2) by (auto simp: mock_tokens_def split: json.splits)
  have len: "int (length (ms_tokens s)) = mock_tokens m (body_get d ''max_tokens'' JNull)"
    using n by (simp add: d(1) length_decode_tokens)
  have "\<forall>tok \<in> set (ms_tokens s). CHR '':'' \<notin> set tok" using decode_tokens_colon [OF assms(5)] d(1) by simp
  then have "count_data (concat chunks) = Suc (length (ms_tokens s))"
    using count_mock_chunks [OF assms(3,4)] count_data_concat [of "mock_chunks fl created s"] by (simp add: assms(6) mock_chunks_whole)
  then have "int (sum_list (map count_data chunks)) - 1 = int (length (ms_tokens s)) - int (split_markers chunks)"
    using count_data_concat [of chunks] by linarith
  then show ?thesis using d(2) len by (simp add: actual_output_def mock_chunks_whole)
qed

text \<open>The default backend, on an empty request.\<close>

definition demo_mock :: MockBackend where
  "demo_mock = create_app ''mock'' 600 (1 / 1000) (2 / 1000) 4 None 0 0 0"

lemma demo_mock_chat:
  "\<exists>s m'. mock_chat (\<lambda>_. []) (\<lambda>_. 0) (JObj [(''max_tokens'', JInt 6)]) demo_mock = (Inr (Inr s), m') \<and>
     length (ms_tokens s) = 6 \<and> ms_model s = JStr ''mock-model''"
proof -
  obtain hs where "mock_hashes (\<lambda>_. []) [(''max_tokens'', JInt 6)] = Inr hs"
    using block_hashes_ok [of "Config.block_chars mock_cfg" "[]"]
    by (auto simp: mock_hashes_def extract_prompt_def body_get_def salt_seed_def mock_cfg_blocks)
  then show ?thesis
    by (simp add: mock_chat_def draw_def demo_mock_def create_app_def body_get_def process_def mock_tokens_def length_decode_tokens)
qed

theorem billed_is_generated_witness:
  "\<exists>s m'. mock_chat (\<lambda>_. []) (\<lambda>_. 0) (JObj [(''max_tokens'', JInt 6)]) demo_mock = (Inr (Inr s), m') \<and>
     actual_output (mock_chunks (\<lambda>_. []) 1700000000 s) = 6 \<and>
     actual_output [concat (mock_chunks (\<lambda>_. []) 1700000000 s)] = 6"
proof -
  obtain s m' where s: "mock_chat (\<lambda>_. []) (\<lambda>_. 0) (JObj [(''max_tokens'', JInt 6)]) demo_mock = (Inr (Inr s), m')"
    "length (ms_tokens s) = 6" "ms_model s = JStr ''mock-model''"
    using demo_mock_chat by blast
  have ne: "\<not> splits_marker x []" for x by (simp add: splits_marker_def)
  have "actual_output (mock_chunks (\<lambda>_. []) 1700000000 s) = 6" "actual_output [concat (mock_chunks (\<lambda>_. []) 1700000000 s)] = 6"
    using billed_is_generated [OF s(1) _ s(3), of "mock_chunks (\<lambda>_. []) 1700000000 s" 1700000000]
      billed_is_generated [OF s(1) _ s(3), of "[concat (mock_chunks (\<lambda>_. []) 1700000000 s)]" 1700000000] s(2) ne
    by (simp_all add: demo_mock_def create_app_def)
  with s(1) show ?thesis by blast
qed

text \<open>The same event in one chunk and in two: the token of a marker that is cut is not billed.\<close>

lemma split_marker_not_billed:
  "actual_output [sse_event ''x'', sse_event ''[DONE]''] = 1"
  "actual_output [''da'', drop 2 (sse_event ''x''), sse_event ''[DONE]''] = 0"
  by (simp_all add: actual_output_def sse_event_def count_data.simps)

text \<open>Text of the answer that reads like the start of an event is billed as one more token.\<close>

lemma data_text_is_billed: "actual_output [sse_event ''the data: a list'', sse_event ''[DONE]''] = 2"
  by (simp add: actual_output_def sse_event_def count_data.simps)

end
