(* ===== verification/Bench_Sim.thy ===== *)
theory Bench_Sim
  imports Mock_Backend
begin

section \<open>The routing simulations\<close>

text \<open>
  The measuring loops of \<^verbatim>\<open>bench/matrix.py\<close> (and \<^verbatim>\<open>bench/sim.py\<close>, which is the same loop with fixed
  parameters), \<^verbatim>\<open>bench/cluster_bench.py\<close> and \<^verbatim>\<open>bench/agentic_bench.py\<close>: they run the gateway's own
  router, tree and load tracker against simulated backends whose cache is the one of the mock
  backend.  The random choices of a workload and the square root are parameters; tables and charts are left out.
\<close>

definition BACKENDS :: "string list" where
  "BACKENDS = [''b0'', ''b1'', ''b2'']"

definition CAP_BLOCKS :: int where
  "CAP_BLOCKS = 600"

definition PREFILL_MS_PER_TOKEN :: pyfloat where
  "PREFILL_MS_PER_TOKEN = 5 / 100"

definition bench_cfg :: Config where
  "bench_cfg = (Config_of Config_fields)\<lparr>Config.backend_cache_blocks := CAP_BLOCKS, Config.service_ms_per_request := 1,
     Config.max_inflight := 24, Config.hysteresis_ms := 2\<rparr>"


subsection \<open>Workload\<close>

definition pad_nat :: "nat \<Rightarrow> nat \<Rightarrow> string" where
  "pad_nat w n = replicate (w - length (show_nat n)) (CHR ''0'') @ show_nat n"

definition bench_doc :: "nat \<Rightarrow> nat \<Rightarrow> string" where
  "bench_doc doc_chars i =
     (let base = ''doc'' @ pad_nat 4 i @ ''-''
      in take doc_chars (concat (replicate (doc_chars div length base + 1) base)))"

definition bench_question :: "nat \<Rightarrow> string" where
  "bench_question k = ''q'' @ pad_nat 6 k @ ''-unique-question''"

text \<open>\<open>picks k\<close> is the document the random generator draws for request \<open>k\<close>.\<close>

definition make_workload :: "(nat \<Rightarrow> nat) \<Rightarrow> nat \<Rightarrow> nat \<Rightarrow> nat \<Rightarrow> nat \<Rightarrow> string list" where
  "make_workload picks n_requests n_docs doc_blocks system_blocks =
     (let sys = replicate (system_blocks * 64) (CHR ''S'');
          docs = map (bench_doc (doc_blocks * 64)) [0..<n_docs]
      in map (\<lambda>k. sys @ docs ! picks k @ bench_question k) [0..<n_requests])"


subsection \<open>One gateway\<close>

definition Router_init :: "Config \<Rightarrow> RadixTree \<Rightarrow> LoadTracker \<Rightarrow> Router" where
  "Router_init c t l = \<lparr>cfg = c, tree = t, load = l, rr = 0, predictor = None, fleet = None\<rparr>"

record bench =
  bn_router :: Router
  bn_tok :: tok_cache
  bn_sims :: "(string, block_hash kv_cache) dict"
  bn_window :: "(string \<times> int) list"
  bn_total :: nat
  bn_hit :: nat
  bn_dist :: "(string, nat) dict"
  bn_ttfts :: "pyfloat list"

definition bench_init :: "Config \<Rightarrow> bench" where
  "bench_init c =
     \<lparr>bn_router = Router_init c (RadixTree_init CAP_BLOCKS) LoadTracker_init, bn_tok = None,
      bn_sims = map (\<lambda>b. (b, [])) BACKENDS, bn_window = [], bn_total = 0, bn_hit = 0, bn_dist = [], bn_ttfts = []\<rparr>"

text \<open>What a dispatch does to the handling gateway: the tree, the load, and the window of requests in flight.\<close>

definition window_step :: "int \<Rightarrow> RouteResult \<Rightarrow> Router \<Rightarrow> (string \<times> int) list \<Rightarrow> Router \<times> (string \<times> int) list" where
  "window_step concurrency r ro window =
     (let l = on_dispatch (load ro) (res_backend r) (res_tokens r);
          w = window @ [(res_backend r, res_tokens r)]
      in if int (length w) > concurrency
         then (ro\<lparr>load := on_complete l (fst (hd w)) (snd (hd w))\<rparr>, tl w)
         else (ro\<lparr>load := l\<rparr>, w))"

definition bench_step :: "(string \<Rightarrow> tokenizer option) \<Rightarrow> string \<Rightarrow> int \<Rightarrow> bench \<Rightarrow> string \<Rightarrow> bench result" where
  "bench_step lt strat concurrency st prompt =
     (case router_choose lt (bn_tok st) (bn_router st) prompt BACKENDS (Some strat) 0 of
        (Inl err, tc) \<Rightarrow> Inl err
      | (Inr (r, ro), tc) \<Rightarrow>
          let b = res_backend r;
              (hit, cache) = process CAP_BLOCKS (dget (bn_sims st) b []) (res_hashes r);
              uncached = int (length (res_hashes r)) - int hit;
              ttft = PREFILL_MS_PER_TOKEN * of_int uncached * of_int (Config.block_tokens (cfg ro));
              (ro', w) = window_step concurrency r (ro\<lparr>tree := radix_insert (tree ro) (res_hashes r) b\<rparr>) (bn_window st)
          in Inr (st\<lparr>bn_router := ro', bn_tok := tc, bn_sims := AList.update b cache (bn_sims st), bn_window := w,
                     bn_total := bn_total st + length (res_hashes r), bn_hit := bn_hit st + hit,
                     bn_dist := AList.update b (dget (bn_dist st) b 0 + 1) (bn_dist st),
                     bn_ttfts := bn_ttfts st @ [ttft]\<rparr>))"

fun bench_run :: "(string \<Rightarrow> tokenizer option) \<Rightarrow> string \<Rightarrow> int \<Rightarrow> bench \<Rightarrow> string list \<Rightarrow> bench result" where
  "bench_run lt strat concurrency st [] = Inr st"
| "bench_run lt strat concurrency st (p # ps) =
     res_bind (bench_step lt strat concurrency st p) (\<lambda>st'. bench_run lt strat concurrency st' ps)"

definition pct :: "pyfloat list \<Rightarrow> pyfloat \<Rightarrow> pyfloat" where
  "pct vals p =
     (if vals = [] then 0
      else let k = round_half_even ((p / 100) * of_int (int (length vals) - 1))
           in vals ! nat (max 0 (min (int (length vals) - 1) k)))"

text \<open>The coefficient of variation of the requests per backend, 0 when balanced; \<open>sq\<close> is the square root.\<close>

definition pstdev :: "(pyfloat \<Rightarrow> pyfloat) \<Rightarrow> nat list \<Rightarrow> pyfloat" where
  "pstdev sq xs =
     (let n = of_nat (length xs); mean = of_nat (sum_list xs) / n
      in sq (sum_list (map (\<lambda>x. (of_nat x - mean) ^ 2) xs) / n))"

definition load_cov :: "(pyfloat \<Rightarrow> pyfloat) \<Rightarrow> (string, nat) dict \<Rightarrow> pyfloat" where
  "load_cov sq d =
     (let counts = map (\<lambda>b. dget d b 0) BACKENDS; mean_count = of_nat (sum_list counts) / of_nat (length counts)
      in if mean_count \<noteq> 0 then pstdev sq counts / mean_count else 0)"

record bench_result =
  hit_rate :: pyfloat
  ttft_mean :: pyfloat
  ttft_p99 :: pyfloat
  cov :: pyfloat
  dist :: "nat list"

definition evaluate :: "(pyfloat \<Rightarrow> pyfloat) \<Rightarrow> (string \<Rightarrow> tokenizer option) \<Rightarrow> string \<Rightarrow> string list \<Rightarrow> int \<Rightarrow> Config \<Rightarrow> bench_result result" where
  "evaluate sq lt strat requests concurrency c =
     res_bind (bench_run lt strat concurrency (bench_init c) requests) (\<lambda>st. Inr
       \<lparr>hit_rate = (if bn_total st \<noteq> 0 then of_nat (bn_hit st) / of_nat (bn_total st) else 0),
        ttft_mean = (if bn_ttfts st \<noteq> [] then sum_list (bn_ttfts st) / of_nat (length (bn_ttfts st)) else 0),
        ttft_p99 = pct (sort (bn_ttfts st)) 99, cov = load_cov sq (bn_dist st),
        dist = map (\<lambda>b. dget (bn_dist st) b 0) BACKENDS\<rparr>)"

subsection \<open>A fleet of gateways\<close>

record fleet_bench =
  fb_routers :: "Router list"
  fb_tok :: tok_cache
  fb_windows :: "(string \<times> int) list list"
  fb_sims :: "(string, block_hash kv_cache) dict"
  fb_docs :: "(block_hash, string set) dict"
  fb_total :: nat
  fb_hit :: nat
  fb_dist :: "(string, nat) dict"

definition fleet_bench_init :: "nat \<Rightarrow> Config \<Rightarrow> fleet_bench" where
  "fleet_bench_init n c =
     \<lparr>fb_routers = replicate n (Router_init c (RadixTree_init CAP_BLOCKS) LoadTracker_init), fb_tok = None,
      fb_windows = replicate n [], fb_sims = map (\<lambda>b. (b, [])) BACKENDS, fb_docs = [], fb_total = 0, fb_hit = 0, fb_dist = []\<rparr>"

definition WINDOW_PER_REPLICA :: int where
  "WINDOW_PER_REPLICA = 8"

definition tree_insert_in :: "Router \<Rightarrow> RouteResult \<Rightarrow> Router" where
  "tree_insert_in ro r = ro\<lparr>tree := radix_insert (tree ro) (res_hashes r) (res_backend r)\<rparr>"

text \<open>Request \<open>k\<close>, handled by replica \<open>k mod n\<close>; with shared state the others insert it as well.\<close>

definition fleet_step :: "(string \<Rightarrow> tokenizer option) \<Rightarrow> bool \<Rightarrow> nat \<times> string \<Rightarrow> fleet_bench \<Rightarrow> fleet_bench result" where
  "fleet_step lt shared kp st =
     (let n = length (fb_routers st); i = fst kp mod n in
      if n = 0 then Inl ZeroDivisionError
      else case router_choose lt (fb_tok st) (fb_routers st ! i) (snd kp) BACKENDS (Some ''prefix_tree'') 0 of
        (Inl err, tc) \<Rightarrow> Inl err
      | (Inr (r, ro), tc) \<Rightarrow>
          let b = res_backend r;
              (hit, cache) = process CAP_BLOCKS (dget (fb_sims st) b []) (res_hashes r);
              (ro', w) = window_step WINDOW_PER_REPLICA r (tree_insert_in ro r) (fb_windows st ! i);
              routers = map (\<lambda>j. if j = i then ro' else if shared then tree_insert_in (fb_routers st ! j) r
                                 else fb_routers st ! j) [0..<n]
          in Inr (st\<lparr>fb_routers := routers, fb_tok := tc, fb_windows := (fb_windows st)[i := w],
                fb_sims := AList.update b cache (fb_sims st),
                fb_docs := (if res_hashes r = [] then fb_docs st
                  else AList.update (List.last (res_hashes r)) (insert b (dget (fb_docs st) (List.last (res_hashes r)) {})) (fb_docs st)),
                fb_total := fb_total st + length (res_hashes r), fb_hit := fb_hit st + hit,
                fb_dist := AList.update b (dget (fb_dist st) b 0 + 1) (fb_dist st)\<rparr>))"

fun fleet_run :: "(string \<Rightarrow> tokenizer option) \<Rightarrow> bool \<Rightarrow> fleet_bench \<Rightarrow> (nat \<times> string) list \<Rightarrow> fleet_bench result" where
  "fleet_run lt shared st [] = Inr st"
| "fleet_run lt shared st (kp # kps) = res_bind (fleet_step lt shared kp st) (\<lambda>st'. fleet_run lt shared st' kps)"

record fleet_result =
  fr_hit_rate :: pyfloat
  fr_dup :: pyfloat
  fr_cov :: pyfloat

definition fleet_evaluate ::
  "(pyfloat \<Rightarrow> pyfloat) \<Rightarrow> (string \<Rightarrow> tokenizer option) \<Rightarrow> nat \<Rightarrow> bool \<Rightarrow> string list \<Rightarrow> Config \<Rightarrow> fleet_result result" where
  "fleet_evaluate sq lt n shared requests c =
     res_bind (fleet_run lt shared (fleet_bench_init n c) (enumerate 0 requests)) (\<lambda>st. Inr
       \<lparr>fr_hit_rate = (if fb_total st \<noteq> 0 then of_nat (fb_hit st) / of_nat (fb_total st) else 0),
        fr_dup = (if fb_docs st \<noteq> []
          then of_nat (sum_list (map (\<lambda>(_, s). card s) (fb_docs st))) / of_nat (length (fb_docs st)) else 0),
        fr_cov = load_cov sq (fb_dist st)\<rparr>)"


subsection \<open>Agent sessions\<close>

definition SYSTEM_BLOCKS :: nat where
  "SYSTEM_BLOCKS = 2"

definition TURN_BLOCKS :: nat where
  "TURN_BLOCKS = 8"

definition turn_blocks :: "nat \<Rightarrow> nat \<Rightarrow> nat list" where
  "turn_blocks s t = map (\<lambda>b. 1000000 + s * 10000 + t * TURN_BLOCKS + b) [0..<TURN_BLOCKS]"

definition hashes_for_turn :: "nat \<Rightarrow> nat \<Rightarrow> nat list" where
  "hashes_for_turn s t = map (\<lambda>b. 10000 + b) [0..<SYSTEM_BLOCKS] @ concat (map (turn_blocks s) [0..<t + 1])"

record agents =
  ag_sims :: "(string, nat kv_cache) dict"
  ag_pinned :: "(nat, string) dict"
  ag_total :: nat
  ag_hit :: nat
  ag_rr :: nat

definition agents_init :: agents where
  "agents_init = \<lparr>ag_sims = map (\<lambda>b. (b, [])) BACKENDS, ag_pinned = [], ag_total = 0, ag_hit = 0, ag_rr = 0\<rparr>"

text \<open>Which backend serves the turn: the pinned one, pinning it on the first turn, or the next in turn.\<close>

definition agent_pick :: "bool \<Rightarrow> nat \<Rightarrow> agents \<Rightarrow> string \<times> agents" where
  "agent_pick affinity s st =
     (let nxt = BACKENDS ! (ag_rr st mod length BACKENDS) in
      if affinity then
        (case map_of (ag_pinned st) s of
           Some b \<Rightarrow> (b, st)
         | None \<Rightarrow> (nxt, st\<lparr>ag_pinned := AList.update s nxt (ag_pinned st), ag_rr := ag_rr st + 1\<rparr>))
      else (nxt, st\<lparr>ag_rr := ag_rr st + 1\<rparr>))"

definition agent_turn :: "bool \<Rightarrow> nat \<Rightarrow> agents \<Rightarrow> nat \<Rightarrow> agents" where
  "agent_turn affinity s st t =
     (let hashes = hashes_for_turn s t; (b, st1) = agent_pick affinity s st;
          (hit, cache) = process CAP_BLOCKS (dget (ag_sims st1) b []) hashes
      in st1\<lparr>ag_sims := AList.update b cache (ag_sims st1), ag_hit := ag_hit st1 + hit,
             ag_total := ag_total st1 + length hashes\<rparr>)"

definition agent_session :: "bool \<Rightarrow> nat \<Rightarrow> agents \<Rightarrow> nat \<Rightarrow> agents" where
  "agent_session affinity depth st s = foldl (agent_turn affinity s) st [0..<depth + 1]"

definition run_strategy :: "bool \<Rightarrow> nat \<Rightarrow> nat \<Rightarrow> pyfloat \<times> nat" where
  "run_strategy affinity n_sessions depth =
     (let st = foldl (agent_session affinity depth) agents_init [0..<n_sessions]
      in (if ag_total st \<noteq> 0 then of_nat (ag_hit st) / of_nat (ag_total st) else 0, ag_total st - ag_hit st))"

subsection \<open>Mean latency and hit rate\<close>

lemma router_choose_keeps:
  assumes "router_choose lt tc r p cands s seed = (Inr (res, r'), tc')"
  shows "cfg r' = cfg r \<and> tree r' = tree r \<and> load r' = load r \<and>
    (\<not> use_bpe_hashing (cfg r) \<longrightarrow> block_hashes p (Config.block_chars (cfg r)) (Config.hash_cutoff_blocks (cfg r)) seed = Inr (res_hashes res))"
proof -
  define st where "st = (case s of None \<Rightarrow> Config.strategy (cfg r) | Some v \<Rightarrow> if v = [] then Config.strategy (cfg r) else v)"
  obtain h tc1 where h: "hash_prompt lt tc (cfg r) p seed = (h, tc1)" by force
  then obtain hs mode where hs: "h = Inr (hs, mode)"
    using assms by (cases h) (auto simp: router_choose_def)
  then obtain b m where c: "choose_hashed r cands st hs (int (length hs) * Config.block_tokens (cfg r)) = Inr ((b, m), r')"
    and res: "res_hashes res = hs"
    using assms h by (auto simp: router_choose_def st_def Let_def split: prod.splits)
  from c have "cfg r' = cfg r \<and> tree r' = tree r \<and> load r' = load r"
    by (auto simp: choose_hashed_def choose_prefix_tree_def Let_def split: if_splits prod.splits option.splits list.splits)
  then show ?thesis using h hs res by (auto simp: hash_prompt_def)
qed

lemma kv_hits_le: "kv_hits c hs \<le> length hs"
  by (induction hs) auto

lemma window_step_keeps [simp]:
  "cfg (fst (window_step k r ro w)) = cfg ro" "tree (fst (window_step k r ro w)) = tree ro"
  by (simp_all add: window_step_def Let_def)

text \<open>The number of full blocks of a prompt.\<close>

definition blocks_of :: "Config \<Rightarrow> string \<Rightarrow> nat" where
  "blocks_of c p = (case block_hashes p (Config.block_chars c) (Config.hash_cutoff_blocks c) 0 of Inr hs \<Rightarrow> length hs | Inl _ \<Rightarrow> 0)"

definition bench_sums :: "Config \<Rightarrow> bench \<Rightarrow> string list \<Rightarrow> bool" where
  "bench_sums c st ps \<longleftrightarrow> cfg (bn_router st) = c \<and> bn_total st = sum_list (map (blocks_of c) ps) \<and> bn_hit st \<le> bn_total st \<and>
     length (bn_ttfts st) = length ps \<and>
     sum_list (bn_ttfts st) = PREFILL_MS_PER_TOKEN * of_int (Config.block_tokens c) * (of_nat (bn_total st) - of_nat (bn_hit st))"

lemma bench_step_sums:
  assumes "bench_step lt s k st p = Inr st'" "bench_sums c st ps" "\<not> use_bpe_hashing c"
  shows "bench_sums c st' (ps @ [p])"
proof -
  obtain r ro tc where r: "router_choose lt (bn_tok st) (bn_router st) p BACKENDS (Some s) 0 = (Inr (r, ro), tc)"
    using assms(1) by (auto simp: bench_step_def split: prod.splits sum.splits)
  note keeps = router_choose_keeps [OF r]
  define hit where "hit = kv_hits (dget (bn_sims st) (res_backend r) []) (res_hashes r)"
  have hit: "hit \<le> length (res_hashes r)" unfolding hit_def by (rule kv_hits_le)
  have st': "bn_total st' = bn_total st + length (res_hashes r)" "bn_hit st' = bn_hit st + hit"
    "bn_ttfts st' = bn_ttfts st @ [PREFILL_MS_PER_TOKEN * of_int (int (length (res_hashes r)) - int hit) * of_int (Config.block_tokens (cfg ro))]"
    "bn_router st' = fst (window_step k r (ro\<lparr>tree := radix_insert (tree ro) (res_hashes r) (res_backend r)\<rparr>) (bn_window st))"
    using assms(1) r by (auto simp: bench_step_def process_def hit_def Let_def split: prod.splits)
  have "blocks_of c p = length (res_hashes r)" using keeps assms(2,3) by (auto simp: blocks_of_def bench_sums_def)
  then show ?thesis using assms(2) st' hit keeps by (simp add: bench_sums_def algebra_simps of_nat_diff)
qed

lemma bench_run_sums:
  assumes "bench_run lt s k st qs = Inr st'" "bench_sums c st ps" "\<not> use_bpe_hashing c"
  shows "bench_sums c st' (ps @ qs)"
  using assms(1,2)
proof (induction qs arbitrary: st ps)
  case (Cons q qs)
  then obtain st1 where "bench_step lt s k st q = Inr st1" "bench_run lt s k st1 qs = Inr st'" by auto
  then show ?case using Cons.IH [of st1 "ps @ [q]"] bench_step_sums [OF _ Cons.prems(2) assms(3)] by simp
qed simp

lemma bench_init_sums: "bench_sums c (bench_init c) []"
  by (simp add: bench_sums_def bench_init_def Router_init_def)

lemma evaluate_sums:
  assumes "evaluate sq lt s reqs k c = Inr res" "\<not> use_bpe_hashing c" "reqs \<noteq> []" "sum_list (map (blocks_of c) reqs) \<noteq> 0"
  shows "ttft_mean res = PREFILL_MS_PER_TOKEN * of_int (Config.block_tokens c) * of_nat (sum_list (map (blocks_of c) reqs)) /
    of_nat (length reqs) * (1 - hit_rate res)"
proof -
  obtain st where st: "bench_run lt s k (bench_init c) reqs = Inr st" using assms(1) by (auto simp: evaluate_def)
  have "bench_sums c st reqs" using bench_run_sums [OF st bench_init_sums assms(2)] by simp
  then show ?thesis using assms st
    by (auto simp: evaluate_def bench_sums_def field_simps simp flip: length_greater_0_conv)
qed

text \<open>
  The benchmark's two figures tell the same story: for one workload, whatever the strategies
  and the concurrency, the mean latency is the cold latency times the miss rate, so a strategy
  has the lower mean latency exactly when it has the higher hit rate.
\<close>

theorem mean_tracks_hits:
  assumes "evaluate sq lt s1 reqs k1 c = Inr r1" and "evaluate sq lt s2 reqs k2 c = Inr r2"
    and "\<not> use_bpe_hashing c" and "0 < Config.block_tokens c"
  shows "ttft_mean r1 \<le> ttft_mean r2 \<longleftrightarrow> hit_rate r2 \<le> hit_rate r1"
proof (cases "reqs = [] \<or> sum_list (map (blocks_of c) reqs) = 0")
  case True
  have z: "ttft_mean r = 0 \<and> hit_rate r = 0" if e: "evaluate sq lt s reqs k c = Inr r" for s k r
  proof -
    obtain st where st: "bench_run lt s k (bench_init c) reqs = Inr st" using e by (auto simp: evaluate_def)
    have b: "bench_sums c st reqs" using bench_run_sums [OF st bench_init_sums assms(3)] by simp
    have t: "bn_total st = 0" using b True unfolding bench_sums_def by (metis list.map(1) sum_list.Nil)
    have "bn_hit st \<le> bn_total st" using b unfolding bench_sums_def by blast
    with t have h: "bn_hit st = 0" by linarith
    have "sum_list (bn_ttfts st) = PREFILL_MS_PER_TOKEN * of_int (Config.block_tokens c) * (of_nat (bn_total st) - of_nat (bn_hit st))"
      using b unfolding bench_sums_def by blast
    then have "sum_list (bn_ttfts st) = 0" using t h by simp
    then show ?thesis using e st t h by (auto simp: evaluate_def)
  qed
  show ?thesis using z [OF assms(1)] z [OF assms(2)] by simp
next
  case False
  let ?K = "PREFILL_MS_PER_TOKEN * of_int (Config.block_tokens c) * of_nat (sum_list (map (blocks_of c) reqs)) / of_nat (length reqs)"
  have "0 < sum_list (map (blocks_of c) reqs)" "0 < length reqs" using False by (metis gr0I, simp)
  then have "(0 :: pyfloat) < of_nat (sum_list (map (blocks_of c) reqs))" "(0 :: pyfloat) < of_nat (length reqs)"
    by (simp_all only: of_nat_0_less_iff)
  moreover have "0 < PREFILL_MS_PER_TOKEN" "(0 :: pyfloat) < of_int (Config.block_tokens c)"
    using assms(4) by (simp_all add: PREFILL_MS_PER_TOKEN_def)
  ultimately have "0 < ?K" by (intro divide_pos_pos mult_pos_pos)
  moreover have "ttft_mean r1 = ?K * (1 - hit_rate r1)" "ttft_mean r2 = ?K * (1 - hit_rate r2)"
    using evaluate_sums assms(1-3) False by blast+
  ultimately show ?thesis by (simp only: mult_le_cancel_left_pos) simp
qed

lemma bench_step_total:
  assumes "Config.block_chars (cfg (bn_router st)) \<noteq> 0" "Config.block_tokens (cfg (bn_router st)) \<noteq> 0"
    "0 \<le> Config.hysteresis_ms (cfg (bn_router st))"
  shows "\<exists>st'. bench_step lt s k st p = Inr st' \<and> cfg (bn_router st') = cfg (bn_router st)"
proof -
  obtain r ro tc where r: "router_choose lt (bn_tok st) (bn_router st) p BACKENDS (Some s) 0 = (Inr (r, ro), tc)"
    using router_choose_ok [of BACKENDS "bn_router st" lt "bn_tok st" p "Some s" 0] assms by (auto simp: BACKENDS_def)
  obtain ro' w where w: "window_step k r (ro\<lparr>tree := radix_insert (tree ro) (res_hashes r) (res_backend r)\<rparr>) (bn_window st) = (ro', w)"
    by force
  then have "cfg ro' = cfg ro"
    using window_step_keeps(1) [of k r "ro\<lparr>tree := radix_insert (tree ro) (res_hashes r) (res_backend r)\<rparr>" "bn_window st"] by simp
  then show ?thesis using r w router_choose_keeps [OF r] by (simp add: bench_step_def process_def Let_def)
qed

lemma evaluate_total:
  assumes "Config.block_chars c \<noteq> 0" "Config.block_tokens c \<noteq> 0" "0 \<le> Config.hysteresis_ms c"
  shows "\<exists>res. evaluate sq lt s reqs k c = Inr res"
proof -
  have "\<exists>st'. bench_run lt s k st reqs = Inr st'" if "cfg (bn_router st) = c" for st
    using that
  proof (induction reqs arbitrary: st)
    case (Cons q qs)
    then show ?case using bench_step_total [of st lt s k q] assms by fastforce
  qed simp
  then show ?thesis by (fastforce simp: evaluate_def bench_init_def Router_init_def)
qed

lemma Config_of_sel:
  "Config.block_chars (Config_of d) = int_field d ''block_chars''" "Config.block_tokens (Config_of d) = int_field d ''block_tokens''"
  "use_bpe_hashing (Config_of d) = bool_field d ''use_bpe_hashing''"
  by (simp_all add: Config_of_def)

lemma bench_cfg_facts:
  "Config.block_chars bench_cfg = 64" "Config.block_tokens bench_cfg = 16" "Config.hysteresis_ms bench_cfg = 2"
  "\<not> use_bpe_hashing bench_cfg"
  by (simp_all add: bench_cfg_def Config_of_sel) (simp_all add: int_field_def bool_field_def Config_fields_def)

theorem mean_tracks_hits_witness:
  "\<forall>sq. \<exists>r1 r2. evaluate sq (\<lambda>_. None) ''round_robin'' (make_workload (\<lambda>k. k mod 3) 9 3 2 1) 4 bench_cfg = Inr r1 \<and>
     evaluate sq (\<lambda>_. None) ''prefix_tree'' (make_workload (\<lambda>k. k mod 3) 9 3 2 1) 4 bench_cfg = Inr r2 \<and>
     (ttft_mean r1 \<le> ttft_mean r2 \<longleftrightarrow> hit_rate r2 \<le> hit_rate r1)"
proof
  fix sq :: "pyfloat \<Rightarrow> pyfloat"
  let ?reqs = "make_workload (\<lambda>k. k mod 3) 9 3 2 1"
  obtain r1 r2 where "evaluate sq (\<lambda>_. None) ''round_robin'' ?reqs 4 bench_cfg = Inr r1"
    "evaluate sq (\<lambda>_. None) ''prefix_tree'' ?reqs 4 bench_cfg = Inr r2"
    using evaluate_total [of bench_cfg sq "\<lambda>_. None" _ ?reqs 4] bench_cfg_facts by fastforce
  moreover from mean_tracks_hits [OF this] have "ttft_mean r1 \<le> ttft_mean r2 \<longleftrightarrow> hit_rate r2 \<le> hit_rate r1"
    by (simp add: bench_cfg_facts)
  ultimately show "\<exists>r1 r2. evaluate sq (\<lambda>_. None) ''round_robin'' ?reqs 4 bench_cfg = Inr r1 \<and>
     evaluate sq (\<lambda>_. None) ''prefix_tree'' ?reqs 4 bench_cfg = Inr r2 \<and> (ttft_mean r1 \<le> ttft_mean r2 \<longleftrightarrow> hit_rate r2 \<le> hit_rate r1)"
    by blast
qed

subsection \<open>Shared state makes the replicas one\<close>

text \<open>What replica \<open>i\<close> of \<open>n\<close> has seen of the dispatches: all of them, or those it handled itself.\<close>

definition seen_by :: "bool \<Rightarrow> nat \<Rightarrow> nat \<Rightarrow> 'd list \<Rightarrow> 'd list" where
  "seen_by shared n i ds = map snd (filter (\<lambda>(k, d). shared \<or> k mod n = i) (enumerate 0 ds))"

lemma seen_by_snoc:
  "seen_by shared n i (ds @ [d]) = seen_by shared n i ds @ (if shared \<or> length ds mod n = i then [d] else [])"
  by (simp add: seen_by_def enumerate_append_eq)

lemma belief_snoc: "belief capb (ds @ [(hs, b)]) = radix_insert (belief capb ds) hs b"
  by (simp add: belief_def tree_run_def)

lemma sent_snoc: "sent b (ds @ [(hs, b')]) = (if b' = b then sent b ds @ [hs] else sent b ds)"
  by (simp add: sent_def)

lemma kv_run_snoc: "kv_run capb (reqs @ [hs]) = snd (process capb (kv_run capb reqs) hs)"
  by (simp add: kv_run_def)

definition fleet_inv :: "bool \<Rightarrow> nat \<Rightarrow> fleet_bench \<Rightarrow> (block_hash list \<times> string) list \<Rightarrow> bool" where
  "fleet_inv shared n st ds \<longleftrightarrow> length (fb_routers st) = n \<and>
     (\<forall>i < n. tree (fb_routers st ! i) = belief CAP_BLOCKS (seen_by shared n i ds)) \<and>
     (\<forall>b. dget (fb_sims st) b [] = kv_run CAP_BLOCKS (sent b ds))"

lemma fleet_step_inv:
  assumes "fleet_step lt shared (length ds, p) st = Inr st'" "fleet_inv shared n st ds"
  shows "\<exists>d. fleet_inv shared n st' (ds @ [d])"
proof -
  let ?i = "length ds mod n"
  have n: "length (fb_routers st) = n" "0 < n" using assms by (auto simp: fleet_inv_def fleet_step_def Let_def split: if_splits)
  obtain r ro tc where r: "router_choose lt (fb_tok st) (fb_routers st ! ?i) p BACKENDS (Some ''prefix_tree'') 0 = (Inr (r, ro), tc)"
    using assms(1) n by (auto simp: fleet_step_def Let_def split: prod.splits sum.splits)
  note keeps = router_choose_keeps [OF r]
  define ro' where "ro' = fst (window_step WINDOW_PER_REPLICA r (tree_insert_in ro r) (fb_windows st ! ?i))"
  have ro': "tree ro' = radix_insert (tree ro) (res_hashes r) (res_backend r)" by (simp add: ro'_def tree_insert_in_def)
  have st': "fb_routers st' = map (\<lambda>j. if j = ?i then ro' else if shared then tree_insert_in (fb_routers st ! j) r
        else fb_routers st ! j) [0..<n]"
      "fb_sims st' = AList.update (res_backend r) (snd (process CAP_BLOCKS (dget (fb_sims st) (res_backend r) []) (res_hashes r))) (fb_sims st)"
    using assms(1) n r by (auto simp: fleet_step_def Let_def ro'_def split: prod.splits)
  have "fleet_inv shared n st' (ds @ [(res_hashes r, res_backend r)])"
    using assms(2) n keeps ro'
    by (auto simp: fleet_inv_def st' seen_by_snoc belief_snoc sent_snoc kv_run_snoc tree_insert_in_def)
  then show ?thesis by blast
qed

lemma fleet_run_inv:
  assumes "fleet_run lt shared st (enumerate (length ds) ps) = Inr st'" "fleet_inv shared n st ds"
  shows "\<exists>es. length es = length ps \<and> fleet_inv shared n st' (ds @ es)"
  using assms
proof (induction ps arbitrary: st ds)
  case Nil
  then show ?case by auto
next
  case (Cons p ps)
  then obtain st1 where 1: "fleet_step lt shared (length ds, p) st = Inr st1" "fleet_run lt shared st1 (enumerate (Suc (length ds)) ps) = Inr st'"
    by auto
  obtain d where d: "fleet_inv shared n st1 (ds @ [d])" using fleet_step_inv [OF 1(1) Cons.prems(2)] by blast
  then obtain es where "length es = length ps" "fleet_inv shared n st' ((ds @ [d]) @ es)"
    using Cons.IH [of st1 "ds @ [d]"] 1(2) by auto
  then show ?case by (intro exI [of _ "d # es"]) simp
qed

text \<open>
  C17. Shared prefix state makes a fleet one gateway: in a run of the cluster simulation there is
  one sequence of dispatches, one per request, such that with shared state every replica's tree is
  the tree of a single gateway that made all of them, and without it the tree of a gateway that
  made only the replica's own; in both cases every backend's cache holds what all replicas sent to it.
\<close>

theorem shared_fleet_is_one_gateway:
  assumes "fleet_run lt shared (fleet_bench_init n c) (enumerate 0 requests) = Inr st"
  shows "\<exists>ds. length ds = length requests \<and>
    (\<forall>i < n. tree (fb_routers st ! i) =
       belief CAP_BLOCKS (if shared then ds else map snd (filter (\<lambda>(k, d). k mod n = i) (enumerate 0 ds)))) \<and>
    (\<forall>b. dget (fb_sims st) b [] = kv_run CAP_BLOCKS (sent b ds))"
proof -
  have "fleet_inv shared n (fleet_bench_init n c) []"
    by (simp add: fleet_inv_def fleet_bench_init_def Router_init_def seen_by_def belief_def tree_run_def sent_def kv_run_def
        BACKENDS_def dget_def)
  then obtain ds where "length ds = length requests" "fleet_inv shared n st ds"
    using fleet_run_inv [of lt shared "fleet_bench_init n c" "[]" requests st n] assms by auto
  then show ?thesis by (cases shared) (auto simp: fleet_inv_def seen_by_def)
qed

lemma fleet_step_total:
  assumes "\<forall>ro \<in> set (fb_routers st). cfg ro = c" "fb_routers st \<noteq> []"
    and "Config.block_chars c \<noteq> 0" "Config.block_tokens c \<noteq> 0" "0 \<le> Config.hysteresis_ms c"
  shows "\<exists>st'. fleet_step lt shared kp st = Inr st' \<and> (\<forall>ro \<in> set (fb_routers st'). cfg ro = c) \<and> fb_routers st' \<noteq> []"
proof -
  let ?n = "length (fb_routers st)"
  let ?i = "fst kp mod ?n"
  have c: "j < ?n \<Longrightarrow> cfg (fb_routers st ! j) = c" for j using assms(1) by simp
  have i: "?i < ?n" using assms(2) by simp
  obtain r ro tc where r: "router_choose lt (fb_tok st) (fb_routers st ! ?i) (snd kp) BACKENDS (Some ''prefix_tree'') 0 = (Inr (r, ro), tc)"
    using router_choose_ok [of BACKENDS "fb_routers st ! ?i" lt "fb_tok st" "snd kp" "Some ''prefix_tree''" 0] assms(3-5) c [OF i]
    by (auto simp: BACKENDS_def)
  obtain ro' w where w: "window_step WINDOW_PER_REPLICA r (tree_insert_in ro r) (fb_windows st ! ?i) = (ro', w)" by force
  have "cfg ro' = cfg (tree_insert_in ro r)"
    using window_step_keeps(1) [of WINDOW_PER_REPLICA r "tree_insert_in ro r" "fb_windows st ! ?i"] w by simp
  then have "cfg ro' = c" using router_choose_keeps [OF r] c [OF i] by (simp add: tree_insert_in_def)
  then show ?thesis using r w c assms(2) by (auto simp: fleet_step_def process_def Let_def tree_insert_in_def)
qed

lemma fleet_run_total:
  assumes "0 < n" "Config.block_chars c \<noteq> 0" "Config.block_tokens c \<noteq> 0" "0 \<le> Config.hysteresis_ms c"
  shows "\<exists>st. fleet_run lt shared (fleet_bench_init n c) kps = Inr st"
proof -
  have "\<exists>st'. fleet_run lt shared st kps = Inr st'" if "\<forall>ro \<in> set (fb_routers st). cfg ro = c" "fb_routers st \<noteq> []" for st
    using that
  proof (induction kps arbitrary: st)
    case (Cons kp kps)
    then show ?case using fleet_step_total [of st c lt shared kp] assms(2-4) by fastforce
  qed simp
  then show ?thesis using assms(1) by (simp add: fleet_bench_init_def Router_init_def)
qed

theorem shared_fleet_is_one_gateway_witness:
  "\<exists>st ds. fleet_run (\<lambda>_. None) True (fleet_bench_init 2 bench_cfg) (enumerate 0 (make_workload (\<lambda>k. k mod 3) 9 3 2 1)) = Inr st \<and>
     length ds = 9 \<and> tree (fb_routers st ! 0) = belief CAP_BLOCKS ds \<and> tree (fb_routers st ! 1) = belief CAP_BLOCKS ds"
proof -
  let ?reqs = "make_workload (\<lambda>k. k mod 3) 9 3 2 1"
  obtain st where st: "fleet_run (\<lambda>_. None) True (fleet_bench_init 2 bench_cfg) (enumerate 0 ?reqs) = Inr st"
    using fleet_run_total [of 2 bench_cfg] bench_cfg_facts by fastforce
  have "length ?reqs = 9" by (simp add: make_workload_def)
  then show ?thesis using shared_fleet_is_one_gateway [OF st] st by auto
qed

subsection \<open>Agent sessions prefill every block once\<close>

lemma hits_then_miss:
  assumes "set hs \<subseteq> set (dkeys c)" "x \<notin> set (dkeys c)"
  shows "kv_hits c (hs @ x # ys) = length hs"
  using assms by (induction hs) auto

lemma hashes_next: "hashes_for_turn s (Suc t) = hashes_for_turn s t @ turn_blocks s (Suc t)"
  by (simp add: hashes_for_turn_def)

lemma hashes_first: "hashes_for_turn s 0 = [10000, 10001] @ turn_blocks s 0"
  by (simp add: hashes_for_turn_def SYSTEM_BLOCKS_def upt_conv_Cons)

lemma turn_blocks_Cons: "\<exists>ys. turn_blocks s t = (1000000 + s * 10000 + t * 8) # ys" and length_turn_blocks: "length (turn_blocks s t) = 8"
  by (simp_all add: turn_blocks_def TURN_BLOCKS_def upt_conv_Cons)

lemma turn_blocks_less: "x \<in> set (turn_blocks s t) \<Longrightarrow> x < 1000000 + s * 10000 + Suc t * 8"
  by (auto simp: turn_blocks_def TURN_BLOCKS_def)

lemma length_hashes: "length (hashes_for_turn s t) = 2 + 8 * Suc t"
  by (induction t) (simp_all add: hashes_first hashes_next length_turn_blocks)

lemma hashes_less: "x \<in> set (hashes_for_turn s t) \<Longrightarrow> x < 1000000 + s * 10000 + Suc t * 8"
proof (induction t)
  case 0
  then show ?case using turn_blocks_less [of x s 0] by (auto simp: hashes_first)
next
  case (Suc t)
  then show ?case using turn_blocks_less [of x s "Suc t"] by (auto simp: hashes_next)
qed

lemma system_in_hashes: "{10000, 10001} \<subseteq> set (hashes_for_turn s t)"
  by (induction t) (auto simp: hashes_first hashes_next)

definition sessions_begun :: "nat \<Rightarrow> nat \<Rightarrow> nat" where
  "sessions_begun s m = s + (if m = 0 then 0 else 1)"

definition agents_inv :: "nat \<Rightarrow> nat \<Rightarrow> nat \<Rightarrow> agents \<Rightarrow> (string \<Rightarrow> nat list list) \<Rightarrow> bool" where
  "agents_inv d s m st R \<longleftrightarrow>
     (\<forall>b. dget (ag_sims st) b [] = kv_run CAP_BLOCKS (R b)) \<and>
     (\<forall>b. \<forall>x \<in> set (concat (R b)). x < 1000000 + s * 10000 + m * 8) \<and>
     (\<forall>b. R b \<noteq> [] \<longrightarrow> (\<exists>s' t'. t' \<le> d \<and> List.last (R b) = hashes_for_turn s' t')) \<and>
     (\<forall>i < 3. R (BACKENDS ! i) = [] \<longleftrightarrow> sessions_begun s m \<le> i) \<and>
     (0 < m \<longrightarrow> List.last (R (BACKENDS ! (s mod 3))) = hashes_for_turn s (m - 1)) \<and>
     (\<forall>s'. map_of (ag_pinned st) s' = (if s' < sessions_begun s m then Some (BACKENDS ! (s' mod 3)) else None)) \<and>
     ag_rr st = sessions_begun s m \<and>
     ag_total st = ag_hit st + 8 * (Suc d * s + m) + 2 * min 3 (sessions_begun s m)"

lemma agents_invD:
  assumes "agents_inv d s m st R"
  shows "dget (ag_sims st) b [] = kv_run CAP_BLOCKS (R b)"
    and "\<forall>x \<in> set (concat (R b)). x < 1000000 + s * 10000 + m * 8"
    and "R b \<noteq> [] \<Longrightarrow> \<exists>s' t'. t' \<le> d \<and> List.last (R b) = hashes_for_turn s' t'"
    and "i < 3 \<Longrightarrow> R (BACKENDS ! i) = [] \<longleftrightarrow> sessions_begun s m \<le> i"
    and "0 < m \<Longrightarrow> List.last (R (BACKENDS ! (s mod 3))) = hashes_for_turn s (m - 1)"
    and "map_of (ag_pinned st) s' = (if s' < sessions_begun s m then Some (BACKENDS ! (s' mod 3)) else None)"
    and "ag_rr st = sessions_begun s m"
    and "ag_total st = ag_hit st + 8 * (Suc d * s + m) + 2 * min 3 (sessions_begun s m)"
  using assms unfolding agents_inv_def by blast+

text \<open>The hits of the next turn, from the last request its backend has seen.\<close>

lemma turn_hits:
  assumes inv: "agents_inv d s m st R" and "2 + 8 * Suc d \<le> 600"
  shows "kv_hits (kv_run CAP_BLOCKS (R (BACKENDS ! (s mod 3)))) (hashes_for_turn s m) =
    (if m = 0 then if s < 3 then 0 else 2 else 2 + 8 * m)"
proof -
  let ?b = "BACKENDS ! (s mod 3)"
  let ?new = "1000000 + s * 10000 + m * 8"
  let ?held = "set (dkeys (kv_run CAP_BLOCKS (R ?b)))"
  obtain ys where ys: "turn_blocks s m = ?new # ys" using turn_blocks_Cons by blast
  have cap: "0 \<le> CAP_BLOCKS" by (simp add: CAP_BLOCKS_def)
  have fresh: "?new \<notin> ?held" using agents_invD(2) [OF inv, of ?b] kv_only_sent [OF cap, of "R ?b"] by blast
  have last: "set (List.last (R ?b)) \<subseteq> ?held" if ne: "R ?b \<noteq> []"
  proof -
    obtain s' t' where l: "t' \<le> d" "List.last (R ?b) = hashes_for_turn s' t'" using agents_invD(3) [OF inv ne] by blast
    have "length (remdups (hashes_for_turn s' t')) \<le> 2 + 8 * Suc t'" using length_remdups_leq length_hashes by metis
    then have "int (length (remdups (List.last (R ?b)))) \<le> CAP_BLOCKS" using l assms(2) by (simp add: CAP_BLOCKS_def)
    from kv_last_fits [OF cap this, of "butlast (R ?b)"] show ?thesis using ne by simp
  qed
  have used: "R ?b = [] \<longleftrightarrow> sessions_begun s m \<le> s mod 3" using agents_invD(4) [OF inv] by simp
  show ?thesis
  proof (cases m)
    case 0
    have used: "R ?b = [] \<longleftrightarrow> s < 3" using used 0 mod_less_eq_dividend [of s 3] by (auto simp: sessions_begun_def)
    show ?thesis
    proof (cases "s < 3")
      case True
      then show ?thesis using used 0 by (simp add: hashes_first kv_run_def dkeys_def)
    next
      case False
      then have ne: "R ?b \<noteq> []" using used by simp
      then obtain s' t' where "List.last (R ?b) = hashes_for_turn s' t'" using agents_invD(3) [OF inv] by blast
      then have "set [10000, 10001] \<subseteq> ?held" using last [OF ne] system_in_hashes [of s' t'] by auto
      from hits_then_miss [OF this fresh, of ys] show ?thesis using False 0 ys by (simp add: hashes_first)
    qed
  next
    case (Suc t)
    have "s mod 3 < sessions_begun s m" using Suc mod_less_eq_dividend [of s 3] by (simp add: sessions_begun_def)
    then have ne: "R ?b \<noteq> []" using used by simp
    have "List.last (R ?b) = hashes_for_turn s t" using agents_invD(5) [OF inv] Suc by simp
    then have "set (hashes_for_turn s t) \<subseteq> ?held" using last [OF ne] by simp
    from hits_then_miss [OF this fresh, of ys] show ?thesis using Suc ys by (simp add: hashes_next length_hashes)
  qed
qed

lemma pinned_pick:
  assumes inv: "agents_inv d s m st R"
  obtains st1 where "agent_pick True s st = (BACKENDS ! (s mod 3), st1)" "ag_sims st1 = ag_sims st" "ag_hit st1 = ag_hit st"
    "ag_total st1 = ag_total st" "ag_rr st1 = Suc s"
    "\<forall>s'. map_of (ag_pinned st1) s' = (if s' < Suc s then Some (BACKENDS ! (s' mod 3)) else None)"
proof -
  have len: "length BACKENDS = 3" by (simp add: BACKENDS_def)
  show thesis
  proof (cases "m = 0")
    case True
    then have "map_of (ag_pinned st) s = None" "ag_rr st = s"
      using agents_invD(6,7) [OF inv] by (simp_all add: sessions_begun_def)
    moreover have "map_of (AList.update s v (ag_pinned st)) s' = (if s' = s then Some v else if s' < s then Some (BACKENDS ! (s' mod 3)) else None)"
      for v s' using True agents_invD(6) [OF inv, of s'] by (simp add: sessions_begun_def update_conv)
    ultimately show thesis
      by (intro that [of "st\<lparr>ag_pinned := AList.update s (BACKENDS ! (s mod 3)) (ag_pinned st), ag_rr := Suc s\<rparr>"])
        (auto simp: agent_pick_def len less_Suc_eq Let_def)
  next
    case False
    then show thesis using agents_invD(6,7) [OF inv]
      by (intro that [of st]) (simp_all add: agent_pick_def sessions_begun_def)
  qed
qed

lemma agent_turn_keeps:
  assumes inv: "agents_inv d s m st R" and "m \<le> d" "2 + 8 * Suc d \<le> 600"
  shows "\<exists>R'. agents_inv d s (Suc m) (agent_turn True s st m) R'"
proof -
  let ?b = "BACKENDS ! (s mod 3)"
  let ?hs = "hashes_for_turn s m"
  let ?R = "R(?b := R ?b @ [?hs])"
  obtain st1 where st1: "agent_pick True s st = (?b, st1)" "ag_sims st1 = ag_sims st" "ag_hit st1 = ag_hit st"
    "ag_total st1 = ag_total st" "ag_rr st1 = Suc s"
    "\<forall>s'. map_of (ag_pinned st1) s' = (if s' < Suc s then Some (BACKENDS ! (s' mod 3)) else None)"
    using pinned_pick [OF inv] by blast
  let ?c = "kv_run CAP_BLOCKS (R ?b)"
  have turn: "agent_turn True s st m = st1\<lparr>ag_sims := AList.update ?b (snd (process CAP_BLOCKS ?c ?hs)) (ag_sims st),
      ag_hit := ag_hit st + kv_hits ?c ?hs, ag_total := ag_total st + length ?hs\<rparr>"
    using st1 agents_invD(1) [OF inv] by (simp add: agent_turn_def process_def Let_def)
  have inj: "BACKENDS ! i = BACKENDS ! j \<longleftrightarrow> i = j" if "i < 3" "j < 3" for i j
    using nth_eq_iff_index_eq [of BACKENDS i j] that by (simp add: BACKENDS_def)
  have fill: "(if m = 0 then if s < 3 then 0 else 2 else 2 + 8 * m) + (8 + 2 * min 3 (Suc s)) =
      2 + 8 * Suc m + 2 * min 3 (sessions_begun s m)"
    by (auto simp: sessions_begun_def min_def)
  have "agents_inv d s (Suc m) (agent_turn True s st m) ?R"
    unfolding agents_inv_def
  proof (intro conjI allI impI)
    fix b show "dget (ag_sims (agent_turn True s st m)) b [] = kv_run CAP_BLOCKS (?R b)"
      using agents_invD(1) [OF inv, of b] by (auto simp: turn dget_def update_conv kv_run_def)
  next
    fix b show "\<forall>x \<in> set (concat (?R b)). x < 1000000 + s * 10000 + Suc m * 8"
    proof (cases "b = ?b")
      case True
      then show ?thesis using agents_invD(2) [OF inv, of b] hashes_less [of _ s m] by force
    next
      case False
      then show ?thesis using agents_invD(2) [OF inv, of b] by force
    qed
  next
    fix b assume "?R b \<noteq> []"
    then show "\<exists>s' t'. t' \<le> d \<and> List.last (?R b) = hashes_for_turn s' t'"
      using agents_invD(3) [OF inv, of b] assms(2) by (cases "b = ?b") auto
  next
    fix i :: nat assume "i < 3"
    then show "(?R (BACKENDS ! i) = []) = (sessions_begun s (Suc m) \<le> i)"
      using agents_invD(4) [OF inv, of i] inj [of i "s mod 3"] by (auto simp: sessions_begun_def)
  next
    show "ag_total (agent_turn True s st m) = ag_hit (agent_turn True s st m) + 8 * (Suc d * s + Suc m) + 2 * min 3 (sessions_begun s (Suc m))"
      using agents_invD(8) [OF inv] turn_hits [OF inv assms(3)] fill by (simp add: turn length_hashes sessions_begun_def)
  qed (use st1 in \<open>simp_all add: turn sessions_begun_def\<close>)
  then show ?thesis by blast
qed

lemma agent_session_keeps:
  assumes inv: "agents_inv d s 0 st R" and "2 + 8 * Suc d \<le> 600"
  shows "\<exists>R'. agents_inv d (Suc s) 0 (agent_session True d st s) R'"
proof -
  have "\<exists>R'. agents_inv d s m (foldl (agent_turn True s) st [0..<m]) R'" if "m \<le> Suc d" for m
    using that
  proof (induction m)
    case 0
    then show ?case using inv by auto
  next
    case (Suc m)
    then show ?case using agent_turn_keeps [OF _ _ assms(2)] by fastforce
  qed
  from this [of "Suc d"] obtain R' where R': "agents_inv d s (Suc d) (agent_session True d st s) R'"
    by (auto simp: agent_session_def)
  have "x < 1000000 + s * 10000 + Suc d * 8 \<Longrightarrow> x < 1000000 + Suc s * 10000 + 0 * 8" for x :: nat using assms(2) by simp
  then have "agents_inv d (Suc s) 0 (agent_session True d st s) R'"
    using R' unfolding agents_inv_def by (auto simp: sessions_begun_def)
  then show ?thesis by blast
qed

text \<open>
  With sessions pinned to the backend of their first turn, every turn finds the whole of its history still cached: as
  long as the longest prompt fits a backend's cache, a run of any number of sessions prefills each session's own blocks
  once and the shared system prefix once on each backend that is used, however deep the sessions go.
\<close>

theorem sessions_prefill_once:
  assumes "2 + 8 * Suc depth \<le> 600"
  shows "snd (run_strategy True n_sessions depth) = 8 * Suc depth * n_sessions + 2 * min 3 n_sessions"
proof -
  have "\<exists>R. agents_inv depth n 0 (foldl (agent_session True depth) agents_init [0..<n]) R" for n
  proof (induction n)
    case 0
    have "agents_inv depth 0 0 agents_init (\<lambda>_. [])"
      by (simp add: agents_inv_def agents_init_def sessions_begun_def BACKENDS_def dget_def kv_run_def)
    then show ?case by auto
  next
    case (Suc n)
    then show ?case using agent_session_keeps [OF _ assms] by auto
  qed
  then obtain R where R: "agents_inv depth n_sessions 0 (foldl (agent_session True depth) agents_init [0..<n_sessions]) R" by blast
  show ?thesis using agents_invD(8) [OF R] by (simp add: run_strategy_def Let_def sessions_begun_def algebra_simps)
qed

theorem sessions_prefill_once_witness: "snd (run_strategy True 24 13) = 2694"
  using sessions_prefill_once [of 13 24] by simp

end
