(* ===== verification/Bench_Fair.thy ===== *)
theory Bench_Fair
  imports Mock_Backend
begin

section \<open>The fairness benchmarks\<close>

text \<open>
  \<^verbatim>\<open>bench/fairness_sim.py\<close>: a tenant that floods the gateway beside one that keeps to its quota, with a token bucket each or
  with one bucket for both.  \<^verbatim>\<open>bench/fairqueue_bench.py\<close>: three tiers in front of a scarce dispatch slot, served in order of arrival or
  by the fair queue.  Shuffles and random choices are parameters; tables and charts are left out.
\<close>


subsection \<open>Token buckets under contention\<close>

definition WINDOW_S :: pyfloat where
  "WINDOW_S = 10"

definition STEP :: pyfloat where
  "STEP = 1 / 10"

definition PER_TENANT_RPS :: pyfloat where
  "PER_TENANT_RPS = 10"

definition OFFERED :: "(string, pyfloat) dict" where
  "OFFERED = [(''greedy'', 100), (''polite'', 5)]"

text \<open>
  With a shared bucket both tenants refer to the same object, so the buckets are kept by key; \<open>fa_shuffles\<close> counts the shuffles
  drawn from the random generator.
\<close>

record fair_sim =
  fa_buckets :: "(string, TokenBucket) dict"
  fa_offered :: "(string, nat) dict"
  fa_admitted :: "(string, nat) dict"
  fa_throttled :: "(string, nat) dict"
  fa_pending :: "(string, pyfloat) dict"
  fa_now :: pyfloat
  fa_shuffles :: nat

definition bucket_key :: "bool \<Rightarrow> string \<Rightarrow> string" where
  "bucket_key shared t = (if shared then ''glob'' else t)"

definition fair_sim_init :: "bool \<Rightarrow> fair_sim" where
  "fair_sim_init shared =
     (let zero = map (\<lambda>(t, _). (t, 0)) OFFERED; total_rps = PER_TENANT_RPS * of_nat (length OFFERED) in
      \<lparr>fa_buckets = (if shared then [(''glob'', TokenBucket_init total_rps total_rps)]
         else map (\<lambda>(t, _). (t, TokenBucket_init PER_TENANT_RPS PER_TENANT_RPS)) OFFERED),
       fa_offered = zero, fa_admitted = zero, fa_throttled = zero, fa_pending = map (\<lambda>(t, _). (t, 0)) OFFERED,
       fa_now = 0, fa_shuffles = 0\<rparr>)"

text \<open>\<open>while pending[t] >= 1\<close>: the whole requests that have come due, and what stays pending.\<close>

function whole_requests :: "pyfloat \<Rightarrow> nat \<times> pyfloat" where
  "whole_requests p = (if p \<ge> 1 then let (n, r) = whole_requests (p - 1) in (Suc n, r) else (0, p))"
  by auto

termination
  by (relation "measure (\<lambda>p. nat \<lfloor>p\<rfloor>)") (auto simp: le_floor_iff)

declare whole_requests.simps [simp del]

fun attempts_loop :: "(string \<times> pyfloat) list \<Rightarrow> (string, pyfloat) dict \<Rightarrow> string list \<times> (string, pyfloat) dict" where
  "attempts_loop [] pending = ([], pending)"
| "attempts_loop ((t, rate) # rest) pending =
     (let (n, r) = whole_requests (dget pending t 0 + rate * STEP);
          (xs, pending') = attempts_loop rest (AList.update t r pending)
      in (replicate n t @ xs, pending'))"

definition bump :: "(string, nat) dict \<Rightarrow> string \<Rightarrow> (string, nat) dict" where
  "bump d t = AList.update t (dget d t 0 + 1) d"

definition fair_attempt :: "bool \<Rightarrow> fair_sim \<Rightarrow> string \<Rightarrow> fair_sim" where
  "fair_attempt shared st t =
     (let k = bucket_key shared t;
          (ok, b) = try_consume (dget (fa_buckets st) k (TokenBucket_init 0 0)) 1 (fa_now st);
          st' = st\<lparr>fa_offered := bump (fa_offered st) t, fa_buckets := AList.update k b (fa_buckets st)\<rparr>
      in if ok then st'\<lparr>fa_admitted := bump (fa_admitted st) t\<rparr> else st'\<lparr>fa_throttled := bump (fa_throttled st) t\<rparr>)"

definition fair_step :: "(nat \<Rightarrow> string list \<Rightarrow> string list) \<Rightarrow> bool \<Rightarrow> fair_sim \<Rightarrow> fair_sim" where
  "fair_step shuf shared st =
     (let (xs, pending) = attempts_loop OFFERED (fa_pending st);
          st' = foldl (fair_attempt shared) (st\<lparr>fa_pending := pending\<rparr>) (shuf (fa_shuffles st) xs)
      in st'\<lparr>fa_shuffles := fa_shuffles st + 1, fa_now := fa_now st' + STEP\<rparr>)"

lemma fair_attempt_keeps: "fa_now (foldl (fair_attempt shared) st xs) = fa_now st \<and> fa_pending (foldl (fair_attempt shared) st xs) = fa_pending st \<and>
    fa_shuffles (foldl (fair_attempt shared) st xs) = fa_shuffles st"
  by (induction xs arbitrary: st) (simp_all add: fair_attempt_def Let_def split: prod.split)

lemma fair_step_now: "fa_now (fair_step shuf shared st) = fa_now st + STEP"
  by (simp add: fair_step_def Let_def fair_attempt_keeps split: prod.split)

function fair_loop :: "(nat \<Rightarrow> string list \<Rightarrow> string list) \<Rightarrow> bool \<Rightarrow> fair_sim \<Rightarrow> fair_sim" where
  "fair_loop shuf shared st =
     (if fa_now st < WINDOW_S - 1 / 10 ^ 9 then fair_loop shuf shared (fair_step shuf shared st) else st)"
  by auto

termination
proof (relation "measure (\<lambda>(shuf, shared, st). nat \<lceil>(WINDOW_S - fa_now st) * 10\<rceil>)")
  fix shuf :: "nat \<Rightarrow> string list \<Rightarrow> string list" and shared :: bool and st :: fair_sim
  assume "fa_now st < WINDOW_S - 1 / 10 ^ 9"
  then have "0 < (WINDOW_S - fa_now st) * 10" by simp
  then have "0 < \<lceil>(WINDOW_S - fa_now st) * 10\<rceil>" by simp
  moreover have "(WINDOW_S - (fa_now st + STEP)) * 10 = (WINDOW_S - fa_now st) * 10 - 1" by (simp add: STEP_def algebra_simps)
  then have "\<lceil>(WINDOW_S - (fa_now st + STEP)) * 10\<rceil> = \<lceil>(WINDOW_S - fa_now st) * 10\<rceil> - 1"
    by (simp only: ceiling_diff_one)
  ultimately show "((shuf, shared, fair_step shuf shared st), (shuf, shared, st)) \<in> measure (\<lambda>(shuf, shared, st). nat \<lceil>(WINDOW_S - fa_now st) * 10\<rceil>)"
    by (simp add: fair_step_now)
qed simp

declare fair_loop.simps [simp del]

definition simulate :: "(nat \<Rightarrow> string list \<Rightarrow> string list) \<Rightarrow> bool \<Rightarrow> fair_sim" where
  "simulate shuf shared = fair_loop shuf shared (fair_sim_init shared)"

subsection \<open>A bucket of its own isolates a tenant\<close>

lemma whole_requests_step: "0 \<le> p \<Longrightarrow> p < 1 \<Longrightarrow> whole_requests (p + of_nat n) = (n, p)"
proof (induction n)
  case 0
  then show ?case by (simp add: whole_requests.simps [of p])
next
  case (Suc n)
  then show ?case by (subst whole_requests.simps) simp
qed

text \<open>A tenant with a bucket of its own is not touched by the attempts of the other.\<close>

definition tenant_view :: "fair_sim \<Rightarrow> string \<Rightarrow> TokenBucket \<times> nat \<times> nat \<times> nat" where
  "tenant_view st t = (dget (fa_buckets st) t (TokenBucket_init 0 0), dget (fa_offered st) t 0, dget (fa_admitted st) t 0,
     dget (fa_throttled st) t 0)"

lemma attempt_other: "t' \<noteq> t \<Longrightarrow> tenant_view (fair_attempt False st t') t = tenant_view st t"
  by (auto simp: fair_attempt_def tenant_view_def bucket_key_def bump_def Let_def split: prod.split)

lemma attempts_others: "t \<notin> set xs \<Longrightarrow> tenant_view (foldl (fair_attempt False) st xs) t = tenant_view st t"
  by (induction xs arbitrary: st) (auto simp: attempt_other)

lemma attempt_self:
  "tenant_view (fair_attempt False st t) t =
     (let (b, off, adm, thr) = tenant_view st t; (ok, b') = try_consume b 1 (fa_now st)
      in if ok then (b', off + 1, adm + 1, thr) else (b', off + 1, adm, thr + 1))"
  by (auto simp: fair_attempt_def tenant_view_def bucket_key_def bump_def Let_def split: prod.split)

lemma attempts_of_step:
  assumes "dget p ''greedy'' 0 = 0" "dget p ''polite'' 0 = of_nat (k mod 2) / 2"
  shows "attempts_loop OFFERED p = (replicate 10 ''greedy'' @ replicate (k mod 2) ''polite'',
    AList.update ''polite'' (of_nat (Suc k mod 2) / 2) (AList.update ''greedy'' 0 p))"
proof -
  define h :: pyfloat where "h = of_nat (k mod 2) / 2"
  have "whole_requests 10 = (10, 0)" using whole_requests_step [of 0 10] by simp
  moreover have "whole_requests (of_nat (k mod 2) / 2 + 1 / 2) = (k mod 2, of_nat (Suc k mod 2) / 2)"
  proof (cases "even k")
    case True
    then have "k mod 2 = 0" "Suc k mod 2 = 1" by presburger+
    then show ?thesis using whole_requests_step [of "1 / 2" 0] by simp
  next
    case False
    then have "k mod 2 = 1" "Suc k mod 2 = 0" by presburger+
    then show ?thesis using whole_requests_step [of 0 1] by simp
  qed
  ultimately show ?thesis using assms unfolding h_def [symmetric] by (simp add: OFFERED_def STEP_def Let_def)
qed

text \<open>What holds of the polite tenant before step \<open>k\<close>: it has never been refused and has a request in hand; and of the greedy one.\<close>

definition polite_ok :: "nat \<Rightarrow> TokenBucket \<times> nat \<times> nat \<times> nat \<Rightarrow> bool" where
  "polite_ok k v \<longleftrightarrow> (case v of (b, off, adm, thr) \<Rightarrow> capacity b = 10 \<and> refill b = 10 \<and> ts b \<le> of_nat k / 10 \<and>
     9 \<le> tokens b + 10 * (of_nat k / 10 - ts b) \<and> off = k div 2 \<and> adm = off \<and> thr = 0)"

definition greedy_ok :: "nat \<Rightarrow> TokenBucket \<times> nat \<times> nat \<times> nat \<Rightarrow> bool" where
  "greedy_ok k v \<longleftrightarrow> (case v of (b, off, adm, thr) \<Rightarrow> capacity b = 10 \<and> refill b = 10 \<and> ts b \<le> of_nat k / 10 \<and>
     0 \<le> tokens b \<and> of_nat adm + tokens b \<le> 10 + 10 * ts b \<and> off = adm + thr)"

lemma greedy_attempt:
  assumes "greedy_ok k (tenant_view st t)" "fa_now st = of_nat k / 10"
  shows "greedy_ok k (tenant_view (fair_attempt False st t) t)"
  using assms by (auto simp: greedy_ok_def attempt_self try_consume_def replenish_def Let_def min_def split: prod.splits if_splits)

lemma greedy_attempts:
  assumes "greedy_ok k (tenant_view st t)" "fa_now st = of_nat k / 10"
  shows "greedy_ok k (tenant_view (foldl (fair_attempt False) st xs) t)"
  using assms
proof (induction xs arbitrary: st)
  case (Cons x xs)
  have "greedy_ok k (tenant_view (fair_attempt False st x) t)"
    using greedy_attempt [OF Cons.prems] attempt_other [of x t st] Cons.prems by (cases "x = t") auto
  moreover have "fa_now (fair_attempt False st x) = of_nat k / 10" using fair_attempt_keeps [of False st "[x]"] Cons.prems by simp
  ultimately show ?case using Cons.IH by simp
qed simp

text \<open>A polite request in step \<open>k\<close> is always admitted.\<close>

lemma polite_attempt:
  assumes "polite_ok k (tenant_view st t)" "fa_now st = of_nat k / 10"
  shows "tenant_view (fair_attempt False st t) t = (case tenant_view st t of (b, off, adm, thr) \<Rightarrow>
    ((replenish b (fa_now st))\<lparr>tokens := tokens (replenish b (fa_now st)) - 1\<rparr>, off + 1, adm + 1, thr))"
  using assms by (auto simp: polite_ok_def attempt_self try_consume_def replenish_def Let_def min_def split: prod.splits if_splits)

lemma polite_attempts:
  assumes ok: "polite_ok k (tenant_view st t)" and now: "fa_now st = of_nat k / 10" and c: "Multiset.count (mset xs) t = k mod 2"
  shows "polite_ok (Suc k) (tenant_view (foldl (fair_attempt False) st xs) t)"
proof (cases "even k")
  case True
  then have "t \<notin> set xs" "Suc k div 2 = k div 2" using c by (auto simp: count_eq_zero_iff)
  then show ?thesis using ok by (auto simp: attempts_others polite_ok_def add_divide_distrib)
next
  case False
  then have "Multiset.count (mset xs) t = 1" "Suc k div 2 = k div 2 + 1" using c by presburger+
  moreover from this obtain ys zs where xs: "xs = ys @ t # zs" by (metis count_greater_zero_iff in_multiset_in_set split_list zero_less_one)
  ultimately have n: "t \<notin> set ys" "t \<notin> set zs" by (auto simp: count_eq_zero_iff)
  let ?st = "foldl (fair_attempt False) st ys"
  have v: "tenant_view ?st t = tenant_view st t" using n(1) by (rule attempts_others)
  have n': "fa_now ?st = of_nat k / 10" using fair_attempt_keeps now by simp
  have "tenant_view (fair_attempt False ?st t) t = (case tenant_view st t of (b, off, adm, thr) \<Rightarrow>
    ((replenish b (of_nat k / 10))\<lparr>tokens := tokens (replenish b (of_nat k / 10)) - 1\<rparr>, off + 1, adm + 1, thr))"
    by (rule polite_attempt [of k ?st t, unfolded v n']) (rule ok, rule refl)
  then have "polite_ok (Suc k) (tenant_view (fair_attempt False ?st t) t)"
    using ok \<open>Suc k div 2 = k div 2 + 1\<close> by (auto simp: polite_ok_def replenish_def min_def add_divide_distrib split: prod.splits if_splits)
  then show ?thesis using n(2) by (simp add: xs attempts_others)
qed

definition fair_inv_at :: "nat \<Rightarrow> fair_sim \<Rightarrow> bool" where
  "fair_inv_at k st \<longleftrightarrow> fa_now st = of_nat k / 10 \<and> dget (fa_pending st) ''greedy'' 0 = 0 \<and>
     dget (fa_pending st) ''polite'' 0 = of_nat (k mod 2) / 2 \<and>
     polite_ok k (tenant_view st ''polite'') \<and> greedy_ok k (tenant_view st ''greedy'')"

lemma fair_inv_init_at: "fair_inv_at 0 (fair_sim_init False)"
  by (simp add: fair_inv_at_def fair_sim_init_def tenant_view_def polite_ok_def greedy_ok_def OFFERED_def PER_TENANT_RPS_def
      TokenBucket_init_def dget_def Let_def)

lemma fair_inv_step_at:
  assumes inv: "fair_inv_at k st" and shuf: "\<And>j xs. mset (shuf j xs) = mset xs"
  shows "fair_inv_at (Suc k) (fair_step shuf False st)"
proof -
  let ?xs = "replicate 10 ''greedy'' @ replicate (k mod 2) ''polite''"
  let ?p = "AList.update ''polite'' (of_nat (Suc k mod 2) / 2) (AList.update ''greedy'' 0 (fa_pending st))"
  let ?st = "st\<lparr>fa_pending := ?p\<rparr>"
  let ?fin = "foldl (fair_attempt False) ?st (shuf (fa_shuffles st) ?xs)"
  have step: "fair_step shuf False st = ?fin\<lparr>fa_shuffles := fa_shuffles st + 1, fa_now := fa_now ?fin + STEP\<rparr>"
    using attempts_of_step [of "fa_pending st" k] inv unfolding fair_step_def fair_inv_at_def by (simp add: Let_def)
  have view: "tenant_view ?st t = tenant_view st t" for t by (simp add: tenant_view_def)
  have "Multiset.count (mset (shuf (fa_shuffles st) ?xs)) ''polite'' = k mod 2" by (simp add: shuf)
  then have "polite_ok (Suc k) (tenant_view ?fin ''polite'')" using inv by (intro polite_attempts) (simp_all add: view fair_inv_at_def)
  moreover have "greedy_ok k (tenant_view ?fin ''greedy'')" using inv by (intro greedy_attempts) (simp_all add: view fair_inv_at_def)
  then have "greedy_ok (Suc k) (tenant_view ?fin ''greedy'')" by (auto simp: greedy_ok_def)
  moreover have "fa_now ?fin + STEP = of_nat (Suc k) / 10" "fa_pending ?fin = ?p"
    using inv by (simp_all add: fair_attempt_keeps fair_inv_at_def STEP_def add_divide_distrib)
  moreover have "tenant_view (fair_step shuf False st) t = tenant_view ?fin t" for t by (simp add: step tenant_view_def)
  ultimately show ?thesis by (simp add: step fair_inv_at_def)
qed

lemma fair_loop_inv:
  assumes "fair_inv_at k st" "k + n = 100" "\<And>j xs. mset (shuf j xs) = mset xs"
  shows "fair_inv_at 100 (fair_loop shuf False st)"
  using assms(1,2)
proof (induction n arbitrary: k st)
  case 0
  then show ?case by (subst fair_loop.simps) (simp add: fair_inv_at_def WINDOW_S_def)
next
  case (Suc n)
  have "of_nat k \<le> (99 :: pyfloat)" using Suc.prems(2) by simp
  then have "fa_now st < WINDOW_S - 1 / 10 ^ 9" using Suc.prems(1) by (simp add: fair_inv_at_def WINDOW_S_def)
  moreover have "fair_inv_at 100 (fair_loop shuf False (fair_step shuf False st))"
    using Suc fair_inv_step_at [of k st shuf, OF Suc.prems(1) assms(3)] by auto
  ultimately show ?case by (subst fair_loop.simps) simp
qed

text \<open>
  A bucket of its own isolates a tenant from the others: however the attempts of a step are interleaved, every one of the 50
  requests of the polite tenant is admitted beside a tenant that floods the gateway, and the flood gets no more than its burst and
  its rate.
\<close>

theorem polite_never_throttled:
  assumes "\<And>j xs. mset (shuf j xs) = mset xs"
  shows "let st = simulate shuf False in
    dget (fa_offered st) ''polite'' 0 = 50 \<and> dget (fa_admitted st) ''polite'' 0 = 50 \<and> dget (fa_throttled st) ''polite'' 0 = 0 \<and>
    dget (fa_admitted st) ''greedy'' 0 \<le> 110"
proof -
  let ?st = "simulate shuf False"
  have inv: "fair_inv_at 100 ?st" using fair_loop_inv [OF fair_inv_init_at _ assms, of 100] by (simp add: simulate_def)
  obtain b off adm thr where v: "tenant_view ?st ''greedy'' = (b, off, adm, thr)" by (metis surj_pair)
  then have "of_nat adm + tokens b \<le> 10 + 10 * ts b" "0 \<le> tokens b" "ts b \<le> 10" using inv by (auto simp: fair_inv_at_def greedy_ok_def)
  then have "of_nat adm \<le> (110 :: pyfloat)" by linarith
  then have "adm \<le> 110" by simp
  then show ?thesis using inv v by (simp add: fair_inv_at_def polite_ok_def tenant_view_def)
qed

theorem polite_never_throttled_witness:
  "let st = simulate (\<lambda>k xs. if even k then rev xs else xs) False in dget (fa_admitted st) ''polite'' 0 = 50 \<and> dget (fa_throttled st) ''polite'' 0 = 0"
  using polite_never_throttled [of "\<lambda>k xs. if even k then rev xs else xs"] by (simp add: Let_def)

text \<open>With one bucket for both, the flood leaves the polite tenant nothing when its attempts come first.\<close>

definition glob_view :: "fair_sim \<Rightarrow> TokenBucket \<times> nat \<times> nat" where
  "glob_view st = (dget (fa_buckets st) ''glob'' (TokenBucket_init 0 0), dget (fa_offered st) ''polite'' 0, dget (fa_admitted st) ''polite'' 0)"

lemma glob_attempt:
  "glob_view (fair_attempt True st t) =
     (let (b, off, adm) = glob_view st; (ok, b') = try_consume b 1 (fa_now st)
      in (b', if t = ''polite'' then off + 1 else off, if t = ''polite'' \<and> ok then adm + 1 else adm))"
  by (auto simp: fair_attempt_def glob_view_def bucket_key_def bump_def Let_def split: prod.split)

lemma glob_attempts:
  assumes "t \<noteq> ''polite''" "glob_view st = (b, off, adm)"
  shows "glob_view (foldl (fair_attempt True) st (replicate n t)) =
    (((\<lambda>b. snd (try_consume b 1 (fa_now st))) ^^ n) b, off, adm)"
  using assms(2)
proof (induction n arbitrary: st b)
  case (Suc n)
  have "glob_view (fair_attempt True st t) = (snd (try_consume b 1 (fa_now st)), off, adm)"
    using assms(1) Suc.prems by (simp add: glob_attempt Let_def split: prod.split)
  moreover have "fa_now (fair_attempt True st t) = fa_now st" using fair_attempt_keeps [of True st "[t]"] by simp
  ultimately show ?case using Suc.IH by (simp add: funpow_Suc_right del: funpow.simps)
qed simp

lemma drained_bucket:
  "((\<lambda>b. snd (try_consume b 1 now)) ^^ 10) \<lparr>capacity = 20, refill = 20, tokens = 0, ts = now - 1 / 10\<rparr> =
     \<lparr>capacity = 20, refill = 20, tokens = 0, ts = now\<rparr>"
  by (simp add: eval_nat_numeral try_consume_def replenish_def)

definition starved_at :: "nat \<Rightarrow> fair_sim \<Rightarrow> bool" where
  "starved_at k st \<longleftrightarrow> fa_now st = of_nat k / 10 \<and> dget (fa_pending st) ''greedy'' 0 = 0 \<and>
     dget (fa_pending st) ''polite'' 0 = of_nat (k mod 2) / 2 \<and>
     glob_view st = (\<lparr>capacity = 20, refill = 20, tokens = 0, ts = of_nat k / 10 - 1 / 10\<rparr>, k div 2, 1)"

lemma starved_start: "starved_at 3 ((fair_step (\<lambda>_ xs. xs) True ^^ 3) (fair_sim_init True))"
  by code_simp

lemma starved_step:
  assumes st: "starved_at k st"
  shows "starved_at (Suc k) (fair_step (\<lambda>_ xs. xs) True st)"
proof -
  let ?p = "AList.update ''polite'' (of_nat (Suc k mod 2) / 2) (AList.update ''greedy'' 0 (fa_pending st))"
  let ?st = "st\<lparr>fa_pending := ?p\<rparr>"
  let ?mid = "foldl (fair_attempt True) ?st (replicate 10 ''greedy'')"
  let ?fin = "foldl (fair_attempt True) ?mid (replicate (k mod 2) ''polite'')"
  let ?b = "\<lparr>capacity = 20, refill = 20, tokens = 0, ts = of_nat k / 10\<rparr>"
  have step: "fair_step (\<lambda>_ xs. xs) True st = ?fin\<lparr>fa_shuffles := fa_shuffles st + 1, fa_now := fa_now ?fin + STEP\<rparr>"
    using attempts_of_step [of "fa_pending st" k] st unfolding fair_step_def starved_at_def by (simp add: Let_def)
  have now: "fa_now ?st = of_nat k / 10" using st by (simp add: starved_at_def)
  have "glob_view ?st = (\<lparr>capacity = 20, refill = 20, tokens = 0, ts = of_nat k / 10 - 1 / 10\<rparr>, k div 2, 1)"
    using st unfolding starved_at_def by (simp add: glob_view_def)
  from glob_attempts [OF _ this, of "''greedy''" 10, unfolded now drained_bucket]
  have mid: "glob_view ?mid = (?b, k div 2, 1)" by simp
  have now': "fa_now ?mid = of_nat k / 10" using fair_attempt_keeps now by metis
  have refused: "try_consume ?b 1 (of_nat k / 10) = (False, ?b)" by (simp add: try_consume_def replenish_def)
  have "glob_view ?fin = (?b, Suc k div 2, 1)"
  proof (cases "even k")
    case True
    then have "k mod 2 = 0" "Suc k div 2 = k div 2" by presburger+
    then show ?thesis using mid by simp
  next
    case False
    then have "k mod 2 = 1" "Suc k div 2 = k div 2 + 1" by presburger+
    then show ?thesis using glob_attempt [of ?mid "''polite''", unfolded mid now' refused Let_def prod.case] by simp
  qed
  moreover have "glob_view (fair_step (\<lambda>_ xs. xs) True st) = glob_view ?fin" by (simp add: step glob_view_def)
  moreover have "fa_now ?fin + STEP = of_nat (Suc k) / 10" "fa_pending ?fin = ?p"
    using st by (simp_all add: fair_attempt_keeps starved_at_def STEP_def add_divide_distrib)
  ultimately show ?thesis unfolding starved_at_def by (simp add: step add_divide_distrib)
qed

lemma starved_loop:
  "starved_at k st \<Longrightarrow> k + n = 100 \<Longrightarrow> starved_at 100 (fair_loop (\<lambda>_ xs. xs) True st)"
proof (induction n arbitrary: k st)
  case 0
  then show ?case by (subst fair_loop.simps) (simp add: starved_at_def WINDOW_S_def)
next
  case (Suc n)
  have "of_nat k \<le> (99 :: pyfloat)" using Suc.prems(2) by simp
  then have "fa_now st < WINDOW_S - 1 / 10 ^ 9" using Suc.prems(1) by (simp add: starved_at_def WINDOW_S_def)
  moreover have "starved_at 100 (fair_loop (\<lambda>_ xs. xs) True (fair_step (\<lambda>_ xs. xs) True st))"
    using Suc starved_step [OF Suc.prems(1)] by auto
  ultimately show ?case by (subst fair_loop.simps) simp
qed

lemma fair_loop_unroll: "fa_now st + of_nat n / 10 < 99 / 10 \<Longrightarrow> fair_loop shuf shared st = fair_loop shuf shared ((fair_step shuf shared ^^ n) st)"
proof (induction n arbitrary: st)
  case (Suc n)
  have "0 \<le> (of_nat n :: pyfloat)" by simp
  then have "fa_now st < WINDOW_S - 1 / 10 ^ 9" using Suc.prems by (simp add: WINDOW_S_def add_divide_distrib)
  moreover have "fair_loop shuf shared (fair_step shuf shared st) = fair_loop shuf shared ((fair_step shuf shared ^^ n) (fair_step shuf shared st))"
    using Suc.prems by (intro Suc.IH) (simp add: fair_step_now STEP_def field_simps)
  ultimately show ?case by (subst fair_loop.simps) (simp add: funpow_swap1)
qed simp

theorem shared_bucket_starves:
  "let st = simulate (\<lambda>_ xs. xs) True in dget (fa_offered st) ''polite'' 0 = 50 \<and> dget (fa_admitted st) ''polite'' 0 = 1"
proof -
  have "fa_now (fair_sim_init True) = 0" by (simp add: fair_sim_init_def Let_def)
  then have "simulate (\<lambda>_ xs. xs) True = fair_loop (\<lambda>_ xs. xs) True ((fair_step (\<lambda>_ xs. xs) True ^^ 3) (fair_sim_init True))"
    unfolding simulate_def by (intro fair_loop_unroll) simp
  then have "starved_at 100 (simulate (\<lambda>_ xs. xs) True)" using starved_loop [OF starved_start, of 97] by simp
  then show ?thesis by (simp add: starved_at_def glob_view_def)
qed

subsection \<open>The fair queue against order of arrival\<close>

definition WEIGHTS :: "(string, pyfloat) dict" where
  "WEIGHTS = [(''gold'', 3), (''silver'', 2), (''bronze'', 1)]"

definition ARRIVAL_MIX :: "(string, pyfloat) dict" where
  "ARRIVAL_MIX = [(''gold'', 1 / 10), (''silver'', 2 / 10), (''bronze'', 7 / 10)]"

text \<open>\<open>picks k\<close> is the tier the random generator draws for arrival \<open>k\<close>.\<close>

definition make_arrivals :: "(nat \<Rightarrow> nat) \<Rightarrow> nat \<Rightarrow> string list" where
  "make_arrivals picks n = map (\<lambda>k. dkeys ARRIVAL_MIX ! picks k) [0..<n]"

definition py_Counter :: "string list \<Rightarrow> (string, nat) dict" where
  "py_Counter xs = foldl bump [] xs"

fun enqueue_all :: "string WeightedFairQueue \<Rightarrow> string list \<Rightarrow> string WeightedFairQueue result" where
  "enqueue_all q [] = Inr q"
| "enqueue_all q (cls # cs) =
     (case map_of WEIGHTS cls of
        None \<Rightarrow> Inl KeyError
      | Some w \<Rightarrow> enqueue_all (snd (enqueue q cls cls w 1)) cs)"

fun dequeue_all :: "nat \<Rightarrow> 'i WeightedFairQueue \<Rightarrow> 'i list result" where
  "dequeue_all 0 q = Inr []"
| "dequeue_all (Suc n) q = res_bind (dequeue q) (\<lambda>(x, q'). res_bind (dequeue_all n q') (\<lambda>xs. Inr (x # xs)))"

record fq_result =
  fq_arrivals :: "(string, nat) dict"
  fq_fifo :: "(string, nat) dict"
  fq_wfq :: "(string, nat) dict"
  fq_serve :: int

definition fq_bench :: "(nat \<Rightarrow> nat) \<Rightarrow> nat \<Rightarrow> pyfloat \<Rightarrow> fq_result result" where
  "fq_bench picks n serve_fraction =
     (let arrivals = make_arrivals picks n; serve = rat_trunc (of_nat n * serve_fraction) in
      res_bind (enqueue_all WeightedFairQueue_init arrivals) (\<lambda>q.
      res_bind (dequeue_all (nat serve) q) (\<lambda>out.
        Inr \<lparr>fq_arrivals = py_Counter arrivals, fq_fifo = py_Counter (slice_to serve arrivals), fq_wfq = py_Counter out,
             fq_serve = serve\<rparr>)))"

definition completion :: "(string, nat) dict \<Rightarrow> (string, nat) dict \<Rightarrow> string \<Rightarrow> pyfloat" where
  "completion served_by arr t = (let a = dget arr t 0 in if a \<noteq> 0 then of_nat (dget served_by t 0) / of_nat a else 0)"

lemma Counter_count: "dget (py_Counter xs) t 0 = count_list xs t"
proof -
  have "dget (foldl bump d xs) t 0 = dget d t 0 + count_list xs t" for d
    by (induction xs arbitrary: d) (auto simp: bump_def)
  then show ?thesis by (simp add: py_Counter_def dget_def)
qed

lemma dequeue_all_heap:
  "n \<le> length (heap q) \<Longrightarrow> dequeue_all n q = Inr (map (\<lambda>e. snd (snd e)) (take n (heap q)))"
proof (induction n arbitrary: q)
  case (Suc n)
  then obtain t s x h where q: "heap q = (t, s, x) # h" by (cases "heap q") auto
  then obtain q' where "dequeue q = Inr (x, q')" "heap q' = h" by (auto simp: dequeue_def Let_def)
  then show ?case using Suc q by simp
qed simp

text \<open>The queue after the arrivals \<open>as\<close>: every tier has the finish times of its own requests, one step of its weight apart.\<close>

definition finish_times :: "pyfloat \<Rightarrow> nat \<Rightarrow> pyfloat list" where
  "finish_times w n = map (\<lambda>k. of_nat (Suc k) / w) [0..<n]"

definition filled :: "string WeightedFairQueue \<Rightarrow> string list \<Rightarrow> bool" where
  "filled q as \<longleftrightarrow> vt q = 0 \<and> sorted (map entry_key (heap q)) \<and>
     mset (map (\<lambda>e. snd (snd e)) (heap q)) = mset as \<and>
     (\<forall>(c, w) \<in> set WEIGHTS. dget (last_finish q) c 0 = of_nat (count_list as c) / w \<and>
        mset (map fst (filter (\<lambda>e. snd (snd e) = c) (heap q))) = mset (finish_times w (count_list as c)))"

lemma push_filter_mset:
  "mset (map g (filter P (heappush h e))) = (if P e then add_mset (g e) (mset (map g (filter P h))) else mset (map g (filter P h)))"
  by (simp add: heappush_def mset_filter)

lemma finish_times_Suc: "mset (finish_times w (Suc n)) = add_mset (of_nat (Suc n) / w) (mset (finish_times w n))"
  by (simp add: finish_times_def)

lemma filled_enqueue:
  assumes "filled q as" "(c, w) \<in> set WEIGHTS"
  shows "filled (snd (enqueue q c c w 1)) (as @ [c])"
proof -
  let ?f = "of_nat (Suc (count_list as c)) / w"
  let ?q = "snd (enqueue q c c w 1)"
  have w: "0 < w" and uniq: "\<And>w'. (c, w') \<in> set WEIGHTS \<Longrightarrow> w' = w" using assms(2) by (auto simp: WEIGHTS_def)
  have old: "dget (last_finish q) c' 0 = of_nat (count_list as c') / w'"
    "mset (map fst (filter (\<lambda>e. snd (snd e) = c') (heap q))) = mset (finish_times w' (count_list as c'))"
    if "(c', w') \<in> set WEIGHTS" for c' w' using assms(1) that unfolding filled_def by blast+
  have vt: "vt q = 0" using assms(1) unfolding filled_def by blast
  have q': "heap ?q = heappush (heap q) (?f, seq q, c)" "last_finish ?q = AList.update c ?f (last_finish q)" "vt ?q = 0"
    using w old(1) [OF assms(2)] vt by (simp_all add: enqueue_def Let_def max_def add_divide_distrib add.commute)
  have "dget (last_finish ?q) c' 0 = of_nat (count_list (as @ [c]) c') / w' \<and>
      mset (map fst (filter (\<lambda>e. snd (snd e) = c') (heap ?q))) = mset (finish_times w' (count_list (as @ [c]) c'))"
    if c': "(c', w') \<in> set WEIGHTS" for c' w'
  proof (cases "c' = c")
    case True
    then have "w' = w" using uniq c' by blast
    then show ?thesis using True old [OF assms(2)] by (simp only: q' push_filter_mset) (simp add: finish_times_Suc)
  next
    case False
    then show ?thesis using old [OF c'] by (simp only: q' push_filter_mset) simp
  qed
  moreover have "mset (map (\<lambda>e. snd (snd e)) (heap ?q)) = mset (as @ [c])"
    using assms(1) by (simp add: filled_def q'(1) heappush_def)
  moreover have "sorted (map entry_key (heap ?q))" using assms(1) by (simp add: filled_def q' heappush_def sorted_insort_key)
  ultimately show ?thesis unfolding filled_def using q'(3) by blast
qed

lemma filled_enqueue_all:
  assumes "filled q as" "set cs \<subseteq> dom (map_of WEIGHTS)"
  shows "\<exists>q'. enqueue_all q cs = Inr q' \<and> filled q' (as @ cs)"
  using assms
proof (induction cs arbitrary: q as)
  case (Cons c cs)
  then obtain w where w: "map_of WEIGHTS c = Some w" by auto
  then have "filled (snd (enqueue q c c w 1)) (as @ [c])" using Cons.prems(1) by (intro filled_enqueue) (simp_all add: map_of_SomeD)
  from Cons.IH [OF this] Cons.prems(2) w show ?case by simp
qed simp

text \<open>No more than its weight's share of a tier's requests finish by a virtual time.\<close>

lemma finished_by:
  assumes "0 < w" "0 \<le> T"
  shows "of_nat (length (filter (\<lambda>t. t \<le> T) (finish_times w n))) \<le> T * w"
proof -
  have "length (filter (\<lambda>t. t \<le> T) (finish_times w n)) = card {k. k < n \<and> of_nat (Suc k) / w \<le> T}"
    by (auto simp: finish_times_def filter_map comp_def length_filter_conv_card intro!: arg_cong [of _ _ card])
  also have "\<dots> \<le> card {..<nat \<lfloor>T * w\<rfloor>}"
  proof (intro card_mono subsetI)
    fix k assume "k \<in> {k. k < n \<and> of_nat (Suc k) / w \<le> T}"
    then have "of_nat (Suc k) \<le> T * w" using assms(1) by (simp add: field_simps)
    then have "int (Suc k) \<le> \<lfloor>T * w\<rfloor>" by (simp add: le_floor_iff)
    then show "k \<in> {..<nat \<lfloor>T * w\<rfloor>}" by simp
  qed simp
  finally have "length (filter (\<lambda>t. t \<le> T) (finish_times w n)) \<le> nat \<lfloor>T * w\<rfloor>" by simp
  moreover have "of_nat (nat \<lfloor>T * w\<rfloor>) \<le> T * w" using assms by simp
  ultimately show ?thesis by (meson of_nat_le_iff order_trans)
qed

lemma three_tiers:
  assumes "\<forall>e \<in> set h. snd (snd e) \<in> {''gold'', ''silver'', ''bronze''}"
  shows "length (filter P h) = (\<Sum>(c, w) \<leftarrow> WEIGHTS. length (filter (\<lambda>e. P e \<and> snd (snd e) = c) h))"
  using assms by (induction h) (auto simp: WEIGHTS_def)

lemma dom_WEIGHTS: "dom (map_of WEIGHTS) = {''gold'', ''silver'', ''bronze''}"
  by (auto simp: WEIGHTS_def split: if_splits)

lemma early_entries:
  assumes "filled q as" "set as \<subseteq> dom (map_of WEIGHTS)" "0 \<le> T"
  shows "of_nat (length (filter (\<lambda>e. fst e \<le> T) (heap q))) \<le> 6 * T"
proof -
  have tier: "of_nat (length (filter (\<lambda>e. fst e \<le> T \<and> snd (snd e) = c) (heap q))) \<le> T * w" if c: "(c, w) \<in> set WEIGHTS" for c w
  proof -
    have "mset (map fst (filter (\<lambda>e. snd (snd e) = c) (heap q))) = mset (finish_times w (count_list as c))"
      using assms(1) c by (auto simp: filled_def)
    then have "size (filter_mset (\<lambda>t. t \<le> T) (mset (map fst (filter (\<lambda>e. snd (snd e) = c) (heap q))))) =
        size (filter_mset (\<lambda>t. t \<le> T) (mset (finish_times w (count_list as c))))" by simp
    then have "length (filter (\<lambda>t. t \<le> T) (map fst (filter (\<lambda>e. snd (snd e) = c) (heap q)))) =
        length (filter (\<lambda>t. t \<le> T) (finish_times w (count_list as c)))" by (simp only: mset_filter [symmetric] size_mset)
    then have "length (filter (\<lambda>e. fst e \<le> T \<and> snd (snd e) = c) (heap q)) = length (filter (\<lambda>t. t \<le> T) (finish_times w (count_list as c)))"
      by (simp add: filter_map comp_def conj_commute)
    moreover have "0 < w" using c by (auto simp: WEIGHTS_def)
    ultimately show ?thesis using finished_by [of w T] assms(3) by simp
  qed
  have "set_mset (mset (map (\<lambda>e. snd (snd e)) (heap q))) = set_mset (mset as)" using assms(1) by (simp only: filled_def)
  then have "(\<lambda>e. snd (snd e)) ` set (heap q) \<subseteq> {''gold'', ''silver'', ''bronze''}" using assms(2) by (simp add: dom_WEIGHTS)
  then have "\<forall>e \<in> set (heap q). snd (snd e) \<in> {''gold'', ''silver'', ''bronze''}" by blast
  from three_tiers [OF this, of "\<lambda>e. fst e \<le> T"] show ?thesis
    using tier [of "''gold''" 3] tier [of "''silver''" 2] tier [of "''bronze''" 1] by (simp add: WEIGHTS_def)
qed

lemma sorted_take_all:
  assumes "sorted (map entry_key h)" "length (filter (\<lambda>e. fst e \<le> T) h) \<le> n" "\<forall>e \<in> set h. P e \<longrightarrow> fst e \<le> T"
  shows "filter P (drop n h) = []"
proof -
  have "sorted (map fst h)" using assms(1) by (force simp: sorted_iff_nth_mono entry_key_def)
  then have "filter (\<lambda>e. fst e \<le> T) h = takeWhile (\<lambda>e. fst e \<le> T) h"
  proof (induction h)
    case (Cons e h)
    then show ?case by (cases h) (auto simp: filter_empty_conv)
  qed simp
  then have "set (drop n h) \<subseteq> set (dropWhile (\<lambda>e. fst e \<le> T) h)"
    using assms(2) by (simp add: dropWhile_eq_drop set_drop_subset_set_drop)
  moreover have "\<forall>e \<in> set (dropWhile (\<lambda>e. fst e \<le> T) h). T < fst e"
    using \<open>sorted (map fst h)\<close> by (induction h) auto
  ultimately show ?thesis using assms(3) set_drop_subset [of n h] by (fastforce simp: filter_empty_conv)
qed

text \<open>
  C40. The fair queue isolates the tiers of the benchmark: whatever the order and the mix of the arrivals, a tier whose requests are no more
  than its weighted share of the capacity (3, 2 and 1 sixths) is served completely, however much the others flood the queue.
\<close>

theorem wfq_isolates:
  assumes "\<And>k. picks k < 3" "0 \<le> share" "share \<le> 1"
  shows "\<exists>r. fq_bench picks n share = Inr r \<and>
    (\<forall>(t, w) \<in> set WEIGHTS. of_nat (dget (fq_arrivals r) t 0) \<le> w / 6 * of_int (fq_serve r) \<longrightarrow>
       dget (fq_wfq r) t 0 = dget (fq_arrivals r) t 0)"
proof -
  let ?as = "make_arrivals picks n"
  define s where "s = nat (rat_trunc (of_nat n * share))"
  have pos: "0 \<le> of_nat n * share" "of_nat n * share \<le> of_nat n" using assms(2,3) by (simp_all add: mult_left_le)
  then have tr: "rat_trunc (of_nat n * share) = int s" "s \<le> n"
    unfolding s_def rat_trunc_def by (simp_all add: nat_le_iff floor_le_iff)
  have tiers: "dkeys ARRIVAL_MIX ! j \<in> {''gold'', ''silver'', ''bronze''}" if "j < 3" for j
    using that by (auto simp: ARRIVAL_MIX_def dkeys_def less_Suc_eq eval_nat_numeral)
  have as: "set ?as \<subseteq> dom (map_of WEIGHTS)" using tiers [OF assms(1)] unfolding dom_WEIGHTS make_arrivals_def by auto
  have "filled WeightedFairQueue_init []" by (simp add: filled_def WeightedFairQueue_init_def finish_times_def)
  from filled_enqueue_all [OF this as] obtain q where q: "enqueue_all WeightedFairQueue_init ?as = Inr q" "filled q ?as" by auto
  have m: "mset (map (\<lambda>e. snd (snd e)) (heap q)) = mset ?as" using q(2) by (simp only: filled_def)
  then have len: "s \<le> length (heap q)" using tr(2) mset_eq_length [OF m] by (simp add: make_arrivals_def)
  let ?out = "map (\<lambda>e. snd (snd e)) (take s (heap q))"
  let ?r = "\<lparr>fq_arrivals = py_Counter ?as, fq_fifo = py_Counter (slice_to (int s) ?as), fq_wfq = py_Counter ?out, fq_serve = int s\<rparr>"
  have run: "fq_bench picks n share = Inr ?r" using q(1) dequeue_all_heap [OF len] by (simp add: fq_bench_def tr Let_def)
  have "count_list ?out t = count_list ?as t" if t: "(t, w) \<in> set WEIGHTS" and few: "of_nat (count_list ?as t) \<le> w / 6 * of_nat s" for t w
  proof -
    let ?T = "of_nat (count_list ?as t) / w"
    have w: "0 < w" using t by (auto simp: WEIGHTS_def)
    have "of_nat (length (filter (\<lambda>e. fst e \<le> ?T) (heap q))) \<le> 6 * ?T"
      using w by (intro early_entries [OF q(2) as]) simp
    also have "\<dots> \<le> of_nat s" using few w by (simp add: field_simps)
    finally have early: "length (filter (\<lambda>e. fst e \<le> ?T) (heap q)) \<le> s" by simp
    have "mset (map fst (filter (\<lambda>e. snd (snd e) = t) (heap q))) = mset (finish_times w (count_list ?as t))"
      using q(2) t unfolding filled_def by blast
    from arg_cong [OF this, of set_mset] have "fst ` {e \<in> set (heap q). snd (snd e) = t} = set (finish_times w (count_list ?as t))"
      by simp
    moreover have "\<forall>x \<in> set (finish_times w (count_list ?as t)). x \<le> ?T"
      using w by (auto simp: finish_times_def intro!: divide_right_mono)
    ultimately have "\<forall>e \<in> set (heap q). snd (snd e) = t \<longrightarrow> fst e \<le> ?T" by blast
    from sorted_take_all [OF _ early this] have "filter (\<lambda>e. snd (snd e) = t) (drop s (heap q)) = []" using q(2) by (simp add: filled_def)
    then have "count_list (map (\<lambda>e. snd (snd e)) (drop s (heap q))) t = 0" by (auto simp: filter_empty_conv count_list_0_iff)
    then have "count_list ?out t = count_list (map (\<lambda>e. snd (snd e)) (take s (heap q) @ drop s (heap q))) t" by (simp only: map_append count_list_append)
    also have "\<dots> = count_list ?as t" using m by (simp only: append_take_drop_id flip: count_mset)
    finally show ?thesis .
  qed
  then show ?thesis using run by (auto simp: Counter_count)
qed

theorem wfq_isolates_witness:
  "\<exists>r. fq_bench (\<lambda>k. if k mod 10 = 0 then 0 else 2) 20 (1 / 2) = Inr r \<and> dget (fq_arrivals r) ''gold'' 0 = 2 \<and> dget (fq_wfq r) ''gold'' 0 = 2"
proof -
  let ?picks = "\<lambda>k :: nat. if k mod 10 = 0 then 0 else 2 :: nat"
  have "?picks k < 3" for k by simp
  from wfq_isolates [of ?picks "1 / 2" 20, OF this _ _] obtain r where r: "fq_bench ?picks 20 (1 / 2) = Inr r"
    "\<forall>(t, w) \<in> set WEIGHTS. of_nat (dget (fq_arrivals r) t 0) \<le> w / 6 * of_int (fq_serve r) \<longrightarrow> dget (fq_wfq r) t 0 = dget (fq_arrivals r) t 0"
    by auto
  have "case fq_bench ?picks 20 (1 / 2) of Inl _ \<Rightarrow> False | Inr r \<Rightarrow> dget (fq_arrivals r) ''gold'' 0 = 2 \<and> fq_serve r = 10"
    by code_simp
  then show ?thesis using r by (auto simp: WEIGHTS_def)
qed

end
