(* ===== verification/Bench_Policy.thy ===== *)
theory Bench_Policy
  imports Bench_Sim Bench_Fair
begin

section \<open>The policy benchmarks\<close>

text \<open>
  \<^verbatim>\<open>bench/disagg_bench.py\<close>: always co-locating, always splitting and the adaptive choice under rising load.
  \<^verbatim>\<open>bench/admission_bench.py\<close>: a mixed workload with and without the admission gate.  Both keep the requests in flight in a
  queue of completions that is drained tick by tick.  The random draws of a workload are parameters; sweeps, tables and charts
  are left out.
\<close>


subsection \<open>Completions\<close>

text \<open>\<open>while q and q[0][0] <= now\<close>: the completions that are due leave the front of the queue and free their backend.\<close>

fun drain_due :: "int \<Rightarrow> (int \<times> string) list \<Rightarrow> (string, int) dict \<Rightarrow> (int \<times> string) list \<times> (string, int) dict" where
  "drain_due now [] d = ([], d)"
| "drain_due now ((t, b) # q) d =
     (if t \<le> now then drain_due now q (AList.update b (max 0 (dget d b 0 - 1)) d) else ((t, b) # q, d))"

definition occupy :: "string \<Rightarrow> int \<Rightarrow> (int \<times> string) list \<times> (string, int) dict \<Rightarrow> (int \<times> string) list \<times> (string, int) dict" where
  "occupy b until w = (fst w @ [(until, b)], AList.update b (dget (snd w) b 0 + 1) (snd w))"

text \<open>The counters are exactly the completions still to come.\<close>

definition counted :: "(int \<times> string) list \<times> (string, int) dict \<Rightarrow> bool" where
  "counted w \<longleftrightarrow> (\<forall>b. dget (snd w) b 0 = int (length (filter (\<lambda>e. snd e = b) (fst w))))"

lemma counted_drain: "counted (q, d) \<Longrightarrow> counted (drain_due now q d)"
  by (induction now q d rule: drain_due.induct) (auto simp: counted_def)

lemma counted_occupy: "counted w \<Longrightarrow> counted (occupy b until w)"
  by (auto simp: counted_def occupy_def)

lemma counted_nonneg: "counted w \<Longrightarrow> 0 \<le> dget (snd w) b 0"
  by (simp add: counted_def)


subsection \<open>Disaggregation\<close>

definition DA_BACKENDS :: "string list" where
  "DA_BACKENDS = [''b0'', ''b1'', ''b2'', ''b3'']"

definition POOL_SPEC :: string where
  "POOL_SPEC = ''b0:prefill,decode;b1:prefill,decode;b2:prefill;b3:decode''"

definition COLOCATABLE :: "string list" where
  "COLOCATABLE = [''b0'', ''b1'']"

definition PREFILL_POOL :: "string list" where
  "PREFILL_POOL = [''b0'', ''b1'', ''b2'']"

definition DECODE_POOL :: "string list" where
  "DECODE_POOL = [''b0'', ''b1'', ''b3'']"

definition DA_CFG :: DisaggConfig where
  "DA_CFG = (DisaggConfig_of DisaggConfig_fields)\<lparr>pools := POOL_SPEC\<rparr>"

definition PROMPT_TOKENS :: int where
  "PROMPT_TOKENS = 3000"

definition OUTPUT_TOKENS :: int where
  "OUTPUT_TOKENS = 256"

definition PREFILL_TICKS :: int where
  "PREFILL_TICKS = 4"

definition DECODE_TICKS :: int where
  "DECODE_TICKS = 12"

definition BASE_OFFER_PER_TICK :: pyfloat where
  "BASE_OFFER_PER_TICK = 1 / 2"

definition sim_prefill_ms :: "int \<Rightarrow> pyfloat" where
  "sim_prefill_ms n = prefill_ms_per_token DA_CFG * of_int PROMPT_TOKENS + of_int n * prefill_service_ms DA_CFG"

definition sim_decode_ms :: "int \<Rightarrow> pyfloat" where
  "sim_decode_ms n = decode_ms_per_token DA_CFG * of_int OUTPUT_TOKENS + of_int n * decode_service_ms DA_CFG"

definition HANDOFF_MS :: pyfloat where
  "HANDOFF_MS = kv_transfer_ms PROMPT_TOKENS (kv_bytes_per_token DA_CFG) (link_gbps DA_CFG)"

definition least_loaded :: "LoadTracker \<Rightarrow> string list \<Rightarrow> string set \<Rightarrow> string result" where
  "least_loaded l pool exclude =
     (let free = filter (\<lambda>b. b \<notin> exclude) pool; cands = (if free = [] then pool else free)
      in min_by (\<lambda>b. of_int (dget (inflight l) b 0)) cands)"

record dis_sim =
  di_load :: LoadTracker
  di_completions :: "(int \<times> string) list"
  di_totals :: "pyfloat list"
  di_split :: nat
  di_served :: nat
  di_left :: int
  di_tick :: int
  di_acc :: pyfloat

definition dis_sim_init :: "int \<Rightarrow> dis_sim" where
  "dis_sim_init n = \<lparr>di_load = LoadTracker_init\<lparr>inflight := map (\<lambda>b. (b, 0)) DA_BACKENDS\<rparr>, di_completions = [], di_totals = [],
     di_split = 0, di_served = 0, di_left = n, di_tick = 0, di_acc = 0\<rparr>"

text \<open>
  What a policy does with a request under a load: its cost, the phases that occupy a backend and for how long, and whether it counts
  as a split.
\<close>

definition policy_choice :: "string \<Rightarrow> LoadTracker \<Rightarrow> (pyfloat \<times> (string \<times> int) list \<times> bool) result" where
  "policy_choice policy l =
     (let infl = (\<lambda>b. dget (inflight l) b 0) in
      if policy = ''colocate'' then
        res_bind (least_loaded l COLOCATABLE {}) (\<lambda>n.
          Inr (sim_prefill_ms (infl n) + sim_decode_ms (infl n), [(n, PREFILL_TICKS + DECODE_TICKS)], False))
      else if policy = ''split'' then
        res_bind (least_loaded l PREFILL_POOL {}) (\<lambda>p. res_bind (least_loaded l DECODE_POOL {p}) (\<lambda>d.
          Inr (sim_prefill_ms (infl p) + HANDOFF_MS + sim_decode_ms (infl d), [(p, PREFILL_TICKS), (d, DECODE_TICKS)], False)))
      else if policy = ''adaptive'' then
        res_bind (choose_disaggregated PROMPT_TOKENS (from_spec DA_BACKENDS POOL_SPEC) l DA_CFG (Some OUTPUT_TOKENS) []) (\<lambda>r.
          case r of
            None \<Rightarrow> Inl AttributeError
          | Some dec \<Rightarrow> Inr (est_total_ms dec,
              if disaggregated dec then [(prefill_backend dec, PREFILL_TICKS), (decode_backend dec, DECODE_TICKS)]
              else [(prefill_backend dec, PREFILL_TICKS + DECODE_TICKS)], disaggregated dec))
      else Inl ValueError)"

definition dis_dispatch :: "string \<Rightarrow> dis_sim \<Rightarrow> dis_sim result" where
  "dis_dispatch policy st =
     res_bind (policy_choice policy (di_load st)) (\<lambda>(cost, phases, split).
       let (q, d) = foldl (\<lambda>w (b, n). occupy b (di_tick st + n) w) (di_completions st, inflight (di_load st)) phases
       in Inr (st\<lparr>di_load := (di_load st)\<lparr>inflight := d\<rparr>, di_completions := q, di_totals := di_totals st @ [cost],
                  di_split := di_split st + (if split then 1 else 0), di_served := di_served st + 1, di_left := di_left st - 1\<rparr>))"

fun dis_arrivals :: "string \<Rightarrow> nat \<Rightarrow> dis_sim \<Rightarrow> dis_sim result" where
  "dis_arrivals policy 0 st = Inr st"
| "dis_arrivals policy (Suc n) st =
     (if di_left st \<le> 0 then Inr st else res_bind (dis_dispatch policy st) (dis_arrivals policy n))"

definition dis_tick :: "string \<Rightarrow> pyfloat \<Rightarrow> dis_sim \<Rightarrow> dis_sim result" where
  "dis_tick policy offers st =
     (let (q, d) = drain_due (di_tick st) (di_completions st) (inflight (di_load st));
          acc = di_acc st + offers; n = rat_trunc acc
      in res_bind (dis_arrivals policy (nat n)
             (st\<lparr>di_completions := q, di_load := (di_load st)\<lparr>inflight := d\<rparr>, di_acc := acc - of_int n\<rparr>))
           (\<lambda>st'. Inr (st'\<lparr>di_tick := di_tick st' + 1\<rparr>)))"

text \<open>\<open>while req_left > 0\<close>; without arrivals it does not end, which is \<open>None\<close>.\<close>

partial_function (option) dis_loop :: "string \<Rightarrow> pyfloat \<Rightarrow> dis_sim \<Rightarrow> dis_sim result option" where
  "dis_loop policy offers st =
     (if di_left st > 0
      then (case dis_tick policy offers st of Inl err \<Rightarrow> Some (Inl err) | Inr st' \<Rightarrow> dis_loop policy offers st')
      else Some (Inr st))"

definition p99_of :: "pyfloat list \<Rightarrow> pyfloat" where
  "p99_of xs = sort xs ! nat (max 0 (rat_trunc (99 / 100 * of_nat (length xs)) - 1))"

record dis_result =
  mean_total_ms :: pyfloat
  p99_total_ms :: pyfloat
  split_fraction :: pyfloat

definition dis_evaluate :: "string \<Rightarrow> pyfloat \<Rightarrow> int \<Rightarrow> dis_result result option" where
  "dis_evaluate policy load_mult n_requests =
     map_option (\<lambda>r. res_bind r (\<lambda>st. let t = di_totals st in Inr
         \<lparr>mean_total_ms = (if t \<noteq> [] then sum_list t / of_nat (length t) else 0),
          p99_total_ms = (if t \<noteq> [] then p99_of t else 0),
          split_fraction = (if di_served st \<noteq> 0 then of_nat (di_split st) / of_nat (di_served st) else 0)\<rparr>))
       (dis_loop policy (BASE_OFFER_PER_TICK * load_mult) (dis_sim_init n_requests))"

subsection \<open>The adaptive policy is the lower envelope\<close>

lemma DA_CFG_facts:
  "0 \<le> prefill_service_ms DA_CFG" "0 \<le> decode_service_ms DA_CFG" "disagg_margin_ms DA_CFG = 1" "kv_pressure_cutoff DA_CFG = 9 / 10"
proof -
  have "float_field DisaggConfig_fields ''prefill_service_ms'' = 80" "float_field DisaggConfig_fields ''decode_service_ms'' = 40"
    "float_field DisaggConfig_fields ''disagg_margin_ms'' = 1" "float_field DisaggConfig_fields ''kv_pressure_cutoff'' = 9 / 10"
    by code_simp+
  then show "0 \<le> prefill_service_ms DA_CFG" "0 \<le> decode_service_ms DA_CFG" "disagg_margin_ms DA_CFG = 1"
    "kv_pressure_cutoff DA_CFG = 9 / 10" by (simp_all add: DA_CFG_def DisaggConfig_of_def)
qed

lemma bench_pools:
  "prefill_pool (from_spec DA_BACKENDS POOL_SPEC) = PREFILL_POOL" "decode_pool (from_spec DA_BACKENDS POOL_SPEC) = DECODE_POOL"
  "colocatable (from_spec DA_BACKENDS POOL_SPEC) = COLOCATABLE"
  by code_simp+

lemma bench_costs:
  "prefill_ms b PROMPT_TOKENS [] l DA_CFG = sim_prefill_ms (dget (inflight l) b 0)"
  "decode_ms b OUTPUT_TOKENS l DA_CFG = sim_decode_ms (dget (inflight l) b 0)"
  by (simp_all add: prefill_ms_def decode_ms_def sim_prefill_ms_def sim_decode_ms_def PROMPT_TOKENS_def Let_def dget_def)

lemma sim_ms_mono: "n \<le> n' \<Longrightarrow> sim_prefill_ms n \<le> sim_prefill_ms n'" "n \<le> n' \<Longrightarrow> sim_decode_ms n \<le> sim_decode_ms n'"
  by (simp_all add: sim_prefill_ms_def sim_decode_ms_def mult_right_mono DA_CFG_facts)

lemma least_loaded_ok:
  assumes "pool \<noteq> []"
  shows "\<exists>b \<in> set pool. least_loaded l pool ex = Inr b"
proof -
  let ?cands = "if filter (\<lambda>b. b \<notin> ex) pool = [] then pool else filter (\<lambda>b. b \<notin> ex) pool"
  have "?cands \<noteq> []" using assms by simp
  then obtain b where "min_by (\<lambda>b. of_int (dget (inflight l) b 0)) ?cands = Inr b" "b \<in> set ?cands" by (rule min_by_ok)
  then show ?thesis by (auto simp: least_loaded_def Let_def split: if_splits)
qed

text \<open>With no cache pressure the eligible backends include the least loaded ones.\<close>

lemma candidates_cover:
  assumes "kv_usage l = []" "x \<in> set pool"
  shows "\<exists>y \<in> set (da_candidates pool l DA_CFG). dget (inflight l) y 0 \<le> dget (inflight l) x 0"
proof (cases "da_eligible x l DA_CFG")
  case True
  then have "x \<in> set (da_candidates pool l DA_CFG)" using assms(2) by (auto simp: da_candidates_def Let_def filter_empty_conv)
  then show ?thesis by blast
next
  case False
  show ?thesis
  proof (cases "filter (\<lambda>b. da_eligible b l DA_CFG) pool")
    case Nil
    then show ?thesis using assms(2) by (auto simp: da_candidates_def Let_def)
  next
    case (Cons y ys)
    then have "y \<in> set (filter (\<lambda>b. da_eligible b l DA_CFG) pool)" by simp
    then have y: "y \<in> set (da_candidates pool l DA_CFG)" "da_eligible y l DA_CFG" by (auto simp: da_candidates_def Let_def filter_empty_conv)
    have "max_inflight DA_CFG < dget (inflight l) x 0" using False assms(1) by (simp add: da_eligible_def DA_CFG_facts dget_def)
    then show ?thesis using y(2) by (intro bexI [OF _ y(1)]) (simp add: da_eligible_def)
  qed
qed

lemma decide_bound:
  fixes P D :: "string \<Rightarrow> pyfloat"
  assumes "0 \<le> m" "pb = db \<Longrightarrow> \<exists>x \<in> set cp. P x + D x \<le> P pb + D db"
  shows "est_total_ms (disagg_decide P D pb db h m cp) \<le> P pb + (if pb = db then 0 else h) + D db + m"
proof (cases "argmin_loop (\<lambda>b. P b + D b) cp None")
  case None
  then show ?thesis using assms(1) by (simp add: disagg_decide_def Let_def)
next
  case (Some p)
  obtain b k where p: "p = (b, k)" by force
  note a = Some [unfolded p] and min = argmin_loop_min [OF Some [unfolded p]]
  show ?thesis using a assms min by (fastforce simp: disagg_decide_def Let_def)
qed

text \<open>The two best backends of the adaptive choice are no worse than any of their pools.\<close>

lemma adaptive_choice:
  assumes "kv_usage l = []"
  defines "P \<equiv> \<lambda>b. sim_prefill_ms (dget (inflight l) b 0)" and "D \<equiv> \<lambda>b. sim_decode_ms (dget (inflight l) b 0)"
  shows "\<exists>pb \<in> set PREFILL_POOL. \<exists>db \<in> set DECODE_POOL. (\<forall>x \<in> set PREFILL_POOL. P pb \<le> P x) \<and> (\<forall>x \<in> set DECODE_POOL. D db \<le> D x) \<and>
    choose_disaggregated PROMPT_TOKENS (from_spec DA_BACKENDS POOL_SPEC) l DA_CFG (Some OUTPUT_TOKENS) [] =
      Inr (Some (disagg_decide P D pb db HANDOFF_MS 1 (da_candidates COLOCATABLE l DA_CFG)))"
proof -
  let ?pc = "da_candidates PREFILL_POOL l DA_CFG" and ?dc = "da_candidates DECODE_POOL l DA_CFG"
  have ne: "?pc \<noteq> []" "?dc \<noteq> []" "COLOCATABLE \<noteq> []" by (simp_all add: PREFILL_POOL_def DECODE_POOL_def COLOCATABLE_def)
  obtain pb where pb: "min_by P ?pc = Inr pb" "pb \<in> set ?pc" "\<And>x. x \<in> set ?pc \<Longrightarrow> P pb \<le> P x" using min_by_ok [OF ne(1)] by metis
  obtain db where db: "min_by D ?dc = Inr db" "db \<in> set ?dc" "\<And>x. x \<in> set ?dc \<Longrightarrow> D db \<le> D x" using min_by_ok [OF ne(2)] by metis
  have "P pb \<le> P x" if "x \<in> set PREFILL_POOL" for x
    using candidates_cover [OF assms(1) that] pb(3) sim_ms_mono(1) unfolding P_def by (meson order_trans)
  moreover have "D db \<le> D x" if "x \<in> set DECODE_POOL" for x
    using candidates_cover [OF assms(1) that] db(3) sim_ms_mono(2) unfolding D_def by (meson order_trans)
  moreover have "choose_disaggregated PROMPT_TOKENS (from_spec DA_BACKENDS POOL_SPEC) l DA_CFG (Some OUTPUT_TOKENS) [] =
      Inr (Some (disagg_decide P D pb db HANDOFF_MS 1 (da_candidates COLOCATABLE l DA_CFG)))"
    using ne pb(1) db(1) unfolding P_def D_def
    by (simp add: choose_disaggregated_def Let_def bench_pools bench_costs coloc_pool_def HANDOFF_MS_def DA_CFG_facts)
  ultimately show ?thesis using pb(2) db(2) da_candidates_sub by blast
qed

lemma adaptive_envelope_parts:
  assumes "kv_usage l = []"
  shows "\<exists>a pa sa c pc s ps. policy_choice ''adaptive'' l = Inr (a, pa, sa) \<and> policy_choice ''colocate'' l = Inr (c, pc, False) \<and>
    policy_choice ''split'' l = Inr (s, ps, False) \<and> a \<le> c \<and> a \<le> s + disagg_margin_ms DA_CFG"
proof -
  let ?infl = "\<lambda>b. dget (inflight l) b 0"
  let ?P = "\<lambda>b. sim_prefill_ms (?infl b)" and ?D = "\<lambda>b. sim_decode_ms (?infl b)" and ?cp = "da_candidates COLOCATABLE l DA_CFG"
  obtain n where n: "n \<in> set COLOCATABLE" "least_loaded l COLOCATABLE {} = Inr n" using least_loaded_ok [of COLOCATABLE] by (auto simp: COLOCATABLE_def)
  obtain p where p: "p \<in> set PREFILL_POOL" "least_loaded l PREFILL_POOL {} = Inr p" using least_loaded_ok [of PREFILL_POOL] by (auto simp: PREFILL_POOL_def)
  obtain d where d: "d \<in> set DECODE_POOL" "least_loaded l DECODE_POOL {p} = Inr d" using least_loaded_ok [of DECODE_POOL] by (auto simp: DECODE_POOL_def)
  obtain pb db where best: "pb \<in> set PREFILL_POOL" "db \<in> set DECODE_POOL" "\<forall>x \<in> set PREFILL_POOL. ?P pb \<le> ?P x" "\<forall>x \<in> set DECODE_POOL. ?D db \<le> ?D x"
    and run: "choose_disaggregated PROMPT_TOKENS (from_spec DA_BACKENDS POOL_SPEC) l DA_CFG (Some OUTPUT_TOKENS) [] =
      Inr (Some (disagg_decide ?P ?D pb db HANDOFF_MS 1 ?cp))"
    using adaptive_choice [OF assms] by blast
  define dec where "dec = disagg_decide ?P ?D pb db HANDOFF_MS 1 ?cp"
  have cover: "\<exists>y \<in> set ?cp. ?P y + ?D y \<le> ?P x + ?D x" if "x \<in> set COLOCATABLE" for x
    using candidates_cover [OF assms that] sim_ms_mono by (meson add_mono)
  have h: "0 \<le> HANDOFF_MS" by code_simp
  have "est_total_ms dec \<le> ?P n + ?D n"
  proof -
    obtain y where y: "y \<in> set ?cp" "?P y + ?D y \<le> ?P n + ?D n" using cover [OF n(1)] by blast
    note total = disagg_decide_parts(2) [OF dec_def]
    from dec_def show ?thesis
    proof (cases rule: disagg_decide_cases)
      case split
      have "est_handoff_ms dec \<le> HANDOFF_MS" using split(5) h by simp
      then show ?thesis using total [unfolded split(3,4)] split(2) [OF y(1)] y(2) by linarith
    next
      case (one b)
      then show ?thesis using total one(5) [OF y(1)] y(2) by simp
    qed
  qed
  moreover have "est_total_ms dec \<le> ?P p + HANDOFF_MS + ?D d + 1"
  proof -
    have "\<exists>x \<in> set ?cp. ?P x + ?D x \<le> ?P pb + ?D db" if "pb = db"
      using cover [of pb] that best(1,2) by (auto simp: PREFILL_POOL_def DECODE_POOL_def COLOCATABLE_def)
    from decide_bound [OF _ this, of 1 HANDOFF_MS]
    have "est_total_ms dec \<le> ?P pb + (if pb = db then 0 else HANDOFF_MS) + ?D db + 1" by (simp add: dec_def)
    moreover have "?P pb \<le> ?P p" "?D db \<le> ?D d" using best(3,4) p(1) d(1) by blast+
    ultimately show ?thesis using h by (auto split: if_splits)
  qed
  ultimately show ?thesis using run n(2) p(2) d(2) unfolding dec_def [symmetric] by (simp add: policy_choice_def DA_CFG_facts)
qed

text \<open>
  The adaptive choice is the lower envelope of the two static policies: for a request under any load (no cache pressure is
  reported in the simulation) its cost is at most the cost of co-locating it, and exceeds the cost of splitting it by at most the margin
  of one millisecond that keeps the router from splitting for nothing.
\<close>

theorem adaptive_envelope:
  assumes "kv_usage l = []"
  shows "\<exists>a pa sa c pc s ps. policy_choice ''adaptive'' l = Inr (a, pa, sa) \<and> policy_choice ''colocate'' l = Inr (c, pc, False) \<and>
    policy_choice ''split'' l = Inr (s, ps, False) \<and> a \<le> c \<and> a \<le> s + disagg_margin_ms DA_CFG"
  by (rule adaptive_envelope_parts [OF assms])

theorem adaptive_envelope_witness:
  "\<exists>a pa sa c pc. policy_choice ''adaptive'' (LoadTracker_init\<lparr>inflight := [(''b0'', 3), (''b1'', 2)]\<rparr>) = Inr (a, pa, sa) \<and>
     policy_choice ''colocate'' (LoadTracker_init\<lparr>inflight := [(''b0'', 3), (''b1'', 2)]\<rparr>) = Inr (c, pc, False) \<and> a \<le> c"
  using adaptive_envelope [of "LoadTracker_init\<lparr>inflight := [(''b0'', 3), (''b1'', 2)]\<rparr>"] by (auto simp: LoadTracker_init_def)

subsection \<open>The disaggregation run ends\<close>

lemma policy_total:
  assumes "policy \<in> {''colocate'', ''split'', ''adaptive''}" "kv_usage l = []"
  shows "\<exists>cost phases split. policy_choice policy l = Inr (cost, phases, split)"
proof -
  have "\<forall>p \<in> {''colocate'', ''split'', ''adaptive''}. \<exists>cost phases split. policy_choice p l = Inr (cost, phases, split)"
    using adaptive_envelope_parts [OF assms(2)] by blast
  then show ?thesis using assms(1) by blast
qed

definition dis_inv :: "int \<Rightarrow> dis_sim \<Rightarrow> bool" where
  "dis_inv n st \<longleftrightarrow> kv_usage (di_load st) = [] \<and> counted (di_completions st, inflight (di_load st)) \<and>
     int (length (di_totals st)) + di_left st = n \<and> di_served st = length (di_totals st) \<and> 0 \<le> di_left st"

lemma counted_phases: "counted w \<Longrightarrow> counted (foldl (\<lambda>w (b, n). occupy b (t + n) w) w phases)"
proof (induction phases arbitrary: w)
  case (Cons p ps)
  then show ?case by (cases p) (simp add: counted_occupy)
qed simp

lemma dis_dispatch_ok:
  assumes "policy \<in> {''colocate'', ''split'', ''adaptive''}" "dis_inv n st" "0 < di_left st"
  shows "\<exists>st'. dis_dispatch policy st = Inr st' \<and> dis_inv n st' \<and> di_left st' = di_left st - 1 \<and> di_acc st' = di_acc st"
proof -
  obtain cost phases split where c: "policy_choice policy (di_load st) = Inr (cost, phases, split)"
    using policy_total [OF assms(1)] assms(2) unfolding dis_inv_def by metis
  let ?w = "foldl (\<lambda>w (b, n). occupy b (di_tick st + n) w) (di_completions st, inflight (di_load st)) phases"
  have "counted ?w" using assms(2) by (intro counted_phases) (simp add: dis_inv_def)
  then show ?thesis using c assms(2,3) by (auto simp: dis_dispatch_def dis_inv_def Let_def split: prod.split)
qed

lemma dis_arrivals_ok:
  assumes "policy \<in> {''colocate'', ''split'', ''adaptive''}" "dis_inv n st"
  shows "\<exists>st'. dis_arrivals policy k st = Inr st' \<and> dis_inv n st' \<and> di_left st' = max 0 (di_left st - int k) \<and> di_acc st' = di_acc st"
  using assms(2)
proof (induction k arbitrary: st)
  case 0
  then show ?case by (simp add: dis_inv_def)
next
  case (Suc k)
  show ?case
  proof (cases "di_left st \<le> 0")
    case True
    then show ?thesis using Suc.prems by (simp add: dis_inv_def)
  next
    case False
    then obtain st' where st': "dis_dispatch policy st = Inr st'" "dis_inv n st'" "di_left st' = di_left st - 1" "di_acc st' = di_acc st"
      using dis_dispatch_ok [OF assms(1) Suc.prems] by auto
    from Suc.IH [OF st'(2)] show ?thesis using False st' by (auto simp: max_def)
  qed
qed

lemma dis_tick_ok:
  assumes "policy \<in> {''colocate'', ''split'', ''adaptive''}" "dis_inv n st" "0 < offers" "0 \<le> di_acc st"
  shows "\<exists>st'. dis_tick policy offers st = Inr st' \<and> dis_inv n st' \<and>
    di_left st' = max 0 (di_left st - \<lfloor>di_acc st + offers\<rfloor>) \<and> di_acc st' = di_acc st + offers - of_int \<lfloor>di_acc st + offers\<rfloor>"
proof -
  obtain q d where qd: "drain_due (di_tick st) (di_completions st) (inflight (di_load st)) = (q, d)" by force
  let ?st = "st\<lparr>di_completions := q, di_load := (di_load st)\<lparr>inflight := d\<rparr>, di_acc := di_acc st + offers - of_int \<lfloor>di_acc st + offers\<rfloor>\<rparr>"
  have "counted (q, d)" using counted_drain [of "di_completions st" "inflight (di_load st)" "di_tick st"] qd assms(2) by (simp add: dis_inv_def)
  moreover have tr: "rat_trunc (di_acc st + offers) = \<lfloor>di_acc st + offers\<rfloor>" "0 \<le> \<lfloor>di_acc st + offers\<rfloor>"
    using assms(3,4) by (simp_all add: rat_trunc_def)
  ultimately have "dis_inv n ?st" using assms(2) by (simp add: dis_inv_def)
  from dis_arrivals_ok [OF assms(1) this, of "nat \<lfloor>di_acc st + offers\<rfloor>"] show ?thesis
    using tr(2) by (auto simp: dis_tick_def qd tr(1) Let_def dis_inv_def)
qed

lemma dis_loop_ok:
  assumes p: "policy \<in> {''colocate'', ''split'', ''adaptive''}" and o: "0 < offers"
  shows "dis_inv n st \<Longrightarrow> 0 \<le> di_acc st \<Longrightarrow> di_acc st < 1 \<Longrightarrow>
    \<exists>st'. dis_loop policy offers st = Some (Inr st') \<and> dis_inv n st' \<and> di_left st' = 0"
proof (induction "nat (di_left st)" arbitrary: st rule: less_induct)
  case less
  obtain k :: nat where "1 - di_acc st \<le> of_nat k * offers" using o by (metis ex_less_of_nat_mult less_imp_le)
  then show ?case using less.prems less.hyps
  proof (induction k arbitrary: st)
    case (Suc k)
    show ?case
    proof (cases "0 < di_left st")
      case False
      then show ?thesis using Suc.prems(2) by (subst dis_loop.simps) (simp add: dis_inv_def)
    next
      case True
      let ?f = "\<lfloor>di_acc st + offers\<rfloor>"
      obtain st' where st': "dis_tick policy offers st = Inr st'" "dis_inv n st'" "di_left st' = max 0 (di_left st - ?f)"
        "di_acc st' = di_acc st + offers - of_int ?f" using dis_tick_ok [OF p Suc.prems(2) o Suc.prems(3)] by blast
      have acc: "0 \<le> di_acc st'" "di_acc st' < 1" unfolding st'(4) by linarith+
      have "0 \<le> ?f" using Suc.prems(3) o by simp
      then have "?f = 0 \<or> 0 < ?f" by linarith
      then have "\<exists>st''. dis_loop policy offers st' = Some (Inr st'') \<and> dis_inv n st'' \<and> di_left st'' = 0"
      proof
        assume f: "?f = 0"
        then have "di_left st' = di_left st" "1 - di_acc st' \<le> of_nat k * offers"
          using st'(3,4) True Suc.prems(1) by (simp_all add: algebra_simps)
        then show ?thesis using Suc.IH [of st'] st'(2) acc Suc.prems(5) by simp
      next
        assume "0 < ?f"
        then have "nat (di_left st') < nat (di_left st)" using st'(3) True by simp
        then show ?thesis using Suc.prems(5) st'(2) acc by blast
      qed
      then show ?thesis using True st'(1) by (subst dis_loop.simps) simp
    qed
  qed simp
qed

text \<open>
  The benchmark ends and counts correctly: for every policy and every positive load it serves all requests, each with one cost, and
  at the end (as after every tick) the in-flight counter of each backend is the number of its phases still to complete.
\<close>

theorem disagg_bench_ends:
  assumes "policy \<in> {''colocate'', ''split'', ''adaptive''}" "0 < load_mult" "0 \<le> n"
  shows "\<exists>st. dis_loop policy (BASE_OFFER_PER_TICK * load_mult) (dis_sim_init n) = Some (Inr st) \<and> int (length (di_totals st)) = n \<and>
    di_served st = length (di_totals st) \<and>
    (\<forall>b. dget (inflight (di_load st)) b 0 = int (length (filter (\<lambda>e. snd e = b) (di_completions st))))"
proof -
  have "dis_inv n (dis_sim_init n)" "di_acc (dis_sim_init n) = 0" "0 < BASE_OFFER_PER_TICK * load_mult"
    using assms(2,3) by (simp_all add: dis_inv_def dis_sim_init_def LoadTracker_init_def counted_def DA_BACKENDS_def BASE_OFFER_PER_TICK_def dget_def)
  then show ?thesis using dis_loop_ok [OF assms(1), of "BASE_OFFER_PER_TICK * load_mult" n "dis_sim_init n"]
    by (auto simp: dis_inv_def counted_def)
qed

theorem disagg_bench_ends_witness:
  "\<exists>st. dis_loop ''adaptive'' (BASE_OFFER_PER_TICK * 2) (dis_sim_init 5) = Some (Inr st) \<and> length (di_totals st) = 5"
  using disagg_bench_ends [of "''adaptive''" 2 5] by auto

text \<open>
  The completions are not kept in the order of their times: a prefill that is due stays in flight behind a decode that is not.
\<close>

lemma due_prefill_blocked:
  "drain_due 5 [(12, ''b3''), (5, ''b2'')] [(''b2'', 1), (''b3'', 1)] = ([(12, ''b3''), (5, ''b2'')], [(''b2'', 1), (''b3'', 1)])"
  by simp

subsection \<open>Admission\<close>

definition TOKENS_PER_REQUEST_BASE :: int where
  "TOKENS_PER_REQUEST_BASE = 800"

definition ADM_SERVICE_WINDOW :: int where
  "ADM_SERVICE_WINDOW = 30"

definition MAX_INFLIGHT :: int where
  "MAX_INFLIGHT = 16"

definition TTFT_SLO_MS :: pyfloat where
  "TTFT_SLO_MS = 500"

definition SHED_PRESSURE :: pyfloat where
  "SHED_PRESSURE = 3 / 4"

definition TIER_MIX :: "(string, pyfloat) dict" where
  "TIER_MIX = [(''gold'', 2 / 10), (''silver'', 3 / 10), (''bronze'', 5 / 10)]"

definition ADM_OFFER_PER_TICK :: int where
  "ADM_OFFER_PER_TICK = (let n = (3 * MAX_INFLIGHT) div ADM_SERVICE_WINDOW in if n \<noteq> 0 then n else 1)"

record adm_request =
  aq_tier :: string
  aq_tokens :: int
  aq_est_ttft_ms :: pyfloat
  aq_huge :: bool

text \<open>\<open>shuf\<close> is the shuffle of the tiers, \<open>huge i\<close> whether the draw for request \<open>i\<close> is below 0.05.\<close>

definition adm_workload :: "(string list \<Rightarrow> string list) \<Rightarrow> (nat \<Rightarrow> bool) \<Rightarrow> nat \<Rightarrow> adm_request list" where
  "adm_workload shuf huge n_requests =
     (let tiers = shuf (concat (map (\<lambda>(t, p). replicate (nat (round_half_even (p * 1000))) t) TIER_MIX)) in
      map (\<lambda>i. let prompt_tokens = (if huge i then TOKENS_PER_REQUEST_BASE * 4 else TOKENS_PER_REQUEST_BASE) in
        \<lparr>aq_tier = tiers ! (i mod length tiers), aq_tokens = prompt_tokens,
         aq_est_ttft_ms = PREFILL_MS_PER_TOKEN * of_int prompt_tokens, aq_huge = huge i\<rparr>) [0..<n_requests])"

definition adm_cfg :: AdmissionConfig where
  "adm_cfg = (AdmissionConfig_of AdmissionConfig_fields)\<lparr>AdmissionConfig.enabled := True, ttft_slo_ms := TTFT_SLO_MS,
     shed_pressure := SHED_PRESSURE, max_inflight_per_backend := MAX_INFLIGHT\<rparr>"

record adm_sim =
  ad_inflight :: "(string, int) dict"
  ad_queue :: "(int \<times> string) list"
  ad_counts :: "(string, nat) dict"
  ad_ttfts :: "(string, pyfloat list) dict"
  ad_served :: "(string, nat) dict"
  ad_offered :: "(string, nat) dict"
  ad_tick :: int

definition adm_sim_init :: adm_sim where
  "adm_sim_init = \<lparr>ad_inflight = map (\<lambda>b. (b, 0)) BACKENDS, ad_queue = [], ad_counts = [], ad_ttfts = map (\<lambda>(t, _). (t, [])) TIER_MIX,
     ad_served = map (\<lambda>(t, _). (t, 0)) TIER_MIX, ad_offered = map (\<lambda>(t, _). (t, 0)) TIER_MIX, ad_tick = 0\<rparr>"

definition adm_decide :: "adm_sim \<Rightarrow> adm_request \<Rightarrow> AdmissionDecision" where
  "adm_decide st q = decide \<lparr>est_ttft_ms = aq_est_ttft_ms q, req_tier = aq_tier q, est_output_tokens = 256\<rparr>
     \<lparr>backend_inflight = ad_inflight st,
      backend_kv_usage = map (\<lambda>b. (b, of_int (dget (ad_inflight st) b 0) / of_int MAX_INFLIGHT)) BACKENDS, fs_queue_depth = 0\<rparr> adm_cfg"

definition adm_offer :: "string \<Rightarrow> adm_sim \<Rightarrow> adm_request \<Rightarrow> adm_sim result" where
  "adm_offer controller st0 q =
     (let st = st0\<lparr>ad_offered := bump (ad_offered st0) (aq_tier q)\<rparr> in
      res_bind (min_by (\<lambda>b. of_int (dget (ad_inflight st) b 0)) BACKENDS) (\<lambda>target.
        let act = (if controller = ''admission'' then action (adm_decide st q) else ADMIT);
            st1 = st\<lparr>ad_counts := bump (ad_counts st) act\<rparr> in
        if act \<noteq> ADMIT then Inr st1
        else
          let n = dget (ad_inflight st) target 0; observed = aq_est_ttft_ms q + of_int n * 25;
              (queue, infl) = occupy target (ad_tick st + ADM_SERVICE_WINDOW) (ad_queue st, ad_inflight st)
          in Inr (st1\<lparr>ad_ttfts := AList.update (aq_tier q) (dget (ad_ttfts st) (aq_tier q) [] @ [observed]) (ad_ttfts st),
                      ad_served := bump (ad_served st) (aq_tier q), ad_inflight := infl, ad_queue := queue\<rparr>)))"

fun adm_batch :: "string \<Rightarrow> adm_sim \<Rightarrow> adm_request list \<Rightarrow> adm_sim result" where
  "adm_batch controller st [] = Inr st"
| "adm_batch controller st (q # qs) = res_bind (adm_offer controller st q) (\<lambda>st'. adm_batch controller st' qs)"

text \<open>The ticks, with \<open>m + 1\<close> offers each, until the requests run out in the middle of one.\<close>

function adm_loop :: "string \<Rightarrow> nat \<Rightarrow> adm_sim \<Rightarrow> adm_request list \<Rightarrow> adm_sim result" where
  "adm_loop controller m st qs =
     (let (queue, infl) = drain_due (ad_tick st) (ad_queue st) (ad_inflight st) in
      res_bind (adm_batch controller (st\<lparr>ad_queue := queue, ad_inflight := infl\<rparr>) (take (Suc m) qs)) (\<lambda>st1.
        let st' = st1\<lparr>ad_tick := ad_tick st1 + 1\<rparr> in
        if length qs < Suc m then Inr st' else adm_loop controller m st' (drop (Suc m) qs)))"
  by auto

termination
  by (relation "measure (\<lambda>(controller, m, st, qs). length qs)") auto

declare adm_loop.simps [simp del]

definition adm_run ::
  "(string list \<Rightarrow> string list) \<Rightarrow> (nat \<Rightarrow> bool) \<Rightarrow> string \<Rightarrow> nat \<Rightarrow> pyfloat \<Rightarrow> adm_sim result" where
  "adm_run shuf huge controller n_requests load_mult =
     (let offers = max 1 (round_half_even (of_int ADM_OFFER_PER_TICK * load_mult))
      in adm_loop controller (nat (offers - 1)) adm_sim_init (adm_workload shuf huge n_requests))"

text \<open>\<open>None\<close> is not-a-number, the figure of a tier of which nothing was served.\<close>

definition tier_slo_ok :: "adm_sim \<Rightarrow> string \<Rightarrow> pyfloat option" where
  "tier_slo_ok st t = (let ts = dget (ad_ttfts st) t [] in
     if ts = [] then None else Some (of_nat (length (filter (\<lambda>v. v \<le> TTFT_SLO_MS) ts)) / of_nat (length ts)))"

definition tier_p99 :: "adm_sim \<Rightarrow> string \<Rightarrow> pyfloat option" where
  "tier_p99 st t = (let ts = dget (ad_ttfts st) t [] in if ts = [] then None else Some (p99_of ts))"

definition tier_mean :: "adm_sim \<Rightarrow> string \<Rightarrow> pyfloat option" where
  "tier_mean st t = (let ts = dget (ad_ttfts st) t [] in if ts = [] then None else Some (sum_list ts / of_nat (length ts)))"

definition served_rate :: "adm_sim \<Rightarrow> string \<Rightarrow> pyfloat" where
  "served_rate st t = of_nat (dget (ad_served st) t 0) / of_nat (max 1 (dget (ad_offered st) t 0))"

record adm_result =
  res_admitted :: nat
  res_queued :: nat
  res_rejected :: nat
  gold_served_rate :: pyfloat
  silver_served_rate :: pyfloat
  bronze_served_rate :: pyfloat
  gold_slo_ok :: "pyfloat option"
  silver_slo_ok :: "pyfloat option"
  bronze_slo_ok :: "pyfloat option"
  gold_p99_ms :: "pyfloat option"
  gold_mean_ms :: "pyfloat option"
  bronze_mean_ms :: "pyfloat option"

definition adm_evaluate ::
  "(string list \<Rightarrow> string list) \<Rightarrow> (nat \<Rightarrow> bool) \<Rightarrow> string \<Rightarrow> nat \<Rightarrow> pyfloat \<Rightarrow> adm_result result" where
  "adm_evaluate shuf huge controller n_requests load_mult =
     res_bind (adm_run shuf huge controller n_requests load_mult) (\<lambda>st. Inr
       \<lparr>res_admitted = dget (ad_counts st) ADMIT 0, res_queued = dget (ad_counts st) ''queue'' 0,
        res_rejected = dget (ad_counts st) ''reject'' 0,
        gold_served_rate = served_rate st ''gold'', silver_served_rate = served_rate st ''silver'',
        bronze_served_rate = served_rate st ''bronze'', gold_slo_ok = tier_slo_ok st ''gold'',
        silver_slo_ok = tier_slo_ok st ''silver'', bronze_slo_ok = tier_slo_ok st ''bronze'',
        gold_p99_ms = tier_p99 st ''gold'', gold_mean_ms = tier_mean st ''gold'', bronze_mean_ms = tier_mean st ''bronze''\<rparr>)"

lemma adm_cfg_facts: "ttft_slo_ms adm_cfg = 500" "shed_pressure adm_cfg = 3 / 4" "queue_enabled adm_cfg" "max_queue_depth adm_cfg = 256"
proof -
  have "bool_field AdmissionConfig_fields ''queue_enabled''" "int_field AdmissionConfig_fields ''max_queue_depth'' = 256" by code_simp+
  then show "ttft_slo_ms adm_cfg = 500" "shed_pressure adm_cfg = 3 / 4" "queue_enabled adm_cfg" "max_queue_depth adm_cfg = 256"
    by (simp_all add: adm_cfg_def AdmissionConfig_of_def TTFT_SLO_MS_def SHED_PRESSURE_def)
qed

lemma tier_priorities: "tier_priority ''gold'' = 3" "tier_priority ''bronze'' = 1"
  by code_simp+

text \<open>Bronze is admitted only while the fleet is at most three quarters full, so the least loaded backend has at most 12 requests.\<close>

lemma bronze_room:
  assumes "action (adm_decide st q) = ADMIT" "aq_tier q = ''bronze''"
    and "\<And>b. b \<in> set BACKENDS \<Longrightarrow> dget (ad_inflight st) t 0 \<le> dget (ad_inflight st) b 0"
  shows "dget (ad_inflight st) t 0 \<le> 12"
proof -
  let ?i = "\<lambda>b. of_int (dget (ad_inflight st) b 0) :: pyfloat"
  let ?f = "\<lparr>backend_inflight = ad_inflight st,
      backend_kv_usage = map (\<lambda>b. (b, ?i b / of_int MAX_INFLIGHT)) BACKENDS, fs_queue_depth = 0\<rparr>"
  let ?p = "fleet_pressure ?f adm_cfg"
  have "?p < 3 / 4 \<or> floor_for ?p adm_cfg \<le> 1"
    using assms(1,2) by (simp add: adm_decide_def admitted_iff adm_cfg_facts tier_priorities)
  moreover have "floor_for ?p adm_cfg \<le> 1 \<Longrightarrow> ?p \<le> 3 / 4"
    by (simp add: floor_for_def adm_cfg_facts Let_def max_def min_def split: if_splits)
  ultimately have "?p \<le> 3 / 4" by linarith
  then have "(?i ''b0'' / 16 + ?i ''b1'' / 16 + ?i ''b2'' / 16) / 3 \<le> 3 / 4"
    by (simp add: fleet_pressure_def BACKENDS_def MAX_INFLIGHT_def Let_def max_def min_def split: if_splits)
  then have "?i ''b0'' + ?i ''b1'' + ?i ''b2'' \<le> 36" by (simp add: field_simps)
  moreover have "?i t \<le> ?i ''b0''" "?i t \<le> ?i ''b1''" "?i t \<le> ?i ''b2''"
    using assms(3) [of "''b0''"] assms(3) [of "''b1''"] assms(3) [of "''b2''"] by (simp_all add: BACKENDS_def)
  ultimately have "?i t \<le> 12" by linarith
  then show ?thesis by simp
qed

lemma adm_actions:
  assumes "aq_est_ttft_ms q \<le> 160"
  shows "action (adm_decide st q) \<noteq> REJECT" "aq_tier q = ''gold'' \<Longrightarrow> action (adm_decide st q) = ADMIT"
proof -
  show "action (adm_decide st q) \<noteq> REJECT"
    using assms by (simp add: adm_decide_def decide_def Let_def adm_cfg_facts action_defs)
  show "action (adm_decide st q) = ADMIT" if "aq_tier q = ''gold''"
    using assms that floor_for_bounds(2) by (simp add: adm_decide_def admitted_iff adm_cfg_facts tier_priorities)
qed

definition adm_request_ok :: "adm_request \<Rightarrow> bool" where
  "adm_request_ok q \<longleftrightarrow> aq_tier q \<in> {''gold'', ''silver'', ''bronze''} \<and> aq_est_ttft_ms q \<le> 160"

definition adm_inv :: "adm_sim \<Rightarrow> bool" where
  "adm_inv st \<longleftrightarrow> dget (ad_counts st) REJECT 0 = 0 \<and> dget (ad_served st) ''gold'' 0 = dget (ad_offered st) ''gold'' 0 \<and>
     (\<forall>x \<in> set (dget (ad_ttfts st) ''bronze'' []). x \<le> 460)"

lemma bump_get: "dget (bump d t) t' 0 = (if t' = t then dget d t 0 + 1 else dget d t' 0)"
  by (simp add: bump_def)

lemma adm_offer_ok:
  assumes "adm_inv st" "adm_request_ok q"
  shows "\<exists>st'. adm_offer ''admission'' st q = Inr st' \<and> adm_inv st'"
proof -
  let ?st = "st\<lparr>ad_offered := bump (ad_offered st) (aq_tier q)\<rparr>"
  have est: "aq_est_ttft_ms q \<le> 160" using assms(2) by (simp add: adm_request_ok_def)
  note act = adm_actions [OF est, of ?st]
  obtain t where t: "min_by (\<lambda>b. of_int (dget (ad_inflight ?st) b 0) :: pyfloat) BACKENDS = Inr t"
    "\<And>b. b \<in> set BACKENDS \<Longrightarrow> of_int (dget (ad_inflight ?st) t 0) \<le> (of_int (dget (ad_inflight ?st) b 0) :: pyfloat)"
    using min_by_ok [of BACKENDS] by (metis BACKENDS_def list.distinct(1))
  show ?thesis
  proof (cases "action (adm_decide ?st q) = ADMIT")
    case False
    then have "aq_tier q \<noteq> ''gold''" using act(2) by blast
    then show ?thesis using False t(1) act(1) assms(1) by (auto simp: adm_offer_def adm_inv_def Let_def bump_get)
  next
    case True
    have "aq_est_ttft_ms q + of_int (dget (ad_inflight st) t 0) * 25 \<le> 460" if "aq_tier q = ''bronze''"
    proof -
      have "dget (ad_inflight ?st) t 0 \<le> 12" using bronze_room [OF True that] t(2) by simp
      then have "(of_int (dget (ad_inflight st) t 0) :: pyfloat) \<le> of_int 12" by (simp only: of_int_le_iff) simp
      then show ?thesis using est by simp
    qed
    then show ?thesis using True t(1) assms(1)
      by (auto simp: adm_offer_def adm_inv_def Let_def bump_get occupy_def action_defs)
  qed
qed

lemma adm_batch_ok:
  "adm_inv st \<Longrightarrow> list_all adm_request_ok qs \<Longrightarrow> \<exists>st'. adm_batch ''admission'' st qs = Inr st' \<and> adm_inv st'"
proof (induction qs arbitrary: st)
  case (Cons q qs)
  then show ?case using adm_offer_ok [of st q] by fastforce
qed simp

lemma adm_loop_ok:
  "adm_inv st \<Longrightarrow> list_all adm_request_ok qs \<Longrightarrow> \<exists>st'. adm_loop ''admission'' m st qs = Inr st' \<and> adm_inv st'"
proof (induction "length qs" arbitrary: st qs rule: less_induct)
  case less
  obtain queue infl where d: "drain_due (ad_tick st) (ad_queue st) (ad_inflight st) = (queue, infl)" by force
  have "adm_inv (st\<lparr>ad_queue := queue, ad_inflight := infl\<rparr>)" using less.prems(1) by (simp add: adm_inv_def)
  moreover have all: "list_all adm_request_ok (take (Suc m) qs)" "list_all adm_request_ok (drop (Suc m) qs)"
    using less.prems(2) by (auto simp: list_all_iff dest: in_set_takeD in_set_dropD)
  ultimately obtain st1 where st1: "adm_batch ''admission'' (st\<lparr>ad_queue := queue, ad_inflight := infl\<rparr>) (take (Suc m) qs) = Inr st1" "adm_inv st1"
    using adm_batch_ok by blast
  let ?st = "st1\<lparr>ad_tick := ad_tick st1 + 1\<rparr>"
  have inv: "adm_inv ?st" using st1(2) by (simp add: adm_inv_def)
  show ?case
  proof (cases "length qs < Suc m")
    case True
    then show ?thesis using st1(1) d inv by (subst adm_loop.simps) (simp add: Let_def)
  next
    case False
    then have "length (drop (Suc m) qs) < length qs" by simp
    from less.hyps [OF this inv all(2)] show ?thesis using False st1(1) d by (subst adm_loop.simps) (simp add: Let_def)
  qed
qed

lemma adm_workload_ok:
  assumes "\<And>xs. mset (shuf xs) = mset xs"
  shows "list_all adm_request_ok (adm_workload shuf huge n)"
proof -
  let ?all = "concat (map (\<lambda>(t, p). replicate (nat (round_half_even (p * 1000))) t) TIER_MIX)"
  have "round_half_even 200 = 200" "round_half_even 300 = 300" "round_half_even 500 = 500" by (simp_all add: round_half_even_def)
  then have "?all = replicate 200 ''gold'' @ replicate 300 ''silver'' @ replicate 500 ''bronze''" by (simp add: TIER_MIX_def)
  then have all: "set ?all = {''gold'', ''silver'', ''bronze''}" by auto
  have "shuf ?all ! (i mod length (shuf ?all)) \<in> {''gold'', ''silver'', ''bronze''}" for i
  proof -
    have "set (shuf ?all) = set ?all" using assms mset_eq_setD by blast
    moreover have "shuf ?all \<noteq> []" using calculation all by (metis insert_not_empty set_empty)
    ultimately show ?thesis using all by (metis length_greater_0_conv mod_less_divisor nth_mem)
  qed
  then show ?thesis
    by (simp add: list_all_iff adm_workload_def Let_def adm_request_ok_def PREFILL_MS_PER_TOKEN_def TOKENS_PER_REQUEST_BASE_def)
qed

text \<open>
  What the admission gate does for the benchmark's workload, whatever its random draws, the load and the number of requests: every gold request is
  served, every served bronze request meets the latency objective, and no request is ever rejected for its deadline: even
  the prompts meant to miss it are estimated at 160 of the 500 milliseconds.
\<close>

theorem admission_bench_outcome:
  assumes "\<And>xs. mset (shuf xs) = mset xs"
  shows "\<exists>st. adm_run shuf huge ''admission'' n load_mult = Inr st \<and> dget (ad_counts st) REJECT 0 = 0 \<and>
    dget (ad_served st) ''gold'' 0 = dget (ad_offered st) ''gold'' 0 \<and>
    (\<forall>x \<in> set (dget (ad_ttfts st) ''bronze'' []). x \<le> TTFT_SLO_MS)"
proof -
  have "adm_inv adm_sim_init" by (simp add: adm_inv_def adm_sim_init_def TIER_MIX_def dget_def)
  from adm_loop_ok [OF this adm_workload_ok [OF assms]] obtain st where "adm_run shuf huge ''admission'' n load_mult = Inr st" "adm_inv st"
    unfolding adm_run_def Let_def by blast
  then show ?thesis by (intro exI [of _ st]) (fastforce simp: adm_inv_def TTFT_SLO_MS_def)
qed

theorem admission_bench_outcome_witness:
  "\<exists>st. adm_run (\<lambda>xs. rev xs) (\<lambda>i. i mod 20 = 0) ''admission'' 100 2 = Inr st \<and> dget (ad_counts st) REJECT 0 = 0"
  using admission_bench_outcome [of rev "\<lambda>i. i mod 20 = 0" 100 2] by auto

text \<open>Four points of the load sweep offer the same load.\<close>

lemma sweep_rounds_away: "\<forall>x \<in> {1 / 2, 3 / 4, 1, 5 / 4 :: pyfloat}. max 1 (round_half_even (of_int ADM_OFFER_PER_TICK * x)) = 1"
  by code_simp

end
