(* ===== verification/Bench_Index.thy ===== *)
theory Bench_Index
  imports Bench_Policy
begin

section \<open>The affinity benchmarks\<close>

text \<open>
  \<^verbatim>\<open>bench/rag_bench.py\<close> and \<^verbatim>\<open>bench/multimodal_bench.py\<close>: requests for chunks of a corpus, or for images of a library, are
  dispatched to three backends by three strategies, and what the backends' caches held is counted.  Both loops are the
  same: free the backends of the requests that completed, choose a backend, count and record, occupy it.  The locale
  \<open>window_bench\<close> is the contract of that loop.  The random draws are parameters; chunk ids are words, as in the router.
\<close>


subsection \<open>Workloads\<close>

text \<open>The shuffled items cut into topics of equal size; what remains of the division is in no topic.\<close>

definition make_topics :: "'a list \<Rightarrow> nat \<Rightarrow> 'a list list" where
  "make_topics xs n = (let topic_size = max 1 (length xs div n) in map (\<lambda>t. take topic_size (drop (t * topic_size) xs)) [0..<n])"

text \<open>\<open>while len(chosen) < need\<close>: draws until enough different chunks were drawn; \<open>None\<close> when that never happens.\<close>

partial_function (option) draw_chunks :: "(nat \<Rightarrow> nat) \<Rightarrow> 'a list \<Rightarrow> nat \<Rightarrow> nat \<Rightarrow> 'a list \<Rightarrow> 'a list option" where
  "draw_chunks pick pool need j chosen =
     (if length chosen < need then draw_chunks pick pool need (j + 1) (List.insert (pool ! pick j) chosen) else Some chosen)"

definition rag_workload ::
  "(block_hash list \<Rightarrow> block_hash list) \<Rightarrow> (nat \<Rightarrow> nat) \<Rightarrow> (nat \<Rightarrow> nat \<Rightarrow> nat) \<Rightarrow> nat \<Rightarrow> nat \<Rightarrow> nat \<Rightarrow> nat \<Rightarrow> block_hash list list option result"
where
  "rag_workload shuf topic pick n_chunks_pool k_per_request n_topics n_requests =
     (if n_topics = 0 then Inl ZeroDivisionError
      else let topics = make_topics (shuf (map of_nat [0..<n_chunks_pool])) n_topics in
        Inr (those (map (\<lambda>i. let pool = topics ! topic i in
          map_option sort (draw_chunks (pick i) pool (min k_per_request (length pool)) 0 [])) [0..<n_requests])))"

definition image_url :: "nat \<Rightarrow> string" where
  "image_url i = (let d = show_int (int i) in ''img://'' @ replicate (5 - length d) CHR ''0'' @ d)"

fun image_draws :: "string list list \<Rightarrow> (nat \<Rightarrow> nat) \<Rightarrow> (nat \<Rightarrow> nat) \<Rightarrow> nat list \<Rightarrow> string list result" where
  "image_draws topics topic pick [] = Inr []"
| "image_draws topics topic pick (i # is) =
     (let pool = topics ! topic i in
      if pool = [] then Inl IndexError
      else res_bind (image_draws topics topic pick is) (\<lambda>urls. Inr (pool ! pick i # urls)))"

definition image_workload ::
  "(string list \<Rightarrow> string list) \<Rightarrow> (nat \<Rightarrow> nat) \<Rightarrow> (nat \<Rightarrow> nat) \<Rightarrow> nat \<Rightarrow> nat \<Rightarrow> nat \<Rightarrow> string list result"
where
  "image_workload shuf topic pick n_images n_topics n_requests =
     (if n_topics = 0 then Inl ZeroDivisionError
      else image_draws (make_topics (shuf (map image_url [0..<n_images])) n_topics) topic pick [0..<n_requests])"


subsection \<open>The loop\<close>

definition IX_WINDOW :: int where
  "IX_WINDOW = 24"

text \<open>\<open>for idx, r in enumerate(workload)\<close>: drain, choose, serve.\<close>

fun bench_loop :: "(int \<Rightarrow> 's \<Rightarrow> 's) \<Rightarrow> ('s \<Rightarrow> 'r \<Rightarrow> string result) \<Rightarrow> (int \<Rightarrow> 'r \<Rightarrow> string \<Rightarrow> 's \<Rightarrow> 's result) \<Rightarrow> int \<Rightarrow> 's \<Rightarrow> 'r list \<Rightarrow> 's result" where
  "bench_loop expire route serve idx s [] = Inr s"
| "bench_loop expire route serve idx s (r # rs) =
     (let s1 = expire idx s in
      res_bind (route s1 r) (\<lambda>b. res_bind (serve idx r b s1) (\<lambda>s2. bench_loop expire route serve (idx + 1) s2 rs)))"

lemma res_bind_id: "res_bind x Inr = x"
  by (cases x) simp_all

lemma res_bind_assoc: "res_bind (res_bind x f) g = res_bind x (\<lambda>y. res_bind (f y) g)"
  by (cases x) simp_all

lemma bench_loop_append:
  "bench_loop expire route serve idx s (rs @ [r]) =
     res_bind (bench_loop expire route serve idx s rs) (\<lambda>s'.
       let s1 = expire (idx + int (length rs)) s' in
       res_bind (route s1 r) (\<lambda>b. serve (idx + int (length rs)) r b s1))"
proof (induction rs arbitrary: idx s)
  case Nil
  show ?case by (cases "route (expire idx s) r") (auto simp: Let_def res_bind_id)
next
  case (Cons a rs)
  show ?case by (cases "route (expire idx s) a") (auto simp: Let_def Cons res_bind_assoc algebra_simps)
qed

subsection \<open>What the loop keeps\<close>

text \<open>
  A history pairs the backend of each request with what the request used.  \<open>recent\<close> counts the requests of a backend still in flight when the
  next one comes, \<open>lru_of\<close> is what a least-recently-used cache of the backend holds, and \<open>trace_hits\<close> counts the uses it served.
\<close>

definition recent :: "(string \<times> 'k list) list \<Rightarrow> string \<Rightarrow> nat" where
  "recent h b = length (filter (\<lambda>p. fst p = b) (lastn 23 h))"

definition lru_of :: "nat \<Rightarrow> (string \<times> 'k list) list \<Rightarrow> string \<Rightarrow> 'k list" where
  "lru_of room h b = lastn room (remdups (concat (map snd (filter (\<lambda>p. fst p = b) h))))"

definition held_among :: "'k list \<Rightarrow> 'k list \<Rightarrow> nat" where
  "held_among cache ks = length (filter (\<lambda>k. k \<in> set cache) ks)"

definition cold_among :: "'k list \<Rightarrow> 'k list \<Rightarrow> nat" where
  "cold_among cache ks = length (filter (\<lambda>k. k \<notin> set cache) ks)"

lemma held_or_cold: "held_among cache ks + cold_among cache ks = length ks"
  unfolding held_among_def cold_among_def by (rule sum_length_filter_compl)

lemma recent_le: "recent h b \<le> 23"
  unfolding recent_def by (rule order_trans [OF length_filter_le]) (simp add: lastn_def)

definition trace_hits :: "nat \<Rightarrow> (string \<times> 'k list) list \<Rightarrow> nat" where
  "trace_hits room h = (\<Sum>n<length h. held_among (lru_of room (take n h) (fst (h ! n))) (snd (h ! n)))"

definition trace_uses :: "(string \<times> 'k list) list \<Rightarrow> nat" where
  "trace_uses h = sum_list (map (\<lambda>p. length (snd p)) h)"

lemma trace_hits_snoc: "trace_hits room (h @ [(b, ks)]) = trace_hits room h + held_among (lru_of room h b) ks"
  by (simp add: trace_hits_def nth_append)

lemma lru_of_snoc:
  "lru_of room (h @ [(b, ks)]) b' = (if b' = b then lastn room (remdups (lru_of room h b @ ks)) else lru_of room h b')"
proof -
  let ?xs = "concat (map snd (filter (\<lambda>p. fst p = b) h))"
  have "lastn room (remdups (lastn room (remdups ?xs) @ ks)) = lastn room (remdups (?xs @ ks))"
    using lastn_remdups_append [of "remdups ?xs" room ks] by (simp add: remdups_append_filter distinct_remdups_id)
  then show ?thesis by (auto simp: lru_of_def)
qed

text \<open>The window: the queue of the last 24 requests under their numbers, of which the oldest leaves before the next choice.\<close>

definition window_of :: "(string \<times> 'k list) list \<Rightarrow> (int \<times> string) list" where
  "window_of h = lastn 24 (zip (map int [0..<length h]) (map fst h))"

lemma drain_due_queue: "fst (drain_due now q d) = dropWhile (\<lambda>e. fst e \<le> now) q"
  by (induction now q d rule: drain_due.induct) auto

lemma lastn_append1: "lastn (Suc k) (xs @ [x]) = lastn k xs @ [x]"
  by (simp add: lastn_def)

lemma window_drained: "fst (drain_due (int (length h) - IX_WINDOW) (window_of h) d) = lastn 23 (zip (map int [0..<length h]) (map fst h))"
proof -
  let ?z = "zip (map int [0..<length h]) (map fst h)" and ?n = "length h"
  have stop: "dropWhile (\<lambda>e. fst e \<le> int ?n - 24) (drop k ?z) = drop k ?z" if "int ?n - 24 < int k" for k
    using that by (cases "k < ?n") (simp_all add: Cons_nth_drop_Suc [symmetric])
  show ?thesis
  proof (cases "?n < 24")
    case True
    then show ?thesis using stop [of 0] by (simp add: drain_due_queue window_of_def lastn_def IX_WINDOW_def)
  next
    case False
    define k where "k = ?n - 24"
    with False have k: "?n - 24 = k" "?n - 23 = Suc k" "k < length ?z" "int ?n - 24 = int k" by auto
    have "drop k ?z = ?z ! k # drop (Suc k) ?z" by (rule Cons_nth_drop_Suc [OF k(3), symmetric])
    moreover have "fst (?z ! k) \<le> int ?n - 24" using k by simp
    ultimately show ?thesis using stop [of "Suc k"] k(1,2,4) unfolding drain_due_queue window_of_def lastn_def IX_WINDOW_def by simp
  qed
qed

lemma recent_window: "length (filter (\<lambda>e. snd e = b) (lastn 23 (zip (map int [0..<length h]) (map fst h)))) = recent h b"
proof -
  have "map snd (lastn 23 (zip (map int [0..<length h]) (map fst h))) = map fst (lastn 23 h)"
    by (simp add: lastn_def drop_map [symmetric])
  then have "filter (\<lambda>x. x = b) (map snd (lastn 23 (zip (map int [0..<length h]) (map fst h)))) = filter (\<lambda>x. x = b) (map fst (lastn 23 h))" by simp
  then show ?thesis unfolding recent_def filter_map comp_def by (metis length_map)
qed

locale window_bench =
  fixes expire :: "int \<Rightarrow> 's \<Rightarrow> 's"
    and route :: "'s \<Rightarrow> 'r \<Rightarrow> string result"
    and serve :: "int \<Rightarrow> 'r \<Rightarrow> string \<Rightarrow> 's \<Rightarrow> 's result"
    and win :: "'s \<Rightarrow> (int \<times> string) list \<times> (string, int) dict"
    and held :: "'s \<Rightarrow> string \<Rightarrow> 'k list"
    and total :: "'s \<Rightarrow> nat"
    and hits :: "'s \<Rightarrow> nat"
    and ms :: "'s \<Rightarrow> pyfloat list"
    and good :: "'s \<Rightarrow> bool"
    and keys :: "'r \<Rightarrow> 'k list"
    and room :: nat
    and base :: pyfloat
    and miss :: pyfloat
  assumes expire_good: "good s \<Longrightarrow> good (expire t s)"
    and expire_win: "win (expire t s) = drain_due (t - IX_WINDOW) (fst (win s)) (snd (win s))"
    and expire_keeps: "held (expire t s) = held s" "total (expire t s) = total s" "hits (expire t s) = hits s" "ms (expire t s) = ms s"
    and route_ok: "good s \<Longrightarrow> \<exists>b \<in> set BACKENDS. route s r = Inr b"
    and serve_ok: "good s \<Longrightarrow> b \<in> set BACKENDS \<Longrightarrow> \<exists>s'. serve t r b s = Inr s' \<and> good s' \<and> win s' = occupy b t (win s) \<and>
      total s' = total s + length (keys r) \<and> hits s' = hits s + held_among (held s b) (keys r) \<and>
      ms s' = ms s @ [base + miss * (of_nat (length (keys r)) - of_nat (held_among (held s b) (keys r)))] \<and>
      (\<forall>b'. held s' b' = (if b' = b then lastn room (remdups (held s b @ keys r)) else held s b'))"
begin

definition traced :: "'s \<Rightarrow> (string \<times> 'k list) list \<Rightarrow> bool" where
  "traced s h \<longleftrightarrow> good s \<and> counted (win s) \<and> fst (win s) = window_of h \<and> held s = lru_of room h \<and>
     total s = trace_uses h \<and> hits s = trace_hits room h \<and> length (ms s) = length h \<and>
     sum_list (ms s) = base * of_nat (length h) + miss * (of_nat (total s) - of_nat (hits s))"

lemma expire_counted: "counted (win s) \<Longrightarrow> counted (win (expire t s))"
  by (cases "win s") (simp add: expire_win counted_drain)

lemma in_flight:
  assumes "traced s h"
  shows "dget (snd (win (expire (int (length h)) s))) b 0 = int (recent h b)"
proof -
  have "counted (win (expire (int (length h)) s))"
    using assms expire_counted by (simp add: traced_def)
  then show ?thesis using assms window_drained [of h] recent_window [of b h] by (simp add: counted_def expire_win traced_def)
qed

lemma traced_step:
  assumes "traced s h"
  shows "\<exists>b s'. route (expire (int (length h)) s) r = Inr b \<and> serve (int (length h)) r b (expire (int (length h)) s) = Inr s' \<and>
    b \<in> set BACKENDS \<and> traced s' (h @ [(b, keys r)])"
proof -
  let ?t = "int (length h)" and ?z = "zip (map int [0..<length h]) (map fst h)"
  let ?s = "expire ?t s"
  have g: "good ?s" using assms expire_good by (simp add: traced_def)
  have w: "counted (win ?s)" "fst (win ?s) = lastn 23 ?z"
    using assms window_drained [of h] by (simp_all add: traced_def expire_counted) (simp add: expire_win)
  obtain b where b: "b \<in> set BACKENDS" "route ?s r = Inr b" using route_ok [OF g] by blast
  obtain s' where s': "serve ?t r b ?s = Inr s'" "good s'" "win s' = occupy b ?t (win ?s)" "total s' = total s + length (keys r)"
    "hits s' = hits s + held_among (held s b) (keys r)"
    "ms s' = ms s @ [base + miss * (of_nat (length (keys r)) - of_nat (held_among (held s b) (keys r)))]"
    "\<forall>b'. held s' b' = (if b' = b then lastn room (remdups (held s b @ keys r)) else held s b')"
    using serve_ok [OF g b(1), of ?t r] by (auto simp: expire_keeps)
  have "counted (win s')" using w(1) s'(3) by (simp add: counted_occupy)
  moreover have "fst (win s') = window_of (h @ [(b, keys r)])"
    using w(2) s'(3) lastn_append1 [of 23 ?z "(?t, b)"] by (simp add: occupy_def window_of_def)
  moreover have "held s' = lru_of room (h @ [(b, keys r)])" using assms s'(7) by (auto simp: lru_of_snoc traced_def)
  moreover have "sum_list (ms s) = base * of_nat (length h) + miss * (of_nat (total s) - of_nat (hits s))"
    using assms unfolding traced_def by blast
  then have "sum_list (ms s') = base * of_nat (length (h @ [(b, keys r)])) + miss * (of_nat (total s') - of_nat (hits s'))"
    by (simp add: s'(4,5,6) algebra_simps)
  ultimately have "traced s' (h @ [(b, keys r)])"
    using assms s'(2,4,5,6) by (simp add: traced_def trace_uses_def trace_hits_snoc)
  then show ?thesis using b s'(1) by blast
qed

lemma loop_traced:
  assumes "traced s0 []"
  shows "\<exists>s h. bench_loop expire route serve 0 s0 rs = Inr s \<and> traced s h \<and> map snd h = map keys rs \<and> set (map fst h) \<subseteq> set BACKENDS \<and>
    (\<forall>n < length rs. \<exists>s'. traced s' (take n h) \<and> route (expire (int n) s') (rs ! n) = Inr (fst (h ! n)))"
proof (induction rs rule: rev_induct)
  case (snoc r rs)
  then obtain s h where h: "bench_loop expire route serve 0 s0 rs = Inr s" "traced s h" "map snd h = map keys rs" "set (map fst h) \<subseteq> set BACKENDS"
    "\<And>n. n < length rs \<Longrightarrow> \<exists>s'. traced s' (take n h) \<and> route (expire (int n) s') (rs ! n) = Inr (fst (h ! n))" by blast
  have len: "length h = length rs" using arg_cong [OF h(3), of length] by simp
  obtain b s' where s': "route (expire (int (length h)) s) r = Inr b" "serve (int (length h)) r b (expire (int (length h)) s) = Inr s'"
    "b \<in> set BACKENDS" "traced s' (h @ [(b, keys r)])" using traced_step [OF h(2)] by blast
  have "\<exists>s'. traced s' (take n (h @ [(b, keys r)])) \<and> route (expire (int n) s') ((rs @ [r]) ! n) = Inr (fst ((h @ [(b, keys r)]) ! n))"
    if "n < length (rs @ [r])" for n
    using that h(2) h(5) [of n] s'(1) len by (cases "n < length rs") (auto simp: nth_append less_Suc_eq)
  then show ?case using h s' len by (intro exI [of _ s'] exI [of _ "h @ [(b, keys r)]"]) (simp add: bench_loop_append Let_def)
qed (use assms in auto)

end


subsection \<open>Chunks\<close>

definition CACHE_CAP_CHUNKS :: int where
  "CACHE_CAP_CHUNKS = 64"

definition rag_bench_cfg :: RagConfig where
  "rag_bench_cfg = (RagConfig_of RagConfig_fields)\<lparr>cache_capacity_chunks := CACHE_CAP_CHUNKS, tokens_per_chunk := 512, Rag.service_ms_per_request := 50\<rparr>"

record rag_sim =
  rs_index :: ChunkAffinityIndex
  rs_load :: LoadTracker
  rs_total :: nat
  rs_hits :: nat
  rs_ms :: "pyfloat list"
  rs_rr :: nat
  rs_window :: "(int \<times> string) list"

definition rag_sim_init :: rag_sim where
  "rag_sim_init = \<lparr>rs_index = ChunkAffinityIndex_init (cache_capacity_chunks rag_bench_cfg), rs_load = LoadTracker_init, rs_total = 0, rs_hits = 0,
     rs_ms = [], rs_rr = 0, rs_window = []\<rparr>"

definition rag_expire :: "int \<Rightarrow> rag_sim \<Rightarrow> rag_sim" where
  "rag_expire idx st =
     (let (window, infl) = drain_due (idx - IX_WINDOW) (rs_window st) (inflight (rs_load st))
      in st\<lparr>rs_window := window, rs_load := (rs_load st)\<lparr>inflight := infl\<rparr>\<rparr>)"

definition rag_route :: "string \<Rightarrow> rag_sim \<Rightarrow> block_hash list \<Rightarrow> string result" where
  "rag_route strat st chunks =
     (if strat = ''round_robin'' then Inr (BACKENDS ! (rs_rr st mod length BACKENDS))
      else if strat = ''consistent_hash'' then
        (let key = (if chunks \<noteq> [] then unat (chunks ! 0) else 0) in Inr (BACKENDS ! (key mod length BACKENDS)))
      else if strat = ''chunk_affinity'' then
        (case choose_rag_backend chunks BACKENDS (rs_index st) (rs_load st) rag_bench_cfg of
           None \<Rightarrow> Inl AttributeError
         | Some r \<Rightarrow> Inr (rr_backend r))
      else Inl ValueError)"

definition rag_serve :: "string \<Rightarrow> int \<Rightarrow> block_hash list \<Rightarrow> string \<Rightarrow> rag_sim \<Rightarrow> rag_sim result" where
  "rag_serve strat idx chunks backend st =
     (let overlap = chunk_overlap (rs_index st) backend chunks;
          uncached = int (length chunks) - int overlap;
          est_ms = Rag.prefill_ms_per_token rag_bench_cfg * of_int uncached * of_int (tokens_per_chunk rag_bench_cfg)
      in res_bind (chunk_record (rs_index st) backend chunks) (\<lambda>index.
           let (window, infl) = occupy backend idx (rs_window st, inflight (rs_load st))
           in Inr \<lparr>rs_index = index, rs_load = (rs_load st)\<lparr>inflight := infl\<rparr>, rs_total = rs_total st + length chunks,
                   rs_hits = rs_hits st + overlap, rs_ms = rs_ms st @ [est_ms],
                   rs_rr = (if strat = ''round_robin'' then rs_rr st + 1 else rs_rr st), rs_window = window\<rparr>))"

definition rag_loop :: "string \<Rightarrow> block_hash list list \<Rightarrow> rag_sim result" where
  "rag_loop strat workload = bench_loop rag_expire (rag_route strat) (rag_serve strat) 0 rag_sim_init workload"

record index_result =
  ix_hit_rate :: pyfloat
  ix_ms_mean :: pyfloat

definition rag_evaluate :: "string \<Rightarrow> block_hash list list \<Rightarrow> index_result result" where
  "rag_evaluate strat workload =
     res_bind (rag_loop strat workload) (\<lambda>st. Inr
       \<lparr>ix_hit_rate = (if rs_total st \<noteq> 0 then of_nat (rs_hits st) / of_nat (rs_total st) else 0),
        ix_ms_mean = (if rs_ms st \<noteq> [] then sum_list (rs_ms st) / of_nat (length (rs_ms st)) else 0)\<rparr>)"

definition RAG_STRATEGIES :: "string list" where
  "RAG_STRATEGIES = [''round_robin'', ''consistent_hash'', ''chunk_affinity'']"

lemma rag_bench_cfg_facts:
  "cache_capacity_chunks rag_bench_cfg = 64" "tokens_per_chunk rag_bench_cfg = 512" "Rag.service_ms_per_request rag_bench_cfg = 50"
  "Rag.prefill_ms_per_token rag_bench_cfg = 1 / 20" "Rag.max_inflight rag_bench_cfg = 64"
proof -
  have "float_field RagConfig_fields ''prefill_ms_per_token'' = 1 / 20" "int_field RagConfig_fields ''max_inflight'' = 64" by code_simp+
  then show "cache_capacity_chunks rag_bench_cfg = 64" "tokens_per_chunk rag_bench_cfg = 512" "Rag.service_ms_per_request rag_bench_cfg = 50"
    "Rag.prefill_ms_per_token rag_bench_cfg = 1 / 20" "Rag.max_inflight rag_bench_cfg = 64"
    by (simp_all add: rag_bench_cfg_def RagConfig_of_def CACHE_CAP_CHUNKS_def)
qed

lemma backends_nth: "BACKENDS ! (n mod length BACKENDS) \<in> set BACKENDS"
  by (intro nth_mem mod_less_divisor) (simp add: BACKENDS_def)

lemma backends_ne: "BACKENDS \<noteq> []"
  by (simp add: BACKENDS_def)

lemma rag_route_ok:
  assumes "strat \<in> set RAG_STRATEGIES"
  shows "\<exists>b \<in> set BACKENDS. rag_route strat st chunks = Inr b"
proof -
  obtain b cost where a: "argmin_loop (rag_est (rs_index st) (rs_load st) rag_bench_cfg chunks) (rag_eligible (rs_load st) rag_bench_cfg BACKENDS) None =
      Some (b, cost)" using argmin_loop_ex [OF rag_eligible_ne [OF backends_ne]] by blast
  then have "choose_rag_backend chunks BACKENDS (rs_index st) (rs_load st) rag_bench_cfg =
      Some \<lparr>rr_backend = b, rr_overlap = chunk_overlap (rs_index st) b chunks, rr_total = length chunks, rr_est = cost\<rparr>"
    by (simp add: choose_rag_backend_def)
  moreover have "b \<in> set BACKENDS" using argmin_loop_min(2) [OF a] by (auto simp: rag_eligible_def Let_def split: if_splits)
  ultimately show ?thesis using assms backends_nth by (auto simp: rag_route_def RAG_STRATEGIES_def Let_def)
qed

interpretation rag_sim: window_bench rag_expire "rag_route strat" "rag_serve strat" "\<lambda>st. (rs_window st, inflight (rs_load st))"
  "\<lambda>st. chunk_held (rs_index st)" rs_total rs_hits rs_ms
  "\<lambda>st. strat \<in> set RAG_STRATEGIES \<and> sets_ok (chunk_sets (rs_index st)) \<and> chunk_capacity (rs_index st) = 64" "\<lambda>chunks. chunks" 64 0 "128 / 5"
  for strat
proof unfold_locales
  fix st :: rag_sim and b t and r :: "block_hash list"
  assume st: "strat \<in> set RAG_STRATEGIES \<and> sets_ok (chunk_sets (rs_index st)) \<and> chunk_capacity (rs_index st) = 64"
  then obtain x where x: "chunk_record (rs_index st) b r = Inr x" "sets_ok (chunk_sets x)" "chunk_capacity x = 64"
    "\<forall>b'. chunk_held x b' = (if b' = b then lastn 64 (remdups (chunk_held (rs_index st) b @ r)) else chunk_held (rs_index st) b')"
    using chunks.record_ok [of "rs_index st" b r] by auto
  have "chunk_overlap (rs_index st) b r = held_among (chunk_held (rs_index st) b) r"
    by (simp add: chunk_overlap_def sets_overlap_def held_among_def chunk_held_def)
  with x st show "\<exists>s'. rag_serve strat t r b st = Inr s' \<and>
      (strat \<in> set RAG_STRATEGIES \<and> sets_ok (chunk_sets (rs_index s')) \<and> chunk_capacity (rs_index s') = 64) \<and>
      (rs_window s', inflight (rs_load s')) = occupy b t (rs_window st, inflight (rs_load st)) \<and> rs_total s' = rs_total st + length r \<and>
      rs_hits s' = rs_hits st + held_among (chunk_held (rs_index st) b) r \<and>
      rs_ms s' = rs_ms st @ [0 + 128 / 5 * (of_nat (length r) - of_nat (held_among (chunk_held (rs_index st) b) r))] \<and>
      (\<forall>b'. chunk_held (rs_index s') b' = (if b' = b then lastn 64 (remdups (chunk_held (rs_index st) b @ r)) else chunk_held (rs_index st) b'))"
    by (simp add: rag_serve_def rag_bench_cfg_facts Let_def split: prod.split)
qed (auto simp: rag_expire_def Let_def rag_route_ok split: prod.split)

text \<open>The in-flight limit of 64 never excludes a backend, as 23 requests at most are in flight.\<close>

lemma rag_est_bench:
  assumes "rag_sim.traced strat s h"
  shows "rag_est (rs_index s) (rs_load (rag_expire (int (length h)) s)) rag_bench_cfg ks b =
    2 / 5 * of_nat (64 * cold_among (lru_of 64 h b) ks + 125 * recent h b)"
proof -
  have "dget (inflight (rs_load (rag_expire (int (length h)) s))) b 0 = int (recent h b)" using rag_sim.in_flight [OF assms] by simp
  moreover have "int (length ks) - int (chunk_overlap (rs_index s) b ks) = int (cold_among (lru_of 64 h b) ks)"
    using assms held_or_cold [of "lru_of 64 h b" ks] unfolding rag_sim.traced_def
    by (auto simp: chunk_overlap_def sets_overlap_def held_among_def chunk_held_def dest!: fun_cong [of _ _ b])
  ultimately show ?thesis by (simp add: rag_est_def rag_bench_cfg_facts Let_def)
qed

lemma rag_affinity_greedy:
  assumes "rag_sim.traced strat s h" and "rag_route ''chunk_affinity'' (rag_expire (int (length h)) s) ks = Inr b" and "b' \<in> set BACKENDS"
  shows "64 * cold_among (lru_of 64 h b) ks + 125 * recent h b \<le> 64 * cold_among (lru_of 64 h b') ks + 125 * recent h b'"
proof -
  let ?s = "rag_expire (int (length h)) s"
  have idx: "rs_index ?s = rs_index s" by (simp add: rag_expire_def Let_def split: prod.split)
  have "dget (inflight (rs_load ?s)) c 0 \<le> 64" for c using rag_sim.in_flight [OF assms(1), of c] recent_le [of h c] by simp
  then have e: "rag_eligible (rs_load ?s) rag_bench_cfg BACKENDS = BACKENDS" by (simp add: rag_eligible_def rag_bench_cfg_facts backends_ne)
  obtain cost where "argmin_loop (rag_est (rs_index s) (rs_load ?s) rag_bench_cfg ks) BACKENDS None = Some (b, cost)"
    using assms(2) by (auto simp: rag_route_def choose_rag_backend_def e idx split: option.splits)
  from argmin_loop_min(3) [OF this assms(3)] show ?thesis unfolding rag_est_bench [OF assms(1)] by simp
qed

text \<open>
  What the retrieval benchmark measures, for every workload and strategy: the loop runs to its end; its hits are those of
  least-recently-used caches of 64 chunks, one per backend, fed with the requests sent there; its times sum to 25.6 milliseconds per
  missed chunk, so the mean falls exactly as the hits rise.  The affinity strategy sends every request to the backend where 64 times the
  chunks missing there plus 125 times the requests among the last 23 sent there is least.
\<close>

theorem rag_bench_measures:
  assumes "strat \<in> set RAG_STRATEGIES"
  shows "\<exists>st h. rag_loop strat reqs = Inr st \<and> map snd h = reqs \<and> set (map fst h) \<subseteq> set BACKENDS \<and>
    rs_total st = trace_uses h \<and> rs_hits st = trace_hits 64 h \<and>
    length (rs_ms st) = length reqs \<and> sum_list (rs_ms st) = 128 / 5 * (of_nat (trace_uses h) - of_nat (trace_hits 64 h)) \<and>
    (strat = ''chunk_affinity'' \<longrightarrow> (\<forall>n < length reqs. \<forall>b \<in> set BACKENDS.
       64 * cold_among (lru_of 64 (take n h) (fst (h ! n))) (reqs ! n) + 125 * recent (take n h) (fst (h ! n)) \<le>
       64 * cold_among (lru_of 64 (take n h) b) (reqs ! n) + 125 * recent (take n h) b))"
proof -
  have "rag_sim.traced strat rag_sim_init []" using assms
    unfolding rag_sim.traced_def by (auto simp: rag_sim_init_def rag_bench_cfg_facts ChunkAffinityIndex_init_def sets_ok_def LoadTracker_init_def counted_def
        window_of_def lastn_def chunk_held_def sets_keys_def lru_of_def trace_uses_def trace_hits_def)
  from rag_sim.loop_traced [OF this, of reqs] obtain st h where h: "rag_loop strat reqs = Inr st" "rag_sim.traced strat st h" "map snd h = reqs"
    "set (map fst h) \<subseteq> set BACKENDS"
    "\<forall>n < length reqs. \<exists>s'. rag_sim.traced strat s' (take n h) \<and> rag_route strat (rag_expire (int n) s') (reqs ! n) = Inr (fst (h ! n))"
    by (auto simp: rag_loop_def)
  have len: "length h = length reqs" using h(3) by auto
  have "64 * cold_among (lru_of 64 (take n h) (fst (h ! n))) (reqs ! n) + 125 * recent (take n h) (fst (h ! n)) \<le>
       64 * cold_among (lru_of 64 (take n h) b) (reqs ! n) + 125 * recent (take n h) b"
    if n: "strat = ''chunk_affinity''" "n < length reqs" "b \<in> set BACKENDS" for n b
  proof -
    obtain s' where "rag_sim.traced strat s' (take n h)" "rag_route strat (rag_expire (int n) s') (reqs ! n) = Inr (fst (h ! n))" using h(5) n(2) by blast
    then show ?thesis using rag_affinity_greedy [of strat s' "take n h" "reqs ! n" "fst (h ! n)" b] n len by simp
  qed
  then show ?thesis using h(1-4) len by (intro exI [of _ st] exI [of _ h]) (simp add: rag_sim.traced_def)
qed

theorem rag_bench_measures_witness:
  "\<exists>st h. rag_loop ''chunk_affinity'' [[1, 2], [2, 3 :: block_hash]] = Inr st \<and> map snd h = [[1, 2], [2, 3 :: block_hash]] \<and> rs_hits st = trace_hits 64 h"
proof -
  have "''chunk_affinity'' \<in> set RAG_STRATEGIES" by (simp add: RAG_STRATEGIES_def)
  from rag_bench_measures [OF this, of "[[1, 2], [2, 3]]"] obtain st and h :: "(string \<times> block_hash list) list"
    where "rag_loop ''chunk_affinity'' [[1, 2], [2, 3]] = Inr st" "map snd h = [[1, 2], [2, 3]]" "rs_hits st = trace_hits 64 h" by (elim exE conjE) (rule that)
  then show ?thesis by (intro exI [of _ st] exI [of _ h]) simp
qed


subsection \<open>Images\<close>

definition CACHE_CAP_MEDIA :: int where
  "CACHE_CAP_MEDIA = 48"

definition CAPABILITIES :: "(string, string set) dict" where
  "CAPABILITIES = map (\<lambda>b. (b, {''text'', ''image''})) BACKENDS"

definition mm_bench_cfg :: MultiModalConfig where
  "mm_bench_cfg = (MultiModalConfig_of MultiModalConfig_fields)\<lparr>Multimodal.enabled := True, cache_capacity_media := CACHE_CAP_MEDIA,
     Multimodal.service_ms_per_request := 15\<rparr>"

definition image_item :: "string \<Rightarrow> MediaItem" where
  "image_item img = \<lparr>modality = ''image'', media_ref = img, media_width = None, media_height = None, media_detail = ''high'', media_seconds = None\<rparr>"

definition url_content_id :: "string \<Rightarrow> block_hash" where
  "url_content_id img = content_id (image_item img)"

definition image_request :: "string \<Rightarrow> ModalRequest" where
  "image_request img = \<lparr>modal_text = ''describe this'', modal_media = [image_item img]\<rparr>"

record mm_sim =
  ms_index :: MediaAffinityIndex
  ms_load :: LoadTracker
  ms_total :: nat
  ms_hits :: nat
  ms_samples :: "pyfloat list"
  ms_rr :: nat
  ms_window :: "(int \<times> string) list"
  ms_dispatch :: "(string, nat) dict"

definition mm_sim_init :: mm_sim where
  "mm_sim_init = \<lparr>ms_index = MediaAffinityIndex_init (cache_capacity_media mm_bench_cfg), ms_load = LoadTracker_init, ms_total = 0, ms_hits = 0,
     ms_samples = [], ms_rr = 0, ms_window = [], ms_dispatch = map (\<lambda>b. (b, 0)) BACKENDS\<rparr>"

definition mm_expire :: "int \<Rightarrow> mm_sim \<Rightarrow> mm_sim" where
  "mm_expire idx st =
     (let (window, infl) = drain_due (idx - IX_WINDOW) (ms_window st) (inflight (ms_load st))
      in st\<lparr>ms_window := window, ms_load := (ms_load st)\<lparr>inflight := infl\<rparr>\<rparr>)"

definition mm_route :: "string \<Rightarrow> mm_sim \<Rightarrow> string \<Rightarrow> string result" where
  "mm_route strat st img =
     (if strat = ''round_robin'' then Inr (BACKENDS ! (ms_rr st mod length BACKENDS))
      else if strat = ''consistent_hash'' then Inr (BACKENDS ! (unat (url_content_id img) mod length BACKENDS))
      else if strat = ''media_affinity'' then
        res_bind (choose_multimodal_backend (image_request img) BACKENDS CAPABILITIES (ms_index st) (ms_load st) mm_bench_cfg) (\<lambda>result.
          case result of None \<Rightarrow> Inl AttributeError | Some r \<Rightarrow> Inr (mm_backend r))
      else Inl ValueError)"

definition mm_serve :: "string \<Rightarrow> int \<Rightarrow> string \<Rightarrow> string \<Rightarrow> mm_sim \<Rightarrow> mm_sim result" where
  "mm_serve strat idx img backend st =
     (let cid = url_content_id img;
          warm = is_cached (ms_index st) backend cid;
          txt_tokens = int (length ''describe this'') div max 1 (chars_per_token mm_bench_cfg)
      in res_bind (media_tokens (image_item img) mm_bench_cfg) (\<lambda>img_tokens.
           let uncached = txt_tokens + (if warm then 0 else img_tokens) in
           res_bind (media_record (ms_index st) backend [cid]) (\<lambda>index.
             let (window, infl) = occupy backend idx (ms_window st, inflight (ms_load st))
             in Inr \<lparr>ms_index = index, ms_load = (ms_load st)\<lparr>inflight := infl\<rparr>, ms_total = ms_total st + 1,
                     ms_hits = ms_hits st + (if warm then 1 else 0),
                     ms_samples = ms_samples st @ [Multimodal.prefill_ms_per_token mm_bench_cfg * of_int uncached],
                     ms_rr = (if strat = ''round_robin'' then ms_rr st + 1 else ms_rr st), ms_window = window,
                     ms_dispatch = AList.update backend (dget (ms_dispatch st) backend 0 + 1) (ms_dispatch st)\<rparr>)))"

definition mm_loop :: "string \<Rightarrow> string list \<Rightarrow> mm_sim result" where
  "mm_loop strat urls = bench_loop mm_expire (mm_route strat) (mm_serve strat) 0 mm_sim_init urls"

record mm_result = index_result +
  mm_load_cov :: pyfloat

definition mm_evaluate :: "(pyfloat \<Rightarrow> pyfloat) \<Rightarrow> string \<Rightarrow> string list \<Rightarrow> mm_result result" where
  "mm_evaluate sq strat urls =
     res_bind (mm_loop strat urls) (\<lambda>st. Inr
       \<lparr>ix_hit_rate = (if ms_total st \<noteq> 0 then of_nat (ms_hits st) / of_nat (ms_total st) else 0),
        ix_ms_mean = (if ms_samples st \<noteq> [] then sum_list (ms_samples st) / of_nat (length (ms_samples st)) else 0),
        mm_load_cov = load_cov sq (ms_dispatch st)\<rparr>)"

definition MM_STRATEGIES :: "string list" where
  "MM_STRATEGIES = [''round_robin'', ''consistent_hash'', ''media_affinity'']"

lemma mm_bench_cfg_facts:
  "cache_capacity_media mm_bench_cfg = 48" "Multimodal.service_ms_per_request mm_bench_cfg = 15" "Multimodal.prefill_ms_per_token mm_bench_cfg = 1 / 20"
  "Multimodal.max_inflight mm_bench_cfg = 64" "chars_per_token mm_bench_cfg = 4" "image_tile_px mm_bench_cfg = 512"
  "default_image_width mm_bench_cfg = 1024" "default_image_height mm_bench_cfg = 1024" "image_base_tokens mm_bench_cfg = 85" "image_tile_tokens mm_bench_cfg = 170"
proof -
  have "float_field MultiModalConfig_fields ''prefill_ms_per_token'' = 1 / 20" by code_simp
  moreover have "int_field MultiModalConfig_fields ''max_inflight'' = 64" "int_field MultiModalConfig_fields ''chars_per_token'' = 4"
    "int_field MultiModalConfig_fields ''image_tile_px'' = 512" "int_field MultiModalConfig_fields ''default_image_width'' = 1024"
    "int_field MultiModalConfig_fields ''default_image_height'' = 1024" "int_field MultiModalConfig_fields ''image_base_tokens'' = 85"
    "int_field MultiModalConfig_fields ''image_tile_tokens'' = 170" by code_simp+
  ultimately show "cache_capacity_media mm_bench_cfg = 48" "Multimodal.service_ms_per_request mm_bench_cfg = 15"
    "Multimodal.prefill_ms_per_token mm_bench_cfg = 1 / 20" "Multimodal.max_inflight mm_bench_cfg = 64" "chars_per_token mm_bench_cfg = 4"
    "image_tile_px mm_bench_cfg = 512" "default_image_width mm_bench_cfg = 1024" "default_image_height mm_bench_cfg = 1024"
    "image_base_tokens mm_bench_cfg = 85" "image_tile_tokens mm_bench_cfg = 170"
    by (simp_all add: mm_bench_cfg_def MultiModalConfig_of_def CACHE_CAP_MEDIA_def)
qed

text \<open>An image of the benchmark is shrunk to 768 by 768, hence four tiles: 765 tokens.\<close>

lemma bench_image_tokens: "media_tokens (image_item img) mm_bench_cfg = Inr 765"
proof -
  have "fit_768 (fit_2048 (1024, 1024)) = (768, 768)" by code_simp
  moreover have "py_ceil (3 / 2) = 2" by code_simp
  ultimately show ?thesis by (simp add: media_tokens_def image_item_def int_or_def image_tokens_def mm_bench_cfg_facts)
qed

lemma bench_capable: "capable_backends (image_request img) CAPABILITIES BACKENDS = BACKENDS"
  by (simp add: capable_backends_def required_modalities_def image_request_def image_item_def CAPABILITIES_def BACKENDS_def dget_def)

lemma bench_media_costs: "media_costs mm_bench_cfg (modal_media (image_request img)) = Inr [(url_content_id img, 765)]"
  by (simp add: image_request_def bench_image_tokens url_content_id_def)

lemma mm_choose_bench:
  "choose_multimodal_backend (image_request img) BACKENDS CAPABILITIES x l mm_bench_cfg = Inr (Some r) \<Longrightarrow>
     \<exists>cost. argmin_loop (mm_cost (image_request img) [(url_content_id img, 765)] x l mm_bench_cfg) (mm_eligible l mm_bench_cfg BACKENDS) None =
       Some (mm_backend r, cost)"
  unfolding choose_multimodal_backend_def bench_capable bench_media_costs by (auto simp: Let_def backends_ne split: option.splits)

lemma mm_route_ok:
  assumes "strat \<in> set MM_STRATEGIES"
  shows "\<exists>b \<in> set BACKENDS. mm_route strat st img = Inr b"
proof -
  let ?cost = "mm_cost (image_request img) [(url_content_id img, 765)] (ms_index st) (ms_load st) mm_bench_cfg"
  obtain b cost where a: "argmin_loop ?cost (mm_eligible (ms_load st) mm_bench_cfg BACKENDS) None = Some (b, cost)"
    using argmin_loop_ex [OF mm_eligible_ne [OF backends_ne]] by blast
  then obtain r where "choose_multimodal_backend (image_request img) BACKENDS CAPABILITIES (ms_index st) (ms_load st) mm_bench_cfg = Inr (Some r)" "mm_backend r = b"
    unfolding choose_multimodal_backend_def bench_capable bench_media_costs by (simp add: Let_def backends_ne)
  moreover have "b \<in> set BACKENDS" using argmin_loop_min(2) [OF a] mm_eligible_sub by blast
  ultimately show ?thesis using assms backends_nth by (auto simp: mm_route_def MM_STRATEGIES_def)
qed

interpretation mm_sim: window_bench mm_expire "mm_route strat" "mm_serve strat" "\<lambda>st. (ms_window st, inflight (ms_load st))"
  "\<lambda>st. media_held (ms_index st)" ms_total ms_hits ms_samples
  "\<lambda>st. strat \<in> set MM_STRATEGIES \<and> sets_ok (media_sets (ms_index st)) \<and> media_capacity (ms_index st) = 48" "\<lambda>img. [url_content_id img]" 48 "3 / 20" "153 / 4"
  for strat
proof unfold_locales
  fix st :: mm_sim and b t img
  let ?c = "[url_content_id img]"
  assume st: "strat \<in> set MM_STRATEGIES \<and> sets_ok (media_sets (ms_index st)) \<and> media_capacity (ms_index st) = 48"
  then obtain x where x: "media_record (ms_index st) b ?c = Inr x" "sets_ok (media_sets x)" "media_capacity x = 48"
    "\<forall>b'. media_held x b' = (if b' = b then lastn 48 (remdups (media_held (ms_index st) b @ ?c)) else media_held (ms_index st) b')"
    using media.record_ok [of "ms_index st" b ?c] by auto
  have "held_among (media_held (ms_index st) b) ?c = (if is_cached (ms_index st) b (url_content_id img) then 1 else 0)"
    by (simp add: is_cached_def held_among_def media_held_def)
  with x st show "\<exists>s'. mm_serve strat t img b st = Inr s' \<and>
      (strat \<in> set MM_STRATEGIES \<and> sets_ok (media_sets (ms_index s')) \<and> media_capacity (ms_index s') = 48) \<and>
      (ms_window s', inflight (ms_load s')) = occupy b t (ms_window st, inflight (ms_load st)) \<and> ms_total s' = ms_total st + length ?c \<and>
      ms_hits s' = ms_hits st + held_among (media_held (ms_index st) b) ?c \<and>
      ms_samples s' = ms_samples st @ [3 / 20 + 153 / 4 * (of_nat (length ?c) - of_nat (held_among (media_held (ms_index st) b) ?c))] \<and>
      (\<forall>b'. media_held (ms_index s') b' = (if b' = b then lastn 48 (remdups (media_held (ms_index st) b @ ?c)) else media_held (ms_index st) b'))"
    by (simp add: mm_serve_def bench_image_tokens mm_bench_cfg_facts Let_def split: prod.split)
qed (auto simp: mm_expire_def Let_def mm_route_ok split: prod.split)

lemma mm_affinity_greedy:
  assumes "mm_sim.traced strat s h" and "mm_route ''media_affinity'' (mm_expire (int (length h)) s) img = Inr b" and "b' \<in> set BACKENDS"
  shows "51 * cold_among (lru_of 48 h b) [url_content_id img] + 20 * recent h b \<le> 51 * cold_among (lru_of 48 h b') [url_content_id img] + 20 * recent h b'"
proof -
  let ?s = "mm_expire (int (length h)) s"
  have idx: "ms_index ?s = ms_index s" by (simp add: mm_expire_def Let_def split: prod.split)
  have fl: "dget (inflight (ms_load ?s)) c 0 = int (recent h c)" for c using mm_sim.in_flight [OF assms(1), of c] by simp
  have "recent h c \<le> 64" for c using recent_le [of h c] by simp
  then have "mm_eligible (ms_load ?s) mm_bench_cfg BACKENDS = BACKENDS" by (simp add: mm_eligible_def mm_bench_cfg_facts fl backends_ne)
  then obtain cost where "argmin_loop (mm_cost (image_request img) [(url_content_id img, 765)] (ms_index s) (ms_load ?s) mm_bench_cfg) BACKENDS None = Some (b, cost)"
    using assms(2) mm_choose_bench [of img "ms_index s" "ms_load ?s"] by (auto simp: mm_route_def idx split: option.splits)
  note min = argmin_loop_min(3) [OF this assms(3)]
  have held: "media_held (ms_index s) = lru_of 48 h" using assms(1) unfolding mm_sim.traced_def by blast
  have "mm_cost (image_request img) [(url_content_id img, 765)] (ms_index s) (ms_load ?s) mm_bench_cfg c =
      3 / 20 + 3 / 4 * of_nat (51 * cold_among (lru_of 48 h c) [url_content_id img] + 20 * recent h c)" for c
    by (simp add: mm_cost_def mm_bench_cfg_facts fl text_tokens_def image_request_def cold_among_def is_cached_def media_held_def add_divide_distrib flip: held)
  then show ?thesis using min by simp
qed

text \<open>
  What the multi-modal benchmark measures, for every workload and strategy: the loop runs to its end; its hits are those of
  least-recently-used caches of 48 images, one per backend, fed with the requests sent there; its times sum to 0.15 milliseconds per
  request and 38.25 per miss.  The affinity strategy weighs a cold image as 51 against 20 for each request in flight, so a backend that has
  the image cached is passed over only for one with at least three requests less among the last 23.
\<close>

theorem mm_bench_measures:
  assumes "strat \<in> set MM_STRATEGIES"
  shows "\<exists>st h. mm_loop strat urls = Inr st \<and> map snd h = map (\<lambda>u. [url_content_id u]) urls \<and> set (map fst h) \<subseteq> set BACKENDS \<and>
    ms_total st = length urls \<and> ms_hits st = trace_hits 48 h \<and> length (ms_samples st) = length urls \<and>
    sum_list (ms_samples st) = 3 / 20 * of_nat (length urls) + 153 / 4 * (of_nat (length urls) - of_nat (trace_hits 48 h)) \<and>
    (strat = ''media_affinity'' \<longrightarrow> (\<forall>n < length urls. \<forall>b \<in> set BACKENDS.
       51 * cold_among (lru_of 48 (take n h) (fst (h ! n))) [url_content_id (urls ! n)] + 20 * recent (take n h) (fst (h ! n)) \<le>
       51 * cold_among (lru_of 48 (take n h) b) [url_content_id (urls ! n)] + 20 * recent (take n h) b))"
proof -
  have "mm_sim.traced strat mm_sim_init []" using assms
    unfolding mm_sim.traced_def by (auto simp: mm_sim_init_def mm_bench_cfg_facts MediaAffinityIndex_init_def sets_ok_def LoadTracker_init_def counted_def
        window_of_def lastn_def media_held_def sets_keys_def lru_of_def trace_uses_def trace_hits_def)
  from mm_sim.loop_traced [OF this, of urls] obtain st h where h: "mm_loop strat urls = Inr st" "mm_sim.traced strat st h"
    "map snd h = map (\<lambda>u. [url_content_id u]) urls" "set (map fst h) \<subseteq> set BACKENDS"
    "\<forall>n < length urls. \<exists>s'. mm_sim.traced strat s' (take n h) \<and> mm_route strat (mm_expire (int n) s') (urls ! n) = Inr (fst (h ! n))"
    by (auto simp: mm_loop_def)
  have len: "length h = length urls" using arg_cong [OF h(3), of length] by simp
  have "trace_uses h = sum_list (map length (map snd h))" by (simp add: trace_uses_def comp_def)
  then have uses: "trace_uses h = length urls" unfolding h(3) by (simp add: comp_def sum_list_triv)
  have "51 * cold_among (lru_of 48 (take n h) (fst (h ! n))) [url_content_id (urls ! n)] + 20 * recent (take n h) (fst (h ! n)) \<le>
       51 * cold_among (lru_of 48 (take n h) b) [url_content_id (urls ! n)] + 20 * recent (take n h) b"
    if n: "strat = ''media_affinity''" "n < length urls" "b \<in> set BACKENDS" for n b
  proof -
    obtain s' where "mm_sim.traced strat s' (take n h)" "mm_route strat (mm_expire (int n) s') (urls ! n) = Inr (fst (h ! n))" using h(5) n(2) by blast
    then show ?thesis using mm_affinity_greedy [of strat s' "take n h" "urls ! n" "fst (h ! n)" b] n len by simp
  qed
  then show ?thesis using h(1-4) len uses by (intro exI [of _ st] exI [of _ h]) (simp add: mm_sim.traced_def)
qed

theorem mm_bench_measures_witness:
  "\<exists>st. mm_loop ''media_affinity'' [image_url 7, image_url 7] = Inr st \<and> ms_total st = 2"
proof -
  have "''media_affinity'' \<in> set MM_STRATEGIES" by (simp add: MM_STRATEGIES_def)
  from mm_bench_measures [OF this, of "[image_url 7, image_url 7]"] show ?thesis by (elim exE conjE) (auto simp: numeral_2_eq_2)
qed


subsection \<open>The workloads\<close>

lemma draw_chunks_ends:
  assumes range: "\<And>j. pick j < length pool" and again: "\<And>j p. p < length pool \<Longrightarrow> \<exists>j' \<ge> j. pick j' = p" and need: "need \<le> card (set pool)"
  shows "distinct chosen \<Longrightarrow> set chosen \<subseteq> set pool \<Longrightarrow> length chosen \<le> need \<Longrightarrow>
    \<exists>r. draw_chunks pick pool need j chosen = Some r \<and> distinct r \<and> set r \<subseteq> set pool \<and> length r = need"
proof (induction "need - length chosen" arbitrary: chosen j)
  case 0
  then show ?case by (subst draw_chunks.simps) simp
next
  case (Suc m)
  have less: "length chosen < need" using Suc.hyps(2) by simp
  then have "card (set chosen) < card (set pool)" using need distinct_card [OF Suc.prems(1)] by simp
  then obtain p where p: "p < length pool" "pool ! p \<notin> set chosen"
    by (metis Suc.prems(2) in_set_conv_nth less_irrefl subset_antisym subsetI)
  let ?done = "\<lambda>j. \<exists>r. draw_chunks pick pool need j chosen = Some r \<and> distinct r \<and> set r \<subseteq> set pool \<and> length r = need"
  have fresh: "?done j" if "pool ! pick j \<notin> set chosen" for j
  proof -
    have "\<exists>r. draw_chunks pick pool need (j + 1) (pool ! pick j # chosen) = Some r \<and> distinct r \<and> set r \<subseteq> set pool \<and> length r = need"
      using that less Suc.hyps(2) Suc.prems range [of j] by (intro Suc.hyps(1)) auto
    then show ?thesis using that less by (subst draw_chunks.simps) (simp add: List.insert_def)
  qed
  obtain j' where "j \<le> j'" "pick j' = p" using again [OF p(1)] by blast
  then show "?done j"
  proof (induction "j' - j" arbitrary: j)
    case 0
    then show ?case using p fresh [of j] by simp
  next
    case (Suc d)
    then show ?case using fresh [of j] less
      by (cases "pool ! pick j \<in> set chosen") (auto simp: draw_chunks.simps [of pick pool need j chosen] List.insert_def)
  qed
qed

lemma those_map: "(\<And>x. x \<in> set xs \<Longrightarrow> f x = Some (g x)) \<Longrightarrow> those (map f xs) = Some (map g xs)"
  by (induction xs) simp_all

lemma make_topics_nth: "t < n \<Longrightarrow> make_topics xs n ! t = take (max 1 (length xs div n)) (drop (t * max 1 (length xs div n)) xs)"
  by (simp add: make_topics_def Let_def)

lemma make_topics_sub: "t < n \<Longrightarrow> set (make_topics xs n ! t) \<subseteq> set xs"
  unfolding make_topics_nth by (meson order_trans set_drop_subset set_take_subset)

lemma make_topics_disjoint:
  assumes "distinct xs" "a < b" "b < n"
  shows "set (make_topics xs n ! a) \<inter> set (make_topics xs n ! b) = {}"
proof -
  define k where "k = max 1 (length xs div n)"
  have "a * k + k \<le> b * k" using mult_le_mono1 [of "Suc a" b k] assms(2) by simp
  then have "set (take (a * k + k) xs) \<subseteq> set (take (b * k) xs)" by (rule set_take_subset_set_take)
  then have "set (make_topics xs n ! a) \<subseteq> set (take (b * k) xs)"
    using assms(2,3) set_drop_subset [of "a * k" "take (a * k + k) xs"] by (simp add: make_topics_nth k_def take_drop add.commute)
  moreover have "set (make_topics xs n ! b) \<subseteq> set (drop (b * k) xs)"
    using assms(3) set_take_subset [of k "drop (b * k) xs"] by (simp add: make_topics_nth k_def)
  ultimately show ?thesis using set_take_disj_set_drop_if_distinct [OF assms(1), of "b * k" "b * k"] by blast
qed

text \<open>
  The retrieval workload: when every chunk of a topic keeps being drawn, the drawing of every request ends, whatever the draws, the
  shuffle and the sizes, and a request is an increasing list of different chunks of its topic, as many as asked for or as the topic has; different
  topics share no chunk.
\<close>

theorem rag_workload_ends:
  fixes shuf topic pick n_chunks_pool n_topics
  defines "topics \<equiv> make_topics (shuf (map of_nat [0..<n_chunks_pool])) n_topics"
  assumes "\<And>xs. mset (shuf xs) = mset xs" and "n_chunks_pool \<le> 2 ^ 64" and "\<And>i. topic i < n_topics"
    and "\<And>i j. topics ! topic i \<noteq> [] \<Longrightarrow> pick i j < length (topics ! topic i)"
    and "\<And>i j p. p < length (topics ! topic i) \<Longrightarrow> \<exists>j' \<ge> j. pick i j' = p"
  shows "\<exists>w. rag_workload shuf topic pick n_chunks_pool k n_topics n_requests = Inr (Some w) \<and> length w = n_requests \<and>
    (\<forall>i < n_requests. sorted (w ! i) \<and> distinct (w ! i) \<and> set (w ! i) \<subseteq> set (topics ! topic i) \<and>
       length (w ! i) = min k (length (topics ! topic i))) \<and>
    (\<forall>a b. a < b \<and> b < n_topics \<longrightarrow> set (topics ! a) \<inter> set (topics ! b) = {})"
proof -
  let ?xs = "shuf (map of_nat [0..<n_chunks_pool])"
  have "distinct (map (of_nat :: nat \<Rightarrow> block_hash) [0..<n_chunks_pool])"
    using assms(3) by (auto simp: distinct_map inj_on_def word_of_nat_eq_iff take_bit_nat_def)
  then have xs: "distinct ?xs" using assms(2) mset_eq_imp_distinct_iff by blast
  have "\<exists>r. draw_chunks (pick i) (topics ! topic i) (min k (length (topics ! topic i))) 0 [] = Some r \<and> distinct r \<and>
      set r \<subseteq> set (topics ! topic i) \<and> length r = min k (length (topics ! topic i))" for i
  proof (cases "topics ! topic i = []")
    case True
    then show ?thesis by (subst draw_chunks.simps) simp
  next
    case False
    have "distinct (topics ! topic i)" using assms(4) xs by (simp add: topics_def make_topics_nth)
    then have "min k (length (topics ! topic i)) \<le> card (set (topics ! topic i))" by (simp add: distinct_card)
    then show ?thesis using assms(5) [OF False] assms(6) by (intro draw_chunks_ends) auto
  qed
  then obtain r where r: "\<And>i. draw_chunks (pick i) (topics ! topic i) (min k (length (topics ! topic i))) 0 [] = Some (r i)"
    "\<And>i. distinct (r i)" "\<And>i. set (r i) \<subseteq> set (topics ! topic i)" "\<And>i. length (r i) = min k (length (topics ! topic i))" by metis
  have "n_topics \<noteq> 0" using assms(4) [of 0] by simp
  then have "rag_workload shuf topic pick n_chunks_pool k n_topics n_requests = Inr (Some (map (\<lambda>i. sort (r i)) [0..<n_requests]))"
    by (simp add: rag_workload_def Let_def r(1) flip: topics_def) (rule those_map, simp)
  moreover have "set (topics ! a) \<inter> set (topics ! b) = {}" if "a < b" "b < n_topics" for a b
    using make_topics_disjoint [OF xs that] by (simp add: topics_def)
  ultimately show ?thesis using r(2-4) by auto
qed

text \<open>More topics than images leave empty topics, and drawing from one fails.\<close>

lemma empty_topic_fails: "n_images < n_topics \<Longrightarrow> image_workload (\<lambda>xs. xs) (\<lambda>_. n_topics - 1) pick n_images n_topics (Suc n) = Inl IndexError"
proof -
  assume less: "n_images < n_topics"
  then have "make_topics (map image_url [0..<n_images]) n_topics ! (n_topics - 1) = []" by (subst make_topics_nth) auto
  moreover have "[0..<Suc n] = 0 # [Suc 0..<Suc n]" by (simp add: upt_conv_Cons)
  ultimately show ?thesis using less unfolding image_workload_def by (simp del: upt_Suc)
qed

theorem rag_workload_ends_witness:
  "\<exists>w. rag_workload rev (\<lambda>i. i mod 2) (\<lambda>i j. j mod 2) 4 2 2 3 = Inr (Some w) \<and> length w = 3 \<and> (\<forall>i < 3. sorted (w ! i) \<and> length (w ! i) = 2)"
proof -
  let ?t = "make_topics (rev (map of_nat [0..<4 :: nat])) 2 :: block_hash list list"
  have t: "?t = [[3, 2], [1, 0]]" by code_simp
  then have len: "length (?t ! (i mod 2)) = 2" for i :: nat by (cases "i mod 2 = 0") auto
  have again: "\<exists>j' \<ge> j. j' mod 2 = p" if "p < 2" for j p :: nat
    using that by (intro exI [of _ "2 * j + p"]) auto
  have "?t ! (i mod 2) \<noteq> [] \<Longrightarrow> j mod 2 < length (?t ! (i mod 2))" for i j :: nat by (simp add: len)
  from rag_workload_ends [of rev 4 "\<lambda>i. i mod 2" 2 "\<lambda>i j. j mod 2" 2 3, OF _ _ _ this] again
  show ?thesis by (auto simp: len)
qed

end
