(* ===== verification/Bench_Dag.thy ===== *)
theory Bench_Dag
  imports Bench_Index
begin

section \<open>The workflow benchmark\<close>

text \<open>
  \<^verbatim>\<open>bench/dag_bench.py\<close>: independent chains of calls, the calls of a chain with the same long prompt, planned by the scheduler
  of workflows.  Sweeps, tables and charts are left out.
\<close>

definition dag_bench_cfg :: DagSchedConfig where
  "dag_bench_cfg = DagSchedConfig_of DagSchedConfig_fields"

definition BLOCK_CHARS :: int where
  "BLOCK_CHARS = Dag_Sched.block_chars dag_bench_cfg"

definition ctx_text :: "string \<Rightarrow> int \<Rightarrow> string" where
  "ctx_text letter blocks = concat (replicate (nat (BLOCK_CHARS * blocks)) letter)"

definition chain_letter :: "nat \<Rightarrow> string" where
  "chain_letter c = [char_of (of_char (CHR ''A'') + c mod 26)] @ (if c div 26 \<noteq> 0 then show_int (int (c div 26)) else [])"

definition node_name :: "nat \<Rightarrow> nat \<Rightarrow> string" where
  "node_name c d = ''c'' @ show_int (int c) @ ''.n'' @ show_int (int d)"

text \<open>The loop over the depths of a chain, with the node before.\<close>

fun chain_loop :: "nat \<Rightarrow> string \<Rightarrow> string option \<Rightarrow> nat list \<Rightarrow> DagNode list" where
  "chain_loop c txt prev [] = []"
| "chain_loop c txt prev (d # ds) =
     \<lparr>dn_id = node_name c d, dn_prompt = txt, dn_parents = (case prev of None \<Rightarrow> [] | Some p \<Rightarrow> [p])\<rparr> #
       chain_loop c txt (Some (node_name c d)) ds"

definition chain_nodes :: "int \<Rightarrow> int \<Rightarrow> int \<Rightarrow> DagNode list" where
  "chain_nodes n_chains chain_depth context_blocks =
     concat (map (\<lambda>c. chain_loop c (ctx_text (chain_letter c) context_blocks) None [0..<nat chain_depth]) [0..<nat n_chains])"

definition build_dag :: "int \<Rightarrow> int \<Rightarrow> int \<Rightarrow> RequestDag result" where
  "build_dag n_chains chain_depth context_blocks = RequestDag_init (chain_nodes n_chains chain_depth context_blocks)"

record dag_row =
  dr_hit_rate :: pyfloat
  dr_makespan_ms :: pyfloat
  dr_total_blocks :: nat
  dr_hit_blocks :: nat

definition dag_evaluate :: "string \<Rightarrow> int \<Rightarrow> int \<Rightarrow> int \<Rightarrow> dag_row result" where
  "dag_evaluate strat n_chains chain_depth context_blocks =
     res_bind (build_dag n_chains chain_depth context_blocks) (\<lambda>dag.
       res_bind (dag_schedule dag BACKENDS dag_bench_cfg None strat) (\<lambda>sched.
         case sched of
           None \<Rightarrow> Inl AttributeError
         | Some s \<Rightarrow> Inr \<lparr>dr_hit_rate = cache_hit_rate s, dr_makespan_ms = est_makespan_ms s, dr_total_blocks = total_blocks s,
                          dr_hit_blocks = cache_hit_blocks s\<rparr>))"


subsection \<open>The graph\<close>

lemma show_int_inj: "show_int (int a) = show_int (int b) \<longleftrightarrow> a = b"
  by (simp add: show_int_def) (metis digits_val_show_nat)

lemma show_int_no_dot: "CHR ''.'' \<notin> set (show_int (int a))"
  using show_nat_digits [of a] by (auto simp: show_int_def py_isdigit_def)

lemma before_dot: "takeWhile (\<lambda>x. x \<noteq> CHR ''.'') (show_int (int a)) = show_int (int a)"
  using show_int_no_dot [of a] unfolding takeWhile_eq_all_conv by metis

lemma node_name_inj: "node_name c d = node_name c' d' \<longleftrightarrow> c = c' \<and> d = d'"
proof
  assume "node_name c d = node_name c' d'"
  then have e: "show_int (int c) @ CHR ''.'' # CHR ''n'' # show_int (int d) = show_int (int c') @ CHR ''.'' # CHR ''n'' # show_int (int d')"
    by (simp add: node_name_def)
  then have "takeWhile (\<lambda>x. x \<noteq> CHR ''.'') (show_int (int c) @ CHR ''.'' # CHR ''n'' # show_int (int d)) =
      takeWhile (\<lambda>x. x \<noteq> CHR ''.'') (show_int (int c') @ CHR ''.'' # CHR ''n'' # show_int (int d'))" by simp
  then have "show_int (int c) = show_int (int c')" by (simp add: takeWhile_tail before_dot)
  with e show "c = c' \<and> d = d'" by (simp add: show_int_inj)
qed simp

definition chain_node :: "nat \<Rightarrow> string \<Rightarrow> nat \<Rightarrow> DagNode" where
  "chain_node c txt d = \<lparr>dn_id = node_name c d, dn_prompt = txt, dn_parents = (if d = 0 then [] else [node_name c (d - 1)])\<rparr>"

lemma chain_loop_upt: "a \<le> b \<Longrightarrow> chain_loop c txt (if a = 0 then None else Some (node_name c (a - 1))) [a..<b] = map (chain_node c txt) [a..<b]"
proof (induction "b - a" arbitrary: a)
  case (Suc k)
  then have "[a..<b] = a # [Suc a..<b]" by (simp add: upt_conv_Cons)
  then show ?case using Suc(1) [of "Suc a"] Suc(2) Suc.prems by (simp add: chain_node_def)
qed simp

lemma dag_add_all_distinct:
  "distinct (dkeys g @ map dn_id ns) \<Longrightarrow> dag_add_all ns g = Inr (g @ map (\<lambda>n. (dn_id n, n)) ns)"
proof (induction ns arbitrary: g)
  case (Cons n ns)
  then have new: "dn_id n \<notin> set (dkeys g)" by auto
  then have "AList.update (dn_id n) n g = g @ [(dn_id n, n)]" by (induction g) (auto simp: dkeys_def)
  then show ?case using Cons new by (auto simp: dag_add_def dkeys_def)
qed simp

text \<open>The nodes of the graph by chain and depth.\<close>

definition chain_slots :: "int \<Rightarrow> int \<Rightarrow> (nat \<times> nat) list" where
  "chain_slots n_chains chain_depth = List.product [0..<nat n_chains] [0..<nat chain_depth]"

lemma chain_nodes_slots:
  "chain_nodes n m k = map (\<lambda>(c, d). chain_node c (ctx_text (chain_letter c) k) d) (chain_slots n m)"
  using chain_loop_upt [of 0 "nat m"]
  by (simp add: chain_nodes_def chain_slots_def product_concat_map map_concat comp_def)

lemma distinct_names: "distinct (map (\<lambda>(c, d). node_name c d) (chain_slots n m))"
  by (auto simp: distinct_map chain_slots_def distinct_product inj_on_def node_name_inj)

lemma chain_ids: "map dn_id (chain_nodes n m k) = map (\<lambda>(c, d). node_name c d) (chain_slots n m)"
  by (auto simp: chain_nodes_slots chain_node_def)

definition chain_graph :: "int \<Rightarrow> int \<Rightarrow> int \<Rightarrow> RequestDag" where
  "chain_graph n m k = map (\<lambda>v. (dn_id v, v)) (chain_nodes n m k)"

lemma build_dag_graph: "build_dag n m k = Inr (chain_graph n m k)"
  using dag_add_all_distinct [of "[]" "chain_nodes n m k"] distinct_names
  by (simp add: build_dag_def RequestDag_init_def chain_graph_def chain_ids dkeys_def)

lemma chain_keys: "set (dkeys (chain_graph n m k)) = (\<lambda>(c, d). node_name c d) ` ({..<nat n} \<times> {..<nat m})"
proof -
  have "dkeys (chain_graph n m k) = map (\<lambda>(c, d). node_name c d) (chain_slots n m)"
    using chain_ids [of n m k] by (simp add: chain_graph_def dkeys_def comp_def)
  then show ?thesis by (simp add: chain_slots_def atLeast0LessThan)
qed

lemma chain_parents:
  assumes "c < nat n" "d < nat m"
  shows "parents_of (chain_graph n m k) (node_name c d) = (if d = 0 then [] else [node_name c (d - 1)])"
proof -
  have "dag_ok (chain_graph n m k)" using build_dag_graph [of n m k] unfolding build_dag_def by (rule dag_ok_init)
  moreover have "(node_name c d, chain_node c (ctx_text (chain_letter c) k) d) \<in> set (chain_graph n m k)"
    using assms by (force simp: chain_graph_def chain_nodes_slots chain_slots_def chain_node_def)
  ultimately show ?thesis using parents_of_mem by (force simp: chain_node_def)
qed

lemma chain_closed: "closed (chain_graph n m k)"
  unfolding closed_def chain_keys using chain_parents by (auto split: if_splits) 

lemma chain_edge: "(p, v) \<in> dag_edges (chain_graph n m k) \<Longrightarrow> \<exists>c d. v = node_name c (Suc d) \<and> p = node_name c d"
proof -
  assume e: "(p, v) \<in> dag_edges (chain_graph n m k)"
  then obtain c d where v: "c < nat n" "d < nat m" "v = node_name c d" by (auto simp: dag_edges_def chain_keys)
  then show ?thesis using e chain_parents [OF v(1,2), of k] by (cases d) (auto simp: dag_edges_def)
qed

lemma chain_acyclic: "acyclic (dag_edges (chain_graph n m k))"
proof -
  define depth where "depth v = (THE d. \<exists>c. v = node_name c d)" for v
  have "depth (node_name c d) = d" for c d unfolding depth_def by (rule the_equality) (auto simp: node_name_inj)
  then have "dag_edges (chain_graph n m k) \<subseteq> measure depth" by (auto dest!: chain_edge)
  then show ?thesis by (meson acyclic_subset wf_acyclic wf_measure)
qed

lemma dag_bench_chars: "Dag_Sched.block_chars dag_bench_cfg = 64"
  using demo_block_chars by (simp add: dag_bench_cfg_def)

text \<open>
  The workflow benchmark always produces its figures: for every number of chains, depth and context, and either strategy, the graph of chains
  is valid, the plan places every call of every chain once, on one of the backends, and the row has no more hits than blocks.
\<close>

theorem dag_bench_runs:
  "\<exists>g s row. build_dag n m k = Inr g \<and> dag_schedule g BACKENDS dag_bench_cfg None strat = Inr (Some s) \<and>
    dag_evaluate strat n m k = Inr row \<and> length (placements s) = nat n * nat m \<and> distinct (map np_node (placements s)) \<and>
    dr_hit_blocks row \<le> dr_total_blocks row \<and>
    (\<forall>p \<in> set (placements s). \<exists>c d. c < nat n \<and> d < nat m \<and> np_node p = node_name c d \<and> np_backend p \<in> set BACKENDS)"
proof -
  let ?g = "chain_graph n m k"
  have ok: "dag_ok ?g" using build_dag_graph [of n m k] unfolding build_dag_def by (rule dag_ok_init)
  obtain layers where L: "kahn ?g = Inr layers" "distinct (concat layers)" "set (concat layers) = set (dkeys ?g)"
    using kahn_result [OF ok chain_closed] chain_acyclic by metis
  have val: "dag_validate ?g = Inr ()" using L(1) chain_closed check_nodes_closed [OF ok] by (simp add: dag_validate_def)
  obtain ho where ho: "hash_nodes dag_bench_cfg ?g = Inr ho" "dkeys ho = dkeys ?g" using hash_nodes_ok [of dag_bench_cfg ?g] dag_bench_chars by auto
  have "sched_ok None dag_bench_cfg BACKENDS (sched_start dag_bench_cfg)" by (simp add: sched_ok_def sched_start_def tree_ok_init)
  from sched_layers_ok [OF backends_ne this, of layers ?g ho strat 0] L(3) ho(2)
  obtain s where s: "sched_layers None dag_bench_cfg strat BACKENDS ?g ho 0 layers (sched_start dag_bench_cfg) = Inr s"
    "sched_ok None dag_bench_cfg BACKENDS s" "slots s = numbered 0 layers" by (auto simp: slots_def sched_start_def)
  let ?S = "\<lparr>placements = ss_placements s, est_makespan_ms = ss_makespan s, cache_hit_blocks = ss_hit s, total_blocks = ss_total s, sched_strategy = strat\<rparr>"
  have res: "dag_schedule ?g BACKENDS dag_bench_cfg None strat = Inr (Some ?S)"
    using val ho(1) L(1) s(1) backends_ne by (simp add: dag_schedule_def dag_layers_def)
  have nodes: "map np_node (ss_placements s) = concat layers"
    using arg_cong [OF s(3), of "map fst"] by (simp add: slots_def fst_numbered comp_def)
  have "length (concat layers) = card (set (dkeys ?g))" using distinct_card [OF L(2)] L(3) by simp
  also have "\<dots> = nat n * nat m" unfolding chain_keys by (subst card_image) (auto simp: inj_on_def node_name_inj)
  finally have len: "length (ss_placements s) = nat n * nat m" using arg_cong [OF nodes, of length] by simp
  have pl: "\<forall>p \<in> set (ss_placements s). placed_ok None dag_bench_cfg BACKENDS p" and tot: "ss_hit s = sum_list (map np_match (ss_placements s))"
    "ss_total s = sum_list (map np_total (ss_placements s))" using s(2) by (simp_all add: sched_ok_def)
  have hit: "ss_hit s \<le> ss_total s" unfolding tot using pl by (intro sum_list_mono) (auto simp: placed_ok_def)
  have "np_backend p \<in> set BACKENDS" if "p \<in> set (ss_placements s)" for p using that pl dag_eligible_sub by (fastforce simp: placed_ok_def)
  moreover have "\<exists>c d. c < nat n \<and> d < nat m \<and> np_node p = node_name c d" if "p \<in> set (ss_placements s)" for p
  proof -
    have "np_node p \<in> set (map np_node (ss_placements s))" using that by simp
    then have "np_node p \<in> set (dkeys ?g)" unfolding nodes L(3) .
    then show ?thesis by (auto simp: chain_keys)
  qed
  ultimately show ?thesis using res len nodes L(2) hit
    by (intro exI [of _ ?g] exI [of _ ?S]) (auto simp: build_dag_graph dag_evaluate_def)
qed

text \<open>From the 27th chain on, the letter of a chain has two characters and its context twice the blocks.\<close>

lemma long_letter: "length (ctx_text (chain_letter c) k) = nat (64 * k) * length (chain_letter c)" "length (chain_letter 26) = 2"
proof -
  show "length (ctx_text (chain_letter c) k) = nat (64 * k) * length (chain_letter c)"
    by (simp add: ctx_text_def BLOCK_CHARS_def dag_bench_chars length_concat sum_list_replicate)
  show "length (chain_letter 26) = 2" by code_simp
qed

end
