(* ===== verification/Training.thy ===== *)
theory Training
  imports Chat_Props
begin

section \<open>The observation log and the training set\<close>

text \<open>
  \<open>ObservationLogger.log\<close> of \<^verbatim>\<open>gateway/extensions/ttft_predictor.py\<close> appends one line of JSON per answered request, and
  \<open>load_observations\<close> of \<^verbatim>\<open>scripts/train_ttft_model.py\<close> reads the file into feature rows and labels.  The digits of a float
  are a parameter \<open>fl\<close>.  A float that is infinite or not a number is outside the model (\<open>NotModelled\<close>).  Fitting and
  storing the model are calls of scikit-learn, XGBoost and joblib.
\<close>


subsection \<open>Writing\<close>

definition mode_name :: "hash_mode \<Rightarrow> string" where
  "mode_name m = (case m of CharMode \<Rightarrow> ''char'' | BpeMode \<Rightarrow> ''bpe'')"

text \<open>\<open>json.dumps(dataclasses.asdict(obs), separators=(",", ":"))\<close>: the members of the object, each with its text.\<close>

definition obs_members :: "(pyfloat \<Rightarrow> string) \<Rightarrow> Observation \<Rightarrow> (string \<times> json \<times> string) list" where
  "obs_members fl ob =
     (let num = (\<lambda>i. (JInt i, show_int i)); flt = (\<lambda>x. (JFloat x, fl x)); str = (\<lambda>s. (JStr s, json_string s)) in
      [(''ts'', flt (ob_ts ob)), (''backend_id'', str (ob_backend ob)), (''prompt_tokens'', num (ob_prompt_tokens ob)),
       (''match_blocks'', num (int (ob_match ob))), (''uncached_tokens'', num (ob_uncached ob)), (''inflight'', num (ob_inflight ob)),
       (''kv_usage'', flt (ob_kv ob)), (''observed_ttft_ms'', flt (ob_ttft_ms ob)), (''hash_mode'', str (mode_name (ob_mode ob)))])"

definition object_text :: "(string \<times> json \<times> string) list \<Rightarrow> string" where
  "object_text ms = ''{'' @ py_join (CHR '','') (map (\<lambda>(k, v, t). json_string k @ '':'' @ t) ms) @ ''}''"

definition log_line :: "(pyfloat \<Rightarrow> string) \<Rightarrow> Observation \<Rightarrow> string" where
  "log_line fl ob = object_text (obs_members fl ob) @ [CHR 0x0A]"

definition log_text :: "(pyfloat \<Rightarrow> string) \<Rightarrow> Observation list \<Rightarrow> string" where
  "log_text fl obs = concat (map (log_line fl) obs)"


subsection \<open>Reading\<close>

text \<open>The lines of a text file: carriage returns are translated to newlines.\<close>

fun newlines_after :: "bool \<Rightarrow> string \<Rightarrow> string" where
  "newlines_after cr [] = []"
| "newlines_after cr (c # s) =
     (if c = CHR 0x0D then CHR 0x0A # newlines_after True s
      else if c = CHR 0x0A \<and> cr then newlines_after False s
      else c # newlines_after False s)"

definition file_lines :: "string \<Rightarrow> string list" where
  "file_lines text = py_split (CHR 0x0A) (newlines_after False text)"

text \<open>\<open>o[k]\<close> of a parsed value, and \<open>float(v)\<close>.\<close>

definition json_item :: "json \<Rightarrow> string \<Rightarrow> json result" where
  "json_item j k = (case j of JObj d \<Rightarrow> (case map_of d k of None \<Rightarrow> Inl KeyError | Some v \<Rightarrow> Inr v) | _ \<Rightarrow> Inl TypeError)"

definition float_of :: "json \<Rightarrow> pyfloat result" where
  "float_of v =
     (case v of
        JInt i \<Rightarrow> Inr (of_int i)
      | JFloat x \<Rightarrow> Inr x
      | JBool b \<Rightarrow> Inr (if b then 1 else 0)
      | JStr s \<Rightarrow> res_bind (py_float s) (\<lambda>x. case x of FloatFin y \<Rightarrow> Inr y | _ \<Rightarrow> Inl NotModelled)
      | _ \<Rightarrow> Inl TypeError)"

text \<open>\<open>_backend_idx\<close> encodes its argument, which only a string can.\<close>

definition idx_of :: "json \<Rightarrow> nat result" where
  "idx_of v = (case v of JStr s \<Rightarrow> Inr (backend_idx s) | _ \<Rightarrow> Inl AttributeError)"

definition obs_row :: "json \<Rightarrow> pyfloat list result" where
  "obs_row j =
     (let num = (\<lambda>k. res_bind (json_item j k) float_of) in
      res_bind (num ''prompt_tokens'') (\<lambda>a. res_bind (num ''match_blocks'') (\<lambda>b. res_bind (num ''uncached_tokens'') (\<lambda>c.
      res_bind (num ''inflight'') (\<lambda>d. res_bind (num ''kv_usage'') (\<lambda>e.
      res_bind (res_bind (json_item j ''backend_id'') idx_of) (\<lambda>f. Inr [a, b, c, d, e, of_nat f])))))))"

definition row_error :: "py_error \<Rightarrow> bool" where
  "row_error err \<longleftrightarrow> err \<in> {KeyError, ValueError, TypeError}"

type_synonym training_set = "pyfloat list list \<times> pyfloat list"

definition load_line :: "training_set \<Rightarrow> string \<Rightarrow> training_set result" where
  "load_line acc l =
     (let line = py_strip l in
      if line = [] then Inr acc
      else case json_loads line of
        Inl err \<Rightarrow> if err = ValueError then Inr acc else Inl err
      | Inr j \<Rightarrow>
          (case obs_row j of
             Inl err \<Rightarrow> if row_error err then Inr acc else Inl err
           | Inr row \<Rightarrow>
               (case res_bind (json_item j ''observed_ttft_ms'') float_of of
                  Inl err \<Rightarrow> if row_error err then Inr (fst acc @ [row], snd acc) else Inl err
                | Inr v \<Rightarrow> Inr (fst acc @ [row], snd acc @ [v]))))"

fun load_lines :: "training_set \<Rightarrow> string list \<Rightarrow> training_set result" where
  "load_lines acc [] = Inr acc"
| "load_lines acc (l # ls) = res_bind (load_line acc l) (\<lambda>acc'. load_lines acc' ls)"

definition load_observations :: "string \<Rightarrow> training_set result" where
  "load_observations text = load_lines ([], []) (file_lines text)"

text \<open>\<open>main\<close> up to the training: the rows, or the refusal to train on too few.\<close>

definition training_input :: "int \<Rightarrow> string \<Rightarrow> training_set option result" where
  "training_input min_rows text =
     res_bind (load_observations text) (\<lambda>(X, y). Inr (if int (length y) < min_rows then None else Some (X, y)))"


subsection \<open>Reading what was written\<close>

definition reads :: "json \<Rightarrow> string \<Rightarrow> bool" where
  "reads v t \<longleftrightarrow> (\<exists>c cs. t = c # cs \<and> good_start c) \<and> (\<forall>n r. num_end r \<longrightarrow> 2 * length t < n \<longrightarrow> p_value n (t @ r) = Inr (v, r))"

lemma readsD: "reads v t \<Longrightarrow> num_end r \<Longrightarrow> 2 * length t < n \<Longrightarrow> p_value n (t @ r) = Inr (v, r)"
  by (simp add: reads_def)

lemma reads_ws: "reads v t \<Longrightarrow> skip_ws (t @ r) = t @ r"
  by (auto simp: reads_def skip_ws_good)

lemma reads_printed: "printable v \<Longrightarrow> dumps_text v = t \<Longrightarrow> reads v t"
  using parses_printable [of v] dumps_start [of v] by (auto simp: reads_def parses_def)

lemmas reads_leaf = reads_printed [of "JInt i" for i, simplified] reads_printed [of "JStr s" for s, simplified]

abbreviation member_of :: "string \<times> json \<times> string \<Rightarrow> string" where
  "member_of \<equiv> \<lambda>(k, v, t). json_string k @ '':'' @ t"

lemma p_members_texts:
  "ms \<noteq> [] \<Longrightarrow> \<forall>(k, v, t) \<in> set ms. reads v t \<Longrightarrow> 2 * length (py_join (CHR '','') (map member_of ms)) + 1 < n \<Longrightarrow>
     p_members n (py_join (CHR '','') (map member_of ms) @ CHR ''}'' # r) = Inr (map (\<lambda>(k, v, t). (k, v)) ms, r)"
proof (induction ms arbitrary: n)
  case (Cons m ms)
  obtain k v t where m: "m = (k, v, t)" by (cases m)
  obtain i where n: "n = Suc i" using Cons.prems(3) by (cases n) auto
  have rd: "reads v t" using Cons.prems(2) m by auto
  have pv: "p_value i (t @ u) = Inr (v, u)" if "num_end u" for u
    using Cons.prems(3) n m that by (intro readsD [OF rd]) (cases ms; auto)+
  show ?case
  proof (cases ms)
    case Nil
    then show ?thesis using m n pv reads_ws [OF rd] by (simp add: json_string_def p_chars_string)
  next
    case (Cons w ws)
    define J where "J = py_join (CHR '','') (map member_of ms)"
    have J: "py_join (CHR '','') (map member_of (m # ms)) = member_of m @ CHR '','' # J" using Cons by (simp add: J_def)
    have "\<exists>t. J = CHR 0x22 # t" using Cons by (cases ws; cases w) (auto simp: json_string_def J_def)
    then have ws: "skip_ws (J @ CHR ''}'' # r) = J @ CHR ''}'' # r" by auto
    have "p_members i (J @ CHR ''}'' # r) = Inr (map (\<lambda>(k, v, t). (k, v)) ms, r)"
      unfolding J_def using Cons.prems n J Cons by (intro Cons.IH) (auto simp: J_def)
    then show ?thesis unfolding n J using m pv reads_ws [OF rd] ws by (simp add: json_string_def p_chars_string)
  qed
qed simp

lemma loads_object:
  assumes "ms \<noteq> []" "\<forall>(k, v, t) \<in> set ms. reads v t" "distinct (map fst ms)"
  shows "json_loads (object_text ms) = Inr (JObj (map (\<lambda>(k, v, t). (k, v)) ms))"
proof -
  let ?J = "py_join (CHR '','') (map member_of ms)"
  let ?kvs = "map (\<lambda>(k, v, t). (k, v)) ms"
  define N where "N = 2 * length (object_text ms)"
  have el: "p_members N (?J @ CHR ''}'' # []) = Inr (?kvs, [])"
    using assms by (intro p_members_texts) (auto simp: object_text_def N_def)
  have "map fst ?kvs = map fst ms" by (auto simp: comp_def split_def)
  then have "distinct (map fst ([] @ ?kvs))" using assms(3) by (simp only: append_Nil)
  from foldl_update_distinct [OF this] have upd: "foldl (\<lambda>d (k, v). AList.update k v d) [] ?kvs = ?kvs" by simp
  obtain t where "?J = CHR 0x22 # t" using assms(1) by (cases ms; cases "tl ms") (auto simp: json_string_def)
  then have "p_value (N + 1) (object_text ms) = Inr (JObj ?kvs, [])" using el upd by (simp add: object_text_def)
  moreover have "skip_ws (object_text ms) = object_text ms" by (simp add: object_text_def skip_ws_def json_ws_def)
  ultimately show ?thesis by (simp add: json_loads_def flip: N_def)
qed

text \<open>A line break in a string is escaped, so an observation is one line.\<close>

definition one_line :: "string \<Rightarrow> bool" where
  "one_line t \<longleftrightarrow> CHR 0x0A \<notin> set t \<and> CHR 0x0D \<notin> set t"

lemma one_line_append [simp]: "one_line (s @ t) \<longleftrightarrow> one_line s \<and> one_line t" "one_line []"
  "one_line (c # t) \<longleftrightarrow> c \<noteq> CHR 0x0A \<and> c \<noteq> CHR 0x0D \<and> one_line t"
  by (auto simp: one_line_def)

lemma one_line_join: "\<forall>t \<in> set fs. one_line t \<Longrightarrow> one_line (py_join (CHR '','') fs)"
  by (induction "CHR '',''" fs rule: py_join.induct) auto

lemma one_line_digits: "one_line (show_int i)"
  using show_nat_digits by (fastforce simp: show_int_def one_line_def list_all_iff py_isdigit_def)

lemma esc_char_line: "one_line (esc_char c)"
proof -
  have "\<forall>n \<in> set [0..<16]. one_line [hex_digit n]" by code_simp
  then have "one_line [hex_digit n]" if "n < 16" for n using that by simp
  moreover have "(of_char c :: nat) div 16 < 16" "(of_char c :: nat) mod 16 < 16" using of_char_less [of c] by (simp_all add: less_mult_imp_div_less)
  ultimately show ?thesis by (auto simp: esc_char_def Let_def)
qed

lemma one_line_string: "one_line (json_string s)"
  by (induction s) (simp_all add: json_string_def esc_char_line)

text \<open>What is asked of the digits of a float: they are on one line and read back as the float.\<close>

definition float_ok :: "(pyfloat \<Rightarrow> string) \<Rightarrow> pyfloat \<Rightarrow> bool" where
  "float_ok fl x \<longleftrightarrow> reads (JFloat x) (fl x) \<and> one_line (fl x)"

definition obs_ok :: "(pyfloat \<Rightarrow> string) \<Rightarrow> Observation \<Rightarrow> bool" where
  "obs_ok fl ob \<longleftrightarrow> float_ok fl (ob_ts ob) \<and> float_ok fl (ob_kv ob) \<and> float_ok fl (ob_ttft_ms ob)"

definition obs_features :: "Observation \<Rightarrow> pyfloat list" where
  "obs_features ob = [of_int (ob_prompt_tokens ob), of_nat (ob_match ob), of_int (ob_uncached ob), of_int (ob_inflight ob), ob_kv ob,
     of_nat (backend_idx (ob_backend ob))]"

lemma obs_members_ok:
  assumes "obs_ok fl ob"
  shows "\<forall>(k, v, t) \<in> set (obs_members fl ob). reads v t \<and> one_line t" "distinct (map fst (obs_members fl ob))"
    "\<forall>m \<in> set (obs_members fl ob). one_line (member_of m)"
  using assms by (simp_all add: obs_members_def Let_def obs_ok_def float_ok_def reads_leaf one_line_string one_line_digits)

lemma log_line_line: "obs_ok fl ob \<Longrightarrow> one_line (object_text (obs_members fl ob))"
  using obs_members_ok(3) [of fl ob] by (auto simp: object_text_def intro!: one_line_join)

lemma object_strip: "py_strip (object_text ms) = object_text ms"
  by (simp add: py_strip_def object_text_def py_isspace_def)

lemma load_observation:
  assumes "obs_ok fl ob"
  shows "load_line acc (object_text (obs_members fl ob)) = Inr (fst acc @ [obs_features ob], snd acc @ [ob_ttft_ms ob])"
proof -
  have "json_loads (object_text (obs_members fl ob)) = Inr (JObj (map (\<lambda>(k, v, t). (k, v)) (obs_members fl ob)))"
    using obs_members_ok [OF assms] by (intro loads_object) (auto simp: obs_members_def Let_def)
  moreover have "object_text (obs_members fl ob) \<noteq> []" by (simp add: object_text_def)
  ultimately show ?thesis unfolding load_line_def Let_def object_strip
    by (simp add: obs_members_def Let_def obs_row_def json_item_def float_of_def idx_of_def obs_features_def)
qed

lemma file_lines_log:
  assumes "\<forall>ob \<in> set obs. obs_ok fl ob"
  shows "file_lines (log_text fl obs) = map (\<lambda>ob. object_text (obs_members fl ob)) obs @ [[]]"
proof -
  have nl: "newlines_after False s = s" if "CHR 0x0D \<notin> set s" for s
    using that by (induction s) auto
  have "\<forall>ob \<in> set obs. CHR 0x0D \<notin> set (object_text (obs_members fl ob))" using assms log_line_line one_line_def by blast
  then have "CHR 0x0D \<notin> set (log_text fl obs)" by (auto simp: log_text_def log_line_def)
  moreover have "py_split (CHR 0x0A) (log_text fl obs) = map (\<lambda>ob. object_text (obs_members fl ob)) obs @ [[]]"
    using assms
  proof (induction obs)
    case (Cons ob obs)
    then have "CHR 0x0A \<notin> set (object_text (obs_members fl ob))" using log_line_line [of fl ob] by (simp add: one_line_def)
    from py_split_append [OF this] Cons show ?case by (simp add: log_text_def log_line_def)
  qed (simp add: log_text_def)
  ultimately show ?thesis by (simp add: file_lines_def nl)
qed

lemma load_log:
  assumes "\<forall>ob \<in> set obs. obs_ok fl ob"
  shows "load_observations (log_text fl obs) = Inr (map obs_features obs, map ob_ttft_ms obs)"
proof -
  have "load_lines acc (map (\<lambda>ob. object_text (obs_members fl ob)) obs @ [[]]) = Inr (fst acc @ map obs_features obs, snd acc @ map ob_ttft_ms obs)"
    for acc using assms
  proof (induction obs arbitrary: acc)
    case Nil
    then show ?case by (simp add: load_line_def py_strip_def)
  next
    case (Cons ob obs)
    then show ?case using load_observation [of fl ob acc] by simp
  qed
  then show ?thesis by (simp add: load_observations_def file_lines_log [OF assms])
qed

text \<open>
  The vector \<open>Router._est_ttft\<close> asks the latency model with for the chosen backend, in the state in which the decision is made.
\<close>

definition asked :: "settings \<Rightarrow> 'n gateway \<Rightarrow> RouteResult \<Rightarrow> pyfloat list" where
  "asked S g r = features_for (res_tokens r) (int (res_match r)) (Config.block_tokens (s_cfg S))
     (eff_inflight (router_of S g) (res_backend r)) (dget (kv_usage (g_load g)) (res_backend r) 0) (res_backend r)"

lemma features_inflight:
  "(features_for n k bt i kv b)[3 := of_int j] = features_for n k bt i kv b \<longleftrightarrow> j = i"
  by (simp only: features_for_def Let_def) simp

lemma asked_is_scored:
  assumes "g_predictor g = Some p" "p_model p = Some mdl"
  shows "\<exists>s. est_ttft (router_of S g) (res_tokens r) (res_match r) (res_backend r) =
    blended_ttft s (run_model mdl (asked S g r)) (ttft_predictor_weight (s_cfg S))"
  using assms by (auto simp: est_ttft_def asked_def router_of_def Let_def)

text \<open>
  C20. What the latency model is trained on: when the gateway has logged an answered request that was connected right after its
  routing decision, the training script reads from the file, for every request logged so far, its features and its latency, in
  order.  The last row is the vector the model was asked with in the routing decision, except for the in-flight count: the row
  has this replica's count with the request itself included, the decision had the count before it, plus the peers' counts.  So
  the two agree only when the fleet view is on and the peers have exactly one request in flight on that backend.  The digits
  of the floats are assumed to read back.
\<close>

theorem training_reads_log:
  assumes "chat_connected S c r up (commit r g0) = (hs, st, g1)" and "g_obs g = Some obs"
    and "g_obs (log_observation S wall (Some ms) st g) = Some obs'" and "\<forall>ob \<in> set obs'. obs_ok fl ob"
  shows "\<exists>row. load_observations (log_text fl obs') = Inr (map obs_features obs @ [row], map ob_ttft_ms obs @ [ms]) \<and>
    row = (asked S g0 r)[3 := of_int (dget (inflight (g_load g0)) (res_backend r) 0 + 1)] \<and>
    (row = asked S g0 r \<longleftrightarrow> g_fleet_on g0 \<and> peer_inflight (w_fleet (g_world g0)) (res_backend r) = 1)"
proof -
  let ?b = "res_backend r"
  let ?ob = "\<lparr>ob_ts = wall, ob_backend = ?b, ob_prompt_tokens = res_tokens r, ob_match = res_match r, ob_uncached = uncached_tokens S r,
    ob_inflight = dget (inflight (g_load g0)) ?b 0 + 1, ob_kv = dget (kv_usage (g_load g0)) ?b 0, ob_ttft_ms = ms, ob_mode = res_mode r\<rparr>"
  let ?row = "(asked S g0 r)[3 := of_int (dget (inflight (g_load g0)) ?b 0 + 1)]"
  have "st = \<lparr>st_chat = c, st_route = r, st_up = up, st_inflight = dget (inflight (g_load g0)) ?b 0 + 1, st_kv = dget (kv_usage (g_load g0)) ?b 0\<rparr>"
    using assms(1) by (auto simp: chat_connected_def commit_sel on_dispatch_def Let_def)
  then have "obs' = obs @ [?ob]" using assms(2,3) by (simp add: log_observation_def Let_def)
  moreover have "obs_features ?ob = ?row" by (simp add: obs_features_def asked_def features_for_def uncached_tokens_def Let_def)
  ultimately have "load_observations (log_text fl obs') = Inr (map obs_features obs @ [?row], map ob_ttft_ms obs @ [ms])"
    using load_log [OF assms(4)] by simp
  moreover have "?row = asked S g0 r \<longleftrightarrow> dget (inflight (g_load g0)) ?b 0 + 1 = eff_inflight (router_of S g0) ?b"
    unfolding asked_def by (rule features_inflight)
  moreover have "dget (inflight (g_load g0)) ?b 0 + 1 = eff_inflight (router_of S g0) ?b \<longleftrightarrow>
      g_fleet_on g0 \<and> peer_inflight (w_fleet (g_world g0)) ?b = 1"
    by (auto simp: eff_inflight_def router_of_def)
  ultimately show ?thesis by blast
qed

lemma half_reads: "float_ok (\<lambda>_. ''0.5'') (1 / 2)"
proof -
  have "p_value n (''0.5'' @ r) = Inr (JFloat (1 / 2), r)" if r: "num_end r" and n: "6 < n" for n r
  proof -
    obtain k where k: "n = Suc k" using n by (cases n) auto
    have "p_exp r = None" using r by (auto simp: p_exp_def num_end_def split: list.splits)
    then have "p_tail False 0 (''.5'' @ r) = (JFloat (1 / 2), r)"
      using num_end_stop [OF r] by (simp add: p_tail_def p_frac_def py_isdigit_def digits_val_def digit_val_def)
    then have "p_atom (''0.5'' @ r) = Inr (JFloat (1 / 2), r)" by (simp add: p_atom_def p_unsigned_def)
    then show ?thesis by (simp add: k)
  qed
  then show ?thesis by (simp add: float_ok_def reads_def good_start_def json_ws_def)
qed

text \<open>A single replica with no load: the decision asks with no request in flight, the row says one.\<close>

theorem training_reads_log_witness:
  "\<forall>g00 S0 c up. let g0 = (g00 :: unit gateway)\<lparr>g_fleet_on := False, g_obs := Some [], g_load := \<lparr>inflight = [], inflight_tokens = [], kv_usage = [(''b0'', 1 / 2)]\<rparr>\<rparr>;
     S = S0\<lparr>s_cfg := (s_cfg S0)\<lparr>Config.block_tokens := 16\<rparr>\<rparr>;
     r = \<lparr>res_backend = ''b0'', res_hashes = [], res_tokens = 100, res_match = 3, res_mode = CharMode\<rparr>;
     (hs, st, g1) = chat_connected S c r up (commit r g0) in
   \<exists>obs'. g_obs (log_observation S (1 / 2) (Some (1 / 2)) st g0) = Some obs' \<and>
     load_observations (log_text (\<lambda>_. ''0.5'') obs') = Inr ([features_for 100 3 16 1 (1 / 2) ''b0''], [1 / 2]) \<and>
     asked S g0 r = features_for 100 3 16 0 (1 / 2) ''b0''"
proof (intro allI)
  fix g00 :: "unit gateway" and S0 :: settings and c :: chat and up :: upstream
  define g0 where "g0 = g00\<lparr>g_fleet_on := False, g_obs := Some [], g_load := \<lparr>inflight = [], inflight_tokens = [], kv_usage = [(''b0'', 1 / 2)]\<rparr>\<rparr>"
  define S where "S = S0\<lparr>s_cfg := (s_cfg S0)\<lparr>Config.block_tokens := 16\<rparr>\<rparr>"
  define r where "r = \<lparr>res_backend = ''b0'', res_hashes = [], res_tokens = 100, res_match = 3, res_mode = CharMode\<rparr>"
  obtain hs st g1 where st: "chat_connected S c r up (commit r g0) = (hs, st, g1)" by (cases "chat_connected S c r up (commit r g0)")
  then have kv: "st_kv st = 1 / 2" by (auto simp: chat_connected_def commit_sel on_dispatch_def g0_def r_def dget_def Let_def)
  obtain obs' where obs: "g_obs (log_observation S (1 / 2) (Some (1 / 2)) st g0) = Some obs'" by (simp add: log_observation_def g0_def Let_def)
  have ok: "\<forall>ob \<in> set obs'. obs_ok (\<lambda>_. ''0.5'') ob"
    using obs half_reads kv by (auto simp: log_observation_def Let_def obs_ok_def g0_def)
  have "g_obs g0 = Some []" by (simp add: g0_def)
  from training_reads_log [OF st this obs ok]
  have "load_observations (log_text (\<lambda>_. ''0.5'') obs') =
      Inr ([(asked S g0 r)[3 := of_int (dget (inflight (g_load g0)) (res_backend r) 0 + 1)]], [1 / 2])" by simp
  moreover have a: "asked S g0 r = features_for 100 3 16 0 (1 / 2) ''b0''"
    by (simp add: asked_def g0_def S_def r_def eff_inflight_def router_of_def dget_def)
  moreover have "(features_for 100 3 16 0 (1 / 2) ''b0'')[3 := of_int (dget (inflight (g_load g0)) (res_backend r) 0 + 1)] =
      features_for 100 3 16 1 (1 / 2) ''b0''"
    by (simp add: features_for_def g0_def dget_def Let_def)
  ultimately have "load_observations (log_text (\<lambda>_. ''0.5'') obs') = Inr ([features_for 100 3 16 1 (1 / 2) ''b0''], [1 / 2])" by simp
  then show "let g0 = g00\<lparr>g_fleet_on := False, g_obs := Some [], g_load := \<lparr>inflight = [], inflight_tokens = [], kv_usage = [(''b0'', 1 / 2)]\<rparr>\<rparr>;
     S = S0\<lparr>s_cfg := (s_cfg S0)\<lparr>Config.block_tokens := 16\<rparr>\<rparr>;
     r = \<lparr>res_backend = ''b0'', res_hashes = [], res_tokens = 100, res_match = 3, res_mode = CharMode\<rparr>;
     (hs, st, g1) = chat_connected S c r up (commit r g0) in
   \<exists>obs'. g_obs (log_observation S (1 / 2) (Some (1 / 2)) st g0) = Some obs' \<and>
     load_observations (log_text (\<lambda>_. ''0.5'') obs') = Inr ([features_for 100 3 16 1 (1 / 2) ''b0''], [1 / 2]) \<and>
     asked S g0 r = features_for 100 3 16 0 (1 / 2) ''b0''"
    using obs a st unfolding Let_def g0_def [symmetric] S_def [symmetric] r_def [symmetric] by auto
qed

text \<open>
  Two lines the script does not handle as it means to: one without its label adds a row but no label, so that rows and labels no
  longer belong together; and one whose backend is not a string stops the script with \<open>AttributeError\<close>.
\<close>

lemma row_without_label:
  assumes "obs_ok fl ob"
  shows "load_line acc (object_text (filter (\<lambda>m. fst m \<noteq> ''observed_ttft_ms'') (obs_members fl ob))) = Inr (fst acc @ [obs_features ob], snd acc)"
proof -
  let ?ms = "filter (\<lambda>m. fst m \<noteq> ''observed_ttft_ms'') (obs_members fl ob)"
  have "json_loads (object_text ?ms) = Inr (JObj (map (\<lambda>(k, v, t). (k, v)) ?ms))"
    using obs_members_ok [OF assms] by (intro loads_object) (auto simp: obs_members_def Let_def)
  moreover have "object_text ?ms \<noteq> []" by (simp add: object_text_def)
  ultimately show ?thesis unfolding load_line_def Let_def object_strip
    by (simp add: obs_members_def Let_def obs_row_def json_item_def float_of_def idx_of_def obs_features_def row_error_def)
qed

lemma backend_not_a_string:
  assumes "obs_ok fl ob"
  shows "load_line acc (object_text (map (\<lambda>(k, v, t). if k = ''backend_id'' then (k, JInt 1, ''1'') else (k, v, t)) (obs_members fl ob))) = Inl AttributeError"
proof -
  let ?ms = "map (\<lambda>(k, v, t). if k = ''backend_id'' then (k, JInt 1, ''1'') else (k, v, t)) (obs_members fl ob)"
  have "show_int 1 = ''1''" by code_simp
  then have "reads (JInt 1) ''1''" using reads_leaf(1) [of 1] by simp
  then have "json_loads (object_text ?ms) = Inr (JObj (map (\<lambda>(k, v, t). (k, v)) ?ms))"
    using obs_members_ok [OF assms] by (intro loads_object) (auto simp: obs_members_def Let_def)
  moreover have "object_text ?ms \<noteq> []" by (simp add: object_text_def)
  ultimately show ?thesis unfolding load_line_def Let_def object_strip
    by (simp add: obs_members_def Let_def obs_row_def json_item_def float_of_def idx_of_def row_error_def)
qed

end
