(* ===== verification/Config_Text.thy ===== *)
theory Config_Text
  imports Config Json
begin

section \<open>Settings as they are written\<close>

text \<open>
  What an operator may write for a setting, as a grammar independent of the readers in \<open>Config\<close>, and that \<open>from_env\<close> reads it as
  what it denotes.
\<close>

definition blanks :: "string \<Rightarrow> bool" where
  "blanks s \<longleftrightarrow> set s \<subseteq> {CHR '' '', CHR 0x09, CHR 0x0A}"

definition all_digits :: "string \<Rightarrow> bool" where
  "all_digits s \<longleftrightarrow> s \<noteq> [] \<and> (\<forall>c \<in> set s. py_isdigit c)"

inductive sign_text :: "string \<Rightarrow> int \<Rightarrow> bool" where
  "sign_text [] 1"
| "sign_text ''+'' 1"
| "sign_text ''-'' (- 1)"

inductive frac_text :: "string \<Rightarrow> pyfloat \<Rightarrow> bool" where
  "frac_text [] 0"
| "frac_text ''.'' 0"
| "all_digits fs \<Longrightarrow> frac_text (CHR ''.'' # fs) (of_nat (digits_val fs) / 10 ^ length fs)"

inductive exp_text :: "string \<Rightarrow> pyfloat \<Rightarrow> bool" where
  "exp_text [] 1"
| "e \<in> {CHR ''e'', CHR ''E''} \<Longrightarrow> sg \<in> {[], ''+''} \<Longrightarrow> all_digits es \<Longrightarrow> exp_text (e # sg @ es) (10 ^ digits_val es)"
| "e \<in> {CHR ''e'', CHR ''E''} \<Longrightarrow> all_digits es \<Longrightarrow> exp_text (e # CHR ''-'' # es) (1 / 10 ^ digits_val es)"

inductive written :: "string \<Rightarrow> cfg_value \<Rightarrow> bool" where
  yes: "s \<in> {''1'', ''true'', ''True'', ''TRUE'', ''yes'', ''Yes'', ''YES''} \<Longrightarrow> written s (CBool True)"
| no: "s \<in> {[], ''0'', ''false'', ''False'', ''FALSE'', ''no'', ''No'', ''NO'', ''off''} \<Longrightarrow> written s (CBool False)"
| int: "blanks l \<Longrightarrow> blanks r \<Longrightarrow> sign_text st sg \<Longrightarrow> all_digits ds \<Longrightarrow>
    written (l @ st @ ds @ r) (CInt (sg * int (digits_val ds)))"
| float: "blanks l \<Longrightarrow> blanks r \<Longrightarrow> sign_text st sg \<Longrightarrow> all_digits ds \<Longrightarrow> frac_text ft f \<Longrightarrow> exp_text et e \<Longrightarrow>
    x = of_int sg * (of_nat (digits_val ds) + f) * e \<Longrightarrow> \<bar>x\<bar> < float_limit \<Longrightarrow>
    written (l @ st @ ds @ ft @ et @ r) (CFloat (FloatFin x))"
| string: "written s (CStr s)"


subsection \<open>The readers\<close>

lemma digits_loop_all:
  "\<forall>c \<in> set ds. py_isdigit c \<Longrightarrow> digits_loop ds True (v, n) = Some (foldl (\<lambda>v c. 10 * v + digit_val c) v ds, n + length ds)"
  by (induction ds arbitrary: v n) auto

lemma parse_digits_all: "all_digits ds \<Longrightarrow> parse_digits ds = Some (digits_val ds, length ds)"
  by (cases ds) (auto simp: all_digits_def parse_digits_def digits_loop_all digits_val_def)

lemma digit_plain:
  assumes "py_isdigit c"
  shows "\<not> num_space c" "c \<noteq> CHR ''-''" "c \<noteq> CHR ''+''" "c \<noteq> CHR ''e''" "c \<noteq> CHR ''.''" "py_lower_char c = c"
  using assms by (auto simp: py_isdigit_def num_space_def py_lower_char_def Let_def)

lemma digits_no: "all_digits ds \<Longrightarrow> CHR ''e'' \<notin> set ds" "all_digits ds \<Longrightarrow> CHR ''.'' \<notin> set ds"
  by (auto simp: all_digits_def py_isdigit_def)

lemma digits_lower: "all_digits ds \<Longrightarrow> py_lower ds = ds"
  using digit_plain(6) by (simp add: py_lower_def all_digits_def map_idI)

lemma blanks_space: "blanks s \<Longrightarrow> \<forall>c \<in> set s. num_space c"
  by (auto simp: blanks_def num_space_def)

lemma num_strip_mid:
  assumes "blanks l" "blanks r" "\<forall>c \<in> set m. \<not> num_space c" "m \<noteq> []"
  shows "num_strip (l @ m @ r) = m"
proof -
  have 1: "dropWhile num_space (l @ m @ r) = m @ r"
    using blanks_space [OF assms(1)] assms(3,4) by (subst dropWhile_append2) (auto simp: dropWhile_append3 neq_Nil_conv)
  have "dropWhile num_space (rev (m @ r)) = rev m"
    using blanks_space [OF assms(2)] assms(3) dropWhile_append2 [of "rev r" num_space "rev m"] dropWhile_none [of "rev m" num_space] by simp
  then show ?thesis by (simp add: num_strip_def 1)
qed

lemma sign_plain: "sign_text st sg \<Longrightarrow> (\<forall>c \<in> set st. \<not> num_space c) \<and> py_lower st = st"
  by (auto elim!: sign_text.cases simp: num_space_def py_lower_def py_lower_char_def)

lemma split_sign_text:
  assumes "sign_text st sg" "all_digits ds"
  shows "split_sign (st @ ds @ rest) = (sg, ds @ rest)"
proof -
  obtain c cs where ds: "ds = c # cs" "py_isdigit c" using assms(2) by (cases ds) (auto simp: all_digits_def)
  then have "c \<noteq> CHR ''-''" "c \<noteq> CHR ''+''" using digit_plain by auto
  then show ?thesis using assms(1) ds(1) by (auto elim!: sign_text.cases simp: split_sign_def)
qed

lemma py_int_written:
  assumes "blanks l" "blanks r" "sign_text st sg" "all_digits ds"
  shows "py_int (l @ st @ ds @ r) = Inr (sg * int (digits_val ds))"
proof -
  have "num_strip (l @ (st @ ds) @ r) = st @ ds"
    using assms sign_plain [OF assms(3)] digit_plain(1) by (intro num_strip_mid) (auto simp: all_digits_def)
  then show ?thesis using split_sign_text [OF assms(3,4), of "[]"] parse_digits_all [OF assms(4)] by (simp add: py_int_def)
qed

lemma parse_mantissa_written:
  assumes "all_digits ds" "frac_text ft f"
  shows "parse_mantissa (ds @ ft) = Some (of_nat (digits_val ds) + f)"
proof -
  have g: "parse_group ds = Some (digits_val ds, length ds)" "length ds \<noteq> 0"
    using parse_digits_all [OF assms(1)] assms(1) by (auto simp: parse_group_def all_digits_def)
  from assms(2) show ?thesis
  proof cases
    case 1
    then show ?thesis using g py_partition_plain [OF digits_no(2) [OF assms(1)]] by (simp add: parse_mantissa_def parse_group_def)
  next
    case 2
    then show ?thesis using g py_partition_found [OF digits_no(2) [OF assms(1)], of "[]"] by (simp add: parse_mantissa_def parse_group_def)
  next
    case (3 fs)
    have "parse_group fs = Some (digits_val fs, length fs)" using parse_digits_all [OF 3(3)] 3(3) by (simp add: parse_group_def all_digits_def)
    then show ?thesis using 3 g py_partition_found [OF digits_no(2) [OF assms(1)], of fs]
      by (simp add: parse_mantissa_def ten_pow_def divide_inverse)
  qed
qed

lemma frac_plain:
  assumes "frac_text ft f"
  shows "CHR ''e'' \<notin> set ft \<and> py_lower ft = ft \<and> (\<forall>c \<in> set ft. \<not> num_space c)"
  using assms
proof cases
  case (3 fs)
  then show ?thesis using digits_no(1) digits_lower digit_plain(1) by (auto simp: all_digits_def num_space_def py_lower_def py_lower_char_def)
qed (auto simp: py_lower_def py_lower_char_def num_space_def)

text \<open>The exponent after lowering: absent, or the letter \<open>e\<close> and an integer.\<close>

lemma lower_E: "py_lower_char (CHR ''E'') = CHR ''e''" "py_lower_char (CHR ''e'') = CHR ''e''" "py_lower_char (CHR ''-'') = CHR ''-''"
  "py_lower_char (CHR ''+'') = CHR ''+''"
  by code_simp+

lemma lower_words:
  "py_lower ''True'' = ''true''" "py_lower ''TRUE'' = ''true''" "py_lower ''Yes'' = ''yes''" "py_lower ''YES'' = ''yes''"
  "py_lower ''true'' = ''true''" "py_lower ''yes'' = ''yes''" "py_lower ''1'' = ''1''" "py_lower ''0'' = ''0''" "py_lower [] = []"
  "py_lower ''False'' = ''false''" "py_lower ''FALSE'' = ''false''" "py_lower ''false'' = ''false''" "py_lower ''off'' = ''off''"
  "py_lower ''No'' = ''no''" "py_lower ''NO'' = ''no''" "py_lower ''no'' = ''no''"
  by code_simp+

lemma exp_split:
  assumes "exp_text et e"
  obtains "et = []" "e = 1"
  | body x where "py_lower et = CHR ''e'' # body" "parse_exponent body = Some x" "ten_pow x = e"
proof -
  from assms show thesis
  proof cases
    case 1
    then show thesis using that(1) by blast
  next
    case (2 c sg es)
    have "sign_text sg 1" using 2(4) by (auto intro: sign_text.intros)
    then have "parse_exponent (sg @ es) = Some (int (digits_val es))"
      using split_sign_text [of sg 1 es "[]"] parse_digits_all [OF 2(5)] 2(5) by (simp add: parse_exponent_def)
    moreover have "py_lower et = CHR ''e'' # sg @ es"
      using 2 digits_lower [OF 2(5)] by (auto simp: py_lower_def lower_E)
    ultimately show thesis using 2(2) by (intro that(2) [of "sg @ es" "int (digits_val es)"]) (simp_all add: ten_pow_def)
  next
    case (3 c es)
    have "parse_exponent (''-'' @ es) = Some (- int (digits_val es))"
      using split_sign_text [of "''-''" "- 1" es "[]"] parse_digits_all [OF 3(4)] 3(4) by (simp add: parse_exponent_def sign_text.intros)
    moreover have "py_lower et = CHR ''e'' # ''-'' @ es"
      using 3 digits_lower [OF 3(4)] by (auto simp: py_lower_def lower_E)
    ultimately show thesis using 3(2) by (intro that(2) [of "''-'' @ es" "- int (digits_val es)"]) (simp_all add: ten_pow_def)
  qed
qed

lemma exp_plain: "exp_text et e \<Longrightarrow> \<forall>c \<in> set et. \<not> num_space c"
  using digit_plain(1) by (auto elim!: exp_text.cases simp: all_digits_def num_space_def)

lemma py_float_written:
  assumes "blanks l" "blanks r" "sign_text st sg" "all_digits ds" "frac_text ft f" "exp_text et e"
  shows "py_float (l @ st @ ds @ ft @ et @ r) = Inr (clip_float (of_int sg * (of_nat (digits_val ds) + f) * e))"
proof -
  have "num_strip (l @ (st @ ds @ ft @ et) @ r) = st @ ds @ ft @ et"
    using assms(1,2,4) sign_plain [OF assms(3)] frac_plain [OF assms(5)] exp_plain [OF assms(6)] digit_plain(1)
    by (intro num_strip_mid) (auto simp: all_digits_def)
  moreover have "py_lower (st @ ds @ ft @ et) = st @ ds @ ft @ py_lower et"
    using sign_plain [OF assms(3)] digits_lower [OF assms(4)] frac_plain [OF assms(5)] by (simp add: py_lower_def)
  ultimately have body: "split_sign (py_lower (num_strip (l @ st @ ds @ ft @ et @ r))) = (sg, ds @ ft @ py_lower et)"
    using split_sign_text [OF assms(3,4)] by simp
  obtain c cs where c: "ds = c # cs" "py_isdigit c" using assms(4) by (cases ds) (auto simp: all_digits_def)
  then have word: "ds @ rest \<noteq> ''inf''" "ds @ rest \<noteq> ''infinity''" "ds @ rest \<noteq> ''nan''" for rest by (auto simp: py_isdigit_def)
  note m = parse_mantissa_written [OF assms(4,5)]
  have ne: "CHR ''e'' \<notin> set (ds @ ft)" using digits_no(1) [OF assms(4)] frac_plain [OF assms(5)] by simp
  from assms(6) show ?thesis
  proof (cases rule: exp_split)
    case 1
    then show ?thesis using body word m py_partition_plain [OF ne] by (simp add: py_float_def py_lower_def ten_pow_def)
  next
    case (2 b x)
    then show ?thesis using body word m py_partition_found [OF ne, of b] by (simp add: py_float_def)
  qed
qed

lemma read_written:
  assumes "written s v" "same_type cur v"
  shows "read_field cur s = Inr v"
  using assms
proof (induction rule: written.induct)
  case yes
  then show ?case by (cases cur) (auto simp: lower_words)
next
  case no
  then show ?case by (cases cur) (auto simp: lower_words)
next
  case int
  then show ?case by (cases cur) (simp_all add: py_int_written)
next
  case float
  then show ?case by (cases cur) (simp_all add: py_float_written clip_float_def)
next
  case string
  then show ?case by (cases cur) simp_all
qed

text \<open>
  C39. Settings mean what they say: whenever every variable that is set holds a text that denotes a value of the type of its
  field (a spelling of a truth value, a signed decimal integer or decimal fraction with an optional exponent, blanks around them, or any
  string), loading a configuration class succeeds with exactly those values, and with the default of every field whose variable is not set.
\<close>

theorem settings_read_back:
  assumes "list_all2 (\<lambda>(f, cur) (f', v). f' = f \<and> same_type cur v \<and>
     (case env (pre @ map py_upper_char f) of None \<Rightarrow> v = cur | Some s \<Rightarrow> written s v)) defs d"
  shows "from_env pre env defs = Inr d"
  unfolding from_env_iff using assms
  by (rule list_all2_mono) (auto simp: field_value_def read_written split: option.splits)

theorem settings_read_back_witness:
  "from_env ''GW_'' [''GW_WFQ_ENABLED'' \<mapsto> ''True'', ''GW_MAX_INFLIGHT'' \<mapsto> '' -12'', ''GW_HYSTERESIS_MS'' \<mapsto> ''2.50e1'']
     [(''wfq_enabled'', CBool False), (''max_inflight'', CInt 64), (''hysteresis_ms'', CRat 5), (''backends'', CStr ''a'')] =
   Inr [(''wfq_enabled'', CBool True), (''max_inflight'', CInt (- 12)), (''hysteresis_ms'', CRat 25), (''backends'', CStr ''a'')]"
proof -
  have up: "map py_upper_char ''wfq_enabled'' = ''WFQ_ENABLED''" "map py_upper_char ''max_inflight'' = ''MAX_INFLIGHT''"
    "map py_upper_char ''hysteresis_ms'' = ''HYSTERESIS_MS''" "map py_upper_char ''backends'' = ''BACKENDS''" by code_simp+
  have d: "all_digits ''12''" "all_digits ''2''" "all_digits ''50''" "all_digits ''1''"
    "digits_val ''12'' = 12" "digits_val ''2'' = 2" "digits_val ''50'' = 50" "digits_val ''1'' = 1" "blanks '' ''" "blanks []" by code_simp+
  have "written ''True'' (CBool True)" by (rule written.yes) simp
  moreover have "written '' -12'' (CInt (- 12))" using written.int [OF d(9,10) sign_text.intros(3) d(1)] d(5) by simp
  moreover have "written ''2.50e1'' (CRat 25)"
    using written.float [OF d(10,10) sign_text.intros(1) d(2) frac_text.intros(3) [OF d(3)] exp_text.intros(2) [of "CHR ''e''" "[]", OF _ _ d(4)], of 25] d(6-8)
    by (simp add: float_limit_def)
  ultimately show ?thesis by (intro settings_read_back) (simp del: list.map add: up)
qed

end
