(* ===== verification/Spec2Isabelle.thy ===== *)
theory Spec2Isabelle
  imports Radix_Tree Circuit Load_Tracker Backends Router Speculative Fair_Sched Tenancy Lww_State Rag Multimodal
    Session_Affinity Auth Admission Autoscale Dag_Sched Disagg Semantic_Cache Metrics
    Bench_Dag Training Config_Text
begin

section \<open>A verified model of an inference gateway\<close>

text \<open>
  The program is a gateway in front of a fleet of language-model servers (\<^verbatim>\<open>src/gateway\<close>).  A chat request is authenticated,
  charged to its tenant, matched against what every backend is believed to have cached, queued fairly, sent to the
  cheapest backend, retried elsewhere when that one is unreachable, and streamed back.  Replicas of the gateway exchange what they
  know.  \<^verbatim>\<open>src/mock_backend\<close> is a backend for tests, \<^verbatim>\<open>src/bench\<close> measures the routing against simulated backends.

  \<^bold>\<open>Theories and sources.\<close>

  \<^item> \<open>Gw_Prelude\<close>, \<open>Lru\<close>, \<open>Json\<close>: what is used of Python (exceptions, dictionaries in insertion order, string methods, the
    \<open>json\<close> module) and the least-recently-used idiom, with the contract \<open>lru_index\<close> of the per-backend indexes.
  \<^item> \<open>Config\<close> (\<^verbatim>\<open>config.py\<close> and the \<open>from_env\<close> of every configuration class), \<open>Config_Text\<close> (a grammar of
    what may be written for a setting), \<open>Hashing\<close> (\<^verbatim>\<open>hashing.py\<close>,
    \<^verbatim>\<open>extensions/bpe_hashing.py\<close>), \<open>Metrics\<close> (\<^verbatim>\<open>metrics.py\<close>), \<open>Auth\<close> (\<^verbatim>\<open>auth.py\<close>, with SHA-256 as a function).
  \<^item> \<open>Radix_Tree\<close> (\<^verbatim>\<open>radix_tree.py\<close>): the path-compressed prefix tree with holders and eviction.  The locale \<open>prefix_index\<close>
    is the abstract index (a set of held prefixes per backend); its interpretation \<open>rt\<close> is the refinement the router,
    the scheduler of DAGs and the simulations rest on.
  \<^item> \<open>Circuit\<close>, \<open>Load_Tracker\<close>, \<open>Backends\<close> (with \<^verbatim>\<open>extensions/lora.py\<close>), \<open>Fleet\<close>, \<open>Router\<close> (with
    \<^verbatim>\<open>extensions/ttft_predictor.py\<close>), \<open>Speculative\<close>: who is a candidate, what it would cost, who is chosen.
  \<^item> \<open>Tenancy\<close>, \<open>Admission\<close>, \<open>Fair_Queue\<close>, \<open>Fair_Sched\<close>: quotas, shedding and the order of dispatch.
  \<^item> \<open>Session_Affinity\<close>, \<open>Semantic_Cache\<close>, \<open>Rag\<close>, \<open>Multimodal\<close>, \<open>Disagg\<close>, \<open>Autoscale\<close>, \<open>Dag_Graph\<close>, \<open>Dag_Sched\<close>: the
    optional stages, one subpackage or module each.
  \<^item> \<open>Events\<close>, \<open>Lww_State\<close>, \<open>Cluster_Bus\<close>, \<open>Coordinator\<close> (\<^verbatim>\<open>cluster/\<close>): replication.  The locale \<open>lww\<close> is the contract of a
    last-writer-wins map, interpreted for drains and for memberships.
  \<^item> \<open>Gateway\<close>, \<open>Chat\<close> (\<^verbatim>\<open>server.py\<close>): the state of the server, its start, its loops, every endpoint, and the chat handler cut into
    the spans between its awaits.  \<open>Chat_Runs\<close> interleaves any number of requests with loops and control endpoints as the
    step relation \<open>gw_run\<close>; \<open>Chat_Props\<close> has the properties of single handlers.
  \<^item> \<open>Mock_Backend\<close> (\<^verbatim>\<open>mock_backend/app.py\<close>), \<open>Bench_Sim\<close> (\<^verbatim>\<open>bench/matrix.py\<close>, \<^verbatim>\<open>sim.py\<close>, \<^verbatim>\<open>cluster_bench.py\<close>,
    \<^verbatim>\<open>agentic_bench.py\<close>): the other end of the wire and the measuring loops.
  \<^item> \<open>Bench_Fair\<close> (\<^verbatim>\<open>bench/fairness_sim.py\<close>, \<^verbatim>\<open>fairqueue_bench.py\<close>), \<open>Bench_Policy\<close> (\<^verbatim>\<open>disagg_bench.py\<close>,
    \<^verbatim>\<open>admission_bench.py\<close>): what the policies do under the simulated load.  \<open>Bench_Index\<close> (\<^verbatim>\<open>rag_bench.py\<close>,
    \<^verbatim>\<open>multimodal_bench.py\<close>; the locale \<open>window_bench\<close> is the contract of their loop), \<open>Bench_Dag\<close> (\<^verbatim>\<open>dag_bench.py\<close>):
    what the affinity routers and the scheduler of DAGs do with generated workloads.  \<open>Training\<close>
    (\<^verbatim>\<open>scripts/train_ttft_model.py\<close>): the observation log as the training script reads it.

  \<^bold>\<open>State and operations.\<close>  A class is a record with its fields, a method a function from the record (and its arguments) to the
  result and the record after it; module variables of the server are the record \<open>gateway\<close>.  An exception is a value of \<open>Inl\<close>; where
  the code has already changed something when it raises, the changed state is returned with it.  Clock readings are arguments.

  \<^bold>\<open>What is shown.\<close>  Of the data structures: what the tree, the queue, the maps and the caches hold after any history, that they
  respect their bounds, and that the tree implements the abstract index.  Of the decisions: that routing, disaggregation,
  admission, scaling, RAG and multi-modal placement choose what their cost model says, among the candidates allowed.  Of the
  concurrency: that in every reachable state the tenants' in-flight quotas, the backends' loads and the scheduler's slots are
  accounted for by the requests under way, that a slot is never lost and fair shares are kept, and that replicas which
  have seen the same events agree in whatever order they came.  Of the composition: that failover reaches a backend that answers, that
  gateway and backend compute the same hashes for a prompt, that the tree's prediction is the backend's hit count while nothing was evicted,
  that what is billed is what was generated up to the event markers the transport cuts, that a fleet sharing its state is one
  gateway, which features the latency model is trained on and how they differ from those it is asked with.  Some properties
  state defects: what a batch of events loses, which route ignores the candidates, which answers are replayed.

  \<^bold>\<open>Choices.\<close>  Floating point numbers are exact rationals (with infinity where the code produces it), so rounding is not modelled;
  block hashes and the token ids are machine words with wrap-around.  Strings are lists of code points below 256.  Packages outside the
  repository (tokenizer, joblib model, embedding model, Redis, HTTP client), the digits of a float, the order of a
  set, random draws and square roots are parameters, arbitrary unless a hypothesis names what is used of them.  The one budget
  is that of the JSON parser, set from the length of the text and shown never to run out; every other recursion is
  structural or has a measure.

  \<^bold>\<open>Not modelled.\<close>  Logging and tracing, the HTTP framework and the creation and cancelling of background tasks; the
  fitting of the latency model; of the benchmarks, the sweeps, tables, charts and command lines, and
  the drivers that time a running server; the demo scripts; the Rust port.
\<close>

end
